(* ===== verification/Prelude.thy ===== *)
theory Prelude
  imports Main "HOL-Library.AList" "HOL-Library.Word" "HOL-Library.Sublist"
begin

text \<open>
  Shared vocabulary of the development: the machine types of the C++ code, the values that
  exceptions, failed assertions and undefined behaviour take in the model, the sequencing of
  fallible steps, and the lemmas on association lists, words and lists that every component uses.

  \<^item> \<open>VertexId\<close> and \<open>BlockId\<close> are \<^verbatim>\<open>uint64_t\<close>, so they are 64-bit words.
  \<^item> An unordered container (\<^verbatim>\<open>std::unordered_map\<close>, \<^verbatim>\<open>std::unordered_set\<close>) is a list whose
    order stands for the iteration order, which the C++ standard leaves open. New keys go to the end.
    Statements quantify over arbitrary lists, that is over arbitrary iteration orders of the input.
  \<^item> A fallible operation returns \<open>error + 'a\<close>: \<open>Inl\<close> carries the exception, the failed
    assertion (the build does not define \<^verbatim>\<open>NDEBUG\<close>) or the undefined behaviour the code runs into.
\<close>

named_theorems codec_simps \<open>the value a reader returns on the bytes a writer produced\<close>
named_theorems size_simps \<open>byte counts of serialised values\<close>

section \<open>Machine types and errors\<close>

type_synonym byte = "8 word"
type_synonym vertexId = "64 word"
type_synonym blockId = "64 word"
type_synonym size_t = "64 word"

datatype error =
    VertexAlreadyExists vertexId
  | VertexNotFound vertexId
  | BlockAlreadyExists blockId
  | BlockNotFound blockId
  | AttributeNotFound string
  | PartitionNotFound "64 word"
  | PartitionReplacement string
  | RuntimeError string
  | OutOfRange
  | BadGet
  | AssertionFailed
  | UndefinedBehavior

type_synonym 'a result = "error + 'a"

definition rbind :: "'a result \<Rightarrow> ('a \<Rightarrow> 'b result) \<Rightarrow> 'b result" where
  "rbind m f = (case m of Inl e \<Rightarrow> Inl e | Inr x \<Rightarrow> f x)"

definition assert_that :: "bool \<Rightarrow> unit result" where
  "assert_that b = (if b then Inr () else Inl AssertionFailed)"

definition deref :: "'a option \<Rightarrow> 'a result" where
  "deref x = (case x of None \<Rightarrow> Inl UndefinedBehavior | Some v \<Rightarrow> Inr v)"

definition vec_at :: "'a list \<Rightarrow> nat \<Rightarrow> 'a result" where
  "vec_at xs i = (if i < length xs then Inr (xs ! i) else Inl OutOfRange)"

definition vec_index :: "'a list \<Rightarrow> nat \<Rightarrow> 'a result" where
  "vec_index xs i = (if i < length xs then Inr (xs ! i) else Inl UndefinedBehavior)"

text \<open>A range-based \<^verbatim>\<open>for\<close> loop whose body may fail, over the loop-carried state.\<close>

fun for_each :: "('a \<Rightarrow> 's \<Rightarrow> 's result) \<Rightarrow> 'a list \<Rightarrow> 's \<Rightarrow> 's result" where
  "for_each f [] s = Inr s"
| "for_each f (x # xs) s = rbind (f x s) (for_each f xs)"

section \<open>Unordered containers\<close>

type_synonym ('k, 'v) umap = "('k \<times> 'v) list"

abbreviation um_find :: "('k, 'v) umap \<Rightarrow> 'k \<Rightarrow> 'v option" where
  "um_find m k \<equiv> map_of m k"

definition um_count :: "('k, 'v) umap \<Rightarrow> 'k \<Rightarrow> bool" where
  "um_count m k = (map_of m k \<noteq> None)"

text \<open>\<open>m[k] = v\<close> assigns in place or inserts; \<open>emplace\<close> leaves an existing key alone.\<close>

definition um_put :: "'k \<Rightarrow> 'v \<Rightarrow> ('k, 'v) umap \<Rightarrow> ('k, 'v) umap" where
  "um_put k v m = AList.update k v m"

definition um_emplace :: "'k \<Rightarrow> 'v \<Rightarrow> ('k, 'v) umap \<Rightarrow> ('k, 'v) umap" where
  "um_emplace k v m = (if um_count m k then m else m @ [(k, v)])"

definition um_erase :: "'k \<Rightarrow> ('k, 'v) umap \<Rightarrow> ('k, 'v) umap" where
  "um_erase k m = AList.delete k m"

abbreviation um_keys :: "('k, 'v) umap \<Rightarrow> 'k list" where
  "um_keys m \<equiv> map fst m"

abbreviation um_ok :: "('k, 'v) umap \<Rightarrow> bool" where
  "um_ok m \<equiv> distinct (map fst m)"

definition us_insert :: "'a \<Rightarrow> 'a list \<Rightarrow> 'a list" where
  "us_insert x s = (if x \<in> set s then s else s @ [x])"

definition us_erase :: "'a \<Rightarrow> 'a list \<Rightarrow> 'a list" where
  "us_erase x s = filter (\<lambda>y. y \<noteq> x) s"

section \<open>Sequencing fallible steps\<close>

lemma rbind_simps [simp]:
  "rbind (Inl e) f = Inl e"
  "rbind (Inr x) f = f x"
  by (simp_all add: rbind_def)

lemma rbind_Inr_iff: "rbind m f = Inr y \<longleftrightarrow> (\<exists>x. m = Inr x \<and> f x = Inr y)"
  by (cases m) auto

lemma rbindE: "rbind m f = Inr y \<Longrightarrow> (\<And>x. m = Inr x \<Longrightarrow> f x = Inr y \<Longrightarrow> P) \<Longrightarrow> P"
  by (auto simp: rbind_Inr_iff)

lemma rbind_pairE: "rbind m (case_prod f) = Inr y \<Longrightarrow> (\<And>a b. m = Inr (a, b) \<Longrightarrow> f a b = Inr y \<Longrightarrow> P) \<Longrightarrow> P"
  by (auto simp: rbind_Inr_iff)

lemma rbind_Inl_iff: "rbind m f = Inl e \<longleftrightarrow> m = Inl e \<or> (\<exists>x. m = Inr x \<and> f x = Inl e)"
  by (cases m) auto

lemma rbind_assoc: "rbind (rbind m f) g = rbind m (\<lambda>x. rbind (f x) g)"
  by (cases m) auto

lemma rbind_cong [fundef_cong]: "m = m' \<Longrightarrow> (\<And>x. m' = Inr x \<Longrightarrow> f x = g x) \<Longrightarrow> rbind m f = rbind m' g"
  by (cases m') auto

lemma rbind_Inr_self [simp]: "rbind m Inr = m"
  by (cases m) auto

lemma assert_that_Inr_iff [simp]: "assert_that b = Inr u \<longleftrightarrow> b"
  by (simp add: assert_that_def)

lemma assert_that_simps [simp]:
  "assert_that True = Inr ()"
  "assert_that False = Inl AssertionFailed"
  by (simp_all add: assert_that_def)

lemma deref_simps [simp]:
  "deref (Some v) = Inr v"
  "deref None = Inl UndefinedBehavior"
  by (simp_all add: deref_def)

lemma deref_Inr_iff [simp]: "deref x = Inr v \<longleftrightarrow> x = Some v"
  by (cases x) auto

lemma vec_at_Inr_iff [simp]: "vec_at xs i = Inr v \<longleftrightarrow> i < length xs \<and> v = xs ! i"
  by (auto simp: vec_at_def)

lemma vec_index_Inr_iff [simp]: "vec_index xs i = Inr v \<longleftrightarrow> i < length xs \<and> v = xs ! i"
  by (auto simp: vec_index_def)

lemma for_each_append: "for_each f (xs @ ys) s = rbind (for_each f xs s) (for_each f ys)"
  by (induction xs arbitrary: s) (auto simp: rbind_assoc fun_eq_iff intro!: rbind_cong)

lemma for_each_invariant:
  assumes "for_each f xs s = Inr t" and "P s"
    and "\<And>x s t. x \<in> set xs \<Longrightarrow> P s \<Longrightarrow> f x s = Inr t \<Longrightarrow> P t"
  shows "P t"
  using assms
proof (induction xs arbitrary: s)
  case Nil
  then show ?case by simp
next
  case (Cons x xs)
  then obtain s' where "f x s = Inr s'" and rest: "for_each f xs s' = Inr t"
    by (auto simp: rbind_Inr_iff)
  with Cons.prems have "P s'" by auto
  with rest Cons.prems(3) show ?case by (auto intro: Cons.IH)
qed

text \<open>A loop whose body cannot fail, makes progress along \<open>le\<close> and establishes \<open>Q x\<close> for each element.\<close>

lemma for_each_total:
  assumes step: "\<And>x s. x \<in> set xs \<Longrightarrow> P s \<Longrightarrow> \<exists>t. f x s = Inr t \<and> P t \<and> le s t \<and> Q x t"
    and refl: "\<And>s. le s s" and trans: "\<And>s t u. le s t \<Longrightarrow> le t u \<Longrightarrow> le s u"
    and keep: "\<And>x s t. x \<in> set xs \<Longrightarrow> Q x s \<Longrightarrow> le s t \<Longrightarrow> Q x t" and "P s"
  shows "\<exists>t. for_each f xs s = Inr t \<and> P t \<and> le s t \<and> (\<forall>x \<in> set xs. Q x t)"
  using step keep \<open>P s\<close>
proof (induction xs arbitrary: s)
  case Nil
  then show ?case using refl by simp
next
  case (Cons x xs)
  obtain t where t: "f x s = Inr t" "P t" "le s t" "Q x t" using Cons.prems(1) [of x s] Cons.prems(3) by auto
  have "\<exists>u. for_each f xs t = Inr u \<and> P u \<and> le t u \<and> (\<forall>y \<in> set xs. Q y u)"
  proof (rule Cons.IH)
    show "\<exists>t. f y s = Inr t \<and> P t \<and> le s t \<and> Q y t" if "y \<in> set xs" "P s" for y s using Cons.prems(1) [of y s] that by simp
    show "Q y t" if "y \<in> set xs" "Q y s" "le s t" for y s t using Cons.prems(2) [of y s t] that by simp
  qed (rule t(2))
  then obtain u where u: "for_each f xs t = Inr u" "P u" "le t u" "\<forall>y \<in> set xs. Q y u" by blast
  have "Q x u" using Cons.prems(2) [of x t u] t(4) u(3) by simp
  then show ?case using t u trans [OF t(3) u(3)] by auto
qed

lemma for_each_pure: "(\<And>x s. x \<in> set xs \<Longrightarrow> f x s = Inr (g x s)) \<Longrightarrow> for_each f xs s = Inr (fold g xs s)"
  by (induction xs arbitrary: s) auto

lemma for_each_map: "for_each f (map g xs) s = for_each (f \<circ> g) xs s"
  by (induction xs arbitrary: s) (auto intro!: rbind_cong)

lemma for_each_concat: "for_each f (concat xss) s = for_each (\<lambda>xs. for_each f xs) xss s"
  by (induction xss arbitrary: s) (auto simp: for_each_append intro!: rbind_cong)

section \<open>Lemmas on unordered containers\<close>

lemma um_put_find [simp]: "map_of (um_put k v m) = (map_of m)(k \<mapsto> v)"
  by (simp add: um_put_def update_conv')

lemma um_erase_find [simp]: "map_of (um_erase k m) = (map_of m)(k := None)"
  by (simp add: um_erase_def delete_conv')

lemma um_put_ok [simp]: "um_ok m \<Longrightarrow> um_ok (um_put k v m)"
  by (simp add: um_put_def distinct_update)

lemma um_erase_ok [simp]: "um_ok m \<Longrightarrow> um_ok (um_erase k m)"
  by (simp add: um_erase_def distinct_delete)

lemma um_count_iff: "um_count m k \<longleftrightarrow> k \<in> fst ` set m"
  by (simp add: um_count_def dom_map_of_conv_image_fst [symmetric] domIff)

lemma um_emplace_ok [simp]: "um_ok m \<Longrightarrow> um_ok (um_emplace k v m)"
  by (auto simp: um_emplace_def um_count_iff)

lemma um_emplace_find: "map_of (um_emplace k v m) k' =
    (if k' = k \<and> map_of m k = None then Some v else map_of m k')"
  by (auto simp: um_emplace_def um_count_def map_add_def split: option.splits)

lemma um_put_new: "k \<notin> set (um_keys m) \<Longrightarrow> um_put k v m = m @ [(k, v)]"
  unfolding um_put_def by (induction m) auto

lemma um_put_keys: "um_keys (um_put k v m) = (if k \<in> set (um_keys m) then um_keys m else um_keys m @ [k])"
  by (simp add: um_put_def update_keys)

lemma um_put_last: "k \<notin> set (um_keys m) \<Longrightarrow> um_put k v (m @ [(k, w)]) = m @ [(k, v)]"
  unfolding um_put_def by (induction m) auto

lemma um_put_mid: "k \<notin> set (um_keys m) \<Longrightarrow> um_put k v (m @ (k, w) # m') = m @ (k, v) # m'"
  unfolding um_put_def by (induction m) auto

lemma fold_um_put_overwrite_aux:
  "um_keys old = um_keys new \<Longrightarrow> um_ok (pre @ new) \<Longrightarrow>
    fold (\<lambda>(k, v). um_put k v) new (pre @ old) = pre @ new"
proof (induction new arbitrary: pre old)
  case (Cons kv new)
  obtain k v where [simp]: "kv = (k, v)" by force
  from Cons.prems obtain w old' where [simp]: "old = (k, w) # old'" and "um_keys old' = um_keys new" by force
  then show ?case using Cons.IH [of old' "pre @ [(k, v)]"] Cons.prems by (simp add: um_put_mid)
qed simp

lemma fold_um_put_overwrite:
  "um_keys old = um_keys new \<Longrightarrow> um_ok new \<Longrightarrow> fold (\<lambda>(k, v). um_put k v) new old = new"
  using fold_um_put_overwrite_aux [of old new "[]"] by simp

lemma um_erase_keys: "fst ` set (um_erase k m) = fst ` set m - {k}"
  unfolding dom_map_of_conv_image_fst [symmetric] by (auto simp: dom_def split: if_splits)

lemma us_insert_set [simp]: "set (us_insert x s) = insert x (set s)"
  by (auto simp: us_insert_def)

lemma us_insert_distinct [simp]: "distinct s \<Longrightarrow> distinct (us_insert x s)"
  by (simp add: us_insert_def)

lemma us_erase_set [simp]: "set (us_erase x s) = set s - {x}"
  by (auto simp: us_erase_def)

lemma us_erase_distinct [simp]: "distinct s \<Longrightarrow> distinct (us_erase x s)"
  by (simp add: us_erase_def)

lemma us_erase_length: "x \<in> set s \<Longrightarrow> length (us_erase x s) < length s"
  unfolding us_erase_def by (induction s) (auto simp: le_imp_less_Suc)

lemma fold_us_insert_set: "set (fold us_insert xs s) = set xs \<union> set s"
  by (induction xs arbitrary: s) auto

lemma fold_us_insert_distinct: "distinct s \<Longrightarrow> distinct (fold us_insert xs s)"
  by (induction xs arbitrary: s) auto

section \<open>Lemmas on words\<close>

lemma unat_lt_64 [simp]: "unat (w :: 64 word) < 18446744073709551616"
  using unsigned_less [of w] by simp

lemma unat_lt_32 [simp]: "unat (w :: 32 word) < 4294967296"
  using unsigned_less [of w] by simp

lemma unat_lt_8 [simp]: "unat (w :: byte) < 256"
  using unsigned_less [of w] by simp

end
