(* ===== verification/Double64.thy ===== *)
theory Double64
  imports Complex_Main Prelude "HOL-Library.Log_Nat"
begin

text \<open>
  \<^verbatim>\<open>Timestamp\<close> and the serialised sizes are C++ \<^verbatim>\<open>double\<close>s. A double is its IEEE-754 binary64 bit
  pattern, a 64-bit word: sign, 11 exponent bits, 52 fraction bits. Comparison is comparison of
  sign and magnitude with NaN unordered, as the standard defines it; addition, subtraction,
  multiplication and division round
  the exact rational result to the nearest double, ties to even. The last section shows that the
  comparison is the comparison of the represented values, that it is a linear order away from NaN,
  and that on non-negative doubles it is the unsigned order of the bit patterns, which is what the
  on-disk indexes rely on.
\<close>

type_synonym double = "64 word"
type_synonym timestamp = double

section \<open>Classification and comparison\<close>

definition dmag :: "double \<Rightarrow> nat" where
  "dmag d = unat d mod 2 ^ 63"

definition dneg :: "double \<Rightarrow> bool" where
  "dneg d = (2 ^ 63 \<le> unat d)"

definition inf_mag :: nat where
  "inf_mag = 2047 * 2 ^ 52"

definition is_nan :: "double \<Rightarrow> bool" where
  "is_nan d = (inf_mag < dmag d)"

definition is_inf :: "double \<Rightarrow> bool" where
  "is_inf d = (dmag d = inf_mag)"

definition dkey :: "double \<Rightarrow> int" where
  "dkey d = (if dneg d then - int (dmag d) else int (dmag d))"

definition dlt :: "double \<Rightarrow> double \<Rightarrow> bool" where
  "dlt a b = (\<not> is_nan a \<and> \<not> is_nan b \<and> dkey a < dkey b)"

definition dle :: "double \<Rightarrow> double \<Rightarrow> bool" where
  "dle a b = (\<not> is_nan a \<and> \<not> is_nan b \<and> dkey a \<le> dkey b)"

definition deq :: "double \<Rightarrow> double \<Rightarrow> bool" where
  "deq a b = (\<not> is_nan a \<and> \<not> is_nan b \<and> dkey a = dkey b)"

abbreviation dgt :: "double \<Rightarrow> double \<Rightarrow> bool" where
  "dgt a b \<equiv> dlt b a"

abbreviation dge :: "double \<Rightarrow> double \<Rightarrow> bool" where
  "dge a b \<equiv> dle b a"

definition pos_inf :: double where
  "pos_inf = 9218868437227405312"

definition neg_inf :: double where
  "neg_inf = 18442240474082181120"

definition d_nan :: double where
  "d_nan = 9221120237041090560"

definition d_max :: double where
  "d_max = 9218868437227405311"

section \<open>Values, rounding and arithmetic\<close>

definition dval_mag :: "nat \<Rightarrow> rat" where
  "dval_mag m =
     (let e = m div 2 ^ 52; f = m mod 2 ^ 52
      in if e = 0 then of_nat f / 2 ^ 1074
         else of_nat (2 ^ 52 + f) * 2 ^ e / 2 ^ 1075)"

definition dval :: "double \<Rightarrow> rat" where
  "dval d = (if dneg d then - dval_mag (dmag d) else dval_mag (dmag d))"

definition scale2 :: "int \<Rightarrow> rat \<Rightarrow> rat" where
  "scale2 k r = (if 0 \<le> k then r * 2 ^ nat k else r / 2 ^ nat (- k))"

definition round_half_even :: "rat \<Rightarrow> nat" where
  "round_half_even q =
     (let fl = \<lfloor>q\<rfloor>; fr = q - of_int fl
      in nat (if fr < 1 / 2 then fl else if 1 / 2 < fr then fl + 1
              else if even fl then fl else fl + 1))"

definition dround_mag :: "rat \<Rightarrow> nat" where
  "dround_mag r =
     (case quotient_of r of (n, d) \<Rightarrow>
        let k0 = bitlen n - bitlen d - 53;
            k1 = (if 2 ^ 53 \<le> scale2 (- k0) r then k0 + 1 else k0);
            k = max (- 1074) k1
        in min inf_mag (nat (k + 1074) * 2 ^ 52 + round_half_even (scale2 (- k) r)))"

definition dround :: "rat \<Rightarrow> double" where
  "dround r =
     (if r = 0 then 0 else if r < 0 then word_of_nat (2 ^ 63 + dround_mag (- r)) else word_of_nat (dround_mag r))"

definition with_sign :: "bool \<Rightarrow> nat \<Rightarrow> double" where
  "with_sign s m = word_of_nat (if s then 2 ^ 63 + m else m)"

definition dadd :: "double \<Rightarrow> double \<Rightarrow> double" where
  "dadd a b =
     (if is_nan a \<or> is_nan b then d_nan
      else if is_inf a then (if is_inf b \<and> dneg a \<noteq> dneg b then d_nan else a)
      else if is_inf b then b
      else if dval a + dval b = 0 then with_sign (dneg a \<and> dneg b) 0
      else dround (dval a + dval b))"

definition ddiv :: "double \<Rightarrow> double \<Rightarrow> double" where
  "ddiv a b =
     (let s = (dneg a \<noteq> dneg b)
      in if is_nan a \<or> is_nan b then d_nan
         else if is_inf a then (if is_inf b then d_nan else with_sign s inf_mag)
         else if is_inf b then with_sign s 0
         else if dmag b = 0 then (if dmag a = 0 then d_nan else with_sign s inf_mag)
         else if dmag a = 0 then with_sign s 0
         else with_sign s (dround_mag (\<bar>dval a\<bar> / \<bar>dval b\<bar>)))"

definition dminus :: "double \<Rightarrow> double" where
  "dminus a = (if is_nan a then d_nan else with_sign (\<not> dneg a) (dmag a))"

definition dsub :: "double \<Rightarrow> double \<Rightarrow> double" where
  "dsub a b = dadd a (dminus b)"

definition dmul :: "double \<Rightarrow> double \<Rightarrow> double" where
  "dmul a b =
     (let s = (dneg a \<noteq> dneg b)
      in if is_nan a \<or> is_nan b then d_nan
         else if is_inf a \<or> is_inf b then (if dmag a = 0 \<or> dmag b = 0 then d_nan else with_sign s inf_mag)
         else if dmag a = 0 \<or> dmag b = 0 then with_sign s 0
         else with_sign s (dround_mag (\<bar>dval a\<bar> * \<bar>dval b\<bar>)))"

definition d_half :: double where
  "d_half = 4602678819172646912"

definition d_one :: double where
  "d_one = 4607182418800017408"

definition dof_nat :: "nat \<Rightarrow> double" where
  "dof_nat n = dround (of_nat n)"

text \<open>Conversion to an unsigned integer drops the fraction; outside the range of the target it is undefined.\<close>

definition d_to_size :: "double \<Rightarrow> size_t result" where
  "d_to_size d =
     (let t = (if dval d < 0 then \<lceil>dval d\<rceil> else \<lfloor>dval d\<rfloor>)
      in if is_nan d \<or> is_inf d \<or> t < 0 \<or> 2 ^ 64 \<le> t then Inl UndefinedBehavior else Inr (word_of_int t))"

section \<open>The order of doubles\<close>

lemma dlt_irrefl [simp]: "\<not> dlt a a"
  by (simp add: dlt_def)

lemma dlt_trans: "dlt a b \<Longrightarrow> dlt b c \<Longrightarrow> dlt a c"
  by (auto simp: dlt_def)

lemma dle_trans: "dle a b \<Longrightarrow> dle b c \<Longrightarrow> dle a c"
  by (auto simp: dle_def)

lemma dlt_dle_trans: "dlt a b \<Longrightarrow> dle b c \<Longrightarrow> dlt a c"
  by (auto simp: dlt_def dle_def)

lemma dle_dlt_trans: "dle a b \<Longrightarrow> dlt b c \<Longrightarrow> dlt a c"
  by (auto simp: dlt_def dle_def)

lemma dlt_imp_dle: "dlt a b \<Longrightarrow> dle a b"
  by (auto simp: dlt_def dle_def)

lemma dle_refl: "\<not> is_nan a \<Longrightarrow> dle a a"
  by (auto simp: dle_def)

lemma not_dlt: "\<not> is_nan a \<Longrightarrow> \<not> is_nan b \<Longrightarrow> \<not> dlt a b \<longleftrightarrow> dle b a"
  by (auto simp: dlt_def dle_def)

lemma not_dle: "\<not> is_nan a \<Longrightarrow> \<not> is_nan b \<Longrightarrow> \<not> dle a b \<longleftrightarrow> dlt b a"
  by (auto simp: dlt_def dle_def)

lemma dle_iff: "dle a b \<longleftrightarrow> dlt a b \<or> deq a b"
  by (auto simp: dlt_def dle_def deq_def)

lemma dlt_not_nan: "dlt a b \<Longrightarrow> \<not> is_nan a \<and> \<not> is_nan b"
  by (simp add: dlt_def)

lemma dle_not_nan: "dle a b \<Longrightarrow> \<not> is_nan a \<and> \<not> is_nan b"
  by (simp add: dle_def)

lemma dlt_0_pos: "dlt 0 a \<Longrightarrow> \<not> dneg a"
  by (auto simp: dlt_def dkey_def dmag_def dneg_def split: if_splits)

text \<open>On non-negative doubles the IEEE order is the unsigned order of the bit patterns.\<close>

lemma dkey_nonneg: "\<not> dneg a \<Longrightarrow> dkey a = int (unat a)"
  by (simp add: dkey_def dmag_def dneg_def)

lemma dlt_nonneg_iff:
  "\<not> dneg a \<Longrightarrow> \<not> dneg b \<Longrightarrow> \<not> is_nan a \<Longrightarrow> \<not> is_nan b \<Longrightarrow> dlt a b \<longleftrightarrow> a < b"
  by (simp add: dlt_def dkey_nonneg word_less_def)

lemma deq_nonneg_iff:
  "\<not> dneg a \<Longrightarrow> \<not> dneg b \<Longrightarrow> \<not> is_nan a \<Longrightarrow> \<not> is_nan b \<Longrightarrow> deq a b \<longleftrightarrow> a = b"
  by (simp add: deq_def dkey_nonneg word_uint_eq_iff)

text \<open>The represented value is strictly increasing in the magnitude bits.\<close>

lemma pow52: "(2::nat) ^ 52 = 4503599627370496"
  by simp

lemma dval_mag_Suc: "dval_mag m < dval_mag (Suc m)"
proof -
  define e f where "e = m div 2 ^ 52" and "f = m mod 2 ^ 52"
  have m: "m = e * 2 ^ 52 + f" and f: "f < 2 ^ 52"
    by (simp_all add: e_def f_def)
  show ?thesis
  proof (cases "Suc f < 2 ^ 52")
    case True
    have d: "Suc m div 2 ^ 52 = e" and r: "Suc m mod 2 ^ 52 = Suc f"
      using True m by (simp_all add: pow52 div_nat_eqI mod_nat_eqI)
    show ?thesis
      by (cases "e = 0") (simp_all add: dval_mag_def d r e_def [symmetric] f_def [symmetric]
          Let_def field_simps del: power_numeral)
  next
    case False
    with f have f': "f = 2 ^ 52 - 1" by simp
    have d: "Suc m div 2 ^ 52 = Suc e" and r: "Suc m mod 2 ^ 52 = 0"
      using f' m by simp_all
    have a: "dval_mag (Suc m) = 2 ^ 52 * 2 ^ Suc e / 2 ^ 1075"
      unfolding dval_mag_def Let_def d r by simp
    have b: "dval_mag m \<le> (2 ^ 53 - 1) * 2 ^ e / 2 ^ 1075"
    proof (cases "e = 0")
      case True
      then show ?thesis
        unfolding dval_mag_def Let_def e_def [symmetric] f_def [symmetric] unfolding f' by simp
    next
      case False
      then show ?thesis
        unfolding dval_mag_def Let_def e_def [symmetric] f_def [symmetric] unfolding f' by simp
    qed
    have c: "(2 ^ 53 - 1) * 2 ^ e / 2 ^ 1075 < (2 ^ 52 * 2 ^ Suc e / 2 ^ 1075 :: rat)"
      by (simp add: divide_strict_right_mono)
    from b c show ?thesis unfolding a by (rule le_less_trans)
  qed
qed

lemma dval_mag_mono: "m < m' \<Longrightarrow> dval_mag m < dval_mag m'"
  by (rule lift_Suc_mono_less [where f = dval_mag, OF dval_mag_Suc])

lemma dval_mag_less_iff: "dval_mag m < dval_mag m' \<longleftrightarrow> m < m'"
  by (metis dval_mag_mono linorder_neqE_nat order_less_asym order_less_irrefl)

lemma dval_mag_nonneg: "0 \<le> dval_mag m"
  by (auto simp: dval_mag_def Let_def)

lemma dval_mag_0: "dval_mag 0 = 0"
  by (simp add: dval_mag_def)

lemma dval_mag_pos: "0 < m \<Longrightarrow> 0 < dval_mag m"
  using dval_mag_mono [of 0 m] by (simp add: dval_mag_0)

lemma dval_less_iff: "dval a < dval b \<longleftrightarrow> dkey a < dkey b"
proof -
  have "- dval_mag x < dval_mag y \<longleftrightarrow> - int x < int y" for x y
    using dval_mag_nonneg [of x] dval_mag_nonneg [of y] dval_mag_pos [of x] dval_mag_pos [of y]
    by (cases "x = 0"; cases "y = 0") (auto simp: dval_mag_0)
  moreover have "\<not> dval_mag x < - dval_mag y" for x y
    using dval_mag_nonneg [of x] dval_mag_nonneg [of y] by linarith
  ultimately show ?thesis
    by (auto simp: dval_def dkey_def dval_mag_less_iff)
qed

theorem dlt_iff_value:
  assumes "\<not> is_nan a" and "\<not> is_nan b"
  shows "dlt a b \<longleftrightarrow> dval a < dval b"
  using assms by (simp add: dlt_def dval_less_iff)

end
