(* ===== verification/Rounding.thy ===== *)
theory Rounding
  imports Double64
begin

text \<open>
  Rounding to double is exact on the numbers a double represents. Natural numbers below \<open>2 ^ 53\<close> are
  among them, so counters and sizes kept in doubles are exact up to that bound; and the arithmetic
  operations on non-negative operands never produce a NaN.
\<close>

section \<open>Rounding is the identity on doubles\<close>

lemma dround_mag_le: "dround_mag r \<le> inf_mag"
  by (simp add: dround_mag_def Let_def split: prod.splits)

lemma dmag_with_sign: "m < 2 ^ 63 \<Longrightarrow> dmag (with_sign s m) = m"
  by (simp add: dmag_def with_sign_def unat_of_nat)

lemma dround_nonneg_ok: "0 \<le> r \<Longrightarrow> \<not> is_nan (dround r)"
proof -
  assume "0 \<le> r"
  then have "dround r = with_sign False (if r = 0 then 0 else dround_mag r)" by (simp add: dround_def with_sign_def)
  moreover have "dround_mag r < 2 ^ 63" using dround_mag_le [of r] by (simp add: inf_mag_def)
  ultimately show ?thesis using dround_mag_le [of r] by (auto simp: is_nan_def dmag_with_sign)
qed

lemma scale2_powi: "scale2 k r = r * 2 powi k"
  by (cases "0 \<le> k") (simp_all only: scale2_def power_int_def power_inverse divide_inverse if_True if_False)

lemma quotient_scale:
  assumes "0 < r" and "quotient_of r = (n, d)"
  shows "2 ^ 52 < scale2 (- (bitlen n - bitlen d - 53)) r" and "scale2 (- (bitlen n - bitlen d - 53)) r < 2 ^ 54"
proof -
  have d: "0 < d" using quotient_of_denom_pos [OF assms(2)] .
  have r: "r = of_int n / of_int d" using quotient_of_div [OF assms(2)] .
  with assms(1) d have n: "0 < n" by (simp add: zero_less_divide_iff)
  define bn bd where "bn = bitlen n" and "bd = bitlen d"
  have pos: "0 < bn" "0 < bd" using n d bitlen_eq_zero_iff [of n] bitlen_eq_zero_iff [of d] bitlen_nonneg [of n] bitlen_nonneg [of d]
    by (auto simp: bn_def bd_def)
  have nb: "(2::int) ^ nat (bn - 1) \<le> n" "n < 2 ^ nat bn" using bitlen_bounds [OF n] by (auto simp: bn_def)
  have db: "(2::int) ^ nat (bd - 1) \<le> d" "d < 2 ^ nat bd" using bitlen_bounds [OF d] by (auto simp: bd_def)
  have pow: "(of_int (2 ^ nat k) :: rat) = 2 powi k" if "0 \<le> k" for k using that by (simp add: power_int_nonneg_exp)
  have nq: "(2 :: rat) powi (bn - 1) \<le> of_int n" "of_int n < (2 :: rat) powi bn"
    using nb pos by (simp_all flip: pow add: of_int_le_iff of_int_less_iff)
  have dq: "(2 :: rat) powi (bd - 1) \<le> of_int d" "of_int d < (2 :: rat) powi bd"
    using db pos by (simp_all flip: pow add: of_int_le_iff of_int_less_iff)
  have dpos: "(0 :: rat) < of_int d" using d by simp
  have "(2 :: rat) powi (bn - 1) / 2 powi bd < r"
    unfolding r using nq(1) dq(2) dpos by (intro frac_less2) auto
  then have lo: "2 powi (bn - 1 - bd) < r" by (simp add: power_int_diff)
  have "r < 2 powi bn / 2 powi (bd - 1)"
    unfolding r using nq(2) dq(1) n by (intro frac_less) auto
  then have hi: "r < 2 powi (bn - (bd - 1))" by (simp add: power_int_diff)
  have s: "scale2 (- (bitlen n - bitlen d - 53)) r = r * 2 powi (- (bn - bd - 53))" by (simp add: scale2_powi bn_def bd_def)
  have p: "(0 :: rat) < 2 powi (- (bn - bd - 53))" by simp
  have "(2 :: rat) ^ 52 = 2 powi (bn - 1 - bd) * 2 powi (- (bn - bd - 53))"
    by (simp flip: power_int_add)
  also have "\<dots> < r * 2 powi (- (bn - bd - 53))" by (rule mult_strict_right_mono [OF lo p])
  finally show "2 ^ 52 < scale2 (- (bitlen n - bitlen d - 53)) r" unfolding s .
  have "r * 2 powi (- (bn - bd - 53)) < 2 powi (bn - (bd - 1)) * 2 powi (- (bn - bd - 53))"
    by (rule mult_strict_right_mono [OF hi p])
  also have "\<dots> = (2 :: rat) ^ 54" by (simp flip: power_int_add)
  finally show "scale2 (- (bitlen n - bitlen d - 53)) r < 2 ^ 54" unfolding s .
qed

text \<open>The exponent chosen: the one that brings the number between \<open>2 ^ 52\<close> and \<open>2 ^ 53\<close>.\<close>

lemma dround_mag_exponent:
  assumes "0 < r"
  shows "\<exists>k1. 2 ^ 52 \<le> scale2 (- k1) r \<and> scale2 (- k1) r < 2 ^ 53
    \<and> dround_mag r = min inf_mag (nat (max (- 1074) k1 + 1074) * 2 ^ 52 + round_half_even (scale2 (- max (- 1074) k1) r))"
proof -
  obtain n d where q: "quotient_of r = (n, d)" by force
  define k0 where "k0 = bitlen n - bitlen d - 53"
  note b = quotient_scale [OF assms q, folded k0_def]
  define k1 where "k1 = (if 2 ^ 53 \<le> scale2 (- k0) r then k0 + 1 else k0)"
  have half: "scale2 (- (k0 + 1)) r = scale2 (- k0) r / 2"
    by (simp add: scale2_powi power_int_diff)
  have "2 ^ 52 \<le> scale2 (- k1) r \<and> scale2 (- k1) r < 2 ^ 53"
    using b half by (auto simp: k1_def)
  moreover have "dround_mag r = min inf_mag (nat (max (- 1074) k1 + 1074) * 2 ^ 52 + round_half_even (scale2 (- max (- 1074) k1) r))"
    unfolding dround_mag_def q Let_def prod.case k0_def [symmetric] k1_def [symmetric] ..
  ultimately show ?thesis by blast
qed

lemma round_half_even_of_nat [simp]: "round_half_even (of_nat n) = n"
  by (simp add: round_half_even_def)

lemma scale_unique:
  assumes "2 ^ 52 \<le> scale2 (- k) r" "scale2 (- k) r < 2 ^ 53" "2 ^ 52 \<le> scale2 (- k') r" "scale2 (- k') r < 2 ^ 53"
  shows "k = k'"
proof -
  have less: False if "k < k'" "scale2 (- k) r < 2 ^ 53" "2 ^ 52 \<le> scale2 (- k') r" for k k'
  proof -
    have "scale2 (- k) r = scale2 (- k') r * 2 powi (k' - k)" by (simp add: scale2_powi power_int_diff power_int_minus field_simps)
    moreover have "(2 :: rat) powi 1 \<le> 2 powi (k' - k)" using that(1) by (intro power_int_increasing) auto
    then have "2 ^ 52 * 2 \<le> scale2 (- k') r * 2 powi (k' - k)" using that(3) by (intro mult_mono) auto
    ultimately show False using that(2) by simp
  qed
  show ?thesis using less [of k k'] less [of k' k] assms by (cases k k' rule: linorder_cases) auto
qed

lemma dround_mag_exact:
  assumes "m < inf_mag" "0 < m"
  shows "dround_mag (dval_mag m) = m"
proof -
  define e f where "e = m div 2 ^ 52" and "f = m mod 2 ^ 52"
  have m: "m = e * 2 ^ 52 + f" and f: "f < 2 ^ 52" by (simp_all add: e_def f_def)
  let ?r = "dval_mag m"
  obtain k1 where k1: "2 ^ 52 \<le> scale2 (- k1) ?r" "scale2 (- k1) ?r < 2 ^ 53"
    "dround_mag ?r = min inf_mag (nat (max (- 1074) k1 + 1074) * 2 ^ 52 + round_half_even (scale2 (- max (- 1074) k1) ?r))"
    using dround_mag_exponent [OF dval_mag_pos [OF assms(2)]] by blast
  have "nat (max (- 1074) k1 + 1074) * 2 ^ 52 + round_half_even (scale2 (- max (- 1074) k1) ?r) = m"
  proof (cases "e = 0")
    case True
    then have r: "?r = of_nat f / 2 ^ 1074" unfolding dval_mag_def Let_def e_def [symmetric] f_def [symmetric] by simp
    have at: "scale2 1074 ?r = of_nat f" by (simp add: r scale2_def)
    have "k1 < - 1074"
    proof (rule ccontr)
      assume "\<not> k1 < - 1074"
      then have "(2 :: rat) powi (- k1) \<le> 2 powi 1074" by (intro power_int_increasing) auto
      then have "scale2 (- k1) ?r \<le> scale2 1074 ?r"
        unfolding scale2_powi using dval_mag_nonneg [of m] by (intro mult_left_mono)
      also have "\<dots> < 2 ^ 52" unfolding at using f by (metis of_nat_less_iff of_nat_numeral of_nat_power)
      finally show False using k1(1) by simp
    qed
    then show ?thesis using True at m by simp
  next
    case False
    have r: "?r = of_nat (2 ^ 52 + f) * 2 ^ e / 2 ^ 1075" using False unfolding dval_mag_def Let_def e_def [symmetric] f_def [symmetric] by simp
    have at: "scale2 (- (int e - 1075)) ?r = of_nat (2 ^ 52 + f)"
      by (simp add: r scale2_powi power_int_diff power_int_minus del: of_nat_add)
    have "(of_nat f :: rat) < of_nat (2 ^ 52)" using f by (simp only: of_nat_less_iff)
    then have "2 ^ 52 \<le> (of_nat (2 ^ 52 + f) :: rat)" "(of_nat (2 ^ 52 + f) :: rat) < 2 ^ 53" by simp_all
    then have k: "k1 = int e - 1075" using scale_unique [OF k1(1,2)] at by metis
    then have mx: "max (- 1074) k1 = int e - 1075" using False by simp
    have "nat (int e - 1075 + 1074) = e - 1" using False by simp
    then show ?thesis unfolding mx at round_half_even_of_nat using False m by (simp add: mult_eq_if)
  qed
  with k1(3) assms(1) show ?thesis by simp
qed

section \<open>Natural numbers\<close>

lemma nat_represented:
  assumes "0 < n" "n < 2 ^ 53"
  shows "\<exists>m. 0 < m \<and> m < inf_mag \<and> dval_mag m = of_nat n"
proof -
  define b where "b = nat (bitlen (int n))"
  have bl: "0 < bitlen (int n)" using assms(1) bitlen_nonneg [of "int n"] bitlen_eq_zero_iff [of "int n"] by simp
  have "(2::int) ^ nat (bitlen (int n) - 1) \<le> int n" "int n < 2 ^ nat (bitlen (int n))"
    using bitlen_bounds [of "int n"] assms(1) by auto
  then have "int (2 ^ (b - 1)) \<le> int n" "int n < int (2 ^ b)" using bl by (simp_all add: b_def nat_diff_distrib')
  then have n: "2 ^ (b - 1) \<le> n" "n < 2 ^ b" by (simp_all only: of_nat_le_iff of_nat_less_iff)
  have b1: "1 \<le> b" using bl by (simp add: b_def)
  have b53: "b \<le> 53" using assms(2) less_power_nat_iff_bitlen [of n 53] by (simp add: b_def)
  define M where "M = n * 2 ^ (53 - b)"
  have "2 ^ (b - 1) * 2 ^ (53 - b) \<le> M" unfolding M_def using n(1) by (intro mult_le_mono1)
  then have lo: "2 ^ 52 \<le> M" using b1 b53 by (simp flip: power_add)
  have "M < 2 ^ b * 2 ^ (53 - b)" unfolding M_def using n(2) by simp
  then have hi: "M < 2 ^ 53" using b53 by (simp flip: power_add)
  define m where "m = (1022 + b) * 2 ^ 52 + (M - 2 ^ 52)"
  have f: "M - 2 ^ 52 < 2 ^ 52" using lo hi by simp
  have e: "m div 2 ^ 52 = 1022 + b" "m mod 2 ^ 52 = M - 2 ^ 52"
    unfolding m_def using f div_mult_self3 [of "2 ^ 52" "1022 + b" "M - 2 ^ 52"] mod_mult_self3 [of "1022 + b" "2 ^ 52" "M - 2 ^ 52"]
    by (simp_all del: mod_mult_self3)
  have "dval_mag m = of_nat (2 ^ 52 + (M - 2 ^ 52)) * 2 ^ (1022 + b) / 2 ^ 1075"
    unfolding dval_mag_def Let_def e by simp
  also have "2 ^ 52 + (M - 2 ^ 52) = M" using lo by simp
  also have "of_nat M * 2 ^ (1022 + b) / 2 ^ 1075 = (of_nat n :: rat)"
  proof -
    have "(2 :: rat) ^ (53 - b) * 2 ^ (1022 + b) = 2 ^ 1075" using b53 by (simp flip: power_add)
    then show ?thesis by (simp add: M_def mult.assoc)
  qed
  finally have "dval_mag m = of_nat n" .
  moreover have "m < inf_mag" using b53 f by (simp add: m_def inf_mag_def)
  moreover have "0 < m" by (simp add: m_def)
  ultimately show ?thesis by blast
qed

lemma dof_nat_exact:
  assumes "n < 2 ^ 53"
  shows "dval (dof_nat n) = of_nat n" and "\<not> is_nan (dof_nat n)" and "\<not> is_inf (dof_nat n)" and "\<not> dneg (dof_nat n)"
proof -
  have "\<exists>m < inf_mag. dof_nat n = word_of_nat m \<and> dval_mag m = of_nat n"
  proof (cases "n = 0")
    case True
    then show ?thesis by (intro exI [of _ 0]) (simp add: dof_nat_def dround_def dval_mag_0 inf_mag_def)
  next
    case False
    then show ?thesis using nat_represented [OF _ assms] dround_mag_exact by (fastforce simp: dof_nat_def dround_def)
  qed
  then obtain m where m: "m < inf_mag" "dof_nat n = word_of_nat m" "dval_mag m = of_nat n" by blast
  have "unat (word_of_nat m :: double) = m" using m(1) by (simp add: inf_mag_def unat_of_nat)
  then show "dval (dof_nat n) = of_nat n" and "\<not> is_nan (dof_nat n)" and "\<not> is_inf (dof_nat n)" and "\<not> dneg (dof_nat n)"
    using m by (simp_all add: dval_def dneg_def dmag_def is_nan_def is_inf_def inf_mag_def)
qed

lemma dadd_dof_nat:
  assumes "a < 2 ^ 53" "b < 2 ^ 53"
  shows "dadd (dof_nat a) (dof_nat b) = dof_nat (a + b)"
  using dof_nat_exact [OF assms(1)] dof_nat_exact [OF assms(2)]
  by (simp add: dadd_def with_sign_def) (simp add: dof_nat_def dround_def)

lemma dval_inject:
  assumes "dval x = dval y" "\<not> dneg x" "\<not> dneg y"
  shows "x = y"
proof -
  have "dkey x = dkey y" using dval_less_iff [of x y] dval_less_iff [of y x] assms(1) by auto
  then show ?thesis using assms(2,3) by (simp add: dkey_nonneg word_uint_eq_iff)
qed

lemma dof_nat_1: "dof_nat 1 = d_one"
proof (rule dval_inject)
  have "unat d_one = 1023 * 2 ^ 52" by (simp add: d_one_def)
  then have "dval d_one = 1" by (simp add: dval_def dneg_def dmag_def dval_mag_def)
  then show "dval (dof_nat 1) = dval d_one" using dof_nat_exact(1) [of 1] by simp
  show "\<not> dneg (dof_nat 1)" using dof_nat_exact(4) [of 1] by simp
  show "\<not> dneg d_one" by (simp add: dneg_def d_one_def)
qed

lemma dround_of_nat: "n < 2 ^ 53 \<Longrightarrow> 0 < n \<Longrightarrow> with_sign False (dround_mag (of_nat n)) = dof_nat n"
  by (simp add: with_sign_def dof_nat_def dround_def)

lemma dmag_dof_nat: "n < 2 ^ 53 \<Longrightarrow> dmag (dof_nat n) = 0 \<longleftrightarrow> n = 0"
  using dof_nat_exact(1,4) [of n] dval_mag_pos [of "dmag (dof_nat n)"] by (auto simp: dval_def dval_mag_0)

lemma ddiv_dof_nat:
  assumes "a < 2 ^ 53" "b < 2 ^ 53" "0 < b" "b dvd a"
  shows "ddiv (dof_nat a) (dof_nat b) = dof_nat (a div b)"
proof -
  note ea = dof_nat_exact [OF assms(1)] and eb = dof_nat_exact [OF assms(2)]
  note mag = dmag_dof_nat
  obtain c where c: "a = b * c" using assms(4) by (elim dvdE)
  have "a div b < 2 ^ 53" using assms(1) by (metis div_le_dividend le_less_trans)
  moreover have "(of_nat a / of_nat b :: rat) = of_nat (a div b)" using assms(3) by (simp add: c)
  ultimately show ?thesis
  proof (cases "a = 0")
    case True
    have "dof_nat 0 = 0" by (simp add: dof_nat_def dround_def)
    then show ?thesis using True ea eb mag [OF assms(1)] mag [OF assms(2)] assms(3)
      by (simp add: ddiv_def Let_def with_sign_def)
  next
    case False
    then have "0 < a div b" using c by (cases "c = 0") auto
    then have "ddiv (dof_nat a) (dof_nat b) = with_sign False (dround_mag (of_nat a / of_nat b))"
      using False ea eb mag [OF assms(1)] mag [OF assms(2)] assms(3) by (simp add: ddiv_def Let_def)
    then show ?thesis
      using dround_of_nat [OF \<open>a div b < 2 ^ 53\<close> \<open>0 < a div b\<close>] \<open>of_nat a / of_nat b = of_nat (a div b)\<close> by simp
  qed
qed

lemma dmul_dof_nat:
  assumes "a < 2 ^ 53" "b < 2 ^ 53" "a * b < 2 ^ 53"
  shows "dmul (dof_nat a) (dof_nat b) = dof_nat (a * b)"
proof (cases "a = 0 \<or> b = 0")
  case True
  have "dof_nat 0 = 0" by (simp add: dof_nat_def dround_def)
  then show ?thesis using True dof_nat_exact [OF assms(1)] dof_nat_exact [OF assms(2)] dmag_dof_nat [OF assms(1)] dmag_dof_nat [OF assms(2)]
    by (auto simp: dmul_def with_sign_def)
next
  case False
  then have "dmul (dof_nat a) (dof_nat b) = with_sign False (dround_mag (of_nat (a * b)))"
    using dof_nat_exact [OF assms(1)] dof_nat_exact [OF assms(2)] dmag_dof_nat [OF assms(1)] dmag_dof_nat [OF assms(2)]
    by (simp add: dmul_def Let_def)
  then show ?thesis using dround_of_nat [OF assms(3)] False by simp
qed

lemma d_to_size_dof_nat: "n < 2 ^ 53 \<Longrightarrow> d_to_size (dof_nat n) = Inr (word_of_nat n)"
  using dof_nat_exact [of n] by (simp add: d_to_size_def)

section \<open>Ordinary non-negative numbers\<close>

definition nonneg :: "double \<Rightarrow> bool" where
  "nonneg d \<longleftrightarrow> \<not> is_nan d \<and> \<not> dneg d"

lemma with_sign_nonneg: "m \<le> inf_mag \<Longrightarrow> nonneg (with_sign False m)"
  by (simp add: nonneg_def is_nan_def dneg_def dmag_def with_sign_def inf_mag_def unat_of_nat)

lemma dround_nonneg: "0 \<le> r \<Longrightarrow> nonneg (dround r)"
  using with_sign_nonneg [OF dround_mag_le, of r] with_sign_nonneg [of 0] by (auto simp: dround_def with_sign_def)

lemma dval_nonneg: "nonneg d \<Longrightarrow> 0 \<le> dval d"
  by (simp add: nonneg_def dval_def dval_mag_nonneg)

lemma dadd_nonneg: "nonneg a \<Longrightarrow> nonneg b \<Longrightarrow> nonneg (dadd a b)"
  using dround_nonneg [of "dval a + dval b"] dval_nonneg [of a] dval_nonneg [of b] with_sign_nonneg [of 0]
  by (simp add: dadd_def) (simp add: nonneg_def)

lemma ddiv_nonneg: "nonneg a \<Longrightarrow> nonneg b \<Longrightarrow> \<not> is_inf b \<Longrightarrow> dmag b \<noteq> 0 \<Longrightarrow> nonneg (ddiv a b)"
  using with_sign_nonneg [OF dround_mag_le, of "\<bar>dval a\<bar> / \<bar>dval b\<bar>"] with_sign_nonneg [of 0] with_sign_nonneg [of inf_mag]
  by (simp add: ddiv_def Let_def nonneg_def)

lemma dof_nat_nonneg: "nonneg (dof_nat n)"
  unfolding dof_nat_def by (rule dround_nonneg) simp

lemma zero_nonneg: "nonneg 0"
  by (simp add: nonneg_def is_nan_def dneg_def dmag_def)

lemma above_minus_one: "nonneg d \<Longrightarrow> dlt (dminus d_one) d"
proof -
  assume d: "nonneg d"
  have one: "dkey (dminus d_one) < 0" "\<not> is_nan (dminus d_one)"
    by (simp_all add: dkey_def dminus_def is_nan_def dneg_def dmag_def with_sign_def d_one_def inf_mag_def)
  have "0 \<le> dkey d" using d by (simp add: nonneg_def dkey_def)
  then show ?thesis using one d by (simp add: nonneg_def dlt_def)
qed

end
