(* ===== verification/NetworkBuffer.thy ===== *)
theory NetworkBuffer
  imports Prelude Rounding
begin

text \<open>
  The byte buffer every on-disk record goes through: \<^verbatim>\<open>NetworkByteBuffer.h/.cpp\<close> and the byte-order
  helpers of \<^verbatim>\<open>EndianHelper.h\<close>. The heap array is the list of its bytes; \<open>icursor\<close> is the write
  position and \<open>ocursor\<close> the read position. Access outside the array is \<open>UndefinedBehavior\<close>, a failed
  \<^verbatim>\<open>resize\<close> is the \<^verbatim>\<open>runtime_error\<close> it throws. Memory from \<^verbatim>\<open>new[]\<close> has no specified content; it is
  filled with zeros here, and the theorems speak about written bytes only.

  The relations \<open>appends\<close> and \<open>consumes\<close> say what a writer adds to the content and what a reader
  takes off it; the locale \<open>codec\<close> is the contract of a pair of stream operators \<^verbatim>\<open><<\<close> and \<^verbatim>\<open>>>\<close>,
  from which the operators of vectors and pairs are derived once.
\<close>

unbundle bit_operations_syntax

section \<open>Byte order\<close>

fun le_enc :: "nat \<Rightarrow> nat \<Rightarrow> byte list" where
  "le_enc 0 x = []"
| "le_enc (Suc n) x = word_of_nat (x mod 256) # le_enc n (x div 256)"

fun le_dec :: "byte list \<Rightarrow> nat" where
  "le_dec [] = 0"
| "le_dec (b # bs) = unat b + 256 * le_dec bs"

text \<open>The bytes of a value in the memory of the little-endian host, reversed byte by byte.\<close>

definition host_to_network :: "byte list \<Rightarrow> byte list" where
  "host_to_network raw = map (\<lambda>i. raw ! (length raw - i - 1)) [0..<length raw]"

definition network_to_host :: "byte list \<Rightarrow> byte list" where
  "network_to_host raw = host_to_network raw"

section \<open>The buffer\<close>

record nbuf =
  autoDealloc :: bool
  buf :: "byte list"
  bufSize :: nat
  icursor :: nat
  ocursor :: nat

definition add64 :: "nat \<Rightarrow> nat \<Rightarrow> nat" where
  "add64 a b = (a + b) mod 2 ^ 64"

definition sub64 :: "nat \<Rightarrow> nat \<Rightarrow> nat" where
  "sub64 a b = (a + (2 ^ 64 - b mod 2 ^ 64)) mod 2 ^ 64"

definition DEFAULT_SIZE :: nat where
  "DEFAULT_SIZE = 4096"

definition alloc :: "nat \<Rightarrow> byte list" where
  "alloc mysize = replicate mysize 0"

definition NetworkByteBuffer_sized :: "nat \<Rightarrow> nbuf" where
  "NetworkByteBuffer_sized initialSize =
     \<lparr>autoDealloc = True, buf = (if initialSize = 0 then [] else alloc initialSize),
      bufSize = initialSize, icursor = 0, ocursor = 0\<rparr>"

definition NetworkByteBuffer :: nbuf where
  "NetworkByteBuffer = NetworkByteBuffer_sized DEFAULT_SIZE"

definition NetworkByteBuffer_over :: "byte list \<Rightarrow> nat \<Rightarrow> nbuf" where
  "NetworkByteBuffer_over mybuf mysize =
     \<lparr>autoDealloc = False, buf = mybuf, bufSize = mysize, icursor = mysize, ocursor = 0\<rparr>"

definition memcpy :: "byte list \<Rightarrow> nat \<Rightarrow> byte list \<Rightarrow> byte list result" where
  "memcpy dst off src =
     (if off + length src \<le> length dst
      then Inr (take off dst @ src @ drop (off + length src) dst)
      else Inl UndefinedBehavior)"

definition mem_range :: "byte list \<Rightarrow> nat \<Rightarrow> nat \<Rightarrow> byte list result" where
  "mem_range m off n =
     (if off + n \<le> length m then Inr (take n (drop off m)) else Inl UndefinedBehavior)"

definition NetworkByteBuffer_copy :: "nbuf \<Rightarrow> nbuf result" where
  "NetworkByteBuffer_copy r =
     rbind (mem_range (buf r) 0 (bufSize r)) (\<lambda>bs.
     rbind (memcpy (alloc (bufSize r)) 0 bs) (\<lambda>b.
       Inr \<lparr>autoDealloc = True, buf = b, bufSize = bufSize r, icursor = icursor r, ocursor = ocursor r\<rparr>))"

definition NetworkByteBuffer_destructive :: "nbuf \<Rightarrow> bool \<Rightarrow> (nbuf \<times> nbuf) result" where
  "NetworkByteBuffer_destructive r isDestructive =
     (if isDestructive
      then Inr (\<lparr>autoDealloc = True, buf = buf r, bufSize = bufSize r, icursor = icursor r, ocursor = ocursor r\<rparr>,
                \<lparr>autoDealloc = True, buf = [], bufSize = 0, icursor = 0, ocursor = 0\<rparr>)
      else rbind (NetworkByteBuffer_copy r) (\<lambda>c. Inr (c, r)))"

definition resize :: "nat \<Rightarrow> nbuf \<Rightarrow> nbuf result" where
  "resize extra nb =
     (if \<not> autoDealloc nb then Inl (RuntimeError ''cannot resize fixed buffer'')
      else
        let maxGrowth = sub64 (2 ^ 32) (bufSize nb)
        in if maxGrowth < extra then Inl (RuntimeError ''Buffer exceeds maximum size'')
           else
             let growth = (if bufSize nb < extra then extra
                           else if maxGrowth < bufSize nb then max (maxGrowth div 2) extra
                           else bufSize nb);
                 newsize = add64 (bufSize nb) growth
             in rbind (mem_range (buf nb) 0 (bufSize nb)) (\<lambda>bs.
                rbind (memcpy (alloc newsize) 0 bs) (\<lambda>newbuf.
                  Inr (nb\<lparr>bufSize := newsize, buf := newbuf\<rparr>))))"

definition ensure :: "nat \<Rightarrow> nbuf \<Rightarrow> nbuf result" where
  "ensure extra nb =
     (if bufSize nb < add64 (icursor nb) extra
      then resize (sub64 (add64 extra (icursor nb)) (bufSize nb)) nb
      else Inr nb)"

text \<open>\<open>assign\<close> and \<open>copyData\<close> on two distinct objects; on the object itself \<open>assign\<close> does nothing
  and \<open>copyData\<close> rewinds the read position.\<close>

definition assign :: "nbuf \<Rightarrow> nbuf \<Rightarrow> nbuf result" where
  "assign this sb = NetworkByteBuffer_copy sb"

definition copyData :: "nbuf \<Rightarrow> nbuf \<Rightarrow> nbuf result" where
  "copyData this sb =
     rbind (if bufSize this < icursor sb then resize (sub64 (icursor sb) (bufSize this)) this else Inr this)
       (\<lambda>t. rbind (mem_range (buf sb) 0 (icursor sb)) (\<lambda>bs.
            rbind (memcpy (buf t) 0 bs) (\<lambda>b.
              Inr (t\<lparr>buf := b, icursor := icursor sb, ocursor := 0\<rparr>))))"

definition buffer_eq :: "nbuf \<Rightarrow> nbuf \<Rightarrow> bool result" where
  "buffer_eq a b =
     (if icursor a \<noteq> icursor b then Inr False
      else rbind (mem_range (buf a) 0 (icursor a)) (\<lambda>x.
           rbind (mem_range (buf b) 0 (icursor a)) (\<lambda>y. Inr (x = y))))"

section \<open>Writers and readers of scalars\<close>

text \<open>Every writer ensures room, copies its bytes to the write position and advances it; every
  reader takes its bytes from the read position and advances it.\<close>

definition put_bytes :: "byte list \<Rightarrow> nbuf \<Rightarrow> nbuf result" where
  "put_bytes bs nb =
     rbind (ensure (length bs) nb) (\<lambda>nb1.
     rbind (memcpy (buf nb1) (icursor nb1) bs) (\<lambda>b.
       Inr (nb1\<lparr>buf := b, icursor := icursor nb1 + length bs\<rparr>)))"

definition take_bytes :: "nat \<Rightarrow> nbuf \<Rightarrow> (byte list \<times> nbuf) result" where
  "take_bytes n nb =
     rbind (mem_range (buf nb) (ocursor nb) n) (\<lambda>bs.
       Inr (bs, nb\<lparr>ocursor := ocursor nb + n\<rparr>))"

definition put_word :: "nat \<Rightarrow> 'w::len word \<Rightarrow> nbuf \<Rightarrow> nbuf result" where
  "put_word n i nb = put_bytes (host_to_network (le_enc n (unat i))) nb"

definition take_word :: "nat \<Rightarrow> nbuf \<Rightarrow> ('w::len word \<times> nbuf) result" where
  "take_word n nb =
     rbind (take_bytes n nb) (\<lambda>(bs, nb1). Inr (word_of_nat (le_dec (network_to_host bs)), nb1))"

definition addChar :: "char \<Rightarrow> nbuf \<Rightarrow> nbuf result" where
  "addChar ch nb = put_bytes [of_char ch] nb"

definition getChar :: "nbuf \<Rightarrow> (char \<times> nbuf) result" where
  "getChar nb = rbind (take_bytes 1 nb) (\<lambda>(bs, nb1). Inr (char_of (unat (hd bs)), nb1))"

definition addBool :: "bool \<Rightarrow> nbuf \<Rightarrow> nbuf result" where
  "addBool b nb = put_bytes [if b then 1 else 0] nb"

definition getBool :: "nbuf \<Rightarrow> (bool \<times> nbuf) result" where
  "getBool nb = rbind (take_bytes 1 nb) (\<lambda>(bs, nb1). Inr (hd bs \<noteq> 0, nb1))"

definition addUInt8 :: "8 word \<Rightarrow> nbuf \<Rightarrow> nbuf result" where
  "addUInt8 i nb = put_bytes [i] nb"

definition getUInt8 :: "nbuf \<Rightarrow> (8 word \<times> nbuf) result" where
  "getUInt8 nb = rbind (take_bytes 1 nb) (\<lambda>(bs, nb1). Inr (hd bs, nb1))"

definition addInt8 :: "8 word \<Rightarrow> nbuf \<Rightarrow> nbuf result" where
  "addInt8 i nb = put_bytes [i] nb"

definition getInt8 :: "nbuf \<Rightarrow> (8 word \<times> nbuf) result" where
  "getInt8 nb = rbind (take_bytes 1 nb) (\<lambda>(bs, nb1). Inr (hd bs, nb1))"

definition addUInt16 :: "16 word \<Rightarrow> nbuf \<Rightarrow> nbuf result" where
  "addUInt16 i nb = put_word 2 i nb"

definition getUInt16 :: "nbuf \<Rightarrow> (16 word \<times> nbuf) result" where
  "getUInt16 nb = take_word 2 nb"

definition addInt16 :: "16 word \<Rightarrow> nbuf \<Rightarrow> nbuf result" where
  "addInt16 i nb = put_word 2 i nb"

definition getInt16 :: "nbuf \<Rightarrow> (16 word \<times> nbuf) result" where
  "getInt16 nb = take_word 2 nb"

definition addUInt32 :: "32 word \<Rightarrow> nbuf \<Rightarrow> nbuf result" where
  "addUInt32 i nb = put_word 4 i nb"

definition getUInt32 :: "nbuf \<Rightarrow> (32 word \<times> nbuf) result" where
  "getUInt32 nb = take_word 4 nb"

definition addInt32 :: "32 word \<Rightarrow> nbuf \<Rightarrow> nbuf result" where
  "addInt32 i nb = put_word 4 i nb"

definition getInt32 :: "nbuf \<Rightarrow> (32 word \<times> nbuf) result" where
  "getInt32 nb = take_word 4 nb"

definition addUInt64 :: "64 word \<Rightarrow> nbuf \<Rightarrow> nbuf result" where
  "addUInt64 i nb = put_word 8 i nb"

definition getUInt64 :: "nbuf \<Rightarrow> (64 word \<times> nbuf) result" where
  "getUInt64 nb = take_word 8 nb"

definition addInt64 :: "64 word \<Rightarrow> nbuf \<Rightarrow> nbuf result" where
  "addInt64 i nb = put_word 8 i nb"

definition getInt64 :: "nbuf \<Rightarrow> (64 word \<times> nbuf) result" where
  "getInt64 nb = take_word 8 nb"

text \<open>Floats and doubles travel as their bit patterns.\<close>

definition addFloat :: "32 word \<Rightarrow> nbuf \<Rightarrow> nbuf result" where
  "addFloat f nb = put_word 4 f nb"

definition getFloat :: "nbuf \<Rightarrow> (32 word \<times> nbuf) result" where
  "getFloat nb = take_word 4 nb"

definition addDouble :: "double \<Rightarrow> nbuf \<Rightarrow> nbuf result" where
  "addDouble d nb = put_word 8 d nb"

definition getDouble :: "nbuf \<Rightarrow> (double \<times> nbuf) result" where
  "getDouble nb = take_word 8 nb"

section \<open>Strings and blobs\<close>

definition str_bytes :: "string \<Rightarrow> byte list" where
  "str_bytes s = map of_char s"

definition bytes_str :: "byte list \<Rightarrow> string" where
  "bytes_str bs = map (\<lambda>b. char_of (unat b)) bs"

definition u32 :: "nat \<Rightarrow> nat" where
  "u32 n = n mod 2 ^ 32"

text \<open>\<open>str\<close> is the C string up to its terminator, so it holds no NUL itself.\<close>

definition addNTStr :: "string \<Rightarrow> nbuf \<Rightarrow> nbuf result" where
  "addNTStr str nb =
     (let stlen = u32 (length str + 1) in put_bytes (take stlen (str_bytes str @ [0])) nb)"

definition getNTStr :: "nbuf \<Rightarrow> (string \<times> nbuf) result" where
  "getNTStr nb =
     (let ptr = drop (ocursor nb) (buf nb); s = takeWhile (\<lambda>b. b \<noteq> 0) ptr
      in if length s < length ptr
         then Inr (bytes_str s, nb\<lparr>ocursor := ocursor nb + u32 (length s + 1)\<rparr>)
         else Inl UndefinedBehavior)"

definition addSTLString :: "string \<Rightarrow> nbuf \<Rightarrow> nbuf result" where
  "addSTLString str nb =
     (let stlen = u32 (length str)
      in rbind (addUInt32 (word_of_nat stlen) nb) (\<lambda>nb1.
         if 0 < stlen then put_bytes (take stlen (str_bytes str)) nb1 else Inr nb1))"

definition getSTLString :: "nbuf \<Rightarrow> (string \<times> nbuf) result" where
  "getSTLString nb =
     rbind (getUInt32 nb) (\<lambda>(stlen, nb1).
       if 0 < stlen
       then rbind (take_bytes (unat stlen) nb1) (\<lambda>(bs, nb2). Inr (bytes_str bs, nb2))
       else Inr ('''', nb1))"

definition addBlob :: "byte list \<Rightarrow> nbuf \<Rightarrow> nbuf result" where
  "addBlob blob nb =
     rbind (addUInt32 (word_of_nat (length blob)) nb) (\<lambda>nb1.
       put_bytes (take (u32 (length blob)) blob) nb1)"

definition getBlob :: "nbuf \<Rightarrow> (byte list \<times> nbuf) result" where
  "getBlob nb = rbind (getUInt32 nb) (\<lambda>(mysize, nb1). take_bytes (unat mysize) nb1)"

definition addCharSequence :: "byte list \<Rightarrow> nbuf \<Rightarrow> nbuf result" where
  "addCharSequence chsbuf nb = put_bytes chsbuf nb"

text \<open>The whole rest of the content; the read position then jumps to the end of the array.\<close>

definition getCharSequence :: "nbuf \<Rightarrow> (byte list \<times> nbuf) result" where
  "getCharSequence nb =
     (let sizeTillEOB = u32 (sub64 (icursor nb) (ocursor nb))
      in rbind (mem_range (buf nb) (ocursor nb) sizeTillEOB) (\<lambda>bs.
           Inr (bs, nb\<lparr>ocursor := bufSize nb\<rparr>)))"

definition getFixedCharSequence :: "nat \<Rightarrow> nbuf \<Rightarrow> (byte list \<times> nbuf) result" where
  "getFixedCharSequence mysize nb = take_bytes mysize nb"

definition setICursor :: "nat \<Rightarrow> nbuf \<Rightarrow> nbuf" where
  "setICursor off nb = nb\<lparr>icursor := off\<rparr>"

definition setOCursor :: "nat \<Rightarrow> nbuf \<Rightarrow> nbuf" where
  "setOCursor off nb = nb\<lparr>ocursor := off\<rparr>"

definition getNRemainingBytes :: "nbuf \<Rightarrow> nat" where
  "getNRemainingBytes nb = sub64 (icursor nb) (ocursor nb)"

section \<open>Stream operators of vectors and pairs\<close>

definition addVector :: "('a \<Rightarrow> nbuf \<Rightarrow> nbuf result) \<Rightarrow> 'a list \<Rightarrow> nbuf \<Rightarrow> nbuf result" where
  "addVector add xs nb =
     rbind (addUInt32 (word_of_nat (length xs)) nb) (for_each add xs)"

fun get_items :: "(nbuf \<Rightarrow> ('a \<times> nbuf) result) \<Rightarrow> nat \<Rightarrow> 'a list \<Rightarrow> nbuf \<Rightarrow> ('a list \<times> nbuf) result" where
  "get_items get 0 acc nb = Inr (acc, nb)"
| "get_items get (Suc n) acc nb =
     rbind (get nb) (\<lambda>(item, nb1). get_items get n (acc @ [item]) nb1)"

text \<open>The reader appends to the vector it is given.\<close>

definition getVector :: "(nbuf \<Rightarrow> ('a \<times> nbuf) result) \<Rightarrow> 'a list \<Rightarrow> nbuf \<Rightarrow> ('a list \<times> nbuf) result" where
  "getVector get val0 nb =
     rbind (getUInt32 nb) (\<lambda>(size, nb1). get_items get (unat size) val0 nb1)"

definition addPair ::
  "('a \<Rightarrow> nbuf \<Rightarrow> nbuf result) \<Rightarrow> ('b \<Rightarrow> nbuf \<Rightarrow> nbuf result) \<Rightarrow> 'a \<times> 'b \<Rightarrow> nbuf \<Rightarrow> nbuf result" where
  "addPair add1 add2 p nb = rbind (add1 (fst p) nb) (add2 (snd p))"

definition getPair ::
  "(nbuf \<Rightarrow> ('a \<times> nbuf) result) \<Rightarrow> (nbuf \<Rightarrow> ('b \<times> nbuf) result) \<Rightarrow> nbuf \<Rightarrow> (('a \<times> 'b) \<times> nbuf) result" where
  "getPair get1 get2 nb =
     rbind (get1 nb) (\<lambda>(x, nb1). rbind (get2 nb1) (\<lambda>(y, nb2). Inr ((x, y), nb2)))"

section \<open>Well-formed buffers\<close>

definition nb_ok :: "nbuf \<Rightarrow> bool" where
  "nb_ok nb \<longleftrightarrow> length (buf nb) = bufSize nb \<and> icursor nb \<le> bufSize nb \<and> bufSize nb \<le> 2 ^ 32"

definition content :: "nbuf \<Rightarrow> byte list" where
  "content nb = take (icursor nb) (buf nb)"

lemma add64_small [simp]: "a + b < 2 ^ 64 \<Longrightarrow> add64 a b = a + b"
  by (simp add: add64_def)

lemma sub64_small [simp]: "b \<le> a \<Longrightarrow> a < 2 ^ 64 \<Longrightarrow> sub64 a b = a - b"
proof -
  assume "b \<le> a" and "a < 2 ^ 64"
  then have "a + (2 ^ 64 - b mod 2 ^ 64) = (a - b) + 2 ^ 64" and "a - b < 2 ^ 64" by simp_all
  then show ?thesis unfolding sub64_def by simp
qed

lemma length_alloc [simp]: "length (alloc n) = n"
  by (simp add: alloc_def)

lemma length_content [simp]: "nb_ok nb \<Longrightarrow> length (content nb) = icursor nb"
  by (simp add: nb_ok_def content_def)

text \<open>The growth policy: at least what is asked for, at most up to four gigabytes.\<close>

lemma resize_result:
  assumes "nb_ok nb" and "autoDealloc nb" and "extra \<le> 2 ^ 32 - bufSize nb"
  obtains growth where "extra \<le> growth" and "bufSize nb + growth \<le> 2 ^ 32"
    and "resize extra nb = Inr (nb\<lparr>bufSize := bufSize nb + growth, buf := buf nb @ replicate growth 0\<rparr>)"
proof -
  let ?mg = "2 ^ 32 - bufSize nb"
  let ?growth = "if bufSize nb < extra then extra
                 else if ?mg < bufSize nb then max (?mg div 2) extra else bufSize nb"
  have sz: "bufSize nb \<le> 2 ^ 32" "length (buf nb) = bufSize nb" using assms by (simp_all add: nb_ok_def)
  then have mg: "sub64 (2 ^ 32) (bufSize nb) = ?mg" by simp
  have g: "extra \<le> ?growth" "?growth \<le> ?mg" using assms(3) by auto
  with sz have g': "bufSize nb + ?growth \<le> 2 ^ 32" by linarith
  then have "add64 (bufSize nb) ?growth = bufSize nb + ?growth" 
    by (intro add64_small le_less_trans [OF g']) simp
  then have "resize extra nb =
      Inr (nb\<lparr>bufSize := bufSize nb + ?growth, buf := buf nb @ replicate ?growth 0\<rparr>)"
    unfolding resize_def Let_def mg using assms sz
    by (simp only: not_less if_False if_True) (auto simp: mem_range_def memcpy_def alloc_def)
  with g(1) g' show ?thesis by (rule that)
qed

lemma ensure_result:
  assumes "nb_ok nb" and "autoDealloc nb" and "icursor nb + n \<le> 2 ^ 32"
  obtains nb1 pad where "ensure n nb = Inr nb1" and "nb_ok nb1" and "icursor nb + n \<le> bufSize nb1"
    and "nb1 = nb\<lparr>bufSize := bufSize nb + length pad, buf := buf nb @ pad\<rparr>"
proof (cases "bufSize nb < icursor nb + n")
  case False
  with assms have "ensure n nb = Inr nb" by (simp add: ensure_def)
  moreover have "nb = nb\<lparr>bufSize := bufSize nb + length ([] :: byte list), buf := buf nb @ []\<rparr>" by simp
  ultimately show ?thesis using False assms that [of nb "[]"] by simp
next
  case True
  let ?e = "icursor nb + n - bufSize nb"
  have "sub64 (add64 n (icursor nb)) (bufSize nb) = ?e" "add64 (icursor nb) n = icursor nb + n"
    using True assms by (simp_all add: add.commute nb_ok_def)
  with True have e: "ensure n nb = resize ?e nb" by (simp add: ensure_def)
  have "?e \<le> 2 ^ 32 - bufSize nb" using assms by simp
  with assms(1,2) obtain g where g: "?e \<le> g" "bufSize nb + g \<le> 2 ^ 32"
    "resize ?e nb = Inr (nb\<lparr>bufSize := bufSize nb + g, buf := buf nb @ replicate g 0\<rparr>)"
    by (rule resize_result)
  show ?thesis
  proof (rule that [of _ "replicate g 0"])
    show "ensure n nb = Inr (nb\<lparr>bufSize := bufSize nb + g, buf := buf nb @ replicate g 0\<rparr>)"
      by (simp add: e g)
  qed (use g assms in \<open>auto simp: nb_ok_def\<close>)
qed

section \<open>What writers append and readers consume\<close>

definition appends :: "(nbuf \<Rightarrow> nbuf result) \<Rightarrow> byte list \<Rightarrow> bool" where
  "appends f bs \<longleftrightarrow> (\<forall>nb. nb_ok nb \<and> autoDealloc nb \<and> icursor nb + length bs \<le> 2 ^ 32 \<longrightarrow>
     (\<exists>nb'. f nb = Inr nb' \<and> nb_ok nb' \<and> autoDealloc nb' \<and> content nb' = content nb @ bs
            \<and> ocursor nb' = ocursor nb))"

definition consumes :: "(nbuf \<Rightarrow> ('a \<times> nbuf) result) \<Rightarrow> byte list \<Rightarrow> 'a \<Rightarrow> bool" where
  "consumes g bs v \<longleftrightarrow> (\<forall>nb rest. drop (ocursor nb) (buf nb) = bs @ rest \<and> ocursor nb \<le> length (buf nb) \<longrightarrow>
     g nb = Inr (v, nb\<lparr>ocursor := ocursor nb + length bs\<rparr>))"

lemma appends_put_bytes: "appends (put_bytes bs) bs"
  unfolding appends_def
proof (intro allI impI, elim conjE)
  fix nb :: nbuf
  assume ok: "nb_ok nb" "autoDealloc nb" "icursor nb + length bs \<le> 2 ^ 32"
  then obtain nb1 pad where e: "ensure (length bs) nb = Inr nb1" "nb_ok nb1"
      "icursor nb + length bs \<le> bufSize nb1"
      and nb1: "nb1 = nb\<lparr>bufSize := bufSize nb + length pad, buf := buf nb @ pad\<rparr>"
    by (rule ensure_result)
  from ok nb1 e show "\<exists>nb'. put_bytes bs nb = Inr nb' \<and> nb_ok nb' \<and> autoDealloc nb' \<and>
      content nb' = content nb @ bs \<and> ocursor nb' = ocursor nb"
    by (auto simp: put_bytes_def memcpy_def nb_ok_def content_def)
qed

lemma appends_Inr: "appends Inr []"
  by (simp add: appends_def)

lemma appends_seq:
  assumes "appends f bs" and "appends g cs"
  shows "appends (\<lambda>nb. rbind (f nb) g) (bs @ cs)"
  unfolding appends_def
proof (intro allI impI, elim conjE)
  fix nb :: nbuf
  assume nb: "nb_ok nb" "autoDealloc nb" "icursor nb + length (bs @ cs) \<le> 2 ^ 32"
  then obtain nb1 where f: "f nb = Inr nb1" "nb_ok nb1" "autoDealloc nb1"
      "content nb1 = content nb @ bs" "ocursor nb1 = ocursor nb"
    using assms(1) unfolding appends_def by force
  from f nb have "icursor nb1 = icursor nb + length bs"
    by (metis length_append length_content)
  with nb f obtain nb2 where "g nb1 = Inr nb2" "nb_ok nb2" "autoDealloc nb2"
      "content nb2 = content nb1 @ cs" "ocursor nb2 = ocursor nb1"
    using assms(2) unfolding appends_def by force
  with f show "\<exists>nb'. rbind (f nb) g = Inr nb' \<and> nb_ok nb' \<and> autoDealloc nb' \<and>
      content nb' = content nb @ bs @ cs \<and> ocursor nb' = ocursor nb" by simp
qed

lemma appends_for_each:
  "(\<And>x. x \<in> set xs \<Longrightarrow> appends (add x) (enc x)) \<Longrightarrow> appends (for_each add xs) (concat (map enc xs))"
proof (induction xs)
  case Nil
  have "for_each add [] = Inr" by (simp add: fun_eq_iff)
  then show ?case by (simp add: appends_Inr)
next
  case (Cons x xs)
  have "for_each add (x # xs) = (\<lambda>nb. rbind (add x nb) (for_each add xs))" by (simp add: fun_eq_iff)
  with Cons show ?case by (simp add: appends_seq)
qed

lemma appends_eqD:
  "appends f bs \<Longrightarrow> nb_ok nb \<Longrightarrow> autoDealloc nb \<Longrightarrow> icursor nb + length bs \<le> 2 ^ 32 \<Longrightarrow>
    \<exists>nb'. f nb = Inr nb' \<and> nb_ok nb' \<and> autoDealloc nb' \<and> content nb' = content nb @ bs
          \<and> ocursor nb' = ocursor nb"
  unfolding appends_def by blast

lemma consumes_Inr: "consumes (\<lambda>nb. Inr (v, nb)) [] v"
  by (simp add: consumes_def)

lemma consumes_take_bytes: "n = length bs \<Longrightarrow> consumes (take_bytes n) bs bs"
  unfolding consumes_def
proof (intro allI impI, elim conjE)
  fix nb :: nbuf and rest
  assume n: "n = length bs" and "drop (ocursor nb) (buf nb) = bs @ rest" "ocursor nb \<le> length (buf nb)"
  moreover from this have "length (buf nb) - ocursor nb = length bs + length rest"
    by (metis length_append length_drop)
  ultimately show "take_bytes n nb = Inr (bs, nb\<lparr>ocursor := ocursor nb + length bs\<rparr>)"
    by (simp add: take_bytes_def mem_range_def)
qed

lemma consumes_seq:
  assumes "consumes g bs v" and "consumes (h v) cs w"
  shows "consumes (\<lambda>nb. rbind (g nb) (\<lambda>(x, nb1). h x nb1)) (bs @ cs) w"
  unfolding consumes_def
proof (intro allI impI, elim conjE)
  fix nb :: nbuf and rest
  let ?nb1 = "nb\<lparr>ocursor := ocursor nb + length bs\<rparr>"
  assume d: "drop (ocursor nb) (buf nb) = (bs @ cs) @ rest" "ocursor nb \<le> length (buf nb)"
  then have g: "g nb = Inr (v, ?nb1)" using assms(1) unfolding consumes_def by simp
  have "drop (length bs) (drop (ocursor nb) (buf nb)) = cs @ rest" by (simp add: d)
  moreover have "length bs \<le> length (drop (ocursor nb) (buf nb))" unfolding d by simp
  ultimately have "drop (ocursor ?nb1) (buf ?nb1) = cs @ rest" "ocursor ?nb1 \<le> length (buf ?nb1)"
    using d(2) by (simp_all add: add.commute)
  then have "h v ?nb1 = Inr (w, ?nb1\<lparr>ocursor := ocursor ?nb1 + length cs\<rparr>)"
    using assms(2) unfolding consumes_def by blast
  with g show "rbind (g nb) (\<lambda>(x, nb1). h x nb1) = Inr (w, nb\<lparr>ocursor := ocursor nb + length (bs @ cs)\<rparr>)"
    by (simp add: add.assoc)
qed

lemma consumes_map:
  "consumes g bs v \<Longrightarrow> consumes (\<lambda>nb. rbind (g nb) (\<lambda>(x, nb1). Inr (f x, nb1))) bs (f v)"
  using consumes_seq [where h = "\<lambda>x nb1. Inr (f x, nb1)", OF _ consumes_Inr] by simp

lemma get_items_consumes:
  "(\<And>x. x \<in> set xs \<Longrightarrow> consumes get (enc x) x) \<Longrightarrow>
    consumes (get_items get (length xs) acc) (concat (map enc xs)) (acc @ xs)"
proof (induction xs arbitrary: acc)
  case Nil
  have "get_items get 0 acc = (\<lambda>nb. Inr (acc, nb))" by (simp add: fun_eq_iff)
  then show ?case by (simp add: consumes_Inr)
next
  case (Cons x xs)
  have "get_items get (Suc (length xs)) acc =
      (\<lambda>nb. rbind (get nb) (\<lambda>(y, nb1). get_items get (length xs) (acc @ [y]) nb1))"
    by (simp add: fun_eq_iff)
  moreover have "consumes (get_items get (length xs) (acc @ [x])) (concat (map enc xs)) (acc @ x # xs)"
    using Cons.IH [of "acc @ [x]"] Cons.prems by simp
  ultimately show ?case
    using consumes_seq [of get "enc x" x "\<lambda>y. get_items get (length xs) (acc @ [y])"] Cons.prems by simp
qed

lemma appends_fresh:
  assumes "appends f bs" and "length bs \<le> 2 ^ 32"
  shows "\<exists>nb. f NetworkByteBuffer = Inr nb \<and> content nb = bs"
  using appends_eqD [OF assms(1), of NetworkByteBuffer] assms(2)
  by (auto simp: nb_ok_def NetworkByteBuffer_def NetworkByteBuffer_sized_def DEFAULT_SIZE_def content_def)

section \<open>Round trips\<close>

lemma host_to_network_rev: "host_to_network raw = rev raw"
  by (rule nth_equalityI) (auto simp: host_to_network_def rev_nth)

lemma network_to_host_inverse: "network_to_host (host_to_network raw) = raw"
  by (simp add: network_to_host_def host_to_network_rev)

lemma length_host_to_network [simp]: "length (host_to_network raw) = length raw"
  by (simp add: host_to_network_def)

lemma length_le_enc [simp]: "length (le_enc n x) = n"
  by (induction n arbitrary: x) auto

lemma le_dec_enc: "le_dec (le_enc n x) = x mod 256 ^ n"
proof (induction n arbitrary: x)
  case (Suc n)
  have "unat (word_of_nat (x mod 256) :: byte) = x mod 256" by (simp add: unat_of_nat)
  then show ?case by (simp add: Suc mod_mult2_eq)
qed simp

lemma le_dec_bound: "le_dec bs < 256 ^ length bs"
proof (induction bs)
  case (Cons b bs)
  then have "le_dec bs + 1 \<le> 256 ^ length bs" by simp
  with unat_lt_8 [of b] have "unat b + 256 * le_dec bs < 256 * 256 ^ length bs" by linarith
  then show ?case by simp
qed simp

lemma le_enc_dec: "le_enc (length bs) (le_dec bs) = bs"
  by (induction bs) simp_all

text \<open>The bytes of a word on the wire, most significant first.\<close>

definition net_word :: "nat \<Rightarrow> 'w::len word \<Rightarrow> byte list" where
  "net_word n w = host_to_network (le_enc n (unat w))"

lemma length_net_word [simp, size_simps]: "length (net_word n w) = n"
  by (simp add: net_word_def)

lemma net_word_decode:
  fixes w :: "'w::len word"
  assumes "LENGTH('w) \<le> 8 * n"
  shows "word_of_nat (le_dec (network_to_host (net_word n w))) = w"
proof -
  have "unat w < 2 ^ LENGTH('w)" by (rule unsigned_less)
  also have "\<dots> \<le> 2 ^ (8 * n)" using assms by (rule power_increasing) simp
  also have "\<dots> = (256::nat) ^ n" by (simp add: power_mult)
  finally show ?thesis by (simp add: net_word_def network_to_host_inverse le_dec_enc)
qed

lemma appends_put_word: "appends (put_word n w) (net_word n w)"
  using appends_put_bytes [of "net_word n w"] by (simp add: put_word_def [abs_def] net_word_def)

lemma consumes_take_word:
  fixes w :: "'w::len word"
  assumes "LENGTH('w) \<le> 8 * n"
  shows "consumes (take_word n) (net_word n w) w"
  using consumes_map [OF consumes_take_bytes [of n "net_word n w"],
      of "\<lambda>bs. word_of_nat (le_dec (network_to_host bs)) :: 'w word"]
  by (simp add: take_word_def [abs_def] net_word_decode assms)

text \<open>The contract of a pair of stream operators: \<open>add\<close> appends the encoding \<open>enc x\<close>, and \<open>get\<close>
  on these bytes returns \<open>x\<close> and consumes exactly them, for every value in \<open>dom\<close>.\<close>

locale codec =
  fixes add :: "'a \<Rightarrow> nbuf \<Rightarrow> nbuf result"
    and get :: "nbuf \<Rightarrow> ('a \<times> nbuf) result"
    and enc :: "'a \<Rightarrow> byte list"
    and ok :: "'a \<Rightarrow> bool"
  assumes add_appends: "ok x \<Longrightarrow> appends (add x) (enc x)"
    and get_consumes: "ok x \<Longrightarrow> consumes get (enc x) x"
begin

text \<open>Writing into a buffer whose content was read completely, then reading, gives the value back.\<close>

lemma round_trip:
  assumes "ok x" and "nb_ok nb" and "autoDealloc nb" and "icursor nb + length (enc x) \<le> 2 ^ 32"
    and "ocursor nb = icursor nb"
  shows "\<exists>nb'. add x nb = Inr nb' \<and> nb_ok nb' \<and> content nb' = content nb @ enc x \<and>
    get nb' = Inr (x, nb'\<lparr>ocursor := icursor nb'\<rparr>)"
proof -
  obtain nb' where nb': "add x nb = Inr nb'" "nb_ok nb'" "content nb' = content nb @ enc x"
      "ocursor nb' = ocursor nb"
    using appends_eqD [OF add_appends] assms by blast
  then have i: "icursor nb' = icursor nb + length (enc x)"
    using assms(2) by (metis length_append length_content)
  have "buf nb' = content nb' @ drop (icursor nb') (buf nb')" by (simp add: content_def)
  then have "drop (ocursor nb') (buf nb') = enc x @ drop (icursor nb') (buf nb')"
    using nb'(3,4) assms(2,5) by (metis append.assoc append_eq_conv_conj length_content)
  moreover have "ocursor nb' \<le> length (buf nb')" using nb' i assms(5) by (simp add: nb_ok_def)
  ultimately have "get nb' = Inr (x, nb'\<lparr>ocursor := ocursor nb' + length (enc x)\<rparr>)"
    using get_consumes assms(1) unfolding consumes_def by blast
  with nb' i assms(5) show ?thesis by simp
qed

text \<open>A vector is its length as a 32-bit word followed by its elements.\<close>

lemma vector_appends:
  assumes "\<forall>x \<in> set xs. ok x"
  shows "appends (addVector add xs) (net_word 4 (word_of_nat (length xs) :: 32 word) @ concat (map enc xs))"
proof -
  have "appends (addUInt32 (word_of_nat (length xs))) (net_word 4 (word_of_nat (length xs) :: 32 word))"
    by (simp add: addUInt32_def [abs_def] appends_put_word)
  moreover have "appends (for_each add xs) (concat (map enc xs))"
    using assms by (intro appends_for_each add_appends) simp
  ultimately show ?thesis unfolding addVector_def [abs_def] by (rule appends_seq)
qed

lemma vector_consumes:
  assumes "\<forall>x \<in> set xs. ok x" and "length xs < 2 ^ 32"
  shows "consumes (getVector get acc)
    (net_word 4 (word_of_nat (length xs) :: 32 word) @ concat (map enc xs)) (acc @ xs)"
proof -
  let ?n = "word_of_nat (length xs) :: 32 word"
  have "consumes getUInt32 (net_word 4 ?n) ?n"
    by (simp add: getUInt32_def [abs_def] consumes_take_word)
  moreover have "unat ?n = length xs" using assms(2) by (simp add: unat_of_nat)
  then have "consumes (get_items get (unat ?n) acc) (concat (map enc xs)) (acc @ xs)"
    using assms(1) by (simp add: get_items_consumes get_consumes)
  ultimately show ?thesis unfolding getVector_def [abs_def] by (rule consumes_seq)
qed

end

definition vec_enc :: "('a \<Rightarrow> byte list) \<Rightarrow> 'a list \<Rightarrow> byte list" where
  "vec_enc enc xs = net_word 4 (word_of_nat (length xs) :: 32 word) @ concat (map enc xs)"

definition pair_enc :: "('a \<Rightarrow> byte list) \<Rightarrow> ('b \<Rightarrow> byte list) \<Rightarrow> 'a \<times> 'b \<Rightarrow> byte list" where
  "pair_enc enc1 enc2 p = enc1 (fst p) @ enc2 (snd p)"

definition string_enc :: "string \<Rightarrow> byte list" where
  "string_enc s = net_word 4 (word_of_nat (length s) :: 32 word) @ str_bytes s"

context codec
begin

lemma vector_codec:
  "codec (addVector add) (getVector get []) (vec_enc enc) (\<lambda>xs. length xs < 2 ^ 32 \<and> (\<forall>x \<in> set xs. ok x))"
  using vector_appends vector_consumes [where acc = "[]"] by unfold_locales (auto simp: vec_enc_def)

lemma pair_codec:
  assumes "codec add2 get2 enc2 ok2"
  shows "codec (addPair add add2) (getPair get get2) (pair_enc enc enc2) (\<lambda>p. ok (fst p) \<and> ok2 (snd p))"
proof (unfold_locales, goal_cases)
  case (1 x)
  then show ?case
    unfolding addPair_def [abs_def] pair_enc_def
    by (intro appends_seq add_appends codec.add_appends [OF assms]) auto
next
  case (2 x)
  have "consumes (\<lambda>nb. rbind (get2 nb) (\<lambda>(y, nb2). Inr ((fst x, y), nb2))) (enc2 (snd x)) (fst x, snd x)"
    using 2 by (intro consumes_map codec.get_consumes [OF assms]) simp
  with 2 show ?case
    unfolding getPair_def [abs_def] pair_enc_def
    using consumes_seq [of get "enc (fst x)" "fst x" "\<lambda>a nb1. rbind (get2 nb1) (\<lambda>(y, nb2). Inr ((a, y), nb2))"]
      get_consumes by simp
qed

end

section \<open>The scalar operators meet the contract\<close>

lemma codec_word:
  "LENGTH('w::len) \<le> 8 * n \<Longrightarrow> codec (put_word n) (take_word n) (net_word n :: 'w word \<Rightarrow> _) (\<lambda>_. True)"
  by unfold_locales (simp_all add: appends_put_word consumes_take_word)

lemma codec_byte:
  assumes "\<And>x. add x = put_bytes [f x]"
    and "get = (\<lambda>nb. rbind (take_bytes 1 nb) (\<lambda>(bs, nb1). Inr (g (hd bs), nb1)))"
    and "\<And>x. g (f x) = x"
  shows "codec add get (\<lambda>x. [f x]) (\<lambda>_. True)"
proof (unfold_locales, goal_cases)
  case (1 x)
  then show ?case by (simp add: assms(1) appends_put_bytes)
next
  case (2 x)
  then show ?case
    using consumes_map [OF consumes_take_bytes [of 1 "[f x]"], of "\<lambda>bs. g (hd bs)"] assms(2,3) by simp
qed

interpretation c_uint16: codec addUInt16 getUInt16 "net_word 2" "\<lambda>_. True"
  unfolding addUInt16_def [abs_def] getUInt16_def [abs_def] by (rule codec_word) simp

interpretation c_int16: codec addInt16 getInt16 "net_word 2" "\<lambda>_. True"
  unfolding addInt16_def [abs_def] getInt16_def [abs_def] by (rule codec_word) simp

interpretation c_uint32: codec addUInt32 getUInt32 "net_word 4" "\<lambda>_. True"
  unfolding addUInt32_def [abs_def] getUInt32_def [abs_def] by (rule codec_word) simp

interpretation c_int32: codec addInt32 getInt32 "net_word 4" "\<lambda>_. True"
  unfolding addInt32_def [abs_def] getInt32_def [abs_def] by (rule codec_word) simp

interpretation c_uint64: codec addUInt64 getUInt64 "net_word 8" "\<lambda>_. True"
  unfolding addUInt64_def [abs_def] getUInt64_def [abs_def] by (rule codec_word) simp

interpretation c_int64: codec addInt64 getInt64 "net_word 8" "\<lambda>_. True"
  unfolding addInt64_def [abs_def] getInt64_def [abs_def] by (rule codec_word) simp

interpretation c_float: codec addFloat getFloat "net_word 4" "\<lambda>_. True"
  unfolding addFloat_def [abs_def] getFloat_def [abs_def] by (rule codec_word) simp

interpretation c_double: codec addDouble getDouble "net_word 8" "\<lambda>_. True"
  unfolding addDouble_def [abs_def] getDouble_def [abs_def] by (rule codec_word) simp

interpretation c_uint8: codec addUInt8 getUInt8 "\<lambda>i. [i]" "\<lambda>_. True"
  by (rule codec_byte [where g = "\<lambda>b. b"]) (simp_all add: addUInt8_def [abs_def] getUInt8_def [abs_def])

interpretation c_int8: codec addInt8 getInt8 "\<lambda>i. [i]" "\<lambda>_. True"
  by (rule codec_byte [where g = "\<lambda>b. b"]) (simp_all add: addInt8_def [abs_def] getInt8_def [abs_def])

interpretation c_bool: codec addBool getBool "\<lambda>b. [if b then 1 else 0]" "\<lambda>_. True"
  by (rule codec_byte [where g = "\<lambda>b. b \<noteq> 0"]) (simp_all add: addBool_def [abs_def] getBool_def [abs_def])

lemma char_byte [simp]: "char_of (unat (of_char c :: byte)) = c"
proof -
  have "unat (of_char c :: byte) = unat (word_of_nat (of_char c) :: byte)"
    by (metis of_nat_of_char)
  also have "\<dots> = (of_char c :: nat)" by (simp only: unat_of_nat) (simp add: of_char_mod_256)
  finally show ?thesis by simp
qed

interpretation c_char: codec addChar getChar "\<lambda>c. [of_char c]" "\<lambda>_. True"
  by (rule codec_byte [where g = "\<lambda>b. char_of (unat b)"]) (simp_all add: addChar_def [abs_def] getChar_def [abs_def])

lemma bytes_str_inverse [simp]: "bytes_str (str_bytes s) = s"
  by (simp add: bytes_str_def str_bytes_def comp_def)

lemma u32_small: "n < 2 ^ 32 \<Longrightarrow> u32 n = n"
  by (simp add: u32_def)

lemma length_str_bytes [simp]: "length (str_bytes s) = length s"
  by (simp add: str_bytes_def)

interpretation c_string: codec addSTLString getSTLString string_enc "\<lambda>s. length s < 2 ^ 32"
proof (unfold_locales, goal_cases)
  case (1 s)
  let ?n = "word_of_nat (length s) :: 32 word"
  have "appends (\<lambda>nb1. if 0 < length s then put_bytes (str_bytes s) nb1 else Inr nb1) (str_bytes s)"
    by (cases "s = []") (simp_all add: appends_put_bytes appends_Inr str_bytes_def)
  from appends_seq [OF c_uint32.add_appends [OF TrueI, of ?n] this] 1 show ?case
    by (simp add: addSTLString_def [abs_def] string_enc_def u32_small Let_def cong: if_cong)
next
  case (2 s)
  let ?n = "word_of_nat (length s) :: 32 word"
  let ?h = "\<lambda>stlen nb1. if 0 < stlen
       then rbind (take_bytes (unat (stlen :: 32 word)) nb1) (\<lambda>(bs, nb2). Inr (bytes_str bs, nb2))
       else Inr ('''', nb1)"
  have n: "unat ?n = length s" using 2 by (simp add: unat_of_nat)
  have "consumes (?h ?n) (str_bytes s) s"
  proof (cases "s = []")
    case True
    then show ?thesis by (simp add: consumes_Inr str_bytes_def)
  next
    case False
    with n have "0 < ?n" by (metis length_greater_0_conv unat_gt_0 word_gt_0)
    then show ?thesis
      using consumes_map [OF consumes_take_bytes [of "length s" "str_bytes s"], of bytes_str] by (simp add: n)
  qed
  from consumes_seq [OF c_uint32.get_consumes [OF TrueI, of ?n], where h = ?h, OF this] show ?case
    by (simp add: getSTLString_def [abs_def] string_enc_def)
qed

section \<open>Composite codecs\<close>

interpretation c_strings: codec "addVector addSTLString" "getVector getSTLString []" "vec_enc string_enc"
    "\<lambda>xs. length xs < 2 ^ 32 \<and> (\<forall>s \<in> set xs. length s < 2 ^ 32)"
  by (rule c_string.vector_codec)

interpretation c_uint64s: codec "addVector addUInt64" "getVector getUInt64 []" "vec_enc (net_word 8)"
    "\<lambda>xs. length xs < 2 ^ 32 \<and> (\<forall>x \<in> set xs. True)"
  by (rule c_uint64.vector_codec)

section \<open>Properties of the buffer\<close>

lemma ensure_fixed:
  "nb_ok nb \<Longrightarrow> n \<le> 2 ^ 32 \<Longrightarrow> \<not> autoDealloc nb \<Longrightarrow> bufSize nb < icursor nb + n \<Longrightarrow>
    ensure n nb = Inl (RuntimeError ''cannot resize fixed buffer'')"
  by (simp add: ensure_def resize_def nb_ok_def)

lemma ensure_too_big:
  assumes "nb_ok nb" and "n \<le> 2 ^ 32" and "autoDealloc nb" and "2 ^ 32 < icursor nb + n"
  shows "ensure n nb = Inl (RuntimeError ''Buffer exceeds maximum size'')"
proof -
  have "sub64 (add64 n (icursor nb)) (bufSize nb) = n + icursor nb - bufSize nb"
    "add64 (icursor nb) n = icursor nb + n" "sub64 (2 ^ 32) (bufSize nb) = 2 ^ 32 - bufSize nb"
    using assms by (simp_all add: nb_ok_def)
  then show ?thesis
    using assms unfolding ensure_def resize_def Let_def nb_ok_def by (simp add: less_diff_conv2)
qed

text \<open>C31: every writer goes through \<open>put_bytes\<close> (\<open>ensure\<close>, copy, advance). On a well-formed buffer it
  either appends exactly its bytes to the content and keeps the buffer well-formed, however the
  buffer had to grow, or it throws: \<open>cannot resize fixed buffer\<close> exactly when a borrowed buffer is
  too small, \<open>Buffer exceeds maximum size\<close> exactly when an owned one would pass four gigabytes.\<close>

theorem put_bytes_outcome:
  assumes "nb_ok nb" and "length bs \<le> 2 ^ 32"
  shows "case put_bytes bs nb of
      Inr nb' \<Rightarrow> nb_ok nb' \<and> content nb' = content nb @ bs \<and> ocursor nb' = ocursor nb
                 \<and> autoDealloc nb' = autoDealloc nb
                 \<and> icursor nb + length bs \<le> (if autoDealloc nb then 2 ^ 32 else bufSize nb)
    | Inl e \<Rightarrow> if autoDealloc nb
               then e = RuntimeError ''Buffer exceeds maximum size'' \<and> 2 ^ 32 < icursor nb + length bs
               else e = RuntimeError ''cannot resize fixed buffer'' \<and> bufSize nb < icursor nb + length bs"
proof (cases "autoDealloc nb")
  case True
  then show ?thesis
  proof (cases "icursor nb + length bs \<le> 2 ^ 32")
    case fits: True
    with True assms show ?thesis using appends_eqD [OF appends_put_bytes, of nb bs] by auto
  next
    case False
    with True assms show ?thesis by (simp add: put_bytes_def ensure_too_big)
  qed
next
  case False
  then show ?thesis
  proof (cases "icursor nb + length bs \<le> bufSize nb")
    case True
    with False assms show ?thesis
      by (auto simp: put_bytes_def ensure_def memcpy_def nb_ok_def content_def)
  next
    case small: False
    with False assms show ?thesis by (simp add: put_bytes_def ensure_fixed)
  qed
qed

theorem put_bytes_outcome_witness:
  "\<exists>nb'. put_bytes [1, 2, 3] (NetworkByteBuffer_sized 2) = Inr nb' \<and> content nb' = [1, 2, 3] \<and> nb_ok nb'"
  using put_bytes_outcome [of "NetworkByteBuffer_sized 2" "[1, 2, 3]"]
  by (simp add: nb_ok_def NetworkByteBuffer_sized_def alloc_def content_def split: sum.splits)

text \<open>C32: the stream operators of a vector of strings round-trip. Writing the vector after the read
  position and reading it back returns the same vector, reads exactly the bytes written, and leaves
  what was in the buffer before untouched.\<close>

theorem string_vector_round_trip:
  assumes "nb_ok nb" and "autoDealloc nb" and "ocursor nb = icursor nb"
    and "length xs < 2 ^ 32" and "\<forall>s \<in> set xs. length s < 2 ^ 32"
    and "icursor nb + length (vec_enc string_enc xs) \<le> 2 ^ 32"
  shows "\<exists>nb'. addVector addSTLString xs nb = Inr nb' \<and> nb_ok nb'
    \<and> content nb' = content nb @ vec_enc string_enc xs
    \<and> getVector getSTLString [] nb' = Inr (xs, nb'\<lparr>ocursor := icursor nb'\<rparr>)"
  using c_strings.round_trip [of xs nb] assms by blast

theorem string_vector_round_trip_witness:
  "\<exists>nb'. addVector addSTLString [''intergdb'', ''''] (NetworkByteBuffer_sized 2) = Inr nb' \<and> nb_ok nb'
    \<and> content nb' = content (NetworkByteBuffer_sized 2) @ vec_enc string_enc [''intergdb'', '''']
    \<and> getVector getSTLString [] nb' = Inr ([''intergdb'', ''''], nb'\<lparr>ocursor := icursor nb'\<rparr>)"
  by (rule string_vector_round_trip)
     (simp_all add: nb_ok_def NetworkByteBuffer_sized_def alloc_def vec_enc_def string_enc_def)

end
