(* ===== verification/SchemaData.thy ===== *)
theory SchemaData
  imports NetworkBuffer
begin

text \<open>
  Attributes, schemas and attribute data: \<^verbatim>\<open>libcommon/Attribute.h\<close>, \<^verbatim>\<open>Schema.h/.cpp\<close>,
  \<^verbatim>\<open>AttributeData.h/.cpp\<close> and the size functions of \<^verbatim>\<open>Helper.h\<close>. \<^verbatim>\<open>boost::variant\<close> is the datatype
  \<open>attrVal\<close>, a \<^verbatim>\<open>boost::get\<close> of the wrong alternative is \<open>BadGet\<close>, \<^verbatim>\<open>vector::at\<close> out of range is
  \<open>OutOfRange\<close>, and dereferencing \<^verbatim>\<open>find(..)->second\<close> of a missing key is \<open>UndefinedBehavior\<close>.
  A record is serialised field by field in the iteration order of its hash map, with no tags, so the
  round trip holds for a reader whose map iterates in the writer's order.
\<close>

section \<open>Data model\<close>

datatype dataType = INT64 | DOUBLE | STRING | UNDEFINED

datatype attrVal = IntV "64 word" | DoubleV double | StringV string

record attribute =
  attrIndex :: nat
  attrName :: string
  attrType :: dataType

record schema =
  attributes :: "attribute list"
  nameToIndex :: "(string, nat) umap"

record attributeData =
  fieldsOf :: "(nat, attrVal) umap"
  schemaOf :: schema

definition get_int :: "attrVal \<Rightarrow> 64 word result" where
  "get_int v = (case v of IntV i \<Rightarrow> Inr i | _ \<Rightarrow> Inl BadGet)"

definition get_double :: "attrVal \<Rightarrow> double result" where
  "get_double v = (case v of DoubleV d \<Rightarrow> Inr d | _ \<Rightarrow> Inl BadGet)"

definition get_string :: "attrVal \<Rightarrow> string result" where
  "get_string v = (case v of StringV s \<Rightarrow> Inr s | _ \<Rightarrow> Inl BadGet)"

text \<open>Equality of variants: same alternative and equal values, doubles by IEEE equality.\<close>

definition attrVal_eq :: "attrVal \<Rightarrow> attrVal \<Rightarrow> bool" where
  "attrVal_eq a b =
     (case (a, b) of
        (IntV i, IntV j) \<Rightarrow> i = j
      | (DoubleV x, DoubleV y) \<Rightarrow> deq x y
      | (StringV s, StringV t) \<Rightarrow> s = t
      | _ \<Rightarrow> False)"

section \<open>Schema\<close>

definition add_name_type :: "string \<times> dataType \<Rightarrow> schema \<Rightarrow> schema" where
  "add_name_type nt s =
     (let index = length (attributes s);
          attribute = \<lparr>attrIndex = index, attrName = fst nt, attrType = snd nt\<rparr>;
          as = attributes s @ [attribute]
      in s\<lparr>attributes := as, nameToIndex := um_emplace (fst nt) (length as - 1) (nameToIndex s)\<rparr>)"

definition Schema :: "(string \<times> dataType) list \<Rightarrow> schema" where
  "Schema namesAndTypes = fold add_name_type namesAndTypes \<lparr>attributes = [], nameToIndex = []\<rparr>"

definition getIndex :: "schema \<Rightarrow> string \<Rightarrow> nat result" where
  "getIndex s name = deref (um_find (nameToIndex s) name)"

section \<open>AttributeData\<close>

definition getTypeValue :: "dataType \<Rightarrow> attrVal" where
  "getTypeValue type =
     (case type of INT64 \<Rightarrow> IntV 0 | DOUBLE \<Rightarrow> DoubleV 0 | STRING \<Rightarrow> StringV '''' | UNDEFINED \<Rightarrow> IntV 0)"

definition AttributeData :: "schema \<Rightarrow> attributeData" where
  "AttributeData s =
     \<lparr>fieldsOf = fold (\<lambda>attrb. um_emplace (attrIndex attrb) (getTypeValue (attrType attrb))) (attributes s) [],
      schemaOf = s\<rparr>"

definition AttributeData_of :: "schema \<Rightarrow> string list \<Rightarrow> attributeData result" where
  "AttributeData_of s attrNames =
     rbind (for_each (\<lambda>attrb fs.
              rbind (getIndex s attrb) (\<lambda>idx.
              rbind (vec_at (attributes s) idx) (\<lambda>a.
                Inr (um_emplace idx (getTypeValue (attrType a)) fs)))) attrNames [])
       (\<lambda>fs. Inr \<lparr>fieldsOf = fs, schemaOf = s\<rparr>)"

definition newAttributeData :: "schema \<Rightarrow> attributeData" where
  "newAttributeData s = AttributeData s"

definition newAttributeData_of :: "schema \<Rightarrow> string list \<Rightarrow> attributeData result" where
  "newAttributeData_of s attrNames = AttributeData_of s attrNames"

definition setAttribute_name :: "string \<Rightarrow> attrVal \<Rightarrow> attributeData \<Rightarrow> attributeData result" where
  "setAttribute_name attributeName v d =
     rbind (getIndex (schemaOf d) attributeName) (\<lambda>i.
       if um_count (fieldsOf d) i then Inr (d\<lparr>fieldsOf := um_put i v (fieldsOf d)\<rparr>)
       else Inl (AttributeNotFound attributeName))"

definition setAttribute :: "nat \<Rightarrow> attrVal \<Rightarrow> attributeData \<Rightarrow> attributeData" where
  "setAttribute attributeIndex v d = d\<lparr>fieldsOf := um_put attributeIndex v (fieldsOf d)\<rparr>"

definition setAttributes :: "attributeData \<Rightarrow> attributeData \<Rightarrow> attributeData" where
  "setAttributes other d =
     d\<lparr>fieldsOf := fold (\<lambda>(i, v) fs. if um_count fs i then um_put i v fs else fs) (fieldsOf other) (fieldsOf d)\<rparr>"

definition getAttribute_name :: "attributeData \<Rightarrow> string \<Rightarrow> attrVal result" where
  "getAttribute_name d attributeName =
     rbind (getIndex (schemaOf d) attributeName) (\<lambda>i.
       case um_find (fieldsOf d) i of
         None \<Rightarrow> Inl (AttributeNotFound attributeName)
       | Some v \<Rightarrow> Inr v)"

definition getAttribute :: "attributeData \<Rightarrow> nat \<Rightarrow> attrVal result" where
  "getAttribute d attributeIndex = deref (um_find (fieldsOf d) attributeIndex)"

definition getStringAttribute :: "attributeData \<Rightarrow> nat \<Rightarrow> string result" where
  "getStringAttribute d i = rbind (getAttribute d i) get_string"

definition getDoubleAttribute :: "attributeData \<Rightarrow> nat \<Rightarrow> double result" where
  "getDoubleAttribute d i = rbind (getAttribute d i) get_double"

definition getIntAttribute :: "attributeData \<Rightarrow> nat \<Rightarrow> 64 word result" where
  "getIntAttribute d i = rbind (getAttribute d i) get_int"

definition getStringAttribute_name :: "attributeData \<Rightarrow> string \<Rightarrow> string result" where
  "getStringAttribute_name d n = rbind (getAttribute_name d n) get_string"

definition getDoubleAttribute_name :: "attributeData \<Rightarrow> string \<Rightarrow> double result" where
  "getDoubleAttribute_name d n = rbind (getAttribute_name d n) get_double"

definition getIntAttribute_name :: "attributeData \<Rightarrow> string \<Rightarrow> 64 word result" where
  "getIntAttribute_name d n = rbind (getAttribute_name d n) get_int"

definition attributeData_eq :: "attributeData \<Rightarrow> attributeData \<Rightarrow> bool" where
  "attributeData_eq d other =
     (length (fieldsOf d) = length (fieldsOf other) \<and>
      list_all (\<lambda>(idx, v). case um_find (fieldsOf other) idx of
                             None \<Rightarrow> False | Some w \<Rightarrow> attrVal_eq v w) (fieldsOf d))"

text \<open>Serialised sizes (\<^verbatim>\<open>Helper.h\<close>): eight bytes for numbers, a length word and the characters for
  strings.\<close>

definition getSerializedSizeOf_string :: "string \<Rightarrow> nat" where
  "getSerializedSizeOf_string s = 4 + length s"

definition getFieldSize :: "attributeData \<Rightarrow> nat \<Rightarrow> nat result" where
  "getFieldSize d i =
     rbind (vec_at (attributes (schemaOf d)) i) (\<lambda>a.
       case attrType a of
         INT64 \<Rightarrow> rbind (getIntAttribute d i) (\<lambda>_. Inr 8)
       | DOUBLE \<Rightarrow> rbind (getDoubleAttribute d i) (\<lambda>_. Inr 8)
       | STRING \<Rightarrow> rbind (getStringAttribute d i) (\<lambda>s. Inr (getSerializedSizeOf_string s))
       | UNDEFINED \<Rightarrow> Inl AssertionFailed)"

definition getSerializedSizeOf :: "attributeData \<Rightarrow> nat result" where
  "getSerializedSizeOf d =
     for_each (\<lambda>(i, v) size. rbind (getFieldSize d i) (\<lambda>n. Inr (size + n))) (fieldsOf d) 0"

section \<open>Stream operators\<close>

definition addField :: "schema \<Rightarrow> nat \<times> attrVal \<Rightarrow> nbuf \<Rightarrow> nbuf result" where
  "addField s iv nb =
     rbind (vec_at (attributes s) (fst iv)) (\<lambda>attrb.
       case attrType attrb of
         INT64 \<Rightarrow> rbind (get_int (snd iv)) (\<lambda>i. addInt64 i nb)
       | DOUBLE \<Rightarrow> rbind (get_double (snd iv)) (\<lambda>d. addDouble d nb)
       | STRING \<Rightarrow> rbind (get_string (snd iv)) (\<lambda>t. addSTLString t nb)
       | UNDEFINED \<Rightarrow> Inl AssertionFailed)"

definition addAttributeData :: "attributeData \<Rightarrow> nbuf \<Rightarrow> nbuf result" where
  "addAttributeData d nb = for_each (addField (schemaOf d)) (fieldsOf d) nb"

definition getField :: "schema \<Rightarrow> nat \<Rightarrow> nbuf \<Rightarrow> (attrVal \<times> nbuf) result" where
  "getField s idx nb =
     rbind (vec_at (attributes s) idx) (\<lambda>attrb.
       case attrType attrb of
         INT64 \<Rightarrow> rbind (getInt64 nb) (\<lambda>(i, nb1). Inr (IntV i, nb1))
       | DOUBLE \<Rightarrow> rbind (getDouble nb) (\<lambda>(d, nb1). Inr (DoubleV d, nb1))
       | STRING \<Rightarrow> rbind (getSTLString nb) (\<lambda>(t, nb1). Inr (StringV t, nb1))
       | UNDEFINED \<Rightarrow> Inl AssertionFailed)"

text \<open>The loop ranges over the map whose entries it overwrites; assignment to a present key neither
  moves nor invalidates the iteration.\<close>

fun read_fields :: "nat list \<Rightarrow> attributeData \<Rightarrow> nbuf \<Rightarrow> (attributeData \<times> nbuf) result" where
  "read_fields [] d nb = Inr (d, nb)"
| "read_fields (idx # is) d nb =
     rbind (getField (schemaOf d) idx nb) (\<lambda>(v, nb1). read_fields is (setAttribute idx v d) nb1)"

definition getAttributeData :: "attributeData \<Rightarrow> nbuf \<Rightarrow> (attributeData \<times> nbuf) result" where
  "getAttributeData d nb = read_fields (um_keys (fieldsOf d)) d nb"

section \<open>Well-typed data and its encoding\<close>

definition val_ok :: "dataType \<Rightarrow> attrVal \<Rightarrow> bool" where
  "val_ok t v =
     (case v of IntV _ \<Rightarrow> t = INT64 | DoubleV _ \<Rightarrow> t = DOUBLE
      | StringV s \<Rightarrow> t = STRING \<and> length s < 2 ^ 32)"

definition data_ok :: "attributeData \<Rightarrow> bool" where
  "data_ok d \<longleftrightarrow> um_ok (fieldsOf d) \<and>
     (\<forall>(i, v) \<in> set (fieldsOf d). i < length (attributes (schemaOf d))
        \<and> val_ok (attrType (attributes (schemaOf d) ! i)) v)"

fun val_enc :: "attrVal \<Rightarrow> byte list" where
  "val_enc (IntV i) = net_word 8 i"
| "val_enc (DoubleV d) = net_word 8 d"
| "val_enc (StringV s) = string_enc s"

definition data_enc :: "attributeData \<Rightarrow> byte list" where
  "data_enc d = concat (map (val_enc \<circ> snd) (fieldsOf d))"

fun val_size :: "attrVal \<Rightarrow> nat" where
  "val_size (IntV i) = 8"
| "val_size (DoubleV d) = 8"
| "val_size (StringV s) = 4 + length s"

definition data_size :: "attributeData \<Rightarrow> nat" where
  "data_size d = sum_list (map (val_size \<circ> snd) (fieldsOf d))"

lemma length_val_enc [simp, size_simps]: "length (val_enc v) = val_size v"
  by (cases v) (simp_all add: string_enc_def)

lemma length_data_enc [simp, size_simps]: "length (data_enc d) = data_size d"
  by (simp add: data_enc_def data_size_def length_concat comp_def)

lemmas field_defs = addField_def getField_def get_int_def get_double_def get_string_def val_ok_def

lemma addField_appends:
  assumes "i < length (attributes s)" and "val_ok (attrType (attributes s ! i)) v"
  shows "appends (addField s (i, v)) (val_enc v)"
  using assms c_int64.add_appends c_double.add_appends c_string.add_appends
  by (cases v) (auto simp: field_defs [abs_def] vec_at_def)

lemma getField_consumes:
  assumes "i < length (attributes s)" and "val_ok (attrType (attributes s ! i)) v"
  shows "consumes (getField s i) (val_enc v) v"
  using assms consumes_map [OF c_int64.get_consumes, where f = IntV]
    consumes_map [OF c_double.get_consumes, where f = DoubleV]
    consumes_map [OF c_string.get_consumes, where f = StringV]
  by (cases v) (auto simp: field_defs [abs_def] vec_at_def)

lemma addAttributeData_appends:
  "data_ok d \<Longrightarrow> appends (addAttributeData d) (data_enc d)"
  unfolding addAttributeData_def [abs_def] data_enc_def
  by (rule appends_for_each) (auto simp: data_ok_def addField_appends)

lemma setAttribute_schema [simp]: "schemaOf (setAttribute i v d) = schemaOf d"
  by (simp add: setAttribute_def)

lemma fold_setAttribute:
  "fold (\<lambda>(i, v). setAttribute i v) ivs d = d\<lparr>fieldsOf := fold (\<lambda>(k, v). um_put k v) ivs (fieldsOf d)\<rparr>"
  by (induction ivs arbitrary: d) (auto simp: setAttribute_def)

lemma read_fields_consumes:
  assumes "\<forall>(i, v) \<in> set ivs. i < length (attributes (schemaOf d)) \<and> val_ok (attrType (attributes (schemaOf d) ! i)) v"
  shows "consumes (read_fields (map fst ivs) d) (concat (map (val_enc \<circ> snd) ivs))
    (fold (\<lambda>(i, v). setAttribute i v) ivs d)"
  using assms
proof (induction ivs arbitrary: d)
  case Nil
  have "read_fields [] d = (\<lambda>nb. Inr (d, nb))" by (simp add: fun_eq_iff)
  then show ?case by (simp add: consumes_Inr)
next
  case (Cons iv ivs)
  obtain i v where [simp]: "iv = (i, v)" by force
  have "read_fields (i # map fst ivs) d =
      (\<lambda>nb. rbind (getField (schemaOf d) i nb) (\<lambda>(v, nb1). read_fields (map fst ivs) (setAttribute i v d) nb1))"
    by (simp add: fun_eq_iff)
  moreover have "consumes (getField (schemaOf d) i) (val_enc v) v"
    using Cons.prems by (simp add: getField_consumes)
  ultimately show ?case
    using consumes_seq [where g = "getField (schemaOf d) i" and h = "\<lambda>v. read_fields (map fst ivs) (setAttribute i v d)"]
      Cons by simp
qed

lemma getAttributeData_consumes:
  assumes "data_ok d" and "schemaOf d0 = schemaOf d" and "um_keys (fieldsOf d0) = um_keys (fieldsOf d)"
  shows "consumes (getAttributeData d0) (data_enc d) (d0\<lparr>fieldsOf := fieldsOf d\<rparr>)"
proof -
  have "consumes (read_fields (um_keys (fieldsOf d)) d0) (data_enc d)
      (fold (\<lambda>(i, v). setAttribute i v) (fieldsOf d) d0)"
    unfolding data_enc_def using assms(1,2) by (intro read_fields_consumes) (simp add: data_ok_def)
  then show ?thesis
    using assms fold_um_put_overwrite [of "fieldsOf d0" "fieldsOf d"]
    by (simp add: getAttributeData_def [abs_def] fold_setAttribute data_ok_def)
qed

section \<open>Sizes\<close>

lemma getFieldSize_val:
  assumes "data_ok d" and "(i, v) \<in> set (fieldsOf d)"
  shows "getFieldSize d i = Inr (val_size v)"
proof -
  have "um_find (fieldsOf d) i = Some v" using assms by (simp add: data_ok_def map_of_is_SomeI)
  moreover have "i < length (attributes (schemaOf d))" "val_ok (attrType (attributes (schemaOf d) ! i)) v"
    using assms by (auto simp: data_ok_def)
  ultimately show ?thesis
    by (cases v) (simp_all add: getFieldSize_def vec_at_def val_ok_def getIntAttribute_def getDoubleAttribute_def
        getStringAttribute_def getAttribute_def get_int_def get_double_def get_string_def getSerializedSizeOf_string_def)
qed

lemma getSerializedSizeOf_eq: "data_ok d \<Longrightarrow> getSerializedSizeOf d = Inr (data_size d)"
proof -
  assume ok: "data_ok d"
  have "for_each (\<lambda>(i, v) size. rbind (getFieldSize d i) (\<lambda>n. Inr (size + n))) (fieldsOf d) 0
      = Inr (fold (\<lambda>(i, v) size. size + val_size v) (fieldsOf d) 0)"
    by (rule for_each_pure) (auto simp: getFieldSize_val [OF ok])
  moreover have "fold (\<lambda>(i, v) size. size + val_size v) ivs n = n + sum_list (map (val_size \<circ> snd) ivs)"
    for ivs :: "(nat \<times> attrVal) list" and n
    by (induction ivs arbitrary: n) auto
  ultimately show ?thesis by (simp add: getSerializedSizeOf_def data_size_def)
qed

section \<open>Fresh records are well-typed\<close>

definition schema_ok :: "schema \<Rightarrow> bool" where
  "schema_ok s \<longleftrightarrow> (\<forall>i < length (attributes s). attrIndex (attributes s ! i) = i)
     \<and> (\<forall>n i. um_find (nameToIndex s) n = Some i \<longrightarrow> i < length (attributes s) \<and> attrName (attributes s ! i) = n)
     \<and> (\<forall>a \<in> set (attributes s). um_find (nameToIndex s) (attrName a) \<noteq> None)"

lemma add_name_type_ok: "schema_ok s \<Longrightarrow> schema_ok (add_name_type nt s)"
  unfolding schema_ok_def add_name_type_def Let_def
  by (auto simp: nth_append um_emplace_find less_Suc_eq split: if_splits)

lemma Schema_ok: "schema_ok (Schema nts)"
proof -
  have "schema_ok s \<Longrightarrow> schema_ok (fold add_name_type nts s)" for s
    by (induction nts arbitrary: s) (auto simp: add_name_type_ok)
  then show ?thesis by (simp add: Schema_def schema_ok_def)
qed

lemma fold_emplace_fields:
  assumes "\<forall>k < length as. attrIndex (as ! k) = k" and "n \<le> length as"
  shows "fold (\<lambda>a. um_emplace (attrIndex a) (getTypeValue (attrType a))) (take n as) []
    = map (\<lambda>k. (k, getTypeValue (attrType (as ! k)))) [0..<n]"
  using assms(2)
proof (induction n)
  case (Suc n)
  then have "take (Suc n) as = take n as @ [as ! n]" by (simp add: take_Suc_conv_app_nth)
  moreover have "um_emplace n v (map (\<lambda>k. (k, f k)) [0..<n]) = map (\<lambda>k. (k, f k)) [0..<n] @ [(n, v)]"
    for v :: attrVal and f
    by (auto simp: um_emplace_def um_count_iff)
  ultimately show ?case using Suc assms(1) by simp
qed simp

lemma AttributeData_fields:
  "schema_ok s \<Longrightarrow>
    fieldsOf (AttributeData s) = map (\<lambda>k. (k, getTypeValue (attrType (attributes s ! k)))) [0..<length (attributes s)]"
  using fold_emplace_fields [of "attributes s" "length (attributes s)"]
  by (simp add: AttributeData_def schema_ok_def)

lemma schemaOf_AttributeData [simp]: "schemaOf (AttributeData s) = s"
  by (simp add: AttributeData_def)

lemma AttributeData_ok:
  "schema_ok s \<Longrightarrow> \<forall>a \<in> set (attributes s). attrType a \<noteq> UNDEFINED \<Longrightarrow> data_ok (AttributeData s)"
  by (auto simp: data_ok_def AttributeData_fields val_ok_def getTypeValue_def comp_def
      schemaOf_AttributeData split: dataType.splits)

lemma setAttributes_find:
  "um_ok (fieldsOf other) \<Longrightarrow> um_find (fieldsOf (setAttributes other d)) i =
    (case um_find (fieldsOf d) i of None \<Rightarrow> None
     | Some v \<Rightarrow> (case um_find (fieldsOf other) i of None \<Rightarrow> Some v | Some w \<Rightarrow> Some w))"
proof -
  have "um_ok ivs \<Longrightarrow> um_find (fold (\<lambda>(i, v) fs. if um_count fs i then um_put i v fs else fs) ivs fs) i =
    (case um_find fs i of None \<Rightarrow> None
     | Some v \<Rightarrow> (case um_find ivs i of None \<Rightarrow> Some v | Some w \<Rightarrow> Some w))" for ivs fs :: "(nat \<times> attrVal) list"
  proof (induction ivs arbitrary: fs)
    case (Cons kv ivs)
    obtain k v where [simp]: "kv = (k, v)" by force
    from Cons.prems have "um_find ivs k = None" by (simp add: map_of_eq_None_iff)
    with Cons show ?case by (cases "k = i") (simp_all add: um_count_def split: option.splits)
  qed (simp split: option.splits)
  then show "um_ok (fieldsOf other) \<Longrightarrow> ?thesis" by (simp add: setAttributes_def)
qed

lemma setAttributes_keys [simp]: "um_keys (fieldsOf (setAttributes other d)) = um_keys (fieldsOf d)"
proof -
  have "um_keys (fold (\<lambda>(i, v) fs. if um_count fs i then um_put i v fs else fs) ivs fs) = um_keys fs"
    for ivs fs :: "(nat \<times> attrVal) list"
    by (induction ivs arbitrary: fs) (auto simp: um_put_keys um_count_iff)
  then show ?thesis by (simp add: setAttributes_def)
qed

lemma attributeData_written:
  assumes "data_ok d" and "data_size d \<le> 2 ^ 32"
  shows "\<exists>nb. addAttributeData d NetworkByteBuffer = Inr nb \<and> content nb = data_enc d"
  using appends_fresh [OF addAttributeData_appends [OF assms(1)]] assms(2) by simp

section \<open>Properties of attribute data\<close>

lemma attributeData_store_load:
  assumes "data_ok d" and "schemaOf d0 = schemaOf d" and "um_keys (fieldsOf d0) = um_keys (fieldsOf d)"
    and "data_size d \<le> 2 ^ 32"
  shows "\<exists>nb. addAttributeData d NetworkByteBuffer = Inr nb
    \<and> content nb = data_enc d
    \<and> getAttributeData d0 (NetworkByteBuffer_over (content nb) (length (content nb)))
        = Inr (d, NetworkByteBuffer_over (content nb) (length (content nb))\<lparr>ocursor := length (content nb)\<rparr>)"
proof -
  obtain nb where nb: "addAttributeData d NetworkByteBuffer = Inr nb" "content nb = data_enc d"
    using attributeData_written assms by blast
  have "d0\<lparr>fieldsOf := fieldsOf d\<rparr> = d" using assms(2) by simp
  with getAttributeData_consumes [OF assms(1-3)] nb show ?thesis
    unfolding consumes_def by (simp add: NetworkByteBuffer_over_def)
qed

text \<open>C29: serialising well-typed attribute data and reading the bytes into a record of the same schema
  whose fields iterate in the same order returns exactly the data that was written.\<close>

theorem attributeData_round_trip:
  assumes "data_ok d" and "schemaOf d0 = schemaOf d" and "um_keys (fieldsOf d0) = um_keys (fieldsOf d)"
    and "data_size d \<le> 2 ^ 32"
  shows "\<exists>nb. addAttributeData d NetworkByteBuffer = Inr nb
    \<and> content nb = data_enc d
    \<and> getAttributeData d0 (NetworkByteBuffer_over (content nb) (length (content nb)))
        = Inr (d, NetworkByteBuffer_over (content nb) (length (content nb))\<lparr>ocursor := length (content nb)\<rparr>)"
  using assms by (rule attributeData_store_load)

text \<open>A concrete schema and record, for the witnesses of this and later theories.\<close>

definition ex_schema :: schema where
  "ex_schema = Schema [(''age'', INT64), (''nick'', STRING)]"

definition ex_data :: attributeData where
  "ex_data = setAttribute 1 (StringV ''bob'') (AttributeData ex_schema)"

lemma ex_data_fields: "fieldsOf ex_data = [(0, IntV 0), (1, StringV ''bob'')]"
  by code_simp

lemma ex_data_schema: "schemaOf ex_data = ex_schema"
  by (simp add: ex_data_def)

lemma ex_schema_attributes:
  "attributes ex_schema = [\<lparr>attrIndex = 0, attrName = ''age'', attrType = INT64\<rparr>,
     \<lparr>attrIndex = 1, attrName = ''nick'', attrType = STRING\<rparr>]"
  by code_simp

lemma ex_data_ok: "data_ok ex_data"
  by (simp add: data_ok_def ex_data_fields ex_data_schema ex_schema_attributes val_ok_def)

lemma ex_fresh_fields: "fieldsOf (AttributeData ex_schema) = [(0, IntV 0), (1, StringV '''')]"
  by code_simp

theorem attributeData_round_trip_witness:
  "\<exists>nb. addAttributeData ex_data NetworkByteBuffer = Inr nb
    \<and> content nb = data_enc ex_data
    \<and> getAttributeData (AttributeData ex_schema) (NetworkByteBuffer_over (content nb) (length (content nb)))
        = Inr (ex_data, NetworkByteBuffer_over (content nb) (length (content nb))\<lparr>ocursor := length (content nb)\<rparr>)"
  by (rule attributeData_round_trip)
     (simp_all add: ex_data_ok ex_data_schema ex_data_fields ex_fresh_fields data_size_def)

text \<open>C30: the number of bytes a well-typed record occupies on the wire is the number
  \<open>getSerializedSizeOf\<close> computes, field by field the number \<open>getFieldSize\<close> computes.\<close>

theorem getSerializedSizeOf_is_byte_count:
  assumes "data_ok d" and "data_size d \<le> 2 ^ 32"
  shows "\<exists>nb. addAttributeData d NetworkByteBuffer = Inr nb
    \<and> getSerializedSizeOf d = Inr (length (content nb))
    \<and> rbind (for_each (\<lambda>i acc. rbind (getFieldSize d i) (\<lambda>n. Inr (acc + n))) (um_keys (fieldsOf d)) 0)
        (\<lambda>n. Inr (n = length (content nb))) = Inr True"
proof -
  obtain nb where nb: "addAttributeData d NetworkByteBuffer = Inr nb" "content nb = data_enc d"
    using attributeData_written [OF assms] by blast
  have "for_each (\<lambda>i acc. rbind (getFieldSize d i) (\<lambda>n. Inr (acc + n))) (um_keys (fieldsOf d)) 0
      = getSerializedSizeOf d"
    unfolding getSerializedSizeOf_def by (simp add: for_each_map case_prod_unfold comp_def)
  with nb assms(1) show ?thesis by (simp add: getSerializedSizeOf_eq)
qed

theorem getSerializedSizeOf_is_byte_count_witness:
  "\<exists>nb. addAttributeData ex_data NetworkByteBuffer = Inr nb \<and> getSerializedSizeOf ex_data = Inr (length (content nb))"
  using getSerializedSizeOf_is_byte_count [of ex_data] ex_data_ok
  by (auto simp: data_size_def ex_data_fields)


end
