(* ===== verification/Config.thy ===== *)
theory Config
  imports SchemaData
begin

text \<open>
  The configuration of a graph (\<^verbatim>\<open>Conf.h\<close>) and the edge values passed between components
  (\<^verbatim>\<open>Edge.h\<close>). Sizes are \<^verbatim>\<open>size_t\<close>. The accessors of the classes are the selectors of the records;
  the setter functions \<open>setBlockSize\<close> and \<open>setBlockBufferSize\<close> are the only operations with a
  consequence, since the capacity of the expiration map is derived from the block size.
\<close>

section \<open>Configuration\<close>

datatype localityMetric = LM_RCONDUCTANCE | LM_COHESIVENESS | LM_RCC_MIXED

datatype candidatePolicy = ICS_Random | ICS_Old | ICS_New | ICS_Max | ICS_Min | ICS_nPolicies

datatype layoutMode = LM_Random | LM_Old | LM_Max | LM_Smart

record smartLayoutConf =
  localityMetric :: localityMetric
  initialCandidateSelectionPolicy :: candidatePolicy
  seedEdgeCount :: nat
  initialCandidateCount :: nat

definition SmartLayoutConf :: smartLayoutConf where
  "SmartLayoutConf =
     \<lparr>localityMetric = LM_RCC_MIXED, initialCandidateSelectionPolicy = ICS_Old,
      seedEdgeCount = 1, initialCandidateCount = 10\<rparr>"

definition getInitialCandidateSelectionPolicyName :: "candidatePolicy \<Rightarrow> string result" where
  "getInitialCandidateSelectionPolicyName policy =
     (case policy of
        ICS_Random \<Rightarrow> Inr ''Random''
      | ICS_Old \<Rightarrow> Inr ''Old''
      | ICS_New \<Rightarrow> Inr ''New''
      | ICS_Max \<Rightarrow> Inr ''Max''
      | ICS_Min \<Rightarrow> Inr ''Min''
      | ICS_nPolicies \<Rightarrow> Inl AssertionFailed)"

record conf =
  confName :: string
  storageDir :: string
  confWindowSize :: size_t
  blockSize :: size_t
  blockBufferSize :: size_t
  partitioningBufferSize :: size_t
  vertexDataBufferSize :: size_t
  expirationMapSize :: size_t
  layoutMode :: layoutMode
  smartLayoutConf :: smartLayoutConf
  vertexSchema :: schema
  edgeSchema :: schema

definition expiration_size :: "size_t \<Rightarrow> size_t \<Rightarrow> size_t" where
  "expiration_size window blk = max (window div 100) (blk div (8 + 8))"

definition Conf :: "string \<Rightarrow> string \<Rightarrow> (string \<times> dataType) list \<Rightarrow> (string \<times> dataType) list \<Rightarrow> conf" where
  "Conf name dir vs es =
     \<lparr>confName = name, storageDir = dir, confWindowSize = 1024 * 1024, blockSize = 16 * 1024,
      blockBufferSize = 16 * 1024, partitioningBufferSize = 16 * 1024, vertexDataBufferSize = 100 * 1024,
      expirationMapSize = expiration_size (1024 * 1024) (16 * 1024), layoutMode = LM_Smart,
      smartLayoutConf = SmartLayoutConf, vertexSchema = Schema vs, edgeSchema = Schema es\<rparr>"

definition getLayoutModeName :: "layoutMode \<Rightarrow> string" where
  "getLayoutModeName layout =
     (case layout of LM_Random \<Rightarrow> ''Random'' | LM_Old \<Rightarrow> ''Old'' | LM_Max \<Rightarrow> ''Max'' | LM_Smart \<Rightarrow> ''Smart'')"

definition setBlockSize :: "size_t \<Rightarrow> conf \<Rightarrow> conf" where
  "setBlockSize n c = c\<lparr>blockSize := n, expirationMapSize := expiration_size (confWindowSize c) n\<rparr>"

definition setBlockBufferSize :: "size_t \<Rightarrow> conf \<Rightarrow> conf" where
  "setBlockBufferSize n c = c\<lparr>blockBufferSize := n\<rparr>"

section \<open>Edges\<close>

record directedEdge =
  fromV :: vertexId
  toV :: vertexId
  dtm :: timestamp

record uEdge =
  firstVertex :: vertexId
  secondVertex :: vertexId
  utm :: timestamp

definition UEdge :: "vertexId \<Rightarrow> vertexId \<Rightarrow> timestamp \<Rightarrow> uEdge" where
  "UEdge v u t = \<lparr>firstVertex = v, secondVertex = u, utm = t\<rparr>"

section \<open>Capacity of the expiration map\<close>

definition conf_ok :: "conf \<Rightarrow> bool" where
  "conf_ok c \<longleftrightarrow> expirationMapSize c = expiration_size (confWindowSize c) (blockSize c)"

lemma Conf_ok: "conf_ok (Conf n d vs es)"
  by (simp add: conf_ok_def Conf_def)

lemma setBlockSize_ok: "conf_ok (setBlockSize n c)"
  by (simp add: conf_ok_def setBlockSize_def)

lemma expiration_size_bound: "unat (expiration_size w b) \<le> 2 ^ 64 div 16"
proof -
  have "unat (max x y) = max (unat x) (unat y)" for x y :: size_t
    by (simp add: max_def word_le_nat_alt)
  moreover have "unat (w div 100) \<le> 2 ^ 64 div 16" "unat (b div 16) \<le> 2 ^ 64 div 16"
    using unat_lt_64 [of w] unat_lt_64 [of b] by (simp_all add: unat_div del: unat_lt_64)
  ultimately show ?thesis by (simp add: expiration_size_def)
qed

end
