(* ===== verification/BlockStore.thy ===== *)
theory BlockStore
  imports SchemaData
begin

text \<open>
  Neighbour lists and blocks: \<^verbatim>\<open>NeighborList.h/.cpp\<close> and \<^verbatim>\<open>Block.h/.cpp\<close>. A block groups the
  neighbour lists of some vertices; a neighbour list is the time-ordered sequence of the edges of one
  vertex.

  A \<^verbatim>\<open>shared_ptr<AttributeData>\<close> is an optional pair of an address and the record behind it; records
  are never changed once an edge points to them, so sharing is visible only through the pointer
  comparison in \<open>addEdge\<close>. That comparison stays within one block, so the operations that build a new
  block number its records from 0. \<open>serializedSize\<close> is a \<^verbatim>\<open>size_t\<close> and wraps. \<open>partitionNo\<close> is
  \<open>None\<close> until it is assigned, since the constructor leaves it uninitialised.

  \<^verbatim>\<open>std::lower_bound\<close> requires a list sorted by time and then returns the first position whose time is
  not below the key, which is what \<open>lower_bound\<close> computes.
\<close>

section \<open>Neighbour lists\<close>

type_synonym 'a shared_ptr = "(nat \<times> 'a) option"

record edge =
  toVertex :: vertexId
  tm :: timestamp
  edata :: "attributeData shared_ptr"

record neighborList =
  headVertex :: vertexId
  edges :: "edge list"

definition lower_bound :: "edge list \<Rightarrow> timestamp \<Rightarrow> nat" where
  "lower_bound es t = length (takeWhile (\<lambda>e. dlt (tm e) t) es)"

text \<open>\<open>None\<close>: not found; otherwise the pointer stored with the edge.\<close>

fun scan_time :: "vertexId \<Rightarrow> timestamp \<Rightarrow> edge list \<Rightarrow> attributeData shared_ptr option" where
  "scan_time to t [] = None"
| "scan_time to t (e # es) =
     (if deq (tm e) t then if toVertex e = to then Some (edata e) else scan_time to t es else None)"

definition getEdgeAttributeData :: "neighborList \<Rightarrow> vertexId \<Rightarrow> timestamp \<Rightarrow> attributeData shared_ptr option" where
  "getEdgeAttributeData nl to t = scan_time to t (drop (lower_bound (edges nl) t) (edges nl))"

definition hasEdgesInRange :: "neighborList \<Rightarrow> timestamp \<Rightarrow> timestamp \<Rightarrow> bool" where
  "hasEdgesInRange nl start end1 =
     (let it = lower_bound (edges nl) start
      in if it = length (edges nl) then False
         else if dge (tm (edges nl ! it)) end1 then False else True)"

definition nl_addEdge :: "edge \<Rightarrow> neighborList \<Rightarrow> neighborList" where
  "nl_addEdge e nl = nl\<lparr>edges := edges nl @ [e]\<rparr>"

definition getNthOldestEdge :: "neighborList \<Rightarrow> nat \<Rightarrow> edge result" where
  "getNthOldestEdge nl n = vec_index (edges nl) n"

definition getOldestEdge :: "neighborList \<Rightarrow> edge result" where
  "getOldestEdge nl = (case edges nl of [] \<Rightarrow> Inl UndefinedBehavior | e # es \<Rightarrow> Inr e)"

definition getNewestEdge :: "neighborList \<Rightarrow> edge result" where
  "getNewestEdge nl = (if edges nl = [] then Inl UndefinedBehavior else Inr (last (edges nl)))"

definition removeOldestEdge :: "neighborList \<Rightarrow> neighborList" where
  "removeOldestEdge nl = nl\<lparr>edges := tl (edges nl)\<rparr>"

definition nl_removeNewestEdge :: "neighborList \<Rightarrow> neighborList" where
  "nl_removeNewestEdge nl = nl\<lparr>edges := butlast (edges nl)\<rparr>"

section \<open>Blocks\<close>

record block =
  bid :: blockId
  partitionNo :: "32 word option"
  serializedSize :: "64 word"
  subBlocks :: "blockId list"
  neigs :: "(vertexId, neighborList) umap"

definition Block :: "blockId \<Rightarrow> block" where
  "Block i = \<lparr>bid = i, partitionNo = None, serializedSize = 8, subBlocks = [], neigs = []\<rparr>"

definition no_partition :: "32 word" where
  "no_partition = - 1"

type_synonym edgeTriplet = "vertexId \<times> vertexId \<times> timestamp"

definition EdgeTriplet :: "vertexId \<Rightarrow> vertexId \<Rightarrow> timestamp \<Rightarrow> edgeTriplet" where
  "EdgeTriplet id1 id2 t = (min id1 id2, max id1 id2, t)"

definition EdgeTriplet_eq :: "edgeTriplet \<Rightarrow> edgeTriplet \<Rightarrow> bool" where
  "EdgeTriplet_eq x y =
     (case x of (l, h, t) \<Rightarrow> case y of (l', h', t') \<Rightarrow> l = l' \<and> h = h' \<and> deq t t')"

text \<open>Hash maps and sets keyed by triplets, whose key equality is \<open>EdgeTriplet_eq\<close>.\<close>

definition et_find :: "(edgeTriplet \<times> 'a) list \<Rightarrow> edgeTriplet \<Rightarrow> 'a option" where
  "et_find m k = map_option snd (List.find (\<lambda>(k', v). EdgeTriplet_eq k' k) m)"

definition et_count :: "edgeTriplet list \<Rightarrow> edgeTriplet \<Rightarrow> bool" where
  "et_count s k = list_ex (\<lambda>k'. EdgeTriplet_eq k' k) s"

definition addNeighborList :: "vertexId \<Rightarrow> block \<Rightarrow> block" where
  "addNeighborList i b =
     (if um_count (neigs b) i then b
      else b\<lparr>neigs := um_put i \<lparr>headVertex = i, edges = []\<rparr> (neigs b),
             serializedSize := serializedSize b + 8 + 4\<rparr>)"

fun minmax_step :: "vertexId \<times> neighborList \<Rightarrow> timestamp \<times> timestamp \<Rightarrow> (timestamp \<times> timestamp) result" where
  "minmax_step (v, nlist) (mn, mx) =
     rbind (getOldestEdge nlist) (\<lambda>oldest.
     rbind (getNewestEdge nlist) (\<lambda>newest.
       Inr (if dlt (tm oldest) mn then tm oldest else mn,
            if dgt (tm newest) mx then tm newest else mx)))"

definition findMinMaxTimestamps :: "block \<Rightarrow> (timestamp \<times> timestamp) result" where
  "findMinMaxTimestamps b = for_each minmax_step (neigs b) (d_max, 0)"

definition d_two :: double where
  "d_two = 4611686018427387904"

definition getPartitioningTimestamp :: "block \<Rightarrow> timestamp result" where
  "getPartitioningTimestamp b =
     rbind (findMinMaxTimestamps b) (\<lambda>(mn, mx). Inr (ddiv (dadd mn mx) d_two))"

text \<open>The last part of \<open>addEdge\<close>: append to the neighbour list of the head, created if need be.\<close>

definition append_edge :: "vertexId \<Rightarrow> edge \<Rightarrow> block \<Rightarrow> block result" where
  "append_edge head e b =
     (let b2 = addNeighborList head b
      in rbind (deref (um_find (neigs b2) head)) (\<lambda>nlist.
           Inr (b2\<lparr>neigs := um_put head (nl_addEdge e nlist) (neigs b2),
                  serializedSize := serializedSize b2 + 8 + 8\<rparr>)))"

definition addEdge :: "vertexId \<Rightarrow> vertexId \<Rightarrow> timestamp \<Rightarrow> attributeData shared_ptr \<Rightarrow> block \<Rightarrow> block result" where
  "addEdge head to t data b =
     rbind (case um_find (neigs b) to of
              None \<Rightarrow> Inr None
            | Some nlist \<Rightarrow>
                (case getEdgeAttributeData nlist head t of
                   None \<Rightarrow> Inr None
                 | Some sdata \<Rightarrow>
                     rbind (assert_that (map_option fst sdata = map_option fst data)) (\<lambda>_. Inr sdata)))
       (\<lambda>sdata.
     rbind (case sdata of
              Some p \<Rightarrow> Inr (sdata, b)
            | None \<Rightarrow> rbind (deref data) (\<lambda>p. rbind (getSerializedSizeOf (snd p)) (\<lambda>n.
                        Inr (data, b\<lparr>serializedSize := serializedSize b + word_of_nat n\<rparr>))))
       (\<lambda>(sd, b1). append_edge head \<lparr>toVertex = to, tm = t, edata = sd\<rparr> b1))"

definition removeNewestEdge :: "vertexId \<Rightarrow> block \<Rightarrow> block result" where
  "removeNewestEdge head b =
     (case um_find (neigs b) head of
        None \<Rightarrow> Inl AssertionFailed
      | Some nlist \<Rightarrow>
          rbind (getNewestEdge nlist) (\<lambda>e.
          rbind (case um_find (neigs b) (toVertex e) of
                   None \<Rightarrow> Inr (serializedSize b)
                 | Some nl \<Rightarrow>
                     (case getEdgeAttributeData nl head (tm e) of
                        Some _ \<Rightarrow> Inr (serializedSize b)
                      | None \<Rightarrow> rbind (deref (edata e)) (\<lambda>p. rbind (getSerializedSizeOf (snd p)) (\<lambda>n.
                                  Inr (serializedSize b - word_of_nat n)))))
            (\<lambda>sz.
            let nlist1 = nl_removeNewestEdge nlist
            in if edges nlist1 = []
               then Inr (b\<lparr>neigs := um_erase head (neigs b), serializedSize := sz - 8 - 8 - 4 - 8\<rparr>)
               else Inr (b\<lparr>neigs := um_put head nlist1 (neigs b), serializedSize := sz - 8 - 8\<rparr>))))"

definition addSubBlockId :: "blockId \<Rightarrow> block \<Rightarrow> block" where
  "addSubBlockId i b = b\<lparr>subBlocks := subBlocks b @ [i]\<rparr>"

section \<open>Splitting a block by a partitioning and putting it together again\<close>

type_synonym readMap = "(edgeTriplet \<times> attributeData shared_ptr) list"

text \<open>The record of one sub-block edge: the attributes of the partition, copied from the edge.\<close>

definition project_data :: "schema \<Rightarrow> string list \<Rightarrow> edge \<Rightarrow> attributeData result" where
  "project_data s attrs e =
     rbind (newAttributeData_of s attrs) (\<lambda>d0.
       for_each (\<lambda>attrb d.
         rbind (getIndex s attrb) (\<lambda>i.
         rbind (deref (edata e)) (\<lambda>p.
         rbind (getAttribute (snd p) i) (\<lambda>v. Inr (setAttribute i v d))))) attrs d0)"

definition share_or_make ::
  "edgeTriplet \<Rightarrow> attributeData result \<Rightarrow> readMap \<Rightarrow> (attributeData shared_ptr \<times> readMap) result" where
  "share_or_make etrip mk rd =
     (case et_find rd etrip of
        Some sdata \<Rightarrow> Inr (sdata, rd)
      | None \<Rightarrow> rbind mk (\<lambda>d. let sdata = Some (length rd, d) in Inr (sdata, rd @ [(etrip, sdata)])))"

fun sub_block_edge :: "schema \<Rightarrow> string list \<Rightarrow> vertexId \<times> edge \<Rightarrow> block \<times> readMap \<Rightarrow> (block \<times> readMap) result" where
  "sub_block_edge s attrs (head, e) (b, rd) =
     rbind (share_or_make (EdgeTriplet head (toVertex e) (tm e)) (project_data s attrs e) rd) (\<lambda>(sdata, rd1).
     rbind (addEdge head (toVertex e) (tm e) sdata b) (\<lambda>b1. Inr (b1, rd1)))"

definition list_edges :: "vertexId \<times> neighborList \<Rightarrow> (vertexId \<times> edge) list" where
  "list_edges p = map (\<lambda>e. (fst p, e)) (edges (snd p))"

definition all_edges :: "(vertexId, neighborList) umap \<Rightarrow> (vertexId \<times> edge) list" where
  "all_edges m = concat (map list_edges m)"

definition master_block :: "schema \<Rightarrow> block \<Rightarrow> block result" where
  "master_block s b =
     rbind (newAttributeData_of s []) (\<lambda>d.
       for_each (\<lambda>(head, e) b1. addEdge head (toVertex e) (tm e) (Some (0, d)) b1)
         (all_edges (neigs b)) (Block 0\<lparr>partitionNo := Some no_partition\<rparr>))"

definition sub_block :: "schema \<Rightarrow> block \<Rightarrow> nat \<Rightarrow> string list \<Rightarrow> block result" where
  "sub_block s b i attrs =
     rbind (for_each (sub_block_edge s attrs) (all_edges (neigs b))
             (Block 0\<lparr>partitionNo := Some (word_of_nat i)\<rparr>, []))
       (\<lambda>(b1, _). Inr b1)"

fun map_result :: "('a \<Rightarrow> 'b result) \<Rightarrow> 'a list \<Rightarrow> 'b list result" where
  "map_result f [] = Inr []"
| "map_result f (x # xs) = rbind (f x) (\<lambda>y. rbind (map_result f xs) (\<lambda>ys. Inr (y # ys)))"

text \<open>\<open>getPart\<close> is \<^verbatim>\<open>PartitionIndex::getTimeSlicedPartitioning\<close> with the index's state; a partitioning
  is a vector of attribute sets, each in its iteration order.\<close>

type_synonym partitioning = "string list list"

definition partitionBlock ::
  "schema \<Rightarrow> (timestamp \<Rightarrow> 'p \<Rightarrow> (partitioning \<times> 'p) result) \<Rightarrow> block \<Rightarrow> 'p \<Rightarrow> (block list \<times> 'p) result" where
  "partitionBlock s getPart b pidx =
     rbind (getPartitioningTimestamp b) (\<lambda>t.
     rbind (getPart t pidx) (\<lambda>(part, pidx1).
     rbind (master_block s b) (\<lambda>master.
     rbind (map_result (\<lambda>(i, attrs). sub_block s b i attrs) (List.enumerate 0 part)) (\<lambda>subs.
       Inr (master # subs, pidx1)))))"

text \<open>\<open>getBlk\<close> is \<^verbatim>\<open>BlockManager::getBlock\<close>, with the manager's state.\<close>

fun gather_data ::
  "(blockId \<Rightarrow> 'm \<Rightarrow> (block \<times> 'm) result) \<Rightarrow> vertexId \<Rightarrow> nat \<Rightarrow> blockId list \<Rightarrow> attributeData \<Rightarrow> 'm
     \<Rightarrow> (attributeData \<times> 'm) result" where
  "gather_data getBlk head k [] d m = Inr (d, m)"
| "gather_data getBlk head k (i # is) d m =
     rbind (getBlk i m) (\<lambda>(sub, m1).
     rbind (deref (um_find (neigs sub) head)) (\<lambda>nl.
     rbind (vec_index (edges nl) k) (\<lambda>e.
     rbind (deref (edata e)) (\<lambda>p. gather_data getBlk head k is (setAttributes (snd p) d) m1))))"

fun recombine_edge ::
  "schema \<Rightarrow> (blockId \<Rightarrow> 'm \<Rightarrow> (block \<times> 'm) result) \<Rightarrow> blockId list \<Rightarrow> vertexId \<times> nat \<times> edge
     \<Rightarrow> block \<times> readMap \<times> 'm \<Rightarrow> (block \<times> readMap \<times> 'm) result" where
  "recombine_edge s getBlk subs (head, k, e) (b, rd, m) =
     (let etrip = EdgeTriplet head (toVertex e) (tm e)
      in rbind (case et_find rd etrip of
                  Some sdata \<Rightarrow> Inr (sdata, rd, m)
                | None \<Rightarrow>
                    rbind (gather_data getBlk head k subs (newAttributeData s) m) (\<lambda>(d, m1).
                      let sdata = Some (length rd, d) in Inr (sdata, rd @ [(etrip, sdata)], m1)))
           (\<lambda>(sdata, rd1, m1).
             rbind (addEdge head (toVertex e) (tm e) sdata b) (\<lambda>b1. Inr (b1, rd1, m1))))"

definition numbered_edges :: "(vertexId, neighborList) umap \<Rightarrow> (vertexId \<times> nat \<times> edge) list" where
  "numbered_edges m = concat (map (\<lambda>(v, nl). map (\<lambda>(k, e). (v, k, e)) (List.enumerate 0 (edges nl))) m)"

definition recombineBlock ::
  "schema \<Rightarrow> (blockId \<Rightarrow> 'm \<Rightarrow> (block \<times> 'm) result) \<Rightarrow> block \<Rightarrow> 'm \<Rightarrow> (block \<times> 'm) result" where
  "recombineBlock s getBlk b m =
     rbind (assert_that (0 < length (subBlocks b))) (\<lambda>_.
     rbind (for_each (recombine_edge s getBlk (subBlocks b)) (numbered_edges (neigs b))
             (Block 0\<lparr>partitionNo := Some no_partition\<rparr>, [], m))
       (\<lambda>(b1, rd, m1). Inr (b1, m1)))"

section \<open>Serialisation\<close>

fun ser_edge :: "32 word \<Rightarrow> vertexId \<Rightarrow> edge \<Rightarrow> edgeTriplet list \<times> nbuf \<Rightarrow> (edgeTriplet list \<times> nbuf) result" where
  "ser_edge p head e (written, nb) =
     rbind (addUInt64 (toVertex e) nb) (\<lambda>nb1.
     rbind (addDouble (tm e) nb1) (\<lambda>nb2.
       if p = no_partition then Inr (written, nb2)
       else let etrip = EdgeTriplet head (toVertex e) (tm e)
            in if et_count written etrip then Inr (written, nb2)
               else rbind (deref (edata e)) (\<lambda>d.
                    rbind (addAttributeData (snd d) nb2) (\<lambda>nb3. Inr (written @ [etrip], nb3)))))"

fun ser_list :: "32 word \<Rightarrow> vertexId \<times> neighborList \<Rightarrow> edgeTriplet list \<times> nbuf \<Rightarrow> (edgeTriplet list \<times> nbuf) result" where
  "ser_list p (head, nlist) (written, nb) =
     rbind (addUInt64 head nb) (\<lambda>nb1.
     rbind (addUInt32 (word_of_nat (length (edges nlist))) nb1) (\<lambda>nb2.
       for_each (ser_edge p head) (edges nlist) (written, nb2)))"

definition serialize :: "block \<Rightarrow> nbuf \<Rightarrow> nbuf result" where
  "serialize b nb =
     rbind (findMinMaxTimestamps b) (\<lambda>(mn, mx).
     rbind (addUInt64 (bid b) nb) (\<lambda>nb1.
     rbind (addVector addUInt64 (subBlocks b) nb1) (\<lambda>nb2.
     rbind (addDouble mn nb2) (\<lambda>nb3.
     rbind (addDouble mx nb3) (\<lambda>nb4.
     rbind (deref (partitionNo b)) (\<lambda>p.
     rbind (addInt32 p nb4) (\<lambda>nb5.
     rbind (for_each (ser_list p) (neigs b) ([], nb5)) (\<lambda>(written, nb6).
     rbind (assert_that (p \<noteq> no_partition \<or> 0 < length (subBlocks b))) (\<lambda>_. Inr nb6)))))))))"

text \<open>\<open>attrs\<close> is \<^verbatim>\<open>part[partition_]\<close>; for a master block the code forms that reference out of range and
  never reads it, so it is looked up here only where it is read.\<close>

fun deser_edge ::
  "schema \<Rightarrow> 32 word \<Rightarrow> partitioning \<Rightarrow> attributeData \<Rightarrow> vertexId \<Rightarrow> block \<times> readMap \<times> nbuf
     \<Rightarrow> (block \<times> readMap \<times> nbuf) result" where
  "deser_edge s p part fs head (b, rd, nb) =
     rbind (getUInt64 nb) (\<lambda>(to, nb1).
     rbind (getDouble nb1) (\<lambda>(t, nb2).
     rbind (if p \<noteq> no_partition then
              (let etrip = EdgeTriplet head to t
               in case et_find rd etrip of
                    Some sdata \<Rightarrow> Inr (sdata, rd, nb2)
                  | None \<Rightarrow>
                      rbind (vec_index part (unat p)) (\<lambda>attrs.
                      rbind (newAttributeData_of s attrs) (\<lambda>d0.
                      rbind (getAttributeData d0 nb2) (\<lambda>(d, nb3).
                        let sdata = Some (length rd, d) in Inr (sdata, rd @ [(etrip, sdata)], nb3)))))
            else Inr (Some (0, fs), rd, nb2))
       (\<lambda>(sdata, rd1, nb3).
     rbind (addEdge head to t sdata b) (\<lambda>b1. Inr (b1, rd1, nb3)))))"

fun deser_edges ::
  "schema \<Rightarrow> 32 word \<Rightarrow> partitioning \<Rightarrow> attributeData \<Rightarrow> vertexId \<Rightarrow> nat \<Rightarrow> block \<times> readMap \<times> nbuf
     \<Rightarrow> (block \<times> readMap \<times> nbuf) result" where
  "deser_edges s p part fs head 0 st = Inr st"
| "deser_edges s p part fs head (Suc n) st =
     rbind (deser_edge s p part fs head st) (deser_edges s p part fs head n)"

text \<open>A reader leaves the bytes alone and never moves backwards; this bounds the loop of \<open>deserialize\<close>.\<close>

definition moves :: "nbuf \<Rightarrow> nbuf \<Rightarrow> bool" where
  "moves nb nb' \<longleftrightarrow> buf nb' = buf nb \<and> ocursor nb \<le> ocursor nb'"

lemma moves_trans: "moves a b \<Longrightarrow> moves b c \<Longrightarrow> moves a c"
  by (auto simp: moves_def)

lemma moves_refl: "moves a a"
  by (simp add: moves_def)

lemma take_word_moves:
  "take_word n nb = Inr (w, nb') \<Longrightarrow>
    moves nb nb' \<and> ocursor nb' = ocursor nb + n \<and> ocursor nb + n \<le> length (buf nb)"
  by (auto simp: take_word_def take_bytes_def mem_range_def moves_def rbind_Inr_iff split: if_splits)

lemma scalar_moves:
  "getUInt64 nb = Inr (i, nb') \<Longrightarrow> moves nb nb'"
  "getInt64 nb = Inr (i, nb') \<Longrightarrow> moves nb nb'"
  "getDouble nb = Inr (i, nb') \<Longrightarrow> moves nb nb'"
  "getUInt32 nb = Inr (j, nb') \<Longrightarrow> moves nb nb'"
  by (simp_all add: getUInt64_def getInt64_def getDouble_def getUInt32_def take_word_moves)

lemma getSTLString_moves: "getSTLString nb = Inr (s, nb') \<Longrightarrow> moves nb nb'"
  by (auto simp: getSTLString_def take_bytes_def rbind_Inr_iff moves_def
      dest!: scalar_moves(4) [unfolded moves_def] split: if_splits)

lemma getField_moves: "getField s i nb = Inr (v, nb') \<Longrightarrow> moves nb nb'"
  by (auto simp: getField_def rbind_Inr_iff dest: scalar_moves getSTLString_moves split: dataType.splits)

lemma read_fields_moves: "read_fields is d nb = Inr (d', nb') \<Longrightarrow> moves nb nb'"
proof (induction "is" arbitrary: d nb)
  case Nil
  then show ?case by (simp add: moves_refl)
next
  case (Cons i "is")
  then show ?case by (auto simp: rbind_Inr_iff intro: moves_trans dest!: getField_moves)
qed

lemma deser_edge_moves:
  "deser_edge s p part fs head (b, rd, nb) = Inr (b', rd', nb') \<Longrightarrow> moves nb nb'"
  by (auto simp: rbind_Inr_iff Let_def getAttributeData_def split: if_splits option.splits
      dest!: scalar_moves read_fields_moves intro: moves_trans)

lemma deser_edges_moves:
  "deser_edges s p part fs head n (b, rd, nb) = Inr (b', rd', nb') \<Longrightarrow> moves nb nb'"
proof (induction n arbitrary: b rd nb)
  case 0
  then show ?case by (simp add: moves_refl)
next
  case (Suc n)
  then show ?case
    by (auto simp: rbind_Inr_iff simp del: deser_edge.simps intro: moves_trans dest!: deser_edge_moves Suc.IH)
qed


function deser_loop ::
  "schema \<Rightarrow> 32 word \<Rightarrow> partitioning \<Rightarrow> attributeData \<Rightarrow> block \<Rightarrow> readMap \<Rightarrow> nbuf \<Rightarrow> (block \<times> nbuf) result" where
  "deser_loop s p part fs b rd nb =
     (if 0 < getNRemainingBytes nb
      then rbind (getUInt64 nb) (\<lambda>hn. rbind (getUInt32 (snd hn)) (\<lambda>nn.
           rbind (deser_edges s p part fs (fst hn) (unat (fst nn)) (b, rd, snd nn)) (\<lambda>st.
             deser_loop s p part fs (fst st) (fst (snd st)) (snd (snd st)))))
      else Inr (b, nb))"
  by pat_completeness auto

termination deser_loop
proof (relation "measure (\<lambda>(s, p, part, fs, b, rd, nb). length (buf nb) - ocursor nb)", goal_cases)
  case 1
  then show ?case by simp
next
  case (2 s p part fs b rd nb hn nn st)
  obtain h nb1 where hn: "hn = (h, nb1)" by force
  obtain n nb2 where nn: "nn = (n, nb2)" by force
  obtain b' rd' nb3 where st: "st = (b', rd', nb3)" by (cases st) auto
  have 1: "moves nb nb1" "ocursor nb1 = ocursor nb + 8" "ocursor nb + 8 \<le> length (buf nb)"
    using 2(2) take_word_moves [of 8 nb h nb1] by (simp_all add: hn getUInt64_def)
  have "moves nb1 nb2" using 2(3) scalar_moves(4) by (simp add: hn nn)
  moreover have "moves nb2 nb3" using 2(4) deser_edges_moves by (simp add: hn nn st)
  ultimately show ?case using 1 by (auto simp: hn nn st moves_def)
qed

definition deserialize ::
  "schema \<Rightarrow> (timestamp \<Rightarrow> 'p \<Rightarrow> (partitioning \<times> 'p) result) \<Rightarrow> block \<Rightarrow> nbuf \<Rightarrow> 'p \<Rightarrow> (block \<times> nbuf \<times> 'p) result" where
  "deserialize s getPart b nb pidx =
     rbind (getUInt64 nb) (\<lambda>(i, nb1).
     rbind (getVector getUInt64 (subBlocks b) nb1) (\<lambda>(subs, nb2).
     rbind (getDouble nb2) (\<lambda>(mn, nb3).
     rbind (getDouble nb3) (\<lambda>(mx, nb4).
     rbind (getInt32 nb4) (\<lambda>(p, nb5).
     rbind (getPart (ddiv (dadd mn mx) d_two) pidx) (\<lambda>(part, pidx1).
     rbind (newAttributeData_of s []) (\<lambda>fs.
     rbind (deser_loop s p part fs (b\<lparr>bid := i, subBlocks := subs, partitionNo := Some p\<rparr>) [] nb5) (\<lambda>(b1, nb6).
     rbind (assert_that (p \<noteq> no_partition \<or> 0 < length (subBlocks b1))) (\<lambda>_.
       Inr (b1, nb6, pidx1))))))))))"

end
