(* ===== verification/BlockLemmas.thy ===== *)
theory BlockLemmas
  imports BlockStore
begin

text \<open>
  Lemmas on blocks that the properties of serialisation, partitioning and size accounting share.
  A block is looked at through its \<open>view\<close>: for each head vertex the sequence of its edges with the
  attribute values, without the addresses of the records. The central lemma \<open>copy_step\<close> is about the
  loop body that \<open>deserialize\<close>, \<open>partitionBlock\<close> and \<open>recombineBlock\<close> have in common: look the edge up
  among the triplets already seen, make a new record if it is not there, and add the edge.
\<close>

section \<open>Triplets\<close>

definition trip :: "vertexId \<Rightarrow> edge \<Rightarrow> edgeTriplet" where
  "trip h e = EdgeTriplet h (toVertex e) (tm e)"

lemma deq_sym: "deq a b \<Longrightarrow> deq b a"
  by (auto simp: deq_def)

lemma deq_trans: "deq a b \<Longrightarrow> deq b c \<Longrightarrow> deq a c"
  by (auto simp: deq_def)

lemma deq_refl [simp]: "deq a a \<longleftrightarrow> \<not> is_nan a"
  by (auto simp: deq_def)

lemma EdgeTriplet_eq_sym: "EdgeTriplet_eq a b \<Longrightarrow> EdgeTriplet_eq b a"
  by (auto simp: EdgeTriplet_eq_def deq_sym)

lemma EdgeTriplet_eq_trans: "EdgeTriplet_eq a b \<Longrightarrow> EdgeTriplet_eq b c \<Longrightarrow> EdgeTriplet_eq a c"
  by (auto simp: EdgeTriplet_eq_def intro: deq_trans)

lemma trip_refl [simp]: "EdgeTriplet_eq (trip h e) (trip h e) \<longleftrightarrow> \<not> is_nan (tm e)"
  by (simp add: EdgeTriplet_eq_def trip_def EdgeTriplet_def)

lemma trip_reverse:
  "toVertex e = h \<Longrightarrow> deq (tm e) t \<Longrightarrow> EdgeTriplet_eq (trip v e) (EdgeTriplet h v t)"
  by (simp add: trip_def EdgeTriplet_def EdgeTriplet_eq_def min.commute max.commute)

lemma et_find_snoc:
  "et_find (m @ [(k, v)]) k' =
    (case et_find m k' of Some x \<Rightarrow> Some x | None \<Rightarrow> if EdgeTriplet_eq k k' then Some v else None)"
  unfolding et_find_def by (induction m) auto

lemma et_find_cong: "EdgeTriplet_eq a b \<Longrightarrow> et_find m a = et_find m b"
proof -
  assume "EdgeTriplet_eq a b"
  then have "EdgeTriplet_eq k a \<longleftrightarrow> EdgeTriplet_eq k b" for k
    using EdgeTriplet_eq_trans EdgeTriplet_eq_sym by blast
  then show ?thesis by (simp add: et_find_def)
qed

section \<open>Edges of a block\<close>

definition nb_push :: "vertexId \<Rightarrow> edge \<Rightarrow> (vertexId, neighborList) umap \<Rightarrow> (vertexId, neighborList) umap" where
  "nb_push h e m =
     um_put h (nl_addEdge e (case um_find m h of None \<Rightarrow> \<lparr>headVertex = h, edges = []\<rparr> | Some nl \<Rightarrow> nl)) m"

definition heads_ok :: "(vertexId, neighborList) umap \<Rightarrow> bool" where
  "heads_ok m \<longleftrightarrow> um_ok m \<and> (\<forall>(h, nl) \<in> set m. headVertex nl = h \<and> edges nl \<noteq> [])"

definition found :: "block \<Rightarrow> vertexId \<Rightarrow> vertexId \<Rightarrow> timestamp \<Rightarrow> bool" where
  "found b to h t =
     (case um_find (neigs b) to of None \<Rightarrow> False | Some nl \<Rightarrow> getEdgeAttributeData nl h t \<noteq> None)"

lemma scan_time_SomeD:
  "scan_time to t es = Some p \<Longrightarrow> \<exists>e \<in> set es. toVertex e = to \<and> deq (tm e) t \<and> edata e = p"
  by (induction es) (auto split: if_splits)

lemma getEdgeAttributeData_SomeD:
  "getEdgeAttributeData nl to t = Some p \<Longrightarrow> \<exists>e \<in> set (edges nl). toVertex e = to \<and> deq (tm e) t \<and> edata e = p"
  unfolding getEdgeAttributeData_def by (metis in_set_dropD scan_time_SomeD)

lemma all_edges_mem: "(h, e) \<in> set (all_edges m) \<longleftrightarrow> (\<exists>nl. (h, nl) \<in> set m \<and> e \<in> set (edges nl))"
  by (force simp: all_edges_def list_edges_def)

lemma all_edges_find:
  "um_ok m \<Longrightarrow> (h, e) \<in> set (all_edges m) \<longleftrightarrow> (\<exists>nl. um_find m h = Some nl \<and> e \<in> set (edges nl))"
  by (auto simp: all_edges_mem)

lemma nb_push_ok: "heads_ok m \<Longrightarrow> heads_ok (nb_push h e m)"
proof -
  assume ok: "heads_ok m"
  then have d: "um_ok (nb_push h e m)" by (simp add: heads_ok_def nb_push_def)
  have "headVertex nl = h' \<and> edges nl \<noteq> []" if "(h', nl) \<in> set (nb_push h e m)" for h' nl
  proof -
    from d that have "um_find (nb_push h e m) h' = Some nl" by (simp add: map_of_is_SomeI)
    with ok show ?thesis
      by (auto simp: nb_push_def nl_addEdge_def heads_ok_def split: if_splits option.splits dest: map_of_SomeD)
  qed
  with d show ?thesis by (auto simp: heads_ok_def)
qed

lemma all_edges_push: "um_ok m \<Longrightarrow> set (all_edges (nb_push h e m)) = insert (h, e) (set (all_edges m))"
proof -
  assume ok: "um_ok m"
  then have ok': "um_ok (nb_push h e m)" by (simp add: nb_push_def)
  have "(h', e') \<in> set (all_edges (nb_push h e m)) \<longleftrightarrow> (h', e') = (h, e) \<or> (h', e') \<in> set (all_edges m)" for h' e'
    unfolding all_edges_find [OF ok] all_edges_find [OF ok']
    by (auto simp: nb_push_def nl_addEdge_def split: option.splits)
  then show ?thesis by auto
qed

lemma um_put_put: "um_put k v (um_put k w m) = um_put k v m"
  by (simp add: um_put_def update_last)

text \<open>What \<open>addEdge\<close> does when the pointer agrees with the one already stored for the edge.\<close>

lemma addEdge_result:
  assumes "data_ok d"
    and "\<And>nl sd. um_find (neigs b) to = Some nl \<Longrightarrow> getEdgeAttributeData nl head t = Some sd \<Longrightarrow> sd = Some (a, d)"
  shows "addEdge head to t (Some (a, d)) b =
    Inr (b\<lparr>neigs := nb_push head \<lparr>toVertex = to, tm = t, edata = Some (a, d)\<rparr> (neigs b),
           serializedSize := serializedSize b + (if found b to head t then 0 else word_of_nat (data_size d))
             + (if um_count (neigs b) head then 0 else 12) + 16\<rparr>)"
proof -
  have add: "append_edge head e b1 = Inr (b1\<lparr>neigs := nb_push head e (neigs b1),
           serializedSize := serializedSize b1 + (if um_count (neigs b1) head then 0 else 12) + 16\<rparr>)" for b1 e
    by (auto simp: append_edge_def Let_def addNeighborList_def nb_push_def um_count_def um_put_put
        split: option.splits)
  show ?thesis
  proof (cases "found b to head t")
    case True
    then obtain nl where nl: "um_find (neigs b) to = Some nl" "getEdgeAttributeData nl head t = Some (Some (a, d))"
      using assms(2) by (auto simp: found_def split: option.splits)
    with True show ?thesis by (simp add: addEdge_def add)
  next
    case False
    then show ?thesis
      by (auto simp: addEdge_def found_def add getSerializedSizeOf_eq [OF assms(1)] split: option.splits)
  qed
qed

section \<open>Views\<close>

type_synonym vedge = "vertexId \<times> timestamp \<times> attributeData option"

definition strip :: "edge \<Rightarrow> vedge" where
  "strip e = (toVertex e, tm e, map_option snd (edata e))"

definition view :: "(vertexId, neighborList) umap \<Rightarrow> (vertexId, vedge list) umap" where
  "view m = map (\<lambda>(h, nl). (h, map strip (edges nl))) m"

definition vpush :: "vertexId \<Rightarrow> 'x \<Rightarrow> (vertexId, 'x list) umap \<Rightarrow> (vertexId, 'x list) umap" where
  "vpush h x m = um_put h ((case um_find m h of None \<Rightarrow> [] | Some xs \<Rightarrow> xs) @ [x]) m"

lemma um_find_map: "map_of (map (\<lambda>(h, x). (h, f x)) m) k = map_option f (map_of m k)"
  by (induction m) auto

lemma um_put_map: "map (\<lambda>(h, x). (h, f x)) (um_put k v m) = um_put k (f v) (map (\<lambda>(h, x). (h, f x)) m)"
  unfolding um_put_def by (induction m) auto

lemma view_push: "view (nb_push h e m) = vpush h (strip e) (view m)"
  unfolding view_def nb_push_def vpush_def um_put_map um_find_map
  by (simp add: nl_addEdge_def split: option.splits)

lemma um_find_absent: "h \<notin> fst ` set m \<Longrightarrow> map_of m h = None"
  by (simp add: map_of_eq_None_iff)

lemma vpush_new: "h \<notin> set (um_keys m) \<Longrightarrow> vpush h x m = m @ [(h, [x])]"
  by (simp add: vpush_def um_put_new um_find_absent)

lemma vpush_last: "h \<notin> set (um_keys m) \<Longrightarrow> vpush h x (m @ [(h, xs)]) = m @ [(h, xs @ [x])]"
  by (simp add: vpush_def um_put_last um_find_absent map_add_def)

lemma fold_vpush_list:
  "h \<notin> set (um_keys m) \<Longrightarrow> fold (vpush h) xs (m @ [(h, ys)]) = m @ [(h, ys @ xs)]"
  by (induction xs arbitrary: ys) (simp_all add: vpush_last)

text \<open>Pushing the edges of a map in its own order rebuilds the map.\<close>

lemma fold_vpush_rebuild:
  assumes "um_ok (done @ m)" and "\<forall>(h, xs) \<in> set m. xs \<noteq> []"
  shows "fold (\<lambda>(h, x). vpush h x) (concat (map (\<lambda>(h, xs). map (\<lambda>x. (h, x)) xs) m)) done = done @ m"
  using assms
proof (induction m arbitrary: "done")
  case (Cons hx m)
  obtain h xs where [simp]: "hx = (h, xs)" by force
  from Cons.prems obtain x xs' where [simp]: "xs = x # xs'" by (cases xs) auto
  from Cons.prems have h: "h \<notin> set (um_keys done)" by auto
  have "fold (\<lambda>(h, x). vpush h x) (map (\<lambda>x. (h, x)) xs) done = done @ [(h, xs)]"
    using vpush_new [OF h, of x] fold_vpush_list [OF h, of xs' "[x]"] by (simp add: fold_map comp_def)
  with Cons.IH [of "done @ [(h, xs)]"] Cons.prems show ?case by simp
qed simp

section \<open>The copy loop\<close>

text \<open>\<open>copied f xs b rd\<close>: the edges \<open>xs\<close> have been copied into \<open>b\<close>, the record of edge \<open>x\<close> being \<open>f x\<close>;
  \<open>rd\<close> maps the triplets seen so far to the pointers the copies share.\<close>

definition copied :: "(vertexId \<times> edge \<Rightarrow> attributeData) \<Rightarrow> (vertexId \<times> edge) list \<Rightarrow> block \<Rightarrow> readMap \<Rightarrow> bool" where
  "copied f xs b rd \<longleftrightarrow> heads_ok (neigs b)
     \<and> view (neigs b) = fold (\<lambda>(h, e). vpush h (toVertex e, tm e, Some (f (h, e)))) xs []
     \<and> (\<forall>(h, e) \<in> set (all_edges (neigs b)). et_find rd (trip h e) = Some (edata e))
     \<and> (\<forall>k p. et_find rd k = Some p \<longrightarrow>
          (\<exists>(h, e) \<in> set xs. EdgeTriplet_eq (trip h e) k \<and> map_option snd p = Some (f (h, e))))"

definition shared :: "readMap \<Rightarrow> edgeTriplet \<Rightarrow> attributeData \<Rightarrow> attributeData shared_ptr" where
  "shared rd k d = (case et_find rd k of Some p \<Rightarrow> p | None \<Rightarrow> Some (length rd, d))"

definition remember :: "readMap \<Rightarrow> edgeTriplet \<Rightarrow> attributeData \<Rightarrow> readMap" where
  "remember rd k d = (case et_find rd k of Some p \<Rightarrow> rd | None \<Rightarrow> rd @ [(k, Some (length rd, d))])"

lemma et_find_remember:
  "EdgeTriplet_eq k k \<Longrightarrow> et_find (remember rd k d) k = Some (shared rd k d)"
  by (simp add: remember_def shared_def et_find_snoc split: option.splits)

lemma et_find_remember_old: "et_find rd k' = Some p \<Longrightarrow> et_find (remember rd k d) k' = Some p"
  by (simp add: remember_def et_find_snoc split: option.splits)

lemma et_find_rememberD:
  "et_find (remember rd k d) k' = Some p \<Longrightarrow>
    et_find rd k' = Some p \<or> EdgeTriplet_eq k k' \<and> p = Some (length rd, d) \<and> et_find rd k = None"
  by (auto simp: remember_def et_find_snoc split: option.splits if_splits)

lemma copied_init: "copied f [] (Block i) []"
  by (simp add: copied_def heads_ok_def view_def all_edges_def et_find_def Block_def)

lemma copied_update [simp]:
  "copied f xs (b\<lparr>partitionNo := p\<rparr>) rd = copied f xs b rd"
  "copied f xs (b\<lparr>bid := i\<rparr>) rd = copied f xs b rd"
  "copied f xs (b\<lparr>subBlocks := s\<rparr>) rd = copied f xs b rd"
  by (simp_all add: copied_def)

lemma copy_step:
  assumes c: "copied f xs b rd" and "\<not> is_nan (tm e)" and ok: "data_ok (f (h, e))"
    and same: "\<forall>(h', e') \<in> set xs. EdgeTriplet_eq (trip h' e') (trip h e) \<longrightarrow> f (h', e') = f (h, e)"
  shows "\<exists>b1. addEdge h (toVertex e) (tm e) (shared rd (trip h e) (f (h, e))) b = Inr b1
    \<and> copied f (xs @ [(h, e)]) b1 (remember rd (trip h e) (f (h, e)))
    \<and> bid b1 = bid b \<and> partitionNo b1 = partitionNo b \<and> subBlocks b1 = subBlocks b"
proof -
  let ?p = "shared rd (trip h e) (f (h, e))" and ?rd = "remember rd (trip h e) (f (h, e))"
  let ?e = "\<lparr>toVertex = toVertex e, tm = tm e, edata = ?p\<rparr>"
  have refl: "EdgeTriplet_eq (trip h e) (trip h e)" using assms(2) by simp
  have p: "map_option snd ?p = Some (f (h, e))"
  proof (cases "et_find rd (trip h e)")
    case None
    then show ?thesis by (simp add: shared_def)
  next
    case (Some q)
    then obtain h' e' where "(h', e') \<in> set xs" "EdgeTriplet_eq (trip h' e') (trip h e)"
        "map_option snd q = Some (f (h', e'))"
      using c unfolding copied_def by blast
    with same Some show ?thesis by (auto simp: shared_def)
  qed
  then obtain a where a: "?p = Some (a, f (h, e))" by auto
  have heads: "heads_ok (neigs b)" using c by (simp add: copied_def)
  have agree: "sd = ?p" if nl: "um_find (neigs b) (toVertex e) = Some nl"
    and sd: "getEdgeAttributeData nl h (tm e) = Some sd" for nl sd
  proof -
    obtain e' where e': "e' \<in> set (edges nl)" "toVertex e' = h" "deq (tm e') (tm e)" "edata e' = sd"
      using getEdgeAttributeData_SomeD [OF sd] by blast
    have "(toVertex e, e') \<in> set (all_edges (neigs b))"
      using nl e'(1) by (auto simp: all_edges_mem dest: map_of_SomeD)
    then have "et_find rd (trip (toVertex e) e') = Some sd" using c e'(4) by (auto simp: copied_def)
    moreover have "EdgeTriplet_eq (trip (toVertex e) e') (trip h e)"
      using trip_reverse [OF e'(2,3)] by (simp add: trip_def)
    ultimately have "et_find rd (trip h e) = Some sd" by (simp add: et_find_cong)
    then show ?thesis by (simp add: shared_def)
  qed
  have "\<exists>b1. addEdge h (toVertex e) (tm e) ?p b = Inr b1 \<and> neigs b1 = nb_push h ?e (neigs b)
      \<and> bid b1 = bid b \<and> partitionNo b1 = partitionNo b \<and> subBlocks b1 = subBlocks b"
    unfolding a by (subst addEdge_result [OF ok]) (use agree a in auto)
  then obtain b1 where b1: "addEdge h (toVertex e) (tm e) ?p b = Inr b1" "neigs b1 = nb_push h ?e (neigs b)"
      "bid b1 = bid b" "partitionNo b1 = partitionNo b" "subBlocks b1 = subBlocks b" by blast
  have "copied f (xs @ [(h, e)]) b1 ?rd"
    unfolding copied_def b1(2)
  proof (intro conjI)
    show "heads_ok (nb_push h ?e (neigs b))" by (rule nb_push_ok [OF heads])
    show "view (nb_push h ?e (neigs b)) = fold (\<lambda>(h, e). vpush h (toVertex e, tm e, Some (f (h, e)))) (xs @ [(h, e)]) []"
      using c by (simp add: view_push strip_def copied_def a)
    have "um_ok (neigs b)" using heads by (simp add: heads_ok_def)
    moreover have "trip h ?e = trip h e" by (simp add: trip_def)
    ultimately show "\<forall>(h, e) \<in> set (all_edges (nb_push h ?e (neigs b))). et_find ?rd (trip h e) = Some (edata e)"
      using c et_find_remember [OF refl, of rd "f (h, e)"]
      by (auto simp: all_edges_push copied_def dest!: bspec intro: et_find_remember_old)
    show "\<forall>k p. et_find ?rd k = Some p \<longrightarrow>
        (\<exists>(h', e') \<in> set (xs @ [(h, e)]). EdgeTriplet_eq (trip h' e') k \<and> map_option snd p = Some (f (h', e')))"
    proof (intro allI impI)
      fix k p
      assume "et_find ?rd k = Some p"
      then have "et_find rd k = Some p \<or> EdgeTriplet_eq (trip h e) k \<and> p = Some (length rd, f (h, e))"
        by (auto dest: et_find_rememberD)
      then show "\<exists>(h', e') \<in> set (xs @ [(h, e)]). EdgeTriplet_eq (trip h' e') k \<and> map_option snd p = Some (f (h', e'))"
      proof
        assume "et_find rd k = Some p"
        then have "\<exists>(h', e') \<in> set xs. EdgeTriplet_eq (trip h' e') k \<and> map_option snd p = Some (f (h', e'))"
          using c unfolding copied_def by blast
        then show ?thesis by auto
      qed simp
    qed
  qed
  with b1 show ?thesis by blast
qed

text \<open>The view of a completely copied map.\<close>

lemma rebuild_view:
  assumes "heads_ok m"
  shows "fold (\<lambda>(h, e). vpush h (toVertex e, tm e, Some (f (h, e)))) (all_edges m) [] =
    map (\<lambda>(h, nl). (h, map (\<lambda>e. (toVertex e, tm e, Some (f (h, e)))) (edges nl))) m"
proof -
  let ?m = "map (\<lambda>(h, nl). (h, map (\<lambda>e. (toVertex e, tm e, Some (f (h, e)))) (edges nl))) m"
  have keys: "um_keys ?m = um_keys m" by (induction m) auto
  have "um_ok ([] @ ?m)" unfolding append_Nil keys using assms by (simp add: heads_ok_def)
  moreover have "\<forall>(h, xs) \<in> set ?m. xs \<noteq> []"
    using assms by (auto simp: heads_ok_def)
  ultimately have "fold (\<lambda>(h, x). vpush h x) (concat (map (\<lambda>(h, xs). map (\<lambda>x. (h, x)) xs) ?m)) [] = [] @ ?m"
    by (rule fold_vpush_rebuild)
  moreover have "concat (map (\<lambda>(h, xs). map (\<lambda>x. (h, x)) xs) ?m) =
      map (\<lambda>(h, e). (h, (toVertex e, tm e, Some (f (h, e))))) (all_edges m)"
    unfolding all_edges_def map_concat map_map
    by (intro arg_cong [where f = concat] map_cong) (auto simp: list_edges_def)
  ultimately have "fold (\<lambda>(h, x). vpush h x)
      (map (\<lambda>(h, e). (h, (toVertex e, tm e, Some (f (h, e))))) (all_edges m)) [] = ?m" by simp
  then show ?thesis by (simp add: fold_map comp_def case_prod_beta')
qed

lemma copied_view:
  "copied f (all_edges m) b rd \<Longrightarrow> heads_ok m \<Longrightarrow>
    view (neigs b) = map (\<lambda>(h, nl). (h, map (\<lambda>e. (toVertex e, tm e, Some (f (h, e)))) (edges nl))) m"
  by (simp add: copied_def rebuild_view)

end
