(* ===== verification/Queues.thy ===== *)
theory Queues
  imports Double64 "HOL-Library.Multiset"
begin

text \<open>
  The bounded priority queue (\<^verbatim>\<open>PriorityQueue.h\<close>) and the edge window (\<^verbatim>\<open>EdgeFIFO.h\<close>).
  \<^verbatim>\<open>std::set<KeyIdPair>\<close> is the list of its elements in increasing order of \<open>KeyIdPair::operator<\<close>; an
  iterator into it is the element it points to, so the index maps an id to its pair. The program
  instantiates the key with \<^verbatim>\<open>double\<close> (scores and timestamps) and the id with \<open>VertexId\<close>; the id type is
  left generic here.

  The locale \<open>keyed_queue\<close> is what the layout code relies on: the queue is a finite map from ids to
  keys with a first element. It is interpreted on the queue of the code.
\<close>

section \<open>Priority queue\<close>

datatype pqOrder = MinAtTop | MaxAtTop

type_synonym 'i keyIdPair = "double \<times> 'i"

record 'i pqueue =
  maxItemCount :: nat
  items :: "'i keyIdPair list"
  index :: "('i, 'i keyIdPair) umap"

definition kip_less :: "pqOrder \<Rightarrow> ('i::linorder) keyIdPair \<Rightarrow> 'i keyIdPair \<Rightarrow> bool" where
  "kip_less ord a b =
     (case ord of
        MaxAtTop \<Rightarrow> dgt (fst a) (fst b) \<or> deq (fst a) (fst b) \<and> snd a < snd b
      | MinAtTop \<Rightarrow> dlt (fst a) (fst b) \<or> deq (fst a) (fst b) \<and> snd a < snd b)"

fun set_insert :: "pqOrder \<Rightarrow> ('i::linorder) keyIdPair \<Rightarrow> 'i keyIdPair list \<Rightarrow> 'i keyIdPair list \<times> 'i keyIdPair" where
  "set_insert ord x [] = ([x], x)"
| "set_insert ord x (y # ys) =
     (if kip_less ord x y then (x # y # ys, x)
      else if kip_less ord y x then (case set_insert ord x ys of (zs, it) \<Rightarrow> (y # zs, it))
      else (y # ys, y))"

definition PriorityQueue :: "nat \<Rightarrow> ('i::linorder) pqueue" where
  "PriorityQueue n = \<lparr>maxItemCount = n, items = [], index = []\<rparr>"

definition pq_empty :: "('i::linorder) pqueue \<Rightarrow> bool" where
  "pq_empty q = (index q = [])"

definition addItemHasSpace :: "pqOrder \<Rightarrow> double \<Rightarrow> 'i::linorder \<Rightarrow> 'i pqueue \<Rightarrow> 'i pqueue" where
  "addItemHasSpace ord key i q =
     (case set_insert ord (key, i) (items q) of
        (its, it) \<Rightarrow> q\<lparr>items := its, index := um_put i it (index q)\<rparr>)"

definition addItem :: "pqOrder \<Rightarrow> double \<Rightarrow> 'i::linorder \<Rightarrow> 'i pqueue \<Rightarrow> 'i pqueue result" where
  "addItem ord key i q =
     rbind (assert_that (\<not> um_count (index q) i)) (\<lambda>_.
     rbind (if length (items q) = maxItemCount q
            then (if items q = [] then Inl UndefinedBehavior
                  else
                    let bottom = last (items q);
                        out = (case ord of MaxAtTop \<Rightarrow> dge (fst bottom) key | MinAtTop \<Rightarrow> dle (fst bottom) key)
                    in Inr (if out then q
                            else q\<lparr>index := um_erase (snd bottom) (index q), items := butlast (items q)\<rparr>))
            else Inr q)
       (\<lambda>q1. Inr (addItemHasSpace ord key i q1)))"

definition updateItem :: "pqOrder \<Rightarrow> double \<Rightarrow> 'i::linorder \<Rightarrow> 'i pqueue \<Rightarrow> 'i pqueue" where
  "updateItem ord key i q =
     (case um_find (index q) i of
        None \<Rightarrow> addItemHasSpace ord key i q
      | Some it \<Rightarrow>
          if deq key (fst it) then q
          else addItemHasSpace ord key i (q\<lparr>items := remove1 it (items q)\<rparr>))"

definition removeItem :: "'i::linorder \<Rightarrow> 'i pqueue \<Rightarrow> 'i pqueue" where
  "removeItem i q =
     (case um_find (index q) i of
        None \<Rightarrow> q
      | Some it \<Rightarrow> q\<lparr>items := remove1 it (items q), index := um_erase i (index q)\<rparr>)"

definition hasItem :: "'i::linorder \<Rightarrow> 'i pqueue \<Rightarrow> bool" where
  "hasItem i q = um_count (index q) i"

text \<open>\<^verbatim>\<open>index_[id]\<close> of a missing id inserts a singular iterator, which is then dereferenced.\<close>

definition getItemKey :: "'i::linorder \<Rightarrow> 'i pqueue \<Rightarrow> double result" where
  "getItemKey i q = rbind (deref (um_find (index q) i)) (\<lambda>it. Inr (fst it))"

definition getTopItem :: "('i::linorder) pqueue \<Rightarrow> 'i keyIdPair result" where
  "getTopItem q = (case items q of [] \<Rightarrow> Inl UndefinedBehavior | x # xs \<Rightarrow> Inr x)"

definition getSize :: "('i::linorder) pqueue \<Rightarrow> nat" where
  "getSize q = length (index q)"

section \<open>The edge window\<close>

record 'e edgeFIFO =
  windowSize :: nat
  fifoEdges :: "'e list"

definition EdgeFIFO :: "nat \<Rightarrow> 'e edgeFIFO" where
  "EdgeFIFO w = \<lparr>windowSize = w, fifoEdges = []\<rparr>"

definition fifo_addEdge :: "'e \<Rightarrow> 'e edgeFIFO \<Rightarrow> 'e edgeFIFO" where
  "fifo_addEdge e f = f\<lparr>fifoEdges := fifoEdges f @ [e]\<rparr>"

definition fifo_isEmpty :: "'e edgeFIFO \<Rightarrow> bool" where
  "fifo_isEmpty f = (fifoEdges f = [])"

definition hasExpiredEdges :: "'e edgeFIFO \<Rightarrow> bool" where
  "hasExpiredEdges f = (windowSize f < length (fifoEdges f))"

definition fifo_getOldestEdge :: "'e edgeFIFO \<Rightarrow> 'e result" where
  "fifo_getOldestEdge f = (case fifoEdges f of [] \<Rightarrow> Inl UndefinedBehavior | e # es \<Rightarrow> Inr e)"

definition popOldestEdge :: "'e edgeFIFO \<Rightarrow> 'e edgeFIFO result" where
  "popOldestEdge f = (case fifoEdges f of [] \<Rightarrow> Inl UndefinedBehavior | e # es \<Rightarrow> Inr (f\<lparr>fifoEdges := es\<rparr>))"

section \<open>Contracts\<close>

text \<open>A queue of ids with keys: a finite map, a first element, and operations that change one id.\<close>

locale keyed_queue =
  fixes inv :: "'q \<Rightarrow> bool"
    and look :: "'q \<Rightarrow> 'i \<Rightarrow> double option"
    and count :: "'q \<Rightarrow> nat"
    and first :: "'q \<Rightarrow> (double \<times> 'i) option"
    and upd :: "double \<Rightarrow> 'i \<Rightarrow> 'q \<Rightarrow> 'q"
    and rem :: "'i \<Rightarrow> 'q \<Rightarrow> 'q"
  assumes finite_look: "inv q \<Longrightarrow> finite (dom (look q))"
    and count_look: "inv q \<Longrightarrow> count q = card (dom (look q))"
    and upd_inv: "inv q \<Longrightarrow> \<not> is_nan k \<Longrightarrow> inv (upd k i q)"
    and upd_look: "inv q \<Longrightarrow> \<not> is_nan k \<Longrightarrow>
      look (upd k i q) j = (if j = i then (case look q i of Some k' \<Rightarrow> if deq k k' then Some k' else Some k | None \<Rightarrow> Some k) else look q j)"
    and rem_inv: "inv q \<Longrightarrow> inv (rem i q)"
    and rem_look: "inv q \<Longrightarrow> look (rem i q) j = (if j = i then None else look q j)"
    and first_look: "inv q \<Longrightarrow> first q = Some (k, i) \<Longrightarrow> look q i = Some k"
    and first_None: "inv q \<Longrightarrow> first q = None \<longleftrightarrow> dom (look q) = {}"
begin

lemma upd_dom: "inv q \<Longrightarrow> \<not> is_nan k \<Longrightarrow> dom (look (upd k i q)) = insert i (dom (look q))"
  by (auto simp: upd_look dom_def split: option.splits if_splits)

lemma rem_dom: "inv q \<Longrightarrow> dom (look (rem i q)) = dom (look q) - {i}"
  by (auto simp: rem_look dom_def)

lemma count_upd: "inv q \<Longrightarrow> \<not> is_nan k \<Longrightarrow> count (upd k i q) = (if i \<in> dom (look q) then count q else Suc (count q))"
  by (simp add: count_look upd_inv upd_dom finite_look insert_absorb)

lemma count_rem: "inv q \<Longrightarrow> i \<in> dom (look q) \<Longrightarrow> Suc (count (rem i q)) = count q"
  using card_Suc_Diff1 [OF finite_look] by (simp add: count_look rem_inv rem_dom)

lemma drain: "inv q \<Longrightarrow> first q = Some (k, i) \<Longrightarrow> count (rem i q) < count q"
  using count_rem [of q i] first_look [of q k i] by (force simp: dom_def)

end

section \<open>The order of pairs\<close>

definition kip_ok :: "'i keyIdPair \<Rightarrow> bool" where
  "kip_ok a = (\<not> is_nan (fst a))"

lemma kip_less_irrefl [simp]: "\<not> kip_less ord a a"
  by (simp add: kip_less_def split: pqOrder.splits)

lemma kip_less_trans: "kip_less ord a b \<Longrightarrow> kip_less ord b c \<Longrightarrow> kip_less ord a c"
  by (auto simp: kip_less_def dlt_def deq_def split: pqOrder.splits)

lemma kip_less_total:
  "kip_ok a \<Longrightarrow> kip_ok b \<Longrightarrow> kip_less ord a b \<or> kip_less ord b a \<or> deq (fst a) (fst b) \<and> snd a = snd b"
  by (auto simp: kip_less_def kip_ok_def dlt_def deq_def split: pqOrder.splits)

section \<open>Invariant\<close>

definition pq_inv :: "pqOrder \<Rightarrow> ('i::linorder) pqueue \<Rightarrow> bool" where
  "pq_inv ord q \<longleftrightarrow> sorted_wrt (kip_less ord) (items q) \<and> (\<forall>x \<in> set (items q). kip_ok x)
     \<and> um_ok (index q) \<and> distinct (map snd (items q))
     \<and> (\<forall>i it. um_find (index q) i = Some it \<longleftrightarrow> it \<in> set (items q) \<and> snd it = i)"

definition pq_look :: "('i::linorder) pqueue \<Rightarrow> 'i \<Rightarrow> double option" where
  "pq_look q i = map_option fst (um_find (index q) i)"

definition pq_first :: "('i::linorder) pqueue \<Rightarrow> (double \<times> 'i) option" where
  "pq_first q = (case items q of [] \<Rightarrow> None | x # xs \<Rightarrow> Some x)"

lemma set_insert_new:
  assumes "\<forall>y \<in> set ys. kip_ok y" and "kip_ok x" and "snd x \<notin> snd ` set ys"
  shows "snd (set_insert ord x ys) = x \<and> set (fst (set_insert ord x ys)) = insert x (set ys)
    \<and> mset (fst (set_insert ord x ys)) = add_mset x (mset ys)"
  using assms
proof (induction ys)
  case (Cons y ys)
  then have "kip_less ord x y \<or> kip_less ord y x" using kip_less_total [of x y ord] by auto
  with Cons show ?case by (auto split: prod.splits)
qed simp

lemma set_insert_sorted:
  assumes "sorted_wrt (kip_less ord) ys" and "\<forall>y \<in> set ys. kip_ok y" and "kip_ok x" and "snd x \<notin> snd ` set ys"
  shows "sorted_wrt (kip_less ord) (fst (set_insert ord x ys))"
  using assms
proof (induction ys)
  case (Cons y ys)
  have "snd x \<notin> snd ` set ys" using Cons.prems by auto
  with Cons.prems have "set (fst (set_insert ord x ys)) = insert x (set ys)" by (simp add: set_insert_new)
  with Cons show ?case
    by (auto split: prod.splits intro: kip_less_trans)
qed simp

lemma addItemHasSpace_result:
  assumes "sorted_wrt (kip_less ord) (items q)" and "\<forall>x \<in> set (items q). kip_ok x" and "um_ok (index q)"
    and "distinct (map snd (items q))" and "i \<notin> snd ` set (items q)" and "\<not> is_nan key"
    and "\<And>j it. j \<noteq> i \<Longrightarrow> um_find (index q) j = Some it \<longleftrightarrow> it \<in> set (items q) \<and> snd it = j"
  shows "pq_inv ord (addItemHasSpace ord key i q)"
    and "index (addItemHasSpace ord key i q) = um_put i (key, i) (index q)"
proof -
  let ?r = "set_insert ord (key, i) (items q)"
  have ok: "kip_ok (key, i)" using assms(6) by (simp add: kip_ok_def)
  have new: "snd ?r = (key, i)" "set (fst ?r) = insert (key, i) (set (items q))"
      "mset (fst ?r) = add_mset (key, i) (mset (items q))"
    using set_insert_new [OF assms(2) ok, of ord] assms(5) by auto
  have q: "addItemHasSpace ord key i q = q\<lparr>items := fst ?r, index := um_put i (key, i) (index q)\<rparr>"
    using new(1) by (simp add: addItemHasSpace_def case_prod_beta)
  then show "index (addItemHasSpace ord key i q) = um_put i (key, i) (index q)" by simp
  have "sorted_wrt (kip_less ord) (fst ?r)"
    using set_insert_sorted [OF assms(1,2) ok] assms(5) by simp
  moreover have "mset (map snd (fst ?r)) = mset (i # map snd (items q))" using new(3) by simp
  then have "distinct (map snd (fst ?r))"
    using assms(4,5) by (metis distinct.simps(2) list.set_map mset_eq_imp_distinct_iff)
  moreover have "um_find (um_put i (key, i) (index q)) j = Some it \<longleftrightarrow> it \<in> set (fst ?r) \<and> snd it = j" for j it
    using assms(5) assms(7) [of j it] new(2) by (cases "j = i") (auto simp: image_iff)
  ultimately show "pq_inv ord (addItemHasSpace ord key i q)"
    using assms(2,3) ok new(2) by (simp add: pq_inv_def q)
qed

lemma pq_invD:
  assumes "pq_inv ord q"
  shows "sorted_wrt (kip_less ord) (items q)" "\<forall>x \<in> set (items q). kip_ok x" "um_ok (index q)"
    "distinct (map snd (items q))" "\<And>i it. um_find (index q) i = Some it \<longleftrightarrow> it \<in> set (items q) \<and> snd it = i"
  using assms by (auto simp: pq_inv_def)

lemma pq_inv_absent: "pq_inv ord q \<Longrightarrow> \<not> um_count (index q) i \<Longrightarrow> i \<notin> snd ` set (items q)"
  by (force simp: pq_inv_def um_count_def)

lemma PriorityQueue_inv: "pq_inv ord (PriorityQueue n)"
  by (simp add: pq_inv_def PriorityQueue_def)

lemma sorted_wrt_remove1: "sorted_wrt P xs \<Longrightarrow> sorted_wrt P (remove1 x xs)"
  by (induction xs) (auto dest: notin_set_remove1 [THEN contrapos_nn] set_remove1_subset [THEN subsetD])

lemma remove1_items:
  assumes "pq_inv ord q" and "it \<in> set (items q)"
  shows "set (remove1 it (items q)) = set (items q) - {it}" "snd it \<notin> snd ` set (remove1 it (items q))"
    "sorted_wrt (kip_less ord) (remove1 it (items q))" "distinct (map snd (remove1 it (items q)))"
proof -
  have d: "distinct (map snd (items q))" using assms by (simp add: pq_inv_def)
  then have "distinct (items q)" by (rule distinct_map [THEN iffD1, THEN conjunct1])
  then show s: "set (remove1 it (items q)) = set (items q) - {it}" by simp
  show "snd it \<notin> snd ` set (remove1 it (items q))"
    using d assms(2) unfolding s by (auto simp: distinct_map inj_on_def)
  show "distinct (map snd (remove1 it (items q)))"
    using d s by (auto simp: distinct_map inj_on_def)
  show "sorted_wrt (kip_less ord) (remove1 it (items q))"
    using pq_invD(1) [OF assms(1)] by (rule sorted_wrt_remove1)
qed

lemma removeItem_inv: "pq_inv ord q \<Longrightarrow> pq_inv ord (removeItem i q)"
proof (cases "um_find (index q) i")
  case None
  then show "pq_inv ord q \<Longrightarrow> ?thesis" by (simp add: removeItem_def)
next
  case (Some it)
  assume inv: "pq_inv ord q"
  note D = pq_invD [OF inv]
  have it: "it \<in> set (items q)" "snd it = i" using D(5) Some by auto
  have "um_find (um_erase i (index q)) j = Some x \<longleftrightarrow> x \<in> set (items q) - {it} \<and> snd x = j" for j x
    using D(4,5) it by (auto simp: distinct_map inj_on_def)
  then show ?thesis
    using remove1_items [OF inv it(1)] D by (auto simp: removeItem_def Some pq_inv_def)
qed

lemma updateItem_inv:
  assumes "pq_inv ord q" and "\<not> is_nan key"
  shows "pq_inv ord (updateItem ord key i q)"
    and "index (updateItem ord key i q) =
      (case um_find (index q) i of
         Some it \<Rightarrow> if deq key (fst it) then index q else um_put i (key, i) (index q)
       | None \<Rightarrow> um_put i (key, i) (index q))"
proof -
  note D = pq_invD [OF assms(1)]
  have "pq_inv ord (updateItem ord key i q) \<and> index (updateItem ord key i q) =
      (case um_find (index q) i of
         Some it \<Rightarrow> if deq key (fst it) then index q else um_put i (key, i) (index q)
       | None \<Rightarrow> um_put i (key, i) (index q))"
  proof (cases "um_find (index q) i")
    case None
    then have "i \<notin> snd ` set (items q)" using pq_inv_absent [OF assms(1)] by (simp add: um_count_def)
    with None show ?thesis
      using addItemHasSpace_result [OF D(1-4) _ assms(2)] D(5) by (simp add: updateItem_def)
  next
    case (Some it)
    let ?q = "q\<lparr>items := remove1 it (items q)\<rparr>"
    have it: "it \<in> set (items q)" "snd it = i" using D(5) Some by auto
    note r = remove1_items [OF assms(1) it(1)]
    have idx: "um_find (index ?q) j = Some x \<longleftrightarrow> x \<in> set (items ?q) \<and> snd x = j" if "j \<noteq> i" for j x
      using D(5) r(1) it(2) that by auto
    have "pq_inv ord (addItemHasSpace ord key i ?q)" "index (addItemHasSpace ord key i ?q) = um_put i (key, i) (index ?q)"
      using addItemHasSpace_result [of ord ?q i key] r D(2,3) idx assms(2) it(2) by auto
    with Some assms(1) show ?thesis by (simp add: updateItem_def)
  qed
  then show "pq_inv ord (updateItem ord key i q)"
    "index (updateItem ord key i q) =
      (case um_find (index q) i of
         Some it \<Rightarrow> if deq key (fst it) then index q else um_put i (key, i) (index q)
       | None \<Rightarrow> um_put i (key, i) (index q))" by auto
qed

lemma pq_look_dom: "dom (pq_look q) = fst ` set (index q)"
  unfolding dom_map_of_conv_image_fst [symmetric] by (auto simp: pq_look_def dom_def)

text \<open>The queue of the code meets the contract.\<close>

interpretation pq: keyed_queue "pq_inv ord" pq_look getSize pq_first "updateItem ord" removeItem
proof (unfold_locales, goal_cases)
  case (1 q)
  then show ?case by (simp add: pq_look_dom)
next
  case (2 q)
  then show ?case using distinct_card [of "map fst (index q)"] by (simp add: getSize_def pq_inv_def pq_look_dom)
next
  case (4 q k i j)
  then show ?case
    by (auto simp: pq_look_def updateItem_inv(2) [OF 4] split: option.splits)
next
  case (6 q i j)
  then show ?case by (auto simp: pq_look_def removeItem_def split: option.splits)
next
  case (7 q k i)
  then have "(k, i) \<in> set (items q)" by (auto simp: pq_first_def split: list.splits)
  then have "um_find (index q) i = Some (k, i)" using pq_invD(5) [OF 7(1)] by simp
  then show ?case by (simp add: pq_look_def)
next
  case (8 q)
  note D = pq_invD(5) [OF 8]
  show ?case
  proof (cases "items q")
    case Nil
    then show ?thesis using D by (auto simp: pq_first_def pq_look_def dom_def)
  next
    case (Cons x xs)
    then have "um_find (index q) (snd x) = Some x" using D by simp
    then have "snd x \<in> dom (pq_look q)" by (simp add: pq_look_def dom_def)
    with Cons show ?thesis by (auto simp: pq_first_def)
  qed
qed (simp_all add: updateItem_inv removeItem_inv)

section \<open>Properties\<close>

datatype 'i pqOp = Upd double 'i | Rem 'i

fun pq_step :: "pqOrder \<Rightarrow> 'i::linorder pqOp \<Rightarrow> 'i pqueue \<Rightarrow> 'i pqueue" where
  "pq_step ord (Upd k i) q = updateItem ord k i q"
| "pq_step ord (Rem i) q = removeItem i q"

fun map_step :: "'i pqOp \<Rightarrow> ('i \<rightharpoonup> double) \<Rightarrow> ('i \<rightharpoonup> double)" where
  "map_step (Upd k i) m = (case m i of Some k' \<Rightarrow> if deq k k' then m else m(i \<mapsto> k) | None \<Rightarrow> m(i \<mapsto> k))"
| "map_step (Rem i) m = m(i := None)"

fun op_ok :: "'i pqOp \<Rightarrow> bool" where
  "op_ok (Upd k i) = (\<not> is_nan k)"
| "op_ok (Rem i) = True"

lemma pq_step_refines:
  "pq_inv ord q \<Longrightarrow> op_ok x \<Longrightarrow> pq_inv ord (pq_step ord x q) \<and> pq_look (pq_step ord x q) = map_step x (pq_look q)"
  by (cases x) (auto simp: pq.upd_inv pq.rem_inv pq.upd_look pq.rem_look fun_eq_iff split: option.splits)

lemma pq_top_minimal:
  assumes "pq_inv ord q" and "getTopItem q = Inr (k, i)" and "pq_look q j = Some k'"
  shows "pq_look q i = Some k" and "j \<noteq> i \<Longrightarrow> kip_less ord (k, i) (k', j)"
proof -
  from assms(2) obtain xs where xs: "items q = (k, i) # xs" by (auto simp: getTopItem_def split: list.splits)
  then show "pq_look q i = Some k" using pq.first_look [OF assms(1), of k i] by (simp add: pq_first_def)
  from assms(3) obtain it where "um_find (index q) j = Some it" "fst it = k'" by (auto simp: pq_look_def)
  then have "(k', j) \<in> set (items q)" using pq_invD(5) [OF assms(1)] by (metis prod.collapse)
  then show "j \<noteq> i \<Longrightarrow> kip_less ord (k, i) (k', j)" using xs pq_invD(1) [OF assms(1)] by auto
qed



lemma pq_index_ids: "pq_inv ord q \<Longrightarrow> fst ` set (index q) = snd ` set (items q)"
  unfolding dom_map_of_conv_image_fst [symmetric] by (force simp: pq_inv_def dom_def)

lemma remove1_last: "distinct xs \<Longrightarrow> xs \<noteq> [] \<Longrightarrow> remove1 (last xs) xs = butlast xs"
  by (cases xs rule: rev_cases) (auto simp: remove1_append)

text \<open>\<open>addItem\<close> on a full queue. The new item displaces the last one when it is better, and the
  queue stays at its capacity; when it is not better the code does not return early, so the item is
  inserted all the same and the queue grows past \<open>maxItemCount\<close>.\<close>

lemma addItem_on_full_queue:
  assumes "pq_inv ord q" and "length (items q) = maxItemCount q" and "items q \<noteq> []"
    and "\<not> um_count (index q) i" and "\<not> is_nan key"
  shows "\<exists>q'. addItem ord key i q = Inr q' \<and> pq_inv ord q' \<and> pq_look q' i = Some key
    \<and> getSize q' = (if (case ord of MaxAtTop \<Rightarrow> dge (fst (last (items q))) key | MinAtTop \<Rightarrow> dle (fst (last (items q))) key)
                    then Suc (maxItemCount q) else maxItemCount q)"
proof -
  let ?bottom = "last (items q)"
  let ?out = "case ord of MaxAtTop \<Rightarrow> dge (fst ?bottom) key | MinAtTop \<Rightarrow> dle (fst ?bottom) key"
  note D = pq_invD [OF assms(1)]
  have bot: "?bottom \<in> set (items q)" using assms(3) by simp
  have find: "um_find (index q) (snd ?bottom) = Some ?bottom" using D(5) bot by simp
  have "remove1 ?bottom (items q) = butlast (items q)"
    using remove1_last [of "items q"] assms(3) D(4) by (simp add: distinct_map)
  then have rem: "q\<lparr>index := um_erase (snd ?bottom) (index q), items := butlast (items q)\<rparr> = removeItem (snd ?bottom) q"
    using find by (simp add: removeItem_def)
  define q1 where "q1 = (if ?out then q else removeItem (snd ?bottom) q)"
  have add: "addItem ord key i q = Inr (addItemHasSpace ord key i q1)"
    using assms by (simp add: addItem_def Let_def rem q1_def)
  have inv1: "pq_inv ord q1" using assms(1) by (simp add: q1_def removeItem_inv)
  have abs: "um_find (index q1) i = None"
  proof -
    have "um_find (index q) i = None" using assms(4) by (cases "um_find (index q) i") (simp_all add: um_count_def)
    then show ?thesis by (simp add: q1_def removeItem_def split: option.splits)
  qed
  then have upd: "addItemHasSpace ord key i q1 = updateItem ord key i q1" by (simp add: updateItem_def)
  have i: "i \<notin> dom (pq_look q1)" using abs by (simp add: pq_look_def dom_def)
  have "card (set (map snd (items q))) = card (set (map fst (index q)))"
    by (simp add: pq_index_ids [OF assms(1)])
  then have size: "getSize q = maxItemCount q"
    using assms(2) distinct_card [OF D(3)] distinct_card [OF D(4)] by (simp add: getSize_def)
  have "getSize q1 = (if ?out then maxItemCount q else maxItemCount q - 1)"
    using pq.count_rem [OF assms(1), of "snd ?bottom"] find size by (auto simp: q1_def pq_look_def dom_def)
  moreover have "0 < maxItemCount q" unfolding assms(2) [symmetric] using assms(3) by simp
  ultimately show ?thesis
    using add upd pq.count_upd [OF inv1 assms(5), of i] i pq.upd_inv [OF inv1 assms(5)]
      pq.upd_look [OF inv1 assms(5), of i i] by (auto simp: dom_def)
qed

lemma addItem_on_full_queue_example:
  "\<exists>q'. addItem MinAtTop 0 (8::nat) (updateItem MinAtTop 0 7 (PriorityQueue 1)) = Inr q' \<and> getSize q' = 2"
proof -
  have nan: "\<not> is_nan 0" by (simp add: is_nan_def dmag_def inf_mag_def)
  have q: "updateItem MinAtTop 0 (7::nat) (PriorityQueue 1) = \<lparr>maxItemCount = 1, items = [(0, 7)], index = [(7, (0, 7))]\<rparr>"
    by (simp add: updateItem_def addItemHasSpace_def PriorityQueue_def um_put_def)
  have "pq_inv MinAtTop (updateItem MinAtTop 0 (7::nat) (PriorityQueue 1))"
    by (rule updateItem_inv(1) [OF PriorityQueue_inv nan])
  from addItem_on_full_queue [OF this, of 8 0] nan show ?thesis
    unfolding q by (auto simp: um_count_def dle_def)
qed

end
