(* ===== verification/Candidates.thy ===== *)
theory Candidates
  imports Config BlockLemmas Queues
begin

text \<open>
  Block candidates (\<^verbatim>\<open>Candidate.h/.cpp\<close>): for every head vertex the number of its oldest edges that the
  candidate would take, with running totals of the serialised size, the edges, the dangling edges, the
  vertices seen and the pairs of heads joined by an edge. The neighbour lists of the expiration map,
  which the code reads through \<^verbatim>\<open>ExpirationMap::getNeighborLists\<close>, are an argument.

  Totals are \<^verbatim>\<open>size_t\<close> and wrap; the numbers of taken edges are positions in a list and are \<open>nat\<close>.
  \<open>um_incr\<close> and \<open>um_decr\<close> are the code's counting idioms on a hash map of counters.
\<close>

section \<open>Pairs of vertices\<close>

text \<open>\<open>(u_, v_)\<close>; the second branch stores \<open>u\<close> twice, as the code does.\<close>

type_synonym suEdge = "vertexId \<times> vertexId"

definition SUEdge :: "vertexId \<Rightarrow> vertexId \<Rightarrow> suEdge" where
  "SUEdge u v = (if v < u then (v, u) else (u, u))"

definition hash_SUEdge :: "(vertexId \<Rightarrow> size_t) \<Rightarrow> suEdge \<Rightarrow> size_t" where
  "hash_SUEdge hash e =
     (let hval = 17; hval1 = hval * 37 + hash (snd e) in hval1 * 37 + hash (fst e))"

section \<open>The candidate\<close>

record candidate =
  cSize :: size_t
  edgeCount :: size_t
  outEdgeCount :: size_t
  presentVertices :: "(vertexId, size_t) umap"
  timestamps :: "vertexId pqueue"
  numEdges :: "(vertexId, nat) umap"
  internalEdges :: "(suEdge, size_t) umap"

definition max_size_t :: nat where
  "max_size_t = 2 ^ 64 - 1"

definition Candidate :: candidate where
  "Candidate =
     \<lparr>cSize = 8, edgeCount = 0, outEdgeCount = 0, presentVertices = [],
      timestamps = PriorityQueue max_size_t, numEdges = [], internalEdges = []\<rparr>"

definition cand_getEdgeCount :: "vertexId \<Rightarrow> candidate \<Rightarrow> nat" where
  "cand_getEdgeCount h c = (case um_find (numEdges c) h of None \<Rightarrow> 0 | Some n \<Rightarrow> n)"

definition getNewestTime :: "candidate \<Rightarrow> timestamp result" where
  "getNewestTime c = rbind (getTopItem (timestamps c)) (\<lambda>it. Inr (fst it))"

definition um_incr :: "'k \<Rightarrow> ('k, size_t) umap \<Rightarrow> ('k, size_t) umap" where
  "um_incr k m = (case um_find m k of None \<Rightarrow> um_put k 1 m | Some n \<Rightarrow> um_put k (n + 1) m)"

text \<open>\<^verbatim>\<open>if (--m[k]==0) m.erase(k)\<close>: a missing key is created with 0 and then wraps.\<close>

definition um_decr :: "'k \<Rightarrow> ('k, size_t) umap \<Rightarrow> ('k, size_t) umap" where
  "um_decr k m =
     (let n = (case um_find m k of None \<Rightarrow> 0 | Some n \<Rightarrow> n) - 1
      in if n = 0 then um_erase k m else um_put k n m)"

text \<open>The backwards scan of the edges with the time looked for.\<close>

fun reverse_scan :: "neighborList \<Rightarrow> vertexId \<Rightarrow> timestamp \<Rightarrow> nat \<Rightarrow> bool result" where
  "reverse_scan nl head t 0 =
     rbind (getNthOldestEdge nl 0) (\<lambda>oedge. Inr (deq t (tm oedge) \<and> toVertex oedge = head))"
| "reverse_scan nl head t (Suc i) =
     rbind (getNthOldestEdge nl (Suc i)) (\<lambda>oedge.
       if deq t (tm oedge)
       then if toVertex oedge = head then Inr True else reverse_scan nl head t i
       else Inr False)"

definition hasReverseEdge :: "(vertexId, neighborList) umap \<Rightarrow> vertexId \<Rightarrow> edge \<Rightarrow> candidate \<Rightarrow> bool result" where
  "hasReverseEdge nls head e c =
     (case um_find (numEdges c) (toVertex e) of
        None \<Rightarrow> Inr False
      | Some n \<Rightarrow>
          rbind (deref (um_find nls (toVertex e))) (\<lambda>nlist.
          rbind (getOldestEdge nlist) (\<lambda>oldest.
          rbind (if n = 0 then Inl UndefinedBehavior else getNthOldestEdge nlist (n - 1)) (\<lambda>oedge.
            if dge (tm e) (tm oldest)
            then if dlt (tm e) (tm oedge) then Inr True
                 else reverse_scan nlist head (tm e) (n - 1)
            else Inr False))))"

definition record_size :: "edge \<Rightarrow> size_t result" where
  "record_size e = rbind (deref (edata e)) (\<lambda>p. rbind (getSerializedSizeOf (snd p)) (\<lambda>n. Inr (word_of_nat n)))"

definition cand_take ::
  "(vertexId, neighborList) umap \<Rightarrow> vertexId \<Rightarrow> neighborList \<Rightarrow> nat \<Rightarrow> candidate \<Rightarrow> candidate result" where
  "cand_take nls head nlist j c =
     (let c1 = c\<lparr>cSize := cSize c + (8 + 8)\<rparr>
      in rbind (getNthOldestEdge nlist j) (\<lambda>e.
         let c2 = c1\<lparr>presentVertices := um_incr (toVertex e) (presentVertices c1)\<rparr>
         in rbind (hasReverseEdge nls head e c2) (\<lambda>found.
            rbind (if found
                   then rbind (assert_that (0 < outEdgeCount c2)) (\<lambda>_.
                          Inr (c2\<lparr>outEdgeCount := outEdgeCount c2 - 1,
                                  internalEdges := um_incr (SUEdge head (toVertex e)) (internalEdges c2)\<rparr>))
                   else Inr (c2\<lparr>outEdgeCount := outEdgeCount c2 + 1\<rparr>))
              (\<lambda>c3.
                let c4 = c3\<lparr>edgeCount := edgeCount c3 + 1\<rparr>
                in if found then Inr c4
                   else rbind (record_size e) (\<lambda>n. Inr (c4\<lparr>cSize := cSize c4 + n\<rparr>))))))"

definition cand_drop ::
  "(vertexId, neighborList) umap \<Rightarrow> vertexId \<Rightarrow> neighborList \<Rightarrow> nat \<Rightarrow> candidate \<Rightarrow> candidate result" where
  "cand_drop nls head nlist j c =
     (let c1 = c\<lparr>cSize := cSize c - (8 + 8)\<rparr>
      in rbind (getNthOldestEdge nlist j) (\<lambda>e.
         let c2 = c1\<lparr>presentVertices := um_decr (toVertex e) (presentVertices c1)\<rparr>
         in rbind (hasReverseEdge nls head e c2) (\<lambda>found.
            rbind (if found
                   then Inr (c2\<lparr>outEdgeCount := outEdgeCount c2 + 1,
                                internalEdges := um_decr (SUEdge head (toVertex e)) (internalEdges c2)\<rparr>)
                   else rbind (assert_that (0 < outEdgeCount c2)) (\<lambda>_.
                          Inr (c2\<lparr>outEdgeCount := outEdgeCount c2 - 1\<rparr>)))
              (\<lambda>c3.
                let c4 = c3\<lparr>edgeCount := edgeCount c3 - 1\<rparr>
                in if found then Inr c4
                   else rbind (record_size e) (\<lambda>n. Inr (c4\<lparr>cSize := cSize c4 - n\<rparr>))))))"

definition cand_finish :: "vertexId \<Rightarrow> neighborList \<Rightarrow> nat \<Rightarrow> nat \<Rightarrow> candidate \<Rightarrow> candidate result" where
  "cand_finish head nlist cn n c =
     (let c1 = (if cn = 0 then c\<lparr>cSize := cSize c + (8 + 4), presentVertices := um_put head 1 (presentVertices c)\<rparr> else c)
      in if n = 0
         then Inr (c1\<lparr>numEdges := um_erase head (numEdges c1), timestamps := removeItem head (timestamps c1),
                     cSize := cSize c1 - (8 + 4), presentVertices := um_decr head (presentVertices c1)\<rparr>)
         else rbind (getNthOldestEdge nlist (n - 1)) (\<lambda>e.
                Inr (c1\<lparr>numEdges := um_put head n (numEdges c1),
                        timestamps := updateItem MaxAtTop (tm e) head (timestamps c1)\<rparr>)))"

definition setEdgeCount :: "(vertexId, neighborList) umap \<Rightarrow> vertexId \<Rightarrow> nat \<Rightarrow> candidate \<Rightarrow> candidate result" where
  "setEdgeCount nls head n c =
     (let cn = cand_getEdgeCount head c
      in if cn = n then Inr c
         else rbind (deref (um_find nls head)) (\<lambda>nlist.
              rbind (if cn < n then for_each (cand_take nls head nlist) [cn..<n] c
                     else for_each (cand_drop nls head nlist) (rev [n..<cn]) c) (\<lambda>c1.
              rbind (assert_that (outEdgeCount c1 \<le> edgeCount c1)) (\<lambda>_.
                cand_finish head nlist cn n c1))))"


definition d_size :: "size_t \<Rightarrow> double" where
  "d_size n = dof_nat (unat n)"

definition getLocality :: "localityMetric \<Rightarrow> candidate \<Rightarrow> double" where
  "getLocality metric c =
     (let rConductance = dsub d_one (ddiv (d_size (outEdgeCount c)) (d_size (edgeCount c)));
          nlistCount = dof_nat (length (numEdges c));
          cohesiveness = (if length (numEdges c) = 1 then d_half
                          else ddiv (dof_nat (length (internalEdges c)))
                                 (dmul (dmul d_half nlistCount) (dsub nlistCount d_one)))
      in case metric of
           LM_RCC_MIXED \<Rightarrow> dmul rConductance cohesiveness
         | LM_RCONDUCTANCE \<Rightarrow> rConductance
         | LM_COHESIVENESS \<Rightarrow> cohesiveness)"

section \<open>Block statistics\<close>

record blockStats =
  bsCount :: double
  bsSize :: double
  bsNumEdges :: double
  bsNumNLists :: double
  bsAvgNListSize :: double
  bsLocality :: double
  bsLocMetric :: localityMetric

definition BlockStats :: "conf \<Rightarrow> blockStats" where
  "BlockStats c =
     \<lparr>bsCount = 0, bsSize = 0, bsNumEdges = 0, bsNumNLists = 0, bsAvgNListSize = 0, bsLocality = 0,
      bsLocMetric = localityMetric (smartLayoutConf c)\<rparr>"

definition bs_update :: "candidate \<Rightarrow> blockStats \<Rightarrow> blockStats" where
  "bs_update c bs =
     (let total = foldl (\<lambda>a e. dadd a (dof_nat (snd e))) 0 (numEdges c);
          avg = ddiv total (dof_nat (length (numEdges c)))
      in bs\<lparr>bsCount := dadd (bsCount bs) d_one,
            bsSize := dadd (bsSize bs) (d_size (cSize c)),
            bsNumEdges := dadd (bsNumEdges bs) (d_size (edgeCount c)),
            bsNumNLists := dadd (bsNumNLists bs) (dof_nat (length (numEdges c))),
            bsAvgNListSize := dadd (bsAvgNListSize bs) avg,
            bsLocality := dadd (bsLocality bs) (getLocality (bsLocMetric bs) c)\<rparr>)"

definition getAvgSize :: "blockStats \<Rightarrow> double" where
  "getAvgSize bs = ddiv (bsSize bs) (bsCount bs)"

definition getAvgNumEdges :: "blockStats \<Rightarrow> double" where
  "getAvgNumEdges bs = ddiv (bsNumEdges bs) (bsCount bs)"

definition getAvgNumNLists :: "blockStats \<Rightarrow> double" where
  "getAvgNumNLists bs = ddiv (bsNumNLists bs) (bsCount bs)"

definition getAvgNListSize :: "blockStats \<Rightarrow> double" where
  "getAvgNListSize bs = ddiv (bsAvgNListSize bs) (bsCount bs)"

definition getAvgLocality :: "blockStats \<Rightarrow> double" where
  "getAvgLocality bs = ddiv (bsLocality bs) (bsCount bs)"

end
