(* ===== verification/Layout.thy ===== *)
theory Layout
  imports Candidates
begin

text \<open>
  The expiration map (\<^verbatim>\<open>ExpirationMap.h/.cpp\<close>): edges that leave the in-memory window wait here until
  enough of them have gathered to form a disk block. The layout mode decides which edges go together:
  \<open>getBlock\<close> follows the score queue edge by edge, \<open>getBlockSmart\<close> grows several candidates and takes
  the one with the best locality.

  \<^item> \<open>neigLists_[v]\<close> is \<open>nl_ref\<close>: it creates an empty list for a missing key, as \<^verbatim>\<open>operator[]\<close> does.
  \<^item> \<^verbatim>\<open>rand()\<close> is a stream of numbers fixed by the environment, read at a running position.
  \<^item> \<^verbatim>\<open>HistoricalGraph::addBlock\<close> is the parameter \<open>addBlk\<close>, with the state of the historical graph.
  \<^item> \<open>flush\<close> may loop forever, so it is a partial function whose value \<open>None\<close> means divergence.
\<close>

section \<open>State\<close>

datatype scorer = MinScorer | MaxScorer | OldScorer | NewScorer | RandScorer

record expirationMap =
  stats :: blockStats
  emSize :: size_t
  maxSize :: size_t
  emConf :: conf
  hvScorer :: scorer
  randAt :: "nat \<Rightarrow> nat"
  randPos :: nat
  scoreQueue :: "vertexId pqueue"
  neigLists :: "(vertexId, neighborList) umap"

definition getHeadVertexScorer :: "conf \<Rightarrow> scorer result" where
  "getHeadVertexScorer c =
     (let mode = layoutMode c; policy = initialCandidateSelectionPolicy (smartLayoutConf c)
      in if mode = LM_Max \<or> mode = LM_Smart \<and> policy = ICS_Max then Inr MaxScorer
         else if mode = LM_Smart \<and> policy = ICS_Min then Inr MinScorer
         else if mode = LM_Old \<or> mode = LM_Smart \<and> policy = ICS_Old then Inr OldScorer
         else if mode = LM_Smart \<and> policy = ICS_New then Inr NewScorer
         else if mode = LM_Random \<or> mode = LM_Smart \<and> policy = ICS_Random then Inr RandScorer
         else Inl AssertionFailed)"

definition ExpirationMap :: "(nat \<Rightarrow> nat) \<Rightarrow> conf \<Rightarrow> expirationMap result" where
  "ExpirationMap rnd c =
     rbind (getHeadVertexScorer c) (\<lambda>sc.
       Inr \<lparr>stats = BlockStats c, emSize = 0, maxSize = 2 * expirationMapSize c, emConf = c, hvScorer = sc,
            randAt = rnd, randPos = 0, scoreQueue = PriorityQueue max_size_t, neigLists = []\<rparr>)"

definition locMetric :: "expirationMap \<Rightarrow> localityMetric" where
  "locMetric em = localityMetric (smartLayoutConf (emConf em))"

definition nl_ref :: "vertexId \<Rightarrow> expirationMap \<Rightarrow> neighborList \<times> expirationMap" where
  "nl_ref v em =
     (case um_find (neigLists em) v of
        Some nl \<Rightarrow> (nl, em)
      | None \<Rightarrow> (\<lparr>headVertex = 0, edges = []\<rparr>,
                 em\<lparr>neigLists := um_put v \<lparr>headVertex = 0, edges = []\<rparr> (neigLists em)\<rparr>))"

section \<open>Scores of head vertices\<close>

definition score_min :: "vertexId \<Rightarrow> nat \<Rightarrow> expirationMap \<Rightarrow> (double \<times> expirationMap) result" where
  "score_min v i em =
     (case nl_ref v em of (nl, em1) \<Rightarrow>
        Inr (d_size (word_of_nat (length (edges nl)) - word_of_nat i), em1))"

definition score_max :: "vertexId \<Rightarrow> nat \<Rightarrow> expirationMap \<Rightarrow> (double \<times> expirationMap) result" where
  "score_max v i em =
     (case nl_ref v em of (nl, em1) \<Rightarrow>
        Inr (dminus (d_size (word_of_nat (length (edges nl)) - word_of_nat i)), em1))"

definition score_old :: "vertexId \<Rightarrow> nat \<Rightarrow> expirationMap \<Rightarrow> (double \<times> expirationMap) result" where
  "score_old v i em =
     (case nl_ref v em of (nl, em1) \<Rightarrow> rbind (getNthOldestEdge nl i) (\<lambda>e. Inr (tm e, em1)))"

definition score_new :: "vertexId \<Rightarrow> nat \<Rightarrow> expirationMap \<Rightarrow> (double \<times> expirationMap) result" where
  "score_new v i em =
     (case nl_ref v em of (nl, em1) \<Rightarrow> rbind (getNthOldestEdge nl i) (\<lambda>e. Inr (dminus (tm e), em1)))"

definition score_rand :: "vertexId \<Rightarrow> nat \<Rightarrow> expirationMap \<Rightarrow> (double \<times> expirationMap) result" where
  "score_rand v i em = Inr (dof_nat (randAt em (randPos em)), em\<lparr>randPos := Suc (randPos em)\<rparr>)"

definition score :: "vertexId \<Rightarrow> nat \<Rightarrow> expirationMap \<Rightarrow> (double \<times> expirationMap) result" where
  "score v i em =
     (case hvScorer em of
        MinScorer \<Rightarrow> score_min v i em
      | MaxScorer \<Rightarrow> score_max v i em
      | OldScorer \<Rightarrow> score_old v i em
      | NewScorer \<Rightarrow> score_new v i em
      | RandScorer \<Rightarrow> score_rand v i em)"

text \<open>\<^verbatim>\<open>scoreQueue_.updateItem(hvScorer_->score(v, i), v)\<close>\<close>

definition rescore :: "vertexId \<Rightarrow> nat \<Rightarrow> expirationMap \<Rightarrow> expirationMap result" where
  "rescore v i em =
     rbind (score v i em) (\<lambda>se.
       Inr ((snd se)\<lparr>scoreQueue := updateItem MinAtTop (fst se) v (scoreQueue (snd se))\<rparr>))"

section \<open>Removing the edges of a block\<close>

fun drop_through :: "edge \<Rightarrow> edge list \<Rightarrow> size_t \<Rightarrow> (edge list \<times> size_t) result" where
  "drop_through nedge [] n = Inl UndefinedBehavior"
| "drop_through nedge (redge # es) n =
     (if toVertex redge = toVertex nedge \<and> deq (tm redge) (tm nedge) then Inr (es, n - 1)
      else drop_through nedge es (n - 1))"

definition removeEdges_list :: "vertexId \<times> neighborList \<Rightarrow> expirationMap \<Rightarrow> expirationMap result" where
  "removeEdges_list p em =
     (let from = headVertex (snd p)
      in rbind (getNewestEdge (snd p)) (\<lambda>nedge.
         let (src, em1) = nl_ref from em
         in rbind (drop_through nedge (edges src) (emSize em1)) (\<lambda>r.
            let em2 = em1\<lparr>emSize := snd r, neigLists := um_put from (src\<lparr>edges := fst r\<rparr>) (neigLists em1)\<rparr>
            in if fst r = []
               then Inr (em2\<lparr>neigLists := um_erase from (neigLists em2), scoreQueue := removeItem from (scoreQueue em2)\<rparr>)
               else rescore from 0 em2)))"

definition removeEdges :: "block \<Rightarrow> expirationMap \<Rightarrow> expirationMap result" where
  "removeEdges b em = for_each removeEdges_list (neigs b) em"

section \<open>Taking edges in the order of the score queue\<close>

type_synonym taking = "block \<times> (vertexId, nat) umap \<times> vertexId \<times> expirationMap"

definition taken :: "(vertexId, nat) umap \<Rightarrow> vertexId \<Rightarrow> nat" where
  "taken m h = (case um_find m h of None \<Rightarrow> 0 | Some i \<Rightarrow> i)"

definition getBlock_step :: "taking \<Rightarrow> taking result" where
  "getBlock_step st =
     (case st of (b, nTaken, h0, em) \<Rightarrow>
       rbind (getTopItem (scoreQueue em)) (\<lambda>item.
       let h = snd item;
           i = taken nTaken h;
           nTaken1 = um_put h (Suc i) nTaken;
           (nlist, em1) = nl_ref h em
       in rbind (getNthOldestEdge nlist i) (\<lambda>e.
          rbind (addEdge h (toVertex e) (tm e) (edata e) b) (\<lambda>b1.
            if Suc i = length (edges nlist)
            then Inr (b1, nTaken1, h, em1\<lparr>scoreQueue := removeItem h (scoreQueue em1)\<rparr>)
            else rbind (rescore h (Suc i) em1) (\<lambda>em2. Inr (b1, nTaken1, h, em2))))))"

definition untaken :: "taking \<Rightarrow> nat" where
  "untaken st =
     (case st of (b, nTaken, h, em) \<Rightarrow>
       sum_list (map (\<lambda>e. length (edges (snd e)) - taken nTaken (fst e)) (neigLists em)))"

lemma score_lists:
  "score v i em = Inr se \<Longrightarrow> um_find (neigLists em) v = Some nl \<Longrightarrow> neigLists (snd se) = neigLists em"
  by (auto simp: score_def score_min_def score_max_def score_old_def score_new_def score_rand_def nl_ref_def
      rbind_Inr_iff split: scorer.splits option.splits)

lemma rescore_lists:
  "rescore v i em = Inr em' \<Longrightarrow> um_find (neigLists em) v = Some nl \<Longrightarrow> neigLists em' = neigLists em"
  by (auto simp: rescore_def rbind_Inr_iff dest: score_lists)

lemma sum_list_less_one:
  assumes "\<And>x. x \<in> set xs \<Longrightarrow> f x \<le> (g x :: nat)" and "x \<in> set xs" and "f x < g x"
  shows "sum_list (map f xs) < sum_list (map g xs)"
  using assms
proof (induction xs)
  case (Cons y xs)
  have le: "sum_list (map f xs) \<le> sum_list (map g xs)"
    by (rule sum_list_mono) (use Cons.prems(1) in simp)
  show ?case
  proof (cases "x = y")
    case True
    then show ?thesis using le Cons.prems by simp
  next
    case False
    then have "sum_list (map f xs) < sum_list (map g xs)" using Cons by simp
    moreover have "f y \<le> g y" using Cons.prems(1) by simp
    ultimately show ?thesis by simp
  qed
qed simp

lemma getBlock_step_Inr:
  assumes "getBlock_step (b, nTaken, h0, em) = Inr st'"
  shows "\<exists>k h nl i e b1 em2. getTopItem (scoreQueue em) = Inr (k, h) \<and> um_find (neigLists em) h = Some nl
    \<and> i = taken nTaken h \<and> i < length (edges nl) \<and> e = edges nl ! i
    \<and> addEdge h (toVertex e) (tm e) (edata e) b = Inr b1
    \<and> (if Suc i = length (edges nl) then em2 = em\<lparr>scoreQueue := removeItem h (scoreQueue em)\<rparr>
       else rescore h (Suc i) em = Inr em2)
    \<and> st' = (b1, um_put h (Suc i) nTaken, h, em2)"
proof -
  define i where "i h = taken nTaken h" for h
  from assms obtain k h where top: "getTopItem (scoreQueue em) = Inr (k, h)"
    by (auto simp: getBlock_step_def rbind_Inr_iff)
  from assms top have "\<exists>nl. um_find (neigLists em) h = Some nl"
    by (cases "um_find (neigLists em) h")
      (simp_all add: getBlock_step_def nl_ref_def Let_def getNthOldestEdge_def vec_index_def)
  then obtain nl where nl: "um_find (neigLists em) h = Some nl" ..
  from assms have "rbind (vec_index (edges nl) (i h)) (\<lambda>e. rbind (addEdge h (toVertex e) (tm e) (edata e) b) (\<lambda>b1.
            if Suc (i h) = length (edges nl)
            then Inr (b1, um_put h (Suc (i h)) nTaken, h, em\<lparr>scoreQueue := removeItem h (scoreQueue em)\<rparr>)
            else rbind (rescore h (Suc (i h)) em) (\<lambda>em2. Inr (b1, um_put h (Suc (i h)) nTaken, h, em2)))) = Inr st'"
    by (simp add: getBlock_step_def top nl nl_ref_def Let_def getNthOldestEdge_def i_def cong: if_cong)
  then obtain b1 where "i h < length (edges nl)" and b1: "addEdge h (toVertex (edges nl ! i h)) (tm (edges nl ! i h)) (edata (edges nl ! i h)) b = Inr b1"
    and r: "(if Suc (i h) = length (edges nl)
            then Inr (b1, um_put h (Suc (i h)) nTaken, h, em\<lparr>scoreQueue := removeItem h (scoreQueue em)\<rparr>)
            else rbind (rescore h (Suc (i h)) em) (\<lambda>em2. Inr (b1, um_put h (Suc (i h)) nTaken, h, em2))) = Inr st'"
    unfolding rbind_Inr_iff by (auto simp: vec_index_def split: if_splits)
  moreover from r obtain em2 where "if Suc (i h) = length (edges nl) then em2 = em\<lparr>scoreQueue := removeItem h (scoreQueue em)\<rparr>
       else rescore h (Suc (i h)) em = Inr em2" "st' = (b1, um_put h (Suc (i h)) nTaken, h, em2)"
    by (auto simp: rbind_Inr_iff split: if_splits)
  ultimately show ?thesis using top nl unfolding i_def by blast
qed

lemma getBlock_step_decreases: "getBlock_step st = Inr st' \<Longrightarrow> untaken st' < untaken st"
proof -
  assume a: "getBlock_step st = Inr st'"
  obtain b nTaken h0 em where st: "st = (b, nTaken, h0, em)" by (cases st)
  from getBlock_step_Inr [OF a [unfolded st]] obtain h nl b1 em2 where
    nl: "um_find (neigLists em) h = Some nl" and i: "taken nTaken h < length (edges nl)"
    and em2: "if Suc (taken nTaken h) = length (edges nl) then em2 = em\<lparr>scoreQueue := removeItem h (scoreQueue em)\<rparr>
       else rescore h (Suc (taken nTaken h)) em = Inr em2"
    and st': "st' = (b1, um_put h (Suc (taken nTaken h)) nTaken, h, em2)" by auto
  have "neigLists em2 = neigLists em" using em2 rescore_lists nl by (auto split: if_splits)
  moreover have "(h, nl) \<in> set (neigLists em)" using nl by (rule map_of_SomeD)
  ultimately show ?thesis
    unfolding st st' untaken_def prod.case
    using i by (auto intro!: sum_list_less_one [where x = "(h, nl)"] simp: taken_def)
qed

function getBlock_loop :: "taking \<Rightarrow> taking result" where
  "getBlock_loop st =
     (if \<not> pq_empty (scoreQueue (snd (snd (snd st))))
         \<and> serializedSize (fst st) < blockSize (emConf (snd (snd (snd st))))
      then rbind (getBlock_step st) getBlock_loop
      else Inr st)"
  by pat_completeness auto

termination getBlock_loop
  by (relation "measure untaken") (auto simp: getBlock_step_decreases)

declare getBlock_loop.simps [simp del]

text \<open>The statistics of the finished block are those of a candidate with the same counts.\<close>

definition block_candidate :: "(vertexId, neighborList) umap \<Rightarrow> block \<Rightarrow> candidate result" where
  "block_candidate nls b =
     for_each (\<lambda>p. setEdgeCount nls (fst p) (length (edges (snd p)))) (neigs b) Candidate"

definition em_getBlock :: "expirationMap \<Rightarrow> (block \<times> expirationMap) result" where
  "em_getBlock em =
     rbind (getBlock_loop (Block 0, [], 0, em)) (\<lambda>st.
     let (b, nTaken, h, em1) = st
     in rbind (if blockSize (emConf em1) < serializedSize b
               then rbind (removeNewestEdge h b) (\<lambda>b1.
                    rbind (rescore h (case um_find (neigs b1) h of None \<Rightarrow> 0 | Some nl \<Rightarrow> length (edges nl)) em1)
                      (\<lambda>em2. Inr (b1, em2)))
               else Inr (b, em1)) (\<lambda>(b1, em2).
        rbind (block_candidate (neigLists em2) b1) (\<lambda>c.
          Inr (b1, em2\<lparr>stats := bs_update c (stats em2)\<rparr>))))"

section \<open>Growing candidates\<close>

record extension =
  exFound :: bool
  exHead :: vertexId
  exCount :: nat
  exScore :: double

definition consider_ext ::
  "localityMetric \<Rightarrow> double \<Rightarrow> size_t \<Rightarrow> vertexId \<Rightarrow> nat \<Rightarrow> candidate \<Rightarrow> extension \<Rightarrow> extension" where
  "consider_ext metric initLocality orgSize h n c best =
     (let sc = ddiv (dsub (getLocality metric c) initLocality) (d_size (cSize c - orgSize))
      in if \<not> exFound best \<or> dgt sc (exScore best)
         then \<lparr>exFound = True, exHead = h, exCount = n, exScore = sc\<rparr> else best)"

text \<open>The inner loop of the first stage, over the edge counts still to try; both \<^verbatim>\<open>break\<close>s leave it.\<close>

fun extend_inner ::
  "expirationMap \<Rightarrow> double \<Rightarrow> size_t \<Rightarrow> timestamp \<Rightarrow> vertexId \<Rightarrow> neighborList \<Rightarrow> nat list
     \<Rightarrow> candidate \<times> extension \<Rightarrow> (candidate \<times> extension) result" where
  "extend_inner em il os mt h nlist [] st = Inr st"
| "extend_inner em il os mt h nlist (n # ns) st =
     rbind (getNthOldestEdge nlist (n - 1)) (\<lambda>e.
       if dgt (tm e) mt then Inr st
       else rbind (assert_that (n \<le> length (edges nlist))) (\<lambda>_.
            rbind (setEdgeCount (neigLists em) h n (fst st)) (\<lambda>c.
              if blockSize (emConf em) < cSize c then Inr (c, snd st)
              else extend_inner em il os mt h nlist ns (c, consider_ext (locMetric em) il os h n c (snd st)))))"

definition extend_present ::
  "expirationMap \<Rightarrow> double \<Rightarrow> size_t \<Rightarrow> timestamp \<Rightarrow> vertexId \<Rightarrow> candidate \<times> extension \<Rightarrow> (candidate \<times> extension) result" where
  "extend_present em il os mt h st =
     (case um_find (neigLists em) h of
        None \<Rightarrow> Inr st
      | Some nlist \<Rightarrow>
          let org = cand_getEdgeCount h (fst st)
          in rbind (extend_inner em il os mt h nlist [Suc org..<Suc (length (edges nlist))] st) (\<lambda>st1.
             rbind (assert_that (org \<le> length (edges nlist))) (\<lambda>_.
             rbind (setEdgeCount (neigLists em) h org (fst st1)) (\<lambda>c. Inr (c, snd st1)))))"

definition extend_one_step ::
  "expirationMap \<Rightarrow> double \<Rightarrow> size_t \<Rightarrow> vertexId \<Rightarrow> candidate \<times> extension \<Rightarrow> (candidate \<times> extension) result" where
  "extend_one_step em il os h st =
     (case um_find (neigLists em) h of
        None \<Rightarrow> Inr st
      | Some nlist \<Rightarrow>
          let org = cand_getEdgeCount h (fst st)
          in if org = length (edges nlist) then Inr st
             else rbind (assert_that (Suc org \<le> length (edges nlist))) (\<lambda>_.
                  rbind (setEdgeCount (neigLists em) h (Suc org) (fst st)) (\<lambda>c.
                  let best = (if cSize c \<le> blockSize (emConf em)
                              then consider_ext (locMetric em) il os h (Suc org) c (snd st) else snd st)
                  in rbind (setEdgeCount (neigLists em) h org c) (\<lambda>c1. Inr (c1, best)))))"

text \<open>The third stage tries the heads of the score queue until one edge fits or none can.\<close>

fun extend_any ::
  "vertexId list \<Rightarrow> expirationMap \<times> candidate \<times> extension \<Rightarrow> (expirationMap \<times> candidate \<times> extension) result" where
  "extend_any [] st = Inr st"
| "extend_any (h # hs) st =
     (case st of (em, c, best) \<Rightarrow>
        if exFound best then Inr st
        else
          let (nlist, em1) = nl_ref h em; org = cand_getEdgeCount h c
          in if org = length (edges nlist) then extend_any hs (em1, c, best)
             else rbind (assert_that (Suc org \<le> length (edges nlist))) (\<lambda>_.
                  rbind (setEdgeCount (neigLists em1) h (Suc org) c) (\<lambda>c1.
                  let sz = cSize c1;
                      best1 = (if sz \<le> blockSize (emConf em1)
                               then best\<lparr>exFound := True, exHead := h, exCount := Suc org\<rparr> else best)
                  in rbind (setEdgeCount (neigLists em1) h org c1) (\<lambda>c2.
                       if blockSize (emConf em1) < sz \<and> (org \<noteq> 0 \<or> blockSize (emConf em1) < sz - (8 + 4))
                       then Inr (em1, c2, best1)
                       else extend_any hs (em1, c2, best1)))))"

definition commit_extension :: "expirationMap \<Rightarrow> candidate \<Rightarrow> extension \<Rightarrow> (candidate \<times> expirationMap) result" where
  "commit_extension em c best =
     (if exFound best
      then (case nl_ref (exHead best) em of (nlist, em1) \<Rightarrow>
              rbind (assert_that (exCount best \<le> length (edges nlist))) (\<lambda>_.
              rbind (setEdgeCount (neigLists em1) (exHead best) (exCount best) c) (\<lambda>c1. Inr (c1, em1))))
      else Inr (c, em))"

definition extendCandidate :: "expirationMap \<Rightarrow> candidate \<Rightarrow> (bool \<times> candidate \<times> expirationMap) result" where
  "extendCandidate em c =
     (let il = getLocality (locMetric em) c; os = cSize c; best = \<lparr>exFound = False, exHead = 0, exCount = 0, exScore = 0\<rparr>
      in rbind (getNewestTime c) (\<lambda>mt.
         let vertices = map fst (presentVertices c)
         in rbind (for_each (extend_present em il os mt) vertices (c, best)) (\<lambda>st1.
            rbind (if exFound (snd st1) then Inr st1
                   else for_each (extend_one_step em il os) vertices st1) (\<lambda>st2.
            rbind (extend_any (map snd (items (scoreQueue em))) (em, st2)) (\<lambda>(em3, c3, best3).
            rbind (commit_extension em3 c3 best3) (\<lambda>(c4, em4).
              Inr (\<not> exFound best3 \<or> cSize c4 = blockSize (emConf em4), c4, em4)))))))"

fun extend_round ::
  "candidate list \<Rightarrow> candidate list \<Rightarrow> candidate list \<Rightarrow> expirationMap
     \<Rightarrow> (candidate list \<times> candidate list \<times> expirationMap) result" where
  "extend_round [] kept finalized em = Inr (kept, finalized, em)"
| "extend_round (c # cs) kept finalized em =
     rbind (extendCandidate em c) (\<lambda>(done, c1, em1).
       if done then extend_round cs kept (finalized @ [c1]) em1
       else rbind (assert_that (cSize c < cSize c1)) (\<lambda>_. extend_round cs (kept @ [c1]) finalized em1))"

text \<open>Every round finalises a candidate or, by the assertion, makes it larger.\<close>

definition spare :: "candidate \<Rightarrow> nat" where
  "spare c = 2 ^ 64 - unat (cSize c)"

definition room :: "candidate list \<Rightarrow> nat" where
  "room cs = sum_list (map spare cs)"

lemma spare_pos: "0 < spare c"
  using unat_lt_64 [of "cSize c"] by (simp add: spare_def del: unat_lt_64)

lemma spare_less: "cSize c < cSize c1 \<Longrightarrow> spare c1 < spare c"
  using unat_lt_64 [of "cSize c1"] by (simp add: spare_def word_less_nat_alt del: unat_lt_64)

lemma extend_round_room:
  "extend_round cs kept fin em = Inr (kept', fin', em') \<Longrightarrow>
    room kept' \<le> room kept + room cs \<and> (cs \<noteq> [] \<longrightarrow> room kept' < room kept + room cs)"
proof (induction cs arbitrary: kept fin em)
  case Nil
  then show ?case by (simp add: room_def)
next
  case (Cons c cs)

  from Cons.prems obtain d c1 em1 where x: "extendCandidate em c = Inr (d, c1, em1)"
    by (auto simp: rbind_Inr_iff)
  show ?case
  proof (cases d)
    case True
    with Cons.prems x have "extend_round cs kept (fin @ [c1]) em1 = Inr (kept', fin', em')" by simp
    from Cons.IH [OF this] spare_pos [of c] show ?thesis by (auto simp: room_def)
  next
    case False
    with Cons.prems x have less: "cSize c < cSize c1"
      and r: "extend_round cs (kept @ [c1]) fin em1 = Inr (kept', fin', em')" by (auto simp: rbind_Inr_iff)
    from Cons.IH [OF r] spare_less [OF less] show ?thesis by (auto simp: room_def)
  qed
qed


function extend_all :: "candidate list \<Rightarrow> candidate list \<Rightarrow> expirationMap \<Rightarrow> (candidate list \<times> expirationMap) result" where
  "extend_all cs finalized em =
     (if cs = [] then Inr (finalized, em)
      else rbind (extend_round cs [] finalized em) (\<lambda>r. extend_all (fst r) (fst (snd r)) (snd (snd r))))"
  by pat_completeness auto

termination extend_all
proof (relation "measure (\<lambda>(cs, f, em). room cs)", goal_cases)
  case (2 cs fin em r)
  then show ?case using extend_round_room [of cs "[]" fin em "fst r" "fst (snd r)" "snd (snd r)"]
    by (simp add: room_def case_prod_beta)
qed simp

declare extend_all.simps [simp del]

definition initial_candidate :: "vertexId \<Rightarrow> candidate list \<times> expirationMap \<Rightarrow> (candidate list \<times> expirationMap) result" where
  "initial_candidate h st =
     (case nl_ref h (snd st) of (nlist, em) \<Rightarrow>
        let n = min (length (edges nlist)) (seedEdgeCount (smartLayoutConf (emConf em)))
        in rbind (assert_that (n \<le> length (edges nlist))) (\<lambda>_.
           rbind (setEdgeCount (neigLists em) h n Candidate) (\<lambda>c. Inr (fst st @ [c], em))))"

definition d_minus_one :: double where
  "d_minus_one = 13830554455654793216"

fun best_candidate :: "localityMetric \<Rightarrow> candidate list \<Rightarrow> nat \<Rightarrow> nat \<times> double \<Rightarrow> nat result" where
  "best_candidate metric [] j st = Inr (fst st)"
| "best_candidate metric (c # cs) j st =
     (let ls = getLocality metric c
      in rbind (assert_that (dge ls 0)) (\<lambda>_.
           best_candidate metric cs (Suc j) (if dgt ls (snd st) then (j, ls) else st)))"

definition form_list :: "(vertexId, neighborList) umap \<Rightarrow> vertexId \<times> nat \<Rightarrow> block \<Rightarrow> block result" where
  "form_list nls p b =
     rbind (deref (um_find nls (fst p))) (\<lambda>nlist.
       for_each (\<lambda>i b1. rbind (getNthOldestEdge nlist i) (\<lambda>e.
           addEdge (fst p) (toVertex e) (tm e) (edata e) b1)) [0..<snd p] b)"

definition em_getBlockSmart :: "expirationMap \<Rightarrow> (block \<times> expirationMap) result" where
  "em_getBlockSmart em =
     (let k = min (length (neigLists em)) (initialCandidateCount (smartLayoutConf (emConf em)))
      in rbind (if k \<le> length (items (scoreQueue em)) then Inr (take k (map snd (items (scoreQueue em))))
                else Inl UndefinedBehavior) (\<lambda>heads.
         rbind (for_each initial_candidate heads ([], em)) (\<lambda>(cs, em1).
         rbind (extend_all cs [] em1) (\<lambda>(finalized, em2).
         rbind (best_candidate (locMetric em2) finalized 0 (0, d_minus_one)) (\<lambda>bIndex.
         rbind (vec_index finalized bIndex) (\<lambda>c.
         let em3 = em2\<lparr>stats := bs_update c (stats em2)\<rparr>
         in rbind (for_each (form_list (neigLists em3)) (numEdges c) (Block 0)) (\<lambda>b. Inr (b, em3))))))))"

section \<open>Writing blocks\<close>

definition writeBlock :: "(block \<Rightarrow> 'h \<Rightarrow> 'h result) \<Rightarrow> expirationMap \<times> 'h \<Rightarrow> (expirationMap \<times> 'h) result" where
  "writeBlock addBlk st =
     rbind (case layoutMode (emConf (fst st)) of LM_Smart \<Rightarrow> em_getBlockSmart (fst st) | _ \<Rightarrow> em_getBlock (fst st)) (\<lambda>(b, em1).
     rbind (removeEdges b em1) (\<lambda>em2.
     rbind (assert_that (length (neigLists em2) = getSize (scoreQueue em2))) (\<lambda>_.
     rbind (addBlk b (snd st)) (\<lambda>h. Inr (em2, h)))))"

definition em_push :: "vertexId \<Rightarrow> edge \<Rightarrow> expirationMap \<Rightarrow> expirationMap result" where
  "em_push v e em =
     (case nl_ref v em of (nlist, em1) \<Rightarrow>
        rescore v 0 (em1\<lparr>neigLists := um_put v (nl_addEdge e (nlist\<lparr>headVertex := v\<rparr>)) (neigLists em1)\<rparr>))"

definition em_addEdge ::
  "(block \<Rightarrow> 'h \<Rightarrow> 'h result) \<Rightarrow> uEdge \<Rightarrow> attributeData shared_ptr \<Rightarrow> expirationMap \<times> 'h \<Rightarrow> (expirationMap \<times> 'h) result" where
  "em_addEdge addBlk ue data st =
     rbind (em_push (firstVertex ue) \<lparr>toVertex = secondVertex ue, tm = utm ue, edata = data\<rparr> (fst st)) (\<lambda>em1.
     rbind (em_push (secondVertex ue) \<lparr>toVertex = firstVertex ue, tm = utm ue, edata = data\<rparr> em1) (\<lambda>em2.
     let em3 = em2\<lparr>emSize := emSize em2 + 2\<rparr>
     in if maxSize em3 < emSize em3 then writeBlock addBlk (em3, snd st) else Inr (em3, snd st)))"

partial_function (option) flush ::
  "(block \<Rightarrow> 'h \<Rightarrow> 'h result) \<Rightarrow> expirationMap \<times> 'h \<Rightarrow> (expirationMap \<times> 'h) result option" where
  "flush addBlk st =
     (if 0 < emSize (fst st)
      then (case writeBlock addBlk st of
              Inl err \<Rightarrow> Some (Inl err)
            | Inr st1 \<Rightarrow> flush addBlk st1)
      else Some (Inr st))"

end
