(* ===== verification/LayoutLemmas.thy ===== *)
theory LayoutLemmas
  imports Layout
begin

text \<open>
  Correctness of the expiration map. The neighbour lists of the map and those of a block are compared
  through \<open>keys_at\<close>: for a vertex the sequence of target, time and record address of its edges. A
  written block takes for some vertices a non-empty prefix of their sequence (\<open>cuts\<close>), and what stays
  in the map is the rest; the size counter, the lists and the score queue stay in agreement
  (\<open>em_inv\<close>). On this rests that \<open>flush\<close> ends.
\<close>

section \<open>Edges of a vertex\<close>

definition ekey :: "edge \<Rightarrow> vertexId \<times> timestamp \<times> nat option" where
  "ekey e = (toVertex e, tm e, map_option fst (edata e))"

definition keys_at :: "(vertexId, neighborList) umap \<Rightarrow> vertexId \<Rightarrow> (vertexId \<times> timestamp \<times> nat option) list" where
  "keys_at m v = (case um_find m v of None \<Rightarrow> [] | Some nl \<Rightarrow> map ekey (edges nl))"

lemma heads_ok_find: "heads_ok m \<Longrightarrow> um_find m v = Some nl \<Longrightarrow> headVertex nl = v \<and> edges nl \<noteq> []"
  by (auto simp: heads_ok_def dest: map_of_SomeD)

lemma heads_ok_um: "heads_ok m \<Longrightarrow> um_ok m"
  by (simp add: heads_ok_def)

lemma heads_ok_nil [simp]: "heads_ok []"
  by (simp add: heads_ok_def)

lemma heads_okI:
  assumes "um_ok m" and "\<And>v nl. um_find m v = Some nl \<Longrightarrow> headVertex nl = v \<and> edges nl \<noteq> []"
  shows "heads_ok m"
  unfolding heads_ok_def using assms map_of_is_SomeI by fast

lemma heads_ok_put: "heads_ok m \<Longrightarrow> headVertex nl = v \<Longrightarrow> edges nl \<noteq> [] \<Longrightarrow> heads_ok (um_put v nl m)"
  by (rule heads_okI) (auto simp: heads_ok_um simp del: map_of_eq_Some_iff dest: heads_ok_find split: if_splits)

lemma heads_ok_erase: "heads_ok m \<Longrightarrow> heads_ok (um_erase v m)"
  by (rule heads_okI) (auto simp: heads_ok_um simp del: map_of_eq_Some_iff dest: heads_ok_find split: if_splits)

lemma find_None_iff: "um_find m v = None \<longleftrightarrow> v \<notin> fst ` set m"
  by (rule map_of_eq_None_iff)

lemma keys_at_nil_iff: "heads_ok m \<Longrightarrow> keys_at m v = [] \<longleftrightarrow> v \<notin> fst ` set m"
  unfolding find_None_iff [symmetric] by (auto simp: keys_at_def split: option.splits dest: heads_ok_find)

lemma keys_at_nil [simp]: "keys_at [] v = []"
  by (simp add: keys_at_def)

lemma append_edge_keys:
  assumes "heads_ok (neigs b)"
  shows "\<exists>b1. append_edge h e b = Inr b1 \<and> neigs b1 = nb_push h e (neigs b)"
  by (auto simp: append_edge_def Let_def addNeighborList_def nb_push_def um_count_def um_put_put split: option.splits)

lemma nb_push_keys: "keys_at (nb_push h e m) v = (if v = h then keys_at m h @ [ekey e] else keys_at m v)"
  by (auto simp: keys_at_def nb_push_def nl_addEdge_def split: option.splits)

lemma addEdge_keys:
  assumes "addEdge h to t data b = Inr b1" and "heads_ok (neigs b)"
  shows "heads_ok (neigs b1)"
    and "keys_at (neigs b1) v = (if v = h then keys_at (neigs b) h @ [(to, t, map_option fst data)] else keys_at (neigs b) v)"
proof -
  from assms(1) obtain sd b2 where b2: "neigs b2 = neigs b" "map_option fst sd = map_option fst data"
    and app: "append_edge h \<lparr>toVertex = to, tm = t, edata = sd\<rparr> b2 = Inr b1"
    unfolding addEdge_def rbind_Inr_iff
  proof (elim exE conjE, goal_cases)
    case (1 s x)
    obtain sd b2 where x: "x = (sd, b2)" by force
    have s: "s = None \<or> map_option fst s = map_option fst data"
      using 1(2) by (auto simp: rbind_Inr_iff split: option.splits)
    have "neigs b2 = neigs b \<and> (sd = data \<or> sd = s \<and> s \<noteq> None)"
      using 1(3) by (auto simp: x rbind_Inr_iff split: option.splits)
    then show ?case using 1(1) [of b2 sd] 1(4) s by (auto simp: x)
  qed
  have "neigs b1 = nb_push h \<lparr>toVertex = to, tm = t, edata = sd\<rparr> (neigs b)"
    using append_edge_keys [of b2 h "\<lparr>toVertex = to, tm = t, edata = sd\<rparr>"] app b2(1) assms(2) by auto
  then show "heads_ok (neigs b1)"
    "keys_at (neigs b1) v = (if v = h then keys_at (neigs b) h @ [(to, t, map_option fst data)] else keys_at (neigs b) v)"
    using assms(2) b2(2) by (simp_all add: nb_push_ok nb_push_keys ekey_def)
qed

lemma removeNewestEdge_neigs:
  assumes "removeNewestEdge h b = Inr b1"
  obtains nl where "um_find (neigs b) h = Some nl"
    "neigs b1 = (if butlast (edges nl) = [] then um_erase h (neigs b) else um_put h (nl\<lparr>edges := butlast (edges nl)\<rparr>) (neigs b))"
  using assms by (auto simp: removeNewestEdge_def rbind_Inr_iff Let_def nl_removeNewestEdge_def split: option.splits if_splits)

lemma removeNewestEdge_keys:
  assumes "removeNewestEdge h b = Inr b1" and "heads_ok (neigs b)"
  shows "heads_ok (neigs b1)"
    and "keys_at (neigs b1) v = (if v = h then butlast (keys_at (neigs b) h) else keys_at (neigs b) v)"
proof -
  obtain nl where nl: "um_find (neigs b) h = Some nl"
    and n: "neigs b1 = (if butlast (edges nl) = [] then um_erase h (neigs b)
       else um_put h (nl\<lparr>edges := butlast (edges nl)\<rparr>) (neigs b))" by (rule removeNewestEdge_neigs [OF assms(1)])
  show "heads_ok (neigs b1)"
    using assms(2) heads_ok_find [OF assms(2) nl] by (simp add: n heads_ok_put heads_ok_erase)
  show "keys_at (neigs b1) v = (if v = h then butlast (keys_at (neigs b) h) else keys_at (neigs b) v)"
    using nl by (auto simp: n keys_at_def map_butlast [symmetric])
qed

text \<open>The records of the edges: \<open>D\<close> gives the record pointer of each time at which an edge exists. Block and
  map share records, so that an edge of a block has the record of its time whichever of its two ends
  was added first.\<close>

definition sharp :: "(timestamp \<rightharpoonup> attributeData shared_ptr) \<Rightarrow> bool" where
  "sharp D \<longleftrightarrow> (\<forall>t \<in> dom D. \<forall>t' \<in> dom D. deq t t' \<longrightarrow> t = t')"

definition carries :: "(timestamp \<rightharpoonup> attributeData shared_ptr) \<Rightarrow> (vertexId, neighborList) umap \<Rightarrow> bool" where
  "carries D m \<longleftrightarrow> (\<forall>v nl. um_find m v = Some nl \<longrightarrow> (\<forall>e \<in> set (edges nl). D (tm e) = Some (edata e)))"

lemma carries_nil [simp]: "carries D []"
  by (simp add: carries_def)

lemma carries_put: "carries D m \<Longrightarrow> \<forall>e \<in> set (edges nl). D (tm e) = Some (edata e) \<Longrightarrow> carries D (um_put v nl m)"
  by (auto simp: carries_def)

lemma addEdge_carries:
  assumes "addEdge h to t data b = Inr b1" "heads_ok (neigs b)" "sharp D" "carries D (neigs b)" "D t = Some data"
  shows "carries D (neigs b1)"
proof -
  from assms(1) obtain sd b2 where b2: "neigs b2 = neigs b" "sd = data"
    and app: "append_edge h \<lparr>toVertex = to, tm = t, edata = sd\<rparr> b2 = Inr b1"
    unfolding addEdge_def rbind_Inr_iff
  proof (elim exE conjE, goal_cases)
    case (1 s x)
    obtain sd b2 where x: "x = (sd, b2)" by force
    have s: "s = None \<or> s = data"
    proof (cases "um_find (neigs b) to")
      case (Some nl)
      show ?thesis
      proof (cases "getEdgeAttributeData nl h t")
        case (Some p)
        then obtain e where e: "e \<in> set (edges nl)" "deq (tm e) t" "edata e = p" using getEdgeAttributeData_SomeD by blast
        then have D: "D (tm e) = Some p" using assms(4) \<open>um_find (neigs b) to = Some nl\<close> by (auto simp: carries_def)
        then have "tm e = t" using e(2) assms(3,5) by (auto simp: sharp_def)
        then show ?thesis using D assms(5) Some \<open>um_find (neigs b) to = Some nl\<close> 1(2) by (auto simp: rbind_Inr_iff)
      qed (use 1(2) Some in simp)
    qed (use 1(2) in simp)
    have "neigs b2 = neigs b \<and> (sd = data \<or> sd = s \<and> s \<noteq> None)"
      using 1(3) by (auto simp: x rbind_Inr_iff split: option.splits)
    then show ?case using 1(1) [of b2 sd] 1(4) s by (auto simp: x)
  qed
  have "neigs b1 = nb_push h \<lparr>toVertex = to, tm = t, edata = data\<rparr> (neigs b)"
    using append_edge_keys [of b2 h "\<lparr>toVertex = to, tm = t, edata = sd\<rparr>"] app b2 assms(2) by auto
  then show ?thesis using assms(4,5) by (auto simp: nb_push_def nl_addEdge_def carries_def split: option.splits)
qed

lemma removeNewestEdge_carries: "removeNewestEdge h b = Inr b1 \<Longrightarrow> carries D (neigs b) \<Longrightarrow> carries D (neigs b1)"
  by (erule removeNewestEdge_neigs) (auto simp: carries_def dest: in_set_butlastD)

section \<open>Scores\<close>

lemma d_size_ok: "\<not> is_nan (d_size n)"
  unfolding d_size_def dof_nat_def by (rule dround_nonneg_ok) (rule of_nat_0_le_iff)

lemma dof_nat_ok: "\<not> is_nan (dof_nat n)"
  unfolding dof_nat_def by (rule dround_nonneg_ok) (rule of_nat_0_le_iff)

lemma dminus_ok: "\<not> is_nan d \<Longrightarrow> \<not> is_nan (dminus d)"
  by (simp add: is_nan_def dminus_def dmag_with_sign dmag_def [of d])

text \<open>Times are ordinary numbers throughout.\<close>

definition times_ok :: "(vertexId, neighborList) umap \<Rightarrow> bool" where
  "times_ok m \<longleftrightarrow> (\<forall>v nl. um_find m v = Some nl \<longrightarrow> (\<forall>e \<in> set (edges nl). \<not> is_nan (tm e)))"

lemma score_result:
  assumes "um_find (neigLists em) v = Some nl" and "i < length (edges nl)" and "times_ok (neigLists em)"
  shows "\<exists>s k. score v i em = Inr (s, em\<lparr>randPos := k\<rparr>) \<and> \<not> is_nan s"
proof -
  have t: "\<not> is_nan (tm (edges nl ! i))" using assms by (auto simp: times_ok_def)
  show ?thesis
  proof (cases "hvScorer em = RandScorer")
    case True
    then show ?thesis by (auto simp: score_def score_rand_def dof_nat_ok)
  next
    case False
    then have "\<exists>s. score v i em = Inr (s, em\<lparr>randPos := randPos em\<rparr>) \<and> \<not> is_nan s"
      using assms(1,2) t
      by (cases "hvScorer em")
        (auto simp: score_def score_min_def score_max_def score_old_def score_new_def nl_ref_def
          getNthOldestEdge_def vec_index_def d_size_ok dminus_ok)
    then show ?thesis by blast
  qed
qed

lemma rescore_result:
  assumes "um_find (neigLists em) v = Some nl" and "i < length (edges nl)" and "times_ok (neigLists em)"
    and "pq_inv MinAtTop (scoreQueue em)"
  shows "\<exists>k q. rescore v i em = Inr (em\<lparr>randPos := k, scoreQueue := q\<rparr>) \<and> pq_inv MinAtTop q
    \<and> dom (pq_look q) = insert v (dom (pq_look (scoreQueue em)))"
proof -
  from score_result [OF assms(1-3)] obtain s k where s: "score v i em = Inr (s, em\<lparr>randPos := k\<rparr>)" "\<not> is_nan s" by blast
  let ?q = "updateItem MinAtTop s v (scoreQueue em)"
  have "rescore v i em = Inr (em\<lparr>randPos := k, scoreQueue := ?q\<rparr>)" using s(1) by (simp add: rescore_def)
  moreover have "pq_inv MinAtTop ?q" "dom (pq_look ?q) = insert v (dom (pq_look (scoreQueue em)))"
    using pq.upd_inv [OF assms(4) s(2)] pq.upd_dom [OF assms(4) s(2)] by auto
  ultimately show ?thesis by blast
qed

section \<open>The invariant\<close>

definition total :: "(vertexId, neighborList) umap \<Rightarrow> nat" where
  "total m = sum_list (map (\<lambda>e. length (edges (snd e))) m)"

text \<open>A neighbour list names each target and time once, so that the newest edge of a block is recognised.\<close>

definition unique_edges :: "(vertexId, neighborList) umap \<Rightarrow> bool" where
  "unique_edges m \<longleftrightarrow> (\<forall>v nl. um_find m v = Some nl \<longrightarrow> distinct (map (\<lambda>e. (toVertex e, dkey (tm e))) (edges nl)))"

definition em_inv :: "expirationMap \<Rightarrow> bool" where
  "em_inv em \<longleftrightarrow> heads_ok (neigLists em) \<and> times_ok (neigLists em) \<and> unique_edges (neigLists em)
     \<and> pq_inv MinAtTop (scoreQueue em) \<and> dom (pq_look (scoreQueue em)) = fst ` set (neigLists em)
     \<and> unat (emSize em) = total (neigLists em)"

text \<open>Lists only lose edges at their old end.\<close>

definition remains :: "(vertexId, neighborList) umap \<Rightarrow> (vertexId, neighborList) umap \<Rightarrow> bool" where
  "remains m m' \<longleftrightarrow> (\<forall>v nl'. um_find m' v = Some nl' \<longrightarrow> (\<exists>nl. um_find m v = Some nl \<and> set (edges nl') \<subseteq> set (edges nl)))"

lemma remains_refl: "remains m m"
  by (simp add: remains_def)

lemma carries_remains: "carries D m \<Longrightarrow> remains m m' \<Longrightarrow> carries D m'"
  unfolding carries_def remains_def by (meson subsetD)

lemma remains_trans: "remains a b \<Longrightarrow> remains b c \<Longrightarrow> remains a c"
  unfolding remains_def by (meson subset_trans)

text \<open>A block cut from the lists of the map: for every vertex a prefix of its edges.\<close>

definition cuts :: "block \<Rightarrow> (vertexId, neighborList) umap \<Rightarrow> bool" where
  "cuts b m \<longleftrightarrow> heads_ok (neigs b) \<and> (\<forall>v. prefix (keys_at (neigs b) v) (keys_at m v))"

lemma total_put_aux:
  "um_ok m \<Longrightarrow> um_find m v = Some nl \<Longrightarrow> total (um_put v nl' m) + length (edges nl) = total m + length (edges nl')"
  unfolding um_put_def total_def by (induction m) (auto split: if_splits)

lemma total_erase_aux:
  "um_ok m \<Longrightarrow> um_find m v = Some nl \<Longrightarrow> total (um_erase v m) + length (edges nl) = total m"
proof (induction m)
  case (Cons p m)
  show ?case
  proof (cases "fst p = v")
    case True
    with Cons.prems have "AList.delete v m = m" by (auto intro: delete_id)
    with True Cons.prems show ?thesis by (auto simp: um_erase_def total_def)
  next
    case False
    with Cons show ?thesis by (auto simp: um_erase_def total_def)
  qed
qed simp

lemma total_ge: "um_find m v = Some nl \<Longrightarrow> length (edges nl) \<le> total m"
  using member_le_sum_list [of "length (edges nl)" "map (\<lambda>e. length (edges (snd e))) m"]
  by (force simp: total_def dest: map_of_SomeD)

section \<open>Taking edges by score\<close>

definition taking_ok :: "expirationMap \<Rightarrow> taking \<Rightarrow> bool" where
  "taking_ok em0 st \<longleftrightarrow> (case st of (b, nTaken, h, em) \<Rightarrow>
     (\<exists>k q. em = em0\<lparr>randPos := k, scoreQueue := q\<rparr>) \<and> heads_ok (neigs b) \<and> pq_inv MinAtTop (scoreQueue em)
     \<and> (\<forall>v. taken nTaken v \<le> length (keys_at (neigLists em0) v)
          \<and> keys_at (neigs b) v = take (taken nTaken v) (keys_at (neigLists em0) v))
     \<and> dom (pq_look (scoreQueue em)) = {v. taken nTaken v < length (keys_at (neigLists em0) v)})"

lemma taking_okD:
  assumes "taking_ok em0 (b, nTaken, h, em)"
  shows "\<exists>k q. em = em0\<lparr>randPos := k, scoreQueue := q\<rparr>" "neigLists em = neigLists em0" "emConf em = emConf em0"
    "emSize em = emSize em0" "heads_ok (neigs b)" "pq_inv MinAtTop (scoreQueue em)"
    "taken nTaken v \<le> length (keys_at (neigLists em0) v)"
    "keys_at (neigs b) v = take (taken nTaken v) (keys_at (neigLists em0) v)"
    "dom (pq_look (scoreQueue em)) = {v. taken nTaken v < length (keys_at (neigLists em0) v)}"
  using assms unfolding taking_ok_def by auto

lemma taking_okI:
  assumes "em = em0\<lparr>randPos := k, scoreQueue := q\<rparr>" and "heads_ok (neigs b)" and "pq_inv MinAtTop q"
    and "\<And>v. taken nTaken v \<le> length (keys_at (neigLists em0) v)"
    and "\<And>v. keys_at (neigs b) v = take (taken nTaken v) (keys_at (neigLists em0) v)"
    and "dom (pq_look q) = {v. taken nTaken v < length (keys_at (neigLists em0) v)}"
  shows "taking_ok em0 (b, nTaken, h, em)"
  unfolding taking_ok_def prod.case using assms by (intro conjI exI allI) simp_all

lemma taken_put: "taken (um_put h i m) v = (if v = h then i else taken m v)"
  by (simp add: taken_def)

lemma taking_start: "em_inv em \<Longrightarrow> taking_ok em (Block 0, [], 0, em)"
proof -
  assume a: "em_inv em"
  have "em = em\<lparr>randPos := randPos em, scoreQueue := scoreQueue em\<rparr>" by simp
  moreover have "fst ` set (neigLists em) = {v. 0 < length (keys_at (neigLists em) v)}"
    using a by (auto simp: em_inv_def keys_at_nil_iff)
  ultimately show ?thesis using a
    by (intro taking_okI [where k = "randPos em" and q = "scoreQueue em"])
      (simp_all add: em_inv_def taken_def Block_def)
qed

lemma taking_step:
  assumes inv: "em_inv em0" and ok: "taking_ok em0 st" and step: "getBlock_step st = Inr st'"
  shows "taking_ok em0 st' \<and> 0 < taken (fst (snd st')) (fst (snd (snd st')))"
proof -
  obtain b nTaken h0 em where st: "st = (b, nTaken, h0, em)" by (cases st)
  note D = taking_okD [OF ok [unfolded st]]
  from getBlock_step_Inr [OF step [unfolded st]] obtain h nl b1 em2 e where
    nl: "um_find (neigLists em) h = Some nl" and i: "taken nTaken h < length (edges nl)" and e: "e = edges nl ! taken nTaken h"
    and add: "addEdge h (toVertex e) (tm e) (edata e) b = Inr b1"
    and em2: "if Suc (taken nTaken h) = length (edges nl) then em2 = em\<lparr>scoreQueue := removeItem h (scoreQueue em)\<rparr>
       else rescore h (Suc (taken nTaken h)) em = Inr em2"
    and st': "st' = (b1, um_put h (Suc (taken nTaken h)) nTaken, h, em2)" by auto
  have K: "keys_at (neigLists em0) h = map ekey (edges nl)" using nl D(2) by (simp add: keys_at_def)
  from D(1) obtain k q where em: "em = em0\<lparr>randPos := k, scoreQueue := q\<rparr>" by blast
  have q2: "\<exists>k q. em2 = em0\<lparr>randPos := k, scoreQueue := q\<rparr> \<and> pq_inv MinAtTop q
      \<and> dom (pq_look q) = {v. taken (um_put h (Suc (taken nTaken h)) nTaken) v < length (keys_at (neigLists em0) v)}"
  proof (cases "Suc (taken nTaken h) = length (edges nl)")
    case True
    then have "em2 = em0\<lparr>randPos := k, scoreQueue := removeItem h (scoreQueue em)\<rparr>" using em2 em by simp
    moreover have "dom (pq_look (removeItem h (scoreQueue em))) = {v. taken (um_put h (Suc (taken nTaken h)) nTaken) v < length (keys_at (neigLists em0) v)}"
      unfolding pq.rem_dom [OF D(6)] D(9) using True K by (auto simp: taken_put)
    ultimately show ?thesis using pq.rem_inv [OF D(6)] by blast
  next
    case False
    then have lt: "Suc (taken nTaken h) < length (edges nl)" using i by simp
    have t: "times_ok (neigLists em)" using inv D(2) by (simp add: em_inv_def)
    from rescore_result [OF nl lt t D(6)] False em2 obtain k' q' where
      q': "em2 = em\<lparr>randPos := k', scoreQueue := q'\<rparr>" "pq_inv MinAtTop q'" "dom (pq_look q') = insert h (dom (pq_look (scoreQueue em)))"
      by auto
    have "em2 = em0\<lparr>randPos := k', scoreQueue := q'\<rparr>" using q'(1) em by simp
    moreover have "dom (pq_look q') = {v. taken (um_put h (Suc (taken nTaken h)) nTaken) v < length (keys_at (neigLists em0) v)}"
      unfolding q'(3) D(9) using lt K i by (auto simp: taken_put)
    ultimately show ?thesis using q'(2) by blast
  qed
  have "ekey e = keys_at (neigLists em0) h ! taken nTaken h" using e K i by simp
  then have "keys_at (neigs b1) v = take (taken (um_put h (Suc (taken nTaken h)) nTaken) v) (keys_at (neigLists em0) v)" for v
    using addEdge_keys(2) [OF add D(5)] D(8) [of v] D(8) [of h] K i
    by (simp add: taken_put ekey_def take_Suc_conv_app_nth)
  moreover have "taken (um_put h (Suc (taken nTaken h)) nTaken) v \<le> length (keys_at (neigLists em0) v)" for v
    using D(7) [of v] K i by (simp add: taken_put)
  moreover from q2 obtain k2 q2 where "em2 = em0\<lparr>randPos := k2, scoreQueue := q2\<rparr>" "pq_inv MinAtTop q2"
      "dom (pq_look q2) = {v. taken (um_put h (Suc (taken nTaken h)) nTaken) v < length (keys_at (neigLists em0) v)}" by blast
  ultimately have "taking_ok em0 st'" using addEdge_keys(1) [OF add D(5)] unfolding st' by (intro taking_okI)
  then show ?thesis by (simp add: st' taken_put)
qed

lemma getBlock_loop_ok:
  "getBlock_loop st = Inr st' \<Longrightarrow> em_inv em0 \<Longrightarrow> taking_ok em0 st \<Longrightarrow> taking_ok em0 st'"
proof (induction st rule: getBlock_loop.induct)
  case (1 st)
  show ?case
  proof (cases "\<not> pq_empty (scoreQueue (snd (snd (snd st)))) \<and> serializedSize (fst st) < blockSize (emConf (snd (snd (snd st))))")
    case True
    with "1.prems"(1) obtain st1 where step: "getBlock_step st = Inr st1" and rest: "getBlock_loop st1 = Inr st'"
      by (subst (asm) getBlock_loop.simps) (auto simp: rbind_Inr_iff)
    show ?thesis using "1.IH" [OF True step rest "1.prems"(2)] taking_step [OF "1.prems"(2,3) step] by blast
  next
    case False
    with 1 show ?thesis by (subst (asm) (2) getBlock_loop.simps) auto
  qed
qed

text \<open>The state between choosing a block and removing its edges: the heads still to be processed may or
  may not be in the queue.\<close>

definition mid_inv :: "vertexId set \<Rightarrow> expirationMap \<Rightarrow> bool" where
  "mid_inv hs em \<longleftrightarrow> heads_ok (neigLists em) \<and> times_ok (neigLists em) \<and> unique_edges (neigLists em)
     \<and> pq_inv MinAtTop (scoreQueue em) \<and> unat (emSize em) = total (neigLists em)
     \<and> dom (pq_look (scoreQueue em)) \<subseteq> fst ` set (neigLists em)
     \<and> fst ` set (neigLists em) - hs \<subseteq> dom (pq_look (scoreQueue em))"

lemma mid_inv_done: "mid_inv {} em \<longleftrightarrow> em_inv em"
  by (auto simp: mid_inv_def em_inv_def)

lemma cuts_length: "cuts b m \<Longrightarrow> length (keys_at (neigs b) v) \<le> length (keys_at m v)"
  by (simp add: cuts_def prefix_length_le)

definition same_edges :: "expirationMap \<Rightarrow> expirationMap \<Rightarrow> bool" where
  "same_edges em em' \<longleftrightarrow> neigLists em' = neigLists em \<and> emSize em' = emSize em \<and> emConf em' = emConf em \<and> maxSize em' = maxSize em"

lemma em_getBlock_cuts:
  assumes "em_inv em" and "em_getBlock em = Inr (b, em')"
  shows "cuts b (neigLists em) \<and> same_edges em em' \<and> mid_inv (fst ` set (neigs b)) em'"
proof -
  from assms(2) obtain b0 nTaken h em1 where loop: "getBlock_loop (Block 0, [], 0, em) = Inr (b0, nTaken, h, em1)"
    by (auto simp: em_getBlock_def rbind_Inr_iff Let_def split: prod.splits)
  note D = taking_okD [OF getBlock_loop_ok [OF loop assms(1) taking_start [OF assms(1)]]]
  from D(1) obtain k1 q1 where em1: "em1 = em\<lparr>randPos := k1, scoreQueue := q1\<rparr>" by blast
  have "\<exists>k q s. em' = em\<lparr>stats := s, randPos := k, scoreQueue := q\<rparr> \<and> cuts b (neigLists em) \<and> pq_inv MinAtTop q
      \<and> dom (pq_look q) = {v. length (keys_at (neigs b) v) < length (keys_at (neigLists em) v)}"
  proof (cases "blockSize (emConf em1) < serializedSize b0")
    case False
    with assms(2) loop have b: "b = b0" and em': "\<exists>s. em' = em1\<lparr>stats := s\<rparr>"
      by (auto simp: em_getBlock_def rbind_Inr_iff Let_def)
    have "cuts b (neigLists em)" unfolding cuts_def b using D(5,8) by (auto simp: take_is_prefix)
    moreover have "length (keys_at (neigs b) v) = taken nTaken v" for v
      using D(7) [of v] D(8) [of v] by (simp add: b)
    then have "dom (pq_look q1) = {v. length (keys_at (neigs b) v) < length (keys_at (neigLists em) v)}"
      using D(9) by (simp add: em1)
    moreover from em' obtain s where "em' = em1\<lparr>stats := s\<rparr>" ..
    then have "em' = em\<lparr>stats := s, randPos := k1, scoreQueue := q1\<rparr>" using em1 by simp
    ultimately show ?thesis using D(6) em1 by auto
  next
    case True
    with assms(2) loop obtain b1 em2 s where rem: "removeNewestEdge h b0 = Inr b1" and b: "b = b1" and em': "em' = em2\<lparr>stats := s\<rparr>"
      and res: "rescore h (case um_find (neigs b1) h of None \<Rightarrow> 0 | Some nl \<Rightarrow> length (edges nl)) em1 = Inr em2"
      by (auto simp: em_getBlock_def rbind_Inr_iff Let_def)
    note R = removeNewestEdge_keys [OF rem D(5)]
    have cnt: "(case um_find (neigs b1) h of None \<Rightarrow> 0 | Some nl \<Rightarrow> length (edges nl)) = length (keys_at (neigs b1) h)"
      by (simp add: keys_at_def split: option.splits)
    have "keys_at (neigs b0) h \<noteq> []"
      using rem heads_ok_find [OF D(5)] by (auto simp: removeNewestEdge_def keys_at_def split: option.splits)
    then have lt: "length (keys_at (neigs b1) h) < length (keys_at (neigLists em) h)" "0 < taken nTaken h"
      using R(2) [of h] D(7) [of h] D(8) [of h] by auto
    then obtain nl where nl: "um_find (neigLists em1) h = Some nl" "length (keys_at (neigs b1) h) < length (edges nl)"
      using D(2) by (auto simp: keys_at_def split: option.splits)
    have t: "times_ok (neigLists em1)" using assms(1) D(2) by (simp add: em_inv_def)
    from rescore_result [OF nl t D(6)] res cnt obtain k q where
      q: "em2 = em1\<lparr>randPos := k, scoreQueue := q\<rparr>" "pq_inv MinAtTop q" "dom (pq_look q) = insert h (dom (pq_look (scoreQueue em1)))"
      by auto
    have pre: "prefix (keys_at (neigs b) v) (keys_at (neigLists em) v)" for v
      using R(2) [of v] D(8) [of v] unfolding b
      by (auto simp: take_is_prefix intro: prefix_order.trans [OF prefixeq_butlast])
    then have "cuts b (neigLists em)" using R(1) b by (simp add: cuts_def)
    moreover have "dom (pq_look q) = {v. length (keys_at (neigs b) v) < length (keys_at (neigLists em) v)}"
    proof -
      have len: "length (keys_at (neigs b) v) = (if v = h then taken nTaken h - 1 else taken nTaken v)" for v
        using D(7) [of v] D(8) [of v] R(2) [of v] by (cases "v = h") (simp_all add: b)
      show ?thesis using lt(1) unfolding q(3) D(9) len b [symmetric] by auto
    qed
    moreover have "em' = em\<lparr>stats := s, randPos := k, scoreQueue := q\<rparr>" using em' q(1) em1 by simp
    ultimately show ?thesis using q(2) by blast
  qed
  then obtain k q s where em': "em' = em\<lparr>stats := s, randPos := k, scoreQueue := q\<rparr>" and c: "cuts b (neigLists em)"
    and q: "pq_inv MinAtTop q" "dom (pq_look q) = {v. length (keys_at (neigs b) v) < length (keys_at (neigLists em) v)}" by blast
  have h: "heads_ok (neigs b)" using c by (simp add: cuts_def)
  have e: "heads_ok (neigLists em)" using assms(1) by (simp add: em_inv_def)
  have ke: "fst ` set (neigLists em) = {v. keys_at (neigLists em) v \<noteq> []}"
    and kb: "fst ` set (neigs b) = {v. keys_at (neigs b) v \<noteq> []}"
    using keys_at_nil_iff [OF e] keys_at_nil_iff [OF h] by auto
  have "dom (pq_look q) \<subseteq> fst ` set (neigLists em)" unfolding ke q(2) by auto
  moreover have "fst ` set (neigLists em) - fst ` set (neigs b) \<subseteq> dom (pq_look q)"
    unfolding ke kb q(2) by auto
  ultimately show ?thesis using c assms(1) q(1) by (simp add: em' mid_inv_def em_inv_def same_edges_def)
qed

section \<open>Removing the edges of a block\<close>

lemma drop_through_result:
  assumes "distinct (map (\<lambda>e. (toVertex e, dkey (tm e))) es)" and "\<forall>e \<in> set es. \<not> is_nan (tm e)"
    and "n < length es" and "toVertex nedge = toVertex (es ! n)" and "tm nedge = tm (es ! n)"
  shows "drop_through nedge es sz = Inr (drop (Suc n) es, sz - word_of_nat (Suc n))"
  using assms
proof (induction es arbitrary: n sz)
  case (Cons e es)
  show ?case
  proof (cases n)
    case 0
    with Cons.prems show ?thesis by (simp add: deq_def)
  next
    case (Suc j)
    with Cons.prems have j: "j < length es" and ne: "toVertex nedge = toVertex (es ! j)" "tm nedge = tm (es ! j)" by auto
    have "(toVertex (es ! j), dkey (tm (es ! j))) \<noteq> (toVertex e, dkey (tm e))"
      using Cons.prems(1) imageI [OF nth_mem [OF j], of "\<lambda>e. (toVertex e, dkey (tm e))"] by auto
    then have "\<not> (toVertex e = toVertex nedge \<and> deq (tm e) (tm nedge))" using ne by (auto simp: deq_def)
    then have "drop_through nedge (e # es) sz = drop_through nedge es (sz - 1)" by auto
    also have "\<dots> = Inr (drop (Suc j) es, sz - 1 - word_of_nat (Suc j))"
      by (rule Cons.IH) (use Cons.prems(1,2) j ne in auto)
    finally have "drop_through nedge (e # es) sz = Inr (drop (Suc j) es, sz - 1 - word_of_nat (Suc j))" .
    then show ?thesis by (simp add: Suc algebra_simps)
  qed
qed simp

lemma keys_at_take_edges:
  assumes "prefix (map ekey es) (map ekey src)" and "es \<noteq> []"
  shows "length es - 1 < length src" "toVertex (last es) = toVertex (src ! (length es - 1))" "tm (last es) = tm (src ! (length es - 1))"
proof -
  from assms(1) obtain ks where ks: "map ekey src = map ekey es @ ks" by (auto simp: prefix_def)
  then have "length (map ekey src) = length es + length ks" by simp
  with assms(2) show l: "length es - 1 < length src" by (cases es) auto
  have "ekey (src ! (length es - 1)) = map ekey src ! (length es - 1)" using l by simp
  also have "\<dots> = ekey (es ! (length es - 1))" unfolding ks using assms(2) by (simp add: nth_append)
  finally show "toVertex (last es) = toVertex (src ! (length es - 1))" "tm (last es) = tm (src ! (length es - 1))"
    using assms(2) by (simp_all add: last_conv_nth ekey_def)
qed

lemma times_ok_put: "times_ok m \<Longrightarrow> \<forall>e \<in> set (edges nl). \<not> is_nan (tm e) \<Longrightarrow> times_ok (um_put v nl m)"
  by (auto simp: times_ok_def)

lemma times_ok_erase: "times_ok m \<Longrightarrow> times_ok (um_erase v m)"
  by (auto simp: times_ok_def)

lemma unique_put: "unique_edges m \<Longrightarrow> distinct (map (\<lambda>e. (toVertex e, dkey (tm e))) (edges nl)) \<Longrightarrow> unique_edges (um_put v nl m)"
  by (auto simp: unique_edges_def)

lemma unique_erase: "unique_edges m \<Longrightarrow> unique_edges (um_erase v m)"
  by (auto simp: unique_edges_def)

lemma um_erase_put: "um_ok m \<Longrightarrow> um_erase k (um_put k v m) = um_erase k m"
  unfolding um_erase_def um_put_def by (induction m) (auto simp: delete_id)

lemma fst_put: "fst ` set (um_put k v m) = insert k (fst ` set m)"
  unfolding dom_map_of_conv_image_fst [symmetric] by simp

lemma removeEdges_list_result:
  assumes inv: "mid_inv (insert v hs) em" and p: "headVertex nl = v" "edges nl \<noteq> []"
    and pre: "prefix (map ekey (edges nl)) (keys_at (neigLists em) v)"
  shows "\<exists>em'. removeEdges_list (w, nl) em = Inr em' \<and> mid_inv hs em'
    \<and> remains (neigLists em) (neigLists em')
    \<and> emConf em' = emConf em \<and> maxSize em' = maxSize em \<and> total (neigLists em) = total (neigLists em') + length (edges nl)
    \<and> (\<forall>u. keys_at (neigLists em') u = (if u = v then drop (length (edges nl)) (keys_at (neigLists em) v) else keys_at (neigLists em) u))"
proof -
  note I = inv [unfolded mid_inv_def]
  from pre p(2) obtain src where src: "um_find (neigLists em) v = Some src"
    by (cases "um_find (neigLists em) v") (auto simp: keys_at_def)
  have ks: "keys_at (neigLists em) v = map ekey (edges src)" using src by (simp add: keys_at_def)
  note last = keys_at_take_edges [OF pre [unfolded ks] p(2)]
  let ?n = "length (edges nl)" and ?m = "neigLists em"
  have n: "Suc (?n - 1) = ?n" using p(2) by (cases "edges nl") auto
  have d: "distinct (map (\<lambda>e. (toVertex e, dkey (tm e))) (edges src))" and t: "\<forall>e \<in> set (edges src). \<not> is_nan (tm e)"
    using I src by (auto simp: unique_edges_def times_ok_def)
  let ?r = "drop ?n (edges src)" and ?sz = "emSize em - word_of_nat ?n"
  have dt: "drop_through (last (edges nl)) (edges src) (emSize em) = Inr (?r, ?sz)"
    using drop_through_result [OF d t last, of "emSize em"] by (simp only: n)
  have len: "?n \<le> length (edges src)" using last(1) n by simp
  have um: "um_ok ?m" using I by (simp add: heads_ok_um)
  have le: "?n \<le> unat (emSize em)" using total_ge [OF src] len I by simp
  have sz: "unat ?sz = total ?m - ?n"
  proof -
    have "unat (word_of_nat ?n :: size_t) = ?n" using le unat_lt_64 [of "emSize em"]
      by (simp add: unat_of_nat del: unat_lt_64)
    then show ?thesis using le I by (simp add: unat_sub word_le_nat_alt)
  qed
  define em2 where "em2 = em\<lparr>emSize := ?sz, neigLists := um_put v (src\<lparr>edges := ?r\<rparr>) ?m\<rparr>"
  have step: "removeEdges_list (w, nl) em = (if ?r = []
      then Inr (em2\<lparr>neigLists := um_erase v (neigLists em2), scoreQueue := removeItem v (scoreQueue em2)\<rparr>)
      else rescore v 0 em2)"
    using dt p src by (simp add: removeEdges_list_def Let_def getNewestEdge_def nl_ref_def em2_def)
  show ?thesis
  proof (cases "?r = []")
    case True
    define em' where "em' = em\<lparr>emSize := ?sz, neigLists := um_erase v ?m, scoreQueue := removeItem v (scoreQueue em)\<rparr>"
    have "removeEdges_list (w, nl) em = Inr em'" using True step um by (simp add: em2_def em'_def um_erase_put)
    moreover have len': "length (edges src) = ?n" using True len by simp
    have tot: "total (um_erase v ?m) + ?n = total ?m" using total_erase_aux [OF um src] len' by simp
    moreover have "remains ?m (neigLists em')" by (simp add: remains_def em'_def)
    moreover have "mid_inv hs em'"
      using I tot sz pq.rem_dom [of MinAtTop "scoreQueue em" v]
      by (auto simp: mid_inv_def em'_def heads_ok_erase times_ok_erase unique_erase pq.rem_inv um_erase_keys)
    moreover have "keys_at (neigLists em') u = (if u = v then drop ?n (keys_at ?m v) else keys_at ?m u)" for u
      using ks len' by (simp add: em'_def keys_at_def)
    ultimately show ?thesis by (auto simp: em'_def)
  next
    case False
    have src2: "um_find (neigLists em2) v = Some (src\<lparr>edges := ?r\<rparr>)" by (simp add: em2_def)
    have t2: "times_ok (neigLists em2)"
      unfolding em2_def using I t set_drop_subset [of ?n "edges src"] by (auto intro!: times_ok_put)
    have q2: "pq_inv MinAtTop (scoreQueue em2)" using I by (simp add: em2_def)
    from rescore_result [OF src2 _ t2 q2, of 0] False obtain k q where
      q: "rescore v 0 em2 = Inr (em2\<lparr>randPos := k, scoreQueue := q\<rparr>)" "pq_inv MinAtTop q" "dom (pq_look q) = insert v (dom (pq_look (scoreQueue em)))"
      by (auto simp: em2_def)
    define em' where "em' = em2\<lparr>randPos := k, scoreQueue := q\<rparr>"
    have "removeEdges_list (w, nl) em = Inr em'" using False step q(1) by (simp add: em'_def)
    moreover have tot: "total (um_put v (src\<lparr>edges := ?r\<rparr>) ?m) + ?n = total ?m"
      using total_put_aux [OF um src, of "src\<lparr>edges := ?r\<rparr>"] len by simp
    moreover have u: "unique_edges (um_put v (src\<lparr>edges := ?r\<rparr>) ?m)"
      using I d by (intro unique_put) (simp_all add: drop_map [symmetric])
    have "headVertex src = v" using heads_ok_find [of ?m v src] I src by simp
    then have h: "heads_ok (um_put v (src\<lparr>edges := ?r\<rparr>) ?m)" using I False by (simp add: heads_ok_put)
    have fst: "fst ` set (um_put v (src\<lparr>edges := ?r\<rparr>) ?m) = insert v (fst ` set ?m)" by (rule fst_put)
    have "remains ?m (neigLists em')" using src set_drop_subset [of ?n "edges src"]
      by (simp add: remains_def em'_def em2_def)
    moreover have "mid_inv hs em'"
      using I t2 tot sz q u h fst by (auto simp: mid_inv_def em'_def em2_def)
    moreover have "keys_at (neigLists em') u = (if u = v then drop ?n (keys_at ?m v) else keys_at ?m u)" for u
      using ks by (simp add: em'_def em2_def keys_at_def drop_map)
    ultimately show ?thesis by (auto simp: em'_def em2_def)
  qed
qed

lemma removeEdges_loop:
  assumes "mid_inv (fst ` set ps) em" and "heads_ok ps"
    and "\<And>v. prefix (keys_at ps v) (keys_at (neigLists em) v)"
  shows "\<exists>em'. for_each removeEdges_list ps em = Inr em' \<and> em_inv em'
    \<and> remains (neigLists em) (neigLists em')
    \<and> emConf em' = emConf em \<and> maxSize em' = maxSize em \<and> total (neigLists em) = total (neigLists em') + total ps
    \<and> (\<forall>u. keys_at (neigLists em') u = drop (length (keys_at ps u)) (keys_at (neigLists em) u))"
  using assms
proof (induction ps arbitrary: em)
  case Nil
  then show ?case by (simp add: mid_inv_done total_def remains_refl)
next
  case (Cons p ps)
  obtain v nl where p: "p = (v, nl)" by force
  have nl: "headVertex nl = v" "edges nl \<noteq> []" "v \<notin> fst ` set ps" and ok: "heads_ok ps"
    using Cons.prems(2) by (auto simp: p heads_ok_def)
  have at: "keys_at (p # ps) u = (if u = v then map ekey (edges nl) else keys_at ps u)" for u
    by (simp add: p keys_at_def)
  have nil: "keys_at ps v = []" using nl(3) by (simp add: keys_at_def um_find_absent)
  have inv: "mid_inv (insert v (fst ` set ps)) em" using Cons.prems(1) by (simp add: p)
  have pre: "prefix (map ekey (edges nl)) (keys_at (neigLists em) v)" using Cons.prems(3) [of v] at by simp
  from removeEdges_list_result [OF inv nl(1,2) pre, of v] obtain em1 where
    em1: "removeEdges_list p em = Inr em1" "remains (neigLists em) (neigLists em1)" "mid_inv (fst ` set ps) em1" "emConf em1 = emConf em" "maxSize em1 = maxSize em"
      "total (neigLists em) = total (neigLists em1) + length (edges nl)"
    and k1: "\<And>u. keys_at (neigLists em1) u = (if u = v then drop (length (edges nl)) (keys_at (neigLists em) v) else keys_at (neigLists em) u)"
    unfolding p by blast
  have "prefix (keys_at ps u) (keys_at (neigLists em1) u)" for u
    using Cons.prems(3) [of u] at [of u] k1 [of u] nil by (cases "u = v") auto
  from Cons.IH [OF em1(3) ok this] obtain em' where
    em': "for_each removeEdges_list ps em1 = Inr em'" "remains (neigLists em1) (neigLists em')" "em_inv em'" "emConf em' = emConf em1" "maxSize em' = maxSize em1"
      "total (neigLists em1) = total (neigLists em') + total ps"
    and k': "\<And>u. keys_at (neigLists em') u = drop (length (keys_at ps u)) (keys_at (neigLists em1) u)" by blast
  have "total (p # ps) = length (edges nl) + total ps" by (simp add: total_def p)
  moreover have "keys_at (neigLists em') u = drop (length (keys_at (p # ps) u)) (keys_at (neigLists em) u)" for u
    using k' [of u] k1 [of u] at [of u] nil by (cases "u = v") simp_all
  ultimately show ?case using em1 em' remains_trans [OF em1(2) em'(2)] by simp
qed

lemma same_edges_inv: "same_edges em em' \<Longrightarrow> neigLists em' = neigLists em"
  by (simp add: same_edges_def)

lemma em_inv_sizes: "em_inv em \<Longrightarrow> length (neigLists em) = getSize (scoreQueue em)"
proof -
  assume a: "em_inv em"
  then have "getSize (scoreQueue em) = card (fst ` set (neigLists em))"
    using pq.count_look [of MinAtTop "scoreQueue em"] by (simp add: em_inv_def)
  moreover have "um_ok (neigLists em)" using a by (simp add: em_inv_def heads_ok_um)
  then have "card (fst ` set (neigLists em)) = length (neigLists em)"
    using distinct_card [of "map fst (neigLists em)"] by simp
  ultimately show ?thesis by simp
qed

text \<open>The edges of the map are the edges of the block followed by what is left.\<close>

definition conserves :: "expirationMap \<Rightarrow> block \<Rightarrow> expirationMap \<Rightarrow> bool" where
  "conserves em b em' \<longleftrightarrow> heads_ok (neigs b)
     \<and> (\<forall>v. keys_at (neigLists em) v = keys_at (neigs b) v @ keys_at (neigLists em') v)
     \<and> total (neigLists em) = total (neigs b) + total (neigLists em')
     \<and> remains (neigLists em) (neigLists em') \<and> emConf em' = emConf em \<and> maxSize em' = maxSize em"

lemma removeEdges_conserves:
  assumes "cuts b (neigLists em)" and "same_edges em em1" and "mid_inv (fst ` set (neigs b)) em1"
  shows "\<exists>em'. removeEdges b em1 = Inr em' \<and> em_inv em' \<and> conserves em b em'"
proof -
  have ok: "heads_ok (neigs b)" and pre: "\<And>v. prefix (keys_at (neigs b) v) (keys_at (neigLists em1) v)"
    using assms(1,2) by (simp_all add: cuts_def same_edges_def)
  from removeEdges_loop [OF assms(3) ok pre] obtain em' where
    em': "removeEdges b em1 = Inr em'" "remains (neigLists em1) (neigLists em')" "em_inv em'" "emConf em' = emConf em1" "maxSize em' = maxSize em1"
      "total (neigLists em1) = total (neigLists em') + total (neigs b)"
    and k: "\<And>u. keys_at (neigLists em') u = drop (length (keys_at (neigs b) u)) (keys_at (neigLists em1) u)"
    unfolding removeEdges_def by blast
  have "keys_at (neigLists em1) v = keys_at (neigs b) v @ keys_at (neigLists em') v" for v
    using pre [of v] k [of v] by (auto simp: prefix_def)
  then show ?thesis using em' ok assms(2) by (auto simp: conserves_def same_edges_def)
qed

end
