(* ===== verification/LayoutSmart.thy ===== *)
theory LayoutSmart
  imports LayoutLemmas
begin

text \<open>
  The smart layout. A candidate that the code builds always holds, for some heads, a positive number of
  the edges they have (\<open>cand_ok\<close>); trying extensions and taking them back leaves these numbers as they
  were. The block formed from the chosen candidate is therefore a cut of the map, which gives the
  conservation of edges by \<open>writeBlock\<close> in both layout modes, and the end of \<open>flush\<close>.
\<close>

section \<open>Edge counts of a candidate\<close>

definition cand_ok :: "(vertexId, neighborList) umap \<Rightarrow> candidate \<Rightarrow> bool" where
  "cand_ok m c \<longleftrightarrow> um_ok (numEdges c) \<and> (\<forall>v n. um_find (numEdges c) v = Some n \<longrightarrow> 0 < n \<and> n \<le> length (keys_at m v))"

abbreviation counts :: "candidate \<Rightarrow> vertexId \<rightharpoonup> nat" where
  "counts c \<equiv> map_of (numEdges c)"

lemma cand_take_num: "cand_take m h nl j c = Inr c' \<Longrightarrow> numEdges c' = numEdges c \<and> j < length (edges nl)"
  by (auto simp: cand_take_def Let_def rbind_Inr_iff getNthOldestEdge_def split: if_splits)

lemma cand_drop_num: "cand_drop m h nl j c = Inr c' \<Longrightarrow> numEdges c' = numEdges c"
  by (auto simp: cand_drop_def Let_def rbind_Inr_iff split: if_splits)

lemma takes_num: "for_each (cand_take m h nl) js c = Inr c' \<Longrightarrow> numEdges c' = numEdges c \<and> (\<forall>j \<in> set js. j < length (edges nl))"
  by (induction js arbitrary: c) (auto simp: rbind_Inr_iff dest: cand_take_num)

lemma drops_num: "for_each (cand_drop m h nl) js c = Inr c' \<Longrightarrow> numEdges c' = numEdges c"
  by (rule for_each_invariant [where P = "\<lambda>x. numEdges x = numEdges c"]) (auto dest: cand_drop_num)

lemma cand_finish_num:
  "cand_finish h nl cn n c = Inr c' \<Longrightarrow> numEdges c' = (if n = 0 then um_erase h (numEdges c) else um_put h n (numEdges c))"
  by (auto simp: cand_finish_def Let_def rbind_Inr_iff split: if_splits)

lemma setEdgeCount_num:
  assumes "setEdgeCount m h n c = Inr c'" and "cand_ok m c"
  shows "cand_ok m c' \<and> counts c' = (counts c)(h := if n = 0 then None else Some n)"
proof (cases "cand_getEdgeCount h c = n")
  case True
  then have c': "c' = c" using assms(1) by (simp add: setEdgeCount_def)
  have "counts c h = (if n = 0 then None else Some n)"
    using True assms(2) by (auto simp: cand_getEdgeCount_def cand_ok_def simp del: map_of_eq_Some_iff split: option.splits)
  then show ?thesis using assms(2) by (simp add: c' fun_upd_idem)
next
  case False
  let ?cn = "cand_getEdgeCount h c"
  from False assms(1) obtain nl c1 where nl: "um_find m h = Some nl"
    and loop: "(if ?cn < n then for_each (cand_take m h nl) [?cn..<n] c else for_each (cand_drop m h nl) (rev [n..<?cn]) c) = Inr c1"
    and fin: "cand_finish h nl ?cn n c1 = Inr c'"
    by (auto simp: setEdgeCount_def Let_def rbind_Inr_iff)
  have num: "numEdges c1 = numEdges c" using loop takes_num drops_num by (metis (full_types))
  have le: "n \<le> length (keys_at m h)"
  proof (cases "?cn < n")
    case True
    then have "n - 1 \<in> set [?cn..<n]" by auto
    then have "n - 1 < length (edges nl)" using loop True takes_num by (metis (full_types))
    then show ?thesis using nl by (simp add: keys_at_def)
  next
    case False
    then have "n < ?cn" using \<open>?cn \<noteq> n\<close> by simp
    then have "0 < ?cn" by simp
    then have "um_find (numEdges c) h = Some ?cn" by (auto simp: cand_getEdgeCount_def split: option.splits)
    then have "?cn \<le> length (keys_at m h)" using assms(2) unfolding cand_ok_def by blast
    with \<open>n < ?cn\<close> show ?thesis by simp
  qed
  have eq: "numEdges c' = (if n = 0 then um_erase h (numEdges c) else um_put h n (numEdges c))"
    using cand_finish_num [OF fin] num by simp
  then have cnt: "counts c' = (counts c)(h := if n = 0 then None else Some n)" by simp
  moreover have "0 < k \<and> k \<le> length (keys_at m v)" if "counts c' v = Some k" for v k
    using that assms(2) le unfolding cnt cand_ok_def by (auto split: if_splits simp del: map_of_eq_Some_iff)
  ultimately show ?thesis using assms(2) eq unfolding cand_ok_def by (auto simp del: map_of_eq_Some_iff)
qed

lemma Candidate_ok: "cand_ok m Candidate" "counts Candidate = Map.empty"
  by (simp_all add: cand_ok_def Candidate_def)

lemma getEdgeCount_restore:
  "cand_ok m c \<Longrightarrow> (counts c)(h := if cand_getEdgeCount h c = 0 then None else Some (cand_getEdgeCount h c)) = counts c"
  by (rule fun_upd_idem) (auto simp: cand_getEdgeCount_def cand_ok_def simp del: map_of_eq_Some_iff split: option.splits)

section \<open>Extending a candidate\<close>

text \<open>What the stages keep: the counts outside the head tried, and a positive count in the extension.\<close>

definition ext_ok :: "extension \<Rightarrow> bool" where
  "ext_ok best \<longleftrightarrow> (exFound best \<longrightarrow> 0 < exCount best)"

lemma consider_ext_ok: "0 < n \<Longrightarrow> ext_ok best \<Longrightarrow> ext_ok (consider_ext metric il os h n c best)"
  by (simp add: consider_ext_def Let_def ext_ok_def)

lemma extend_inner_ok:
  "extend_inner em il os mt h nl ns st = Inr st' \<Longrightarrow> cand_ok (neigLists em) (fst st) \<Longrightarrow> ext_ok (snd st) \<Longrightarrow> 0 \<notin> set ns \<Longrightarrow>
    cand_ok (neigLists em) (fst st') \<and> ext_ok (snd st') \<and> (\<forall>u. u \<noteq> h \<longrightarrow> counts (fst st') u = counts (fst st) u)"
proof (induction ns arbitrary: st)
  case Nil
  then show ?case by simp
next
  case (Cons n ns)
  show ?case
  proof (cases "st' = st")
    case True
    then show ?thesis using Cons.prems by simp
  next
    case False
    with Cons.prems(1) obtain c where c: "setEdgeCount (neigLists em) h n (fst st) = Inr c"
      and rest: "(if blockSize (emConf em) < cSize c then Inr (c, snd st)
                 else extend_inner em il os mt h nl ns (c, consider_ext (locMetric em) il os h n c (snd st))) = Inr st'"
      by (auto simp: rbind_Inr_iff split: if_splits)
    note c' = setEdgeCount_num [OF c Cons.prems(2)]
    show ?thesis
    proof (cases "blockSize (emConf em) < cSize c")
      case True
      then show ?thesis using rest c' Cons.prems(3) by auto
    next
      case False
      with rest have r: "extend_inner em il os mt h nl ns (c, consider_ext (locMetric em) il os h n c (snd st)) = Inr st'" by simp
      have "ext_ok (consider_ext (locMetric em) il os h n c (snd st))"
        using Cons.prems(3,4) by (intro consider_ext_ok) auto
      with Cons.IH [OF r, unfolded fst_conv snd_conv] c' Cons.prems(4) show ?thesis by simp
    qed
  qed
qed

definition stage_ok :: "(vertexId, neighborList) umap \<Rightarrow> (vertexId \<rightharpoonup> nat) \<Rightarrow> candidate \<times> extension \<Rightarrow> bool" where
  "stage_ok m cs st \<longleftrightarrow> cand_ok m (fst st) \<and> ext_ok (snd st) \<and> counts (fst st) = cs"

lemma restore_ok:
  assumes "cand_ok m c0" and "cand_ok m c" and "\<forall>u. u \<noteq> h \<longrightarrow> counts c u = counts c0 u"
    and "setEdgeCount m h (cand_getEdgeCount h c0) c = Inr c'"
  shows "cand_ok m c' \<and> counts c' = counts c0"
proof -
  have "(counts c)(h := x) = (counts c0)(h := x)" for x using assms(3) by auto
  then show ?thesis using setEdgeCount_num [OF assms(4,2)] getEdgeCount_restore [OF assms(1), of h] by metis
qed

lemma extend_present_ok:
  assumes "extend_present em il os mt h st = Inr st'" and "stage_ok (neigLists em) cs st"
  shows "stage_ok (neigLists em) cs st'"
proof (cases "um_find (neigLists em) h")
  case None
  then show ?thesis using assms by (simp add: extend_present_def)
next
  case (Some nl)
  let ?org = "cand_getEdgeCount h (fst st)"
  from assms(1) Some obtain st1 c where
    inner: "extend_inner em il os mt h nl [Suc ?org..<Suc (length (edges nl))] st = Inr st1"
    and set: "setEdgeCount (neigLists em) h ?org (fst st1) = Inr c" and st': "st' = (c, snd st1)"
    by (auto simp: extend_present_def Let_def rbind_Inr_iff)
  note S = assms(2) [unfolded stage_ok_def]
  have "0 \<notin> set [Suc ?org..<Suc (length (edges nl))]" by auto
  from extend_inner_ok [OF inner _ _ this] S have
    st1: "cand_ok (neigLists em) (fst st1)" "ext_ok (snd st1)" "\<forall>u. u \<noteq> h \<longrightarrow> counts (fst st1) u = counts (fst st) u" by auto
  from restore_ok [OF _ st1(1,3) set] S st1(2) show ?thesis by (simp add: stage_ok_def st')
qed

lemma extend_one_step_ok:
  assumes "extend_one_step em il os h st = Inr st'" and "stage_ok (neigLists em) cs st"
  shows "stage_ok (neigLists em) cs st'"
proof (cases "st' = st")
  case True
  with assms show ?thesis by simp
next
  case False
  let ?org = "cand_getEdgeCount h (fst st)"
  from assms(1) False obtain nl c c1 where nl: "um_find (neigLists em) h = Some nl"
    and c: "setEdgeCount (neigLists em) h (Suc ?org) (fst st) = Inr c"
    and c1: "setEdgeCount (neigLists em) h ?org c = Inr c1"
    and st': "st' = (c1, if cSize c \<le> blockSize (emConf em) then consider_ext (locMetric em) il os h (Suc ?org) c (snd st) else snd st)"
    by (auto simp: extend_one_step_def Let_def rbind_Inr_iff split: option.splits if_splits)
  note S = assms(2) [unfolded stage_ok_def]

  have "cand_ok (neigLists em) c \<and> (\<forall>u. u \<noteq> h \<longrightarrow> counts c u = counts (fst st) u)"
    using setEdgeCount_num [OF c] S by simp
  then have "cand_ok (neigLists em) c1 \<and> counts c1 = counts (fst st)"
    using restore_ok [OF _ _ _ c1] S by blast
  then show ?thesis using S by (simp add: stage_ok_def st' consider_ext_ok)
qed

lemma nl_ref_present: "v \<in> fst ` set (neigLists em) \<Longrightarrow> \<exists>nl. um_find (neigLists em) v = Some nl \<and> nl_ref v em = (nl, em)"
  by (cases "um_find (neigLists em) v") (auto simp: nl_ref_def find_None_iff simp del: map_of_eq_None_iff)

lemma extend_any_ok:
  "extend_any hs (em, st) = Inr (em', st') \<Longrightarrow> set hs \<subseteq> fst ` set (neigLists em) \<Longrightarrow> stage_ok (neigLists em) cs st \<Longrightarrow>
    em' = em \<and> stage_ok (neigLists em) cs st'"
proof (induction hs arbitrary: st)
  case Nil
  then show ?case by simp
next
  case (Cons h hs)
  obtain c best where st: "st = (c, best)" by force
  from Cons.prems(2) nl_ref_present obtain nl where nl: "um_find (neigLists em) h = Some nl" "nl_ref h em = (nl, em)" by force
  let ?org = "cand_getEdgeCount h c"
  note S = Cons.prems(3) [unfolded stage_ok_def st, simplified]
  have hs: "set hs \<subseteq> fst ` set (neigLists em)" using Cons.prems(2) by simp
  consider (stop) "exFound best" | (full) "\<not> exFound best" "?org = length (edges nl)"
    | (more) "\<not> exFound best" "?org \<noteq> length (edges nl)" by blast
  then show ?case
  proof cases
    case stop
    then show ?thesis using Cons.prems by (simp add: st)
  next
    case full
    then have "extend_any hs (em, st) = Inr (em', st')" using Cons.prems(1) nl by (simp add: st)
    then show ?thesis by (rule Cons.IH) (use hs Cons.prems(3) in auto)
  next
    case more
    from more Cons.prems(1) nl obtain c1 c2 where c1: "setEdgeCount (neigLists em) h (Suc ?org) c = Inr c1"
      and c2: "setEdgeCount (neigLists em) h ?org c1 = Inr c2"
      and r: "(if blockSize (emConf em) < cSize c1 \<and> (?org \<noteq> 0 \<or> blockSize (emConf em) < cSize c1 - (8 + 4))
         then Inr (em, c2, if cSize c1 \<le> blockSize (emConf em) then best\<lparr>exFound := True, exHead := h, exCount := Suc ?org\<rparr> else best)
         else extend_any hs (em, c2, if cSize c1 \<le> blockSize (emConf em) then best\<lparr>exFound := True, exHead := h, exCount := Suc ?org\<rparr> else best)) = Inr (em', st')"
      unfolding st extend_any.simps prod.case Let_def nl(2) by (simp only: if_False rbind_Inr_iff) blast
    have "cand_ok (neigLists em) c1 \<and> (\<forall>u. u \<noteq> h \<longrightarrow> counts c1 u = counts c u)"
      using setEdgeCount_num [OF c1] S by simp
    then have "cand_ok (neigLists em) c2 \<and> counts c2 = counts c" using restore_ok [OF _ _ _ c2] S by blast
    then have "stage_ok (neigLists em) cs (c2, if cSize c1 \<le> blockSize (emConf em) then best\<lparr>exFound := True, exHead := h, exCount := Suc ?org\<rparr> else best)"
      using S by (simp add: stage_ok_def ext_ok_def)
    then show ?thesis using r Cons.IH hs by (auto split: if_splits)
  qed
qed

definition grown :: "(vertexId, neighborList) umap \<Rightarrow> candidate \<Rightarrow> bool" where
  "grown m c \<longleftrightarrow> cand_ok m c \<and> numEdges c \<noteq> []"

lemma counts_empty: "numEdges c = [] \<longleftrightarrow> counts c = Map.empty"
  by (metis map_of_eq_empty_iff)

lemma extendCandidate_ok:
  assumes "extendCandidate em c = Inr (d, c', em')" and "grown (neigLists em) c"
    and "snd ` set (items (scoreQueue em)) \<subseteq> fst ` set (neigLists em)"
  shows "em' = em \<and> grown (neigLists em) c'"
proof -
  let ?il = "getLocality (locMetric em) c" and ?os = "cSize c" and ?best = "\<lparr>exFound = False, exHead = 0, exCount = 0, exScore = 0\<rparr>"
  let ?vs = "map fst (presentVertices c)"
  from assms(1) obtain mt st1 st2 em3 c3 b3 where
    s1: "for_each (extend_present em ?il ?os mt) ?vs (c, ?best) = Inr st1"
    and s2: "(if exFound (snd st1) then Inr st1 else for_each (extend_one_step em ?il ?os) ?vs st1) = Inr st2"
    and s3: "extend_any (map snd (items (scoreQueue em))) (em, st2) = Inr (em3, c3, b3)"
    and s4: "commit_extension em3 c3 b3 = Inr (c', em')"
    by (auto simp: extendCandidate_def Let_def rbind_Inr_iff) blast
  have "stage_ok (neigLists em) (counts c) (c, ?best)" using assms(2) by (simp add: stage_ok_def ext_ok_def grown_def)
  then have st1: "stage_ok (neigLists em) (counts c) st1"
    using for_each_invariant [OF s1, of "stage_ok (neigLists em) (counts c)"] extend_present_ok by blast
  then have st2: "stage_ok (neigLists em) (counts c) st2"
    using s2 for_each_invariant [of "extend_one_step em ?il ?os" ?vs st1 st2 "stage_ok (neigLists em) (counts c)"] extend_one_step_ok
    by (metis (no_types, lifting) Inr_inject)
  have "em3 = em" and c3: "stage_ok (neigLists em) (counts c) (c3, b3)"
    using extend_any_ok [OF s3 _ st2] assms(3) by auto
  note S = c3 [unfolded stage_ok_def, simplified]
  show ?thesis
  proof (cases "exFound b3")
    case False
    then have "c' = c3" "em' = em" using s4 \<open>em3 = em\<close> by (auto simp: commit_extension_def)
    moreover have "numEdges c3 \<noteq> []" using S assms(2) counts_empty unfolding grown_def by metis
    ultimately show ?thesis using S by (simp add: grown_def)
  next
    case True
    obtain nl em4 where nl: "nl_ref (exHead b3) em = (nl, em4)" by force
    with True s4 \<open>em3 = em\<close> have set: "setEdgeCount (neigLists em4) (exHead b3) (exCount b3) c3 = Inr c'"
      and le: "exCount b3 \<le> length (edges nl)" and "em' = em4"
      by (auto simp: commit_extension_def rbind_Inr_iff)
    have pos: "0 < exCount b3" using S True by (simp add: ext_ok_def)
    have "em4 = em" using nl le pos by (auto simp: nl_ref_def split: option.splits)
    then have "cand_ok (neigLists em) c' \<and> counts c' = (counts c3)(exHead b3 := Some (exCount b3))"
      using setEdgeCount_num [OF set] S pos by simp
    then have "cand_ok (neigLists em) c'" "numEdges c' \<noteq> []" using map_upd_nonempty counts_empty by metis+
    then show ?thesis using \<open>em' = em4\<close> \<open>em4 = em\<close> by (simp add: grown_def)
  qed
qed

lemma extend_round_ok:
  "extend_round cs kept fin em = Inr (kept', fin', em') \<Longrightarrow> snd ` set (items (scoreQueue em)) \<subseteq> fst ` set (neigLists em) \<Longrightarrow>
    \<forall>c \<in> set cs \<union> set kept \<union> set fin. grown (neigLists em) c \<Longrightarrow>
    em' = em \<and> (\<forall>c \<in> set kept' \<union> set fin'. grown (neigLists em) c)"
proof (induction cs arbitrary: kept fin em)
  case (Cons c cs)
  from Cons.prems(1) obtain d c1 em1 where x: "extendCandidate em c = Inr (d, c1, em1)" by (auto simp: rbind_Inr_iff)
  from extendCandidate_ok [OF x _ Cons.prems(2)] Cons.prems(3) have "em1 = em" "grown (neigLists em) c1" by auto
  moreover have "\<exists>kept1 fin1. extend_round cs kept1 fin1 em1 = Inr (kept', fin', em')
      \<and> set kept1 \<union> set fin1 \<subseteq> insert c1 (set kept \<union> set fin)"
  proof (cases d)
    case True
    then have "extend_round cs kept (fin @ [c1]) em1 = Inr (kept', fin', em')" using Cons.prems(1) x by simp
    then show ?thesis by fastforce
  next
    case False
    then have "extend_round cs (kept @ [c1]) fin em1 = Inr (kept', fin', em')"
      using Cons.prems(1) x by (simp add: rbind_Inr_iff)
    then show ?thesis by fastforce
  qed
  then obtain kept1 fin1 where r: "extend_round cs kept1 fin1 em1 = Inr (kept', fin', em')"
    and "set kept1 \<union> set fin1 \<subseteq> insert c1 (set kept \<union> set fin)" by blast
  ultimately have "\<forall>c \<in> set cs \<union> set kept1 \<union> set fin1. grown (neigLists em) c" using Cons.prems(3) by (simp add: subset_iff) blast
  then show ?case using Cons.IH [OF r] Cons.prems(2) \<open>em1 = em\<close> by simp
qed simp

lemma extend_all_ok:
  "extend_all cs fin em = Inr (fin', em') \<Longrightarrow> snd ` set (items (scoreQueue em)) \<subseteq> fst ` set (neigLists em) \<Longrightarrow>
    \<forall>c \<in> set cs \<union> set fin. grown (neigLists em) c \<Longrightarrow> em' = em \<and> (\<forall>c \<in> set fin'. grown (neigLists em) c)"
proof (induction cs fin em rule: extend_all.induct)
  case (1 cs fin em)
  show ?case
  proof (cases "cs = []")
    case True
    then show ?thesis using "1.prems" by (simp add: extend_all.simps)
  next
    case False
    with "1.prems"(1) obtain r where r: "extend_round cs [] fin em = Inr r"
      and rest: "extend_all (fst r) (fst (snd r)) (snd (snd r)) = Inr (fin', em')"
      by (subst (asm) extend_all.simps) (auto simp: rbind_Inr_iff)
    have "snd (snd r) = em \<and> (\<forall>c \<in> set (fst r) \<union> set (fst (snd r)). grown (neigLists em) c)"
      using extend_round_ok [of cs "[]" fin em "fst r" "fst (snd r)" "snd (snd r)"] r "1.prems"(2,3) by simp
    then show ?thesis using "1.IH" [OF False r rest] "1.prems"(2) by simp
  qed
qed

section \<open>The block of a candidate\<close>

lemma form_list_edges:
  "for_each (\<lambda>i b1. rbind (getNthOldestEdge nl i) (\<lambda>e. addEdge h (toVertex e) (tm e) (edata e) b1)) [0..<n] b = Inr b' \<Longrightarrow>
    heads_ok (neigs b) \<Longrightarrow> heads_ok (neigs b') \<and> n \<le> length (edges nl)
    \<and> (\<forall>v. keys_at (neigs b') v = (if v = h then keys_at (neigs b) h @ take n (map ekey (edges nl)) else keys_at (neigs b) v))"
proof (induction n arbitrary: b')
  case (Suc n)
  let ?f = "\<lambda>i b1. rbind (getNthOldestEdge nl i) (\<lambda>e. addEdge h (toVertex e) (tm e) (edata e) b1)"
  from Suc.prems(1) obtain b1 where b1: "for_each ?f [0..<n] b = Inr b1" and n: "n < length (edges nl)"
    and add: "addEdge h (toVertex (edges nl ! n)) (tm (edges nl ! n)) (edata (edges nl ! n)) b1 = Inr b'"
    by (auto simp: for_each_append rbind_Inr_iff getNthOldestEdge_def)
  from Suc.IH [OF b1 Suc.prems(2)] have IH: "heads_ok (neigs b1)"
    "\<And>v. keys_at (neigs b1) v = (if v = h then keys_at (neigs b) h @ take n (map ekey (edges nl)) else keys_at (neigs b) v)" by auto
  show ?case using addEdge_keys [OF add IH(1)] IH(2) n by (simp add: take_Suc_conv_app_nth ekey_def)
qed simp

lemma form_block_keys:
  "for_each (form_list m) cs b = Inr b' \<Longrightarrow> um_ok cs \<Longrightarrow> heads_ok (neigs b) \<Longrightarrow>
    (\<And>v. v \<in> fst ` set cs \<Longrightarrow> keys_at (neigs b) v = []) \<Longrightarrow>
    heads_ok (neigs b') \<and> (\<forall>v. keys_at (neigs b') v =
      (case um_find cs v of None \<Rightarrow> keys_at (neigs b) v | Some n \<Rightarrow> take n (keys_at m v)))"
proof (induction cs arbitrary: b)
  case (Cons p cs)
  obtain h n where p: "p = (h, n)" by force
  from Cons.prems(1) obtain b1 where fl: "form_list m p b = Inr b1" and rest: "for_each (form_list m) cs b1 = Inr b'"
    by (auto simp: rbind_Inr_iff)
  from fl obtain nl where nl: "um_find m h = Some nl"
    and b1: "for_each (\<lambda>i b1. rbind (getNthOldestEdge nl i) (\<lambda>e. addEdge h (toVertex e) (tm e) (edata e) b1)) [0..<n] b = Inr b1"
    by (auto simp: p form_list_def rbind_Inr_iff)
  note F = form_list_edges [OF b1 Cons.prems(3)]
  have h: "keys_at (neigs b) h = []" "h \<notin> fst ` set cs" using Cons.prems(2,4) by (auto simp: p)
  have "keys_at (neigs b1) v = []" if "v \<in> fst ` set cs" for v
    using that F Cons.prems(4) [of v] h(2) by auto
  from Cons.IH [OF rest _ _ this] F Cons.prems(2) have
    IH: "heads_ok (neigs b')" "\<And>v. keys_at (neigs b') v = (case um_find cs v of None \<Rightarrow> keys_at (neigs b1) v | Some n \<Rightarrow> take n (keys_at m v))"
    by (auto simp: p)
  have "um_find cs h = None" using h(2) by (rule um_find_absent)
  then have "keys_at (neigs b') v = (case um_find (p # cs) v of None \<Rightarrow> keys_at (neigs b) v | Some n \<Rightarrow> take n (keys_at m v))" for v
    using IH(2) [of v] F h(1) nl by (simp add: p keys_at_def [of m] cong: option.case_cong)
  with IH(1) show ?case by blast
qed simp

lemma initial_candidates_ok:
  "for_each initial_candidate hs (cs, em) = Inr (cs', em') \<Longrightarrow> set hs \<subseteq> fst ` set (neigLists em) \<Longrightarrow> heads_ok (neigLists em) \<Longrightarrow>
    0 < seedEdgeCount (smartLayoutConf (emConf em)) \<Longrightarrow> \<forall>c \<in> set cs. grown (neigLists em) c \<Longrightarrow>
    em' = em \<and> (\<forall>c \<in> set cs'. grown (neigLists em) c)"
proof (induction hs arbitrary: cs)
  case (Cons h hs)
  from nl_ref_present [of h em] Cons.prems(2) obtain nl where nl: "um_find (neigLists em) h = Some nl" "nl_ref h em = (nl, em)" by auto
  let ?n = "min (length (edges nl)) (seedEdgeCount (smartLayoutConf (emConf em)))"
  from Cons.prems(1) obtain st where ini: "initial_candidate h (cs, em) = Inr st" and "for_each initial_candidate hs st = Inr (cs', em')"
    by (auto simp: rbind_Inr_iff)
  moreover from ini nl obtain c where c: "setEdgeCount (neigLists em) h ?n Candidate = Inr c" and "st = (cs @ [c], em)"
    by (auto simp: initial_candidate_def rbind_Inr_iff Let_def)
  ultimately have rest: "for_each initial_candidate hs (cs @ [c], em) = Inr (cs', em')" by simp
  have pos: "0 < ?n" using heads_ok_find [OF Cons.prems(3) nl(1)] Cons.prems(4) by simp
  then have "?n \<noteq> 0" by linarith
  moreover from setEdgeCount_num [OF c Candidate_ok(1)] have ok: "cand_ok (neigLists em) c"
    and "counts c = (counts Candidate)(h := if ?n = 0 then None else Some ?n)" by blast+
  ultimately have "counts c h = Some ?n" by (simp only: fun_upd_same if_False)
  then have "grown (neigLists em) c" using ok by (auto simp: grown_def)
  then show ?case using Cons.IH [OF rest] Cons.prems by simp
qed simp

lemma queue_ids: "em_inv em \<Longrightarrow> snd ` set (items (scoreQueue em)) = fst ` set (neigLists em)"
  using pq_index_ids [of MinAtTop "scoreQueue em"] by (simp add: em_inv_def pq_look_dom)

lemma total_pos: "heads_ok m \<Longrightarrow> m \<noteq> [] \<Longrightarrow> 0 < total m"
  by (cases m) (auto simp: total_def heads_ok_def)

lemma em_getBlockSmart_cuts:
  assumes inv: "em_inv em" and blk: "em_getBlockSmart em = Inr (b, em')"
    and seed: "0 < seedEdgeCount (smartLayoutConf (emConf em))"
  shows "cuts b (neigLists em) \<and> same_edges em em' \<and> mid_inv (fst ` set (neigs b)) em' \<and> neigs b \<noteq> []"
proof -
  let ?k = "min (length (neigLists em)) (initialCandidateCount (smartLayoutConf (emConf em)))"
  from blk obtain cs em1 fin em2 j c where
    cs: "for_each initial_candidate (take ?k (map snd (items (scoreQueue em)))) ([], em) = Inr (cs, em1)"
    and fin: "extend_all cs [] em1 = Inr (fin, em2)" and c: "vec_index fin j = Inr c"
    and form: "for_each (form_list (neigLists em2)) (numEdges c) (Block 0) = Inr b"
    and em': "em' = em2\<lparr>stats := bs_update c (stats em2)\<rparr>"
    by (auto simp: em_getBlockSmart_def Let_def rbind_Inr_iff split: if_splits)
  have ids: "snd ` set (items (scoreQueue em)) \<subseteq> fst ` set (neigLists em)" using queue_ids [OF inv] by simp
  have ok: "heads_ok (neigLists em)" using inv by (simp add: em_inv_def)
  have "set (take ?k (map snd (items (scoreQueue em)))) \<subseteq> fst ` set (neigLists em)"
    using ids set_take_subset [of ?k "map snd (items (scoreQueue em))"] by simp
  from initial_candidates_ok [OF cs this ok seed] have "em1 = em" "\<forall>c \<in> set cs. grown (neigLists em) c" by auto
  with extend_all_ok [of cs "[]" em fin em2] fin ids have em2: "em2 = em" and "\<forall>c \<in> set fin. grown (neigLists em) c" by auto
  moreover have "c \<in> set fin" using c by (auto simp: vec_index_def split: if_splits)
  ultimately have g: "cand_ok (neigLists em) c" "numEdges c \<noteq> []" by (auto simp: grown_def)
  have um: "um_ok (numEdges c)" using g(1) by (simp add: cand_ok_def)
  have F: "heads_ok (neigs b)" "\<And>v. keys_at (neigs b) v = (case um_find (numEdges c) v of None \<Rightarrow> [] | Some n \<Rightarrow> take n (keys_at (neigLists em) v))"
  proof -
    have nil: "neigs (Block 0) = []" by (simp add: Block_def)
    have "heads_ok (neigs b) \<and> (\<forall>v. keys_at (neigs b) v =
        (case um_find (numEdges c) v of None \<Rightarrow> keys_at (neigs (Block 0)) v | Some n \<Rightarrow> take n (keys_at (neigLists em2) v)))"
      by (rule form_block_keys [OF form um]) (simp_all add: nil)
    then show "heads_ok (neigs b)" "\<And>v. keys_at (neigs b) v = (case um_find (numEdges c) v of None \<Rightarrow> [] | Some n \<Rightarrow> take n (keys_at (neigLists em) v))"
      by (simp_all add: nil em2 cong: option.case_cong)
  qed
  have "prefix (keys_at (neigs b) v) (keys_at (neigLists em) v)" for v
    using F(2) [of v] by (simp add: take_is_prefix split: option.splits)
  then have "cuts b (neigLists em)" using F(1) by (simp add: cuts_def)
  moreover obtain h n ps where "numEdges c = (h, n) # ps" using g(2) by (cases "numEdges c") auto
  then have "um_find (numEdges c) h = Some n" by simp
  then have "0 < n \<and> n \<le> length (keys_at (neigLists em) h)" using g(1) unfolding cand_ok_def by blast
  then have "keys_at (neigs b) h \<noteq> []" using F(2) [of h] \<open>um_find (numEdges c) h = Some n\<close> by auto
  then have "neigs b \<noteq> []" by auto
  moreover have "mid_inv (fst ` set (neigs b)) em'" "same_edges em em'"
    using inv by (auto simp: em' em2 mid_inv_def em_inv_def same_edges_def)
  ultimately show ?thesis by blast
qed

section \<open>Progress in the other modes\<close>

text \<open>Every edge fits into a block of its own: header, list header, edge and record.\<close>

definition edge_fits :: "conf \<Rightarrow> edge \<Rightarrow> bool" where
  "edge_fits c e \<longleftrightarrow> (\<exists>a d. edata e = Some (a, d) \<and> data_ok d \<and> 36 + data_size d \<le> unat (blockSize c))"

definition fits :: "conf \<Rightarrow> (vertexId, neighborList) umap \<Rightarrow> bool" where
  "fits c m \<longleftrightarrow> (\<forall>v nl. um_find m v = Some nl \<longrightarrow> (\<forall>e \<in> set (edges nl). edge_fits c e))"

lemma fits_remains: "fits c m \<Longrightarrow> remains m m' \<Longrightarrow> fits c m'"
  unfolding fits_def remains_def by (meson subsetD)

lemma total_push: "um_ok m \<Longrightarrow> total (nb_push h e m) = Suc (total m)"
proof (cases "um_find m h")
  case None
  then have "h \<notin> set (um_keys m)" by (simp add: map_of_eq_None_iff)
  then show ?thesis using None by (simp add: nb_push_def um_put_new total_def nl_addEdge_def)
next
  case (Some nl)
  assume "um_ok m"
  from total_put_aux [OF this Some, of "nl_addEdge e nl"] Some show ?thesis by (simp add: nb_push_def nl_addEdge_def)
qed

lemma keys_total_pos: "heads_ok m \<Longrightarrow> keys_at m v \<noteq> [] \<Longrightarrow> m \<noteq> []"
  by auto

lemma addEdge_first_size:
  assumes "edge_fits c e" and "addEdge h (toVertex e) (tm e) (edata e) (Block 0) = Inr b1"
  shows "serializedSize b1 \<le> blockSize c"
proof -
  from assms(1) obtain a d where d: "edata e = Some (a, d)" "data_ok d" "36 + data_size d \<le> unat (blockSize c)"
    by (auto simp: edge_fits_def)
  have "addEdge h (toVertex e) (tm e) (Some (a, d)) (Block 0) =
      Inr (Block 0\<lparr>neigs := nb_push h \<lparr>toVertex = toVertex e, tm = tm e, edata = Some (a, d)\<rparr> [],
            serializedSize := 8 + word_of_nat (data_size d) + 12 + 16\<rparr>)"
    by (subst addEdge_result [OF d(2)]) (simp_all add: Block_def found_def um_count_def)
  then have "serializedSize b1 = word_of_nat (36 + data_size d)" using assms(2) d(1) by (auto simp: algebra_simps)
  moreover have "unat (word_of_nat (36 + data_size d) :: size_t) = 36 + data_size d"
    unfolding unat_of_nat by (rule mod_less) (use d(3) unat_lt_64 [of "blockSize c"] in \<open>simp del: unat_lt_64\<close>)
  ultimately show ?thesis using d(3) by (simp add: word_le_nat_alt)
qed

definition has_edges :: "taking \<Rightarrow> bool" where
  "has_edges st \<longleftrightarrow> (\<exists>v. keys_at (neigs (fst st)) v \<noteq> [])"

definition has_two :: "taking \<Rightarrow> bool" where
  "has_two st \<longleftrightarrow> (\<exists>v. 1 < length (keys_at (neigs (fst st)) v)) \<or> (\<exists>v w. v \<noteq> w \<and> keys_at (neigs (fst st)) v \<noteq> [] \<and> keys_at (neigs (fst st)) w \<noteq> [])"

lemma has_two_rest:
  assumes "has_two st" and "\<And>v. k v = (if v = h then butlast (keys_at (neigs (fst st)) h) else keys_at (neigs (fst st)) v)"
  shows "\<exists>v. k v \<noteq> []"
proof (cases "\<exists>v. 1 < length (keys_at (neigs (fst st)) v)")
  case True
  then obtain v where v: "1 < length (keys_at (neigs (fst st)) v)" ..
  have "length (keys_at (neigs (fst st)) v) - 1 \<le> length (k v)" by (simp add: assms(2) [of v])
  with v have "0 < length (k v)" by linarith
  then show ?thesis by (auto intro: exI [of _ v])
next
  case False
  then obtain v w where "v \<noteq> w" "keys_at (neigs (fst st)) v \<noteq> []" "keys_at (neigs (fst st)) w \<noteq> []"
    using assms(1) unfolding has_two_def by blast
  then have "k v \<noteq> [] \<or> k w \<noteq> []" using assms(2) [of v] assms(2) [of w] by auto
  then show ?thesis by blast
qed

lemma step_block:
  assumes "taking_ok em0 st" and "getBlock_step st = Inr st'"
  obtains h nl e where "um_find (neigLists em0) h = Some nl" "e \<in> set (edges nl)"
    "addEdge h (toVertex e) (tm e) (edata e) (fst st) = Inr (fst st')" "heads_ok (neigs (fst st))"
    "emConf (snd (snd (snd st))) = emConf em0"
proof -
  obtain b nTaken h0 em where st: "st = (b, nTaken, h0, em)" by (cases st)
  note D = taking_okD [OF assms(1) [unfolded st]]
  from getBlock_step_Inr [OF assms(2) [unfolded st]] show ?thesis
  proof (elim exE conjE)
    fix h nl i e b1 em2
    assume nl: "um_find (neigLists em) h = Some nl" and e: "i < length (edges nl)" "e = edges nl ! i"
      and add: "addEdge h (toVertex e) (tm e) (edata e) b = Inr b1" and st': "st' = (b1, um_put h (Suc i) nTaken, h, em2)"
    show ?thesis
    proof (rule that)
      show "um_find (neigLists em0) h = Some nl" using nl D(2) by simp
      show "e \<in> set (edges nl)" using e by simp
      show "addEdge h (toVertex e) (tm e) (edata e) (fst st) = Inr (fst st')" using add st st' by simp
      show "heads_ok (neigs (fst st))" unfolding st by (simp add: D(5))
      show "emConf (snd (snd (snd st))) = emConf em0" unfolding st using D(3) by simp
    qed
  qed
qed

lemma step_has_edges:
  assumes "taking_ok em0 st" and "getBlock_step st = Inr st'"
  shows "has_edges st'" and "has_edges st \<Longrightarrow> has_two st'"
proof -
  obtain h nl e where "um_find (neigLists em0) h = Some nl" "e \<in> set (edges nl)"
    and add: "addEdge h (toVertex e) (tm e) (edata e) (fst st) = Inr (fst st')" and ok: "heads_ok (neigs (fst st))"
    and "emConf (snd (snd (snd st))) = emConf em0" by (rule step_block [OF assms])
  note K = addEdge_keys(2) [OF add ok]
  show "has_edges st'" unfolding has_edges_def using K [of h] by (intro exI [of _ h]) simp
  assume "has_edges st"
  then obtain v where v: "keys_at (neigs (fst st)) v \<noteq> []" by (auto simp: has_edges_def)
  show "has_two st'"
  proof (cases "v = h")
    case True
    then have "1 < length (keys_at (neigs (fst st')) h)" using K [of h] v by simp
    then show ?thesis by (auto simp: has_two_def)
  next
    case False
    then have "keys_at (neigs (fst st')) v \<noteq> []" "keys_at (neigs (fst st')) h \<noteq> []" using K v by auto
    then show ?thesis using False unfolding has_two_def by blast
  qed
qed

lemma loop_keeps_two:
  "getBlock_loop st = Inr st' \<Longrightarrow> em_inv em0 \<Longrightarrow> taking_ok em0 st \<Longrightarrow> has_edges st \<Longrightarrow>
    has_two st \<or> serializedSize (fst st) \<le> blockSize (emConf em0) \<Longrightarrow>
    has_edges st' \<and> (has_two st' \<or> serializedSize (fst st') \<le> blockSize (emConf em0))"
proof (induction st rule: getBlock_loop.induct)
  case (1 st)
  let ?go = "\<not> pq_empty (scoreQueue (snd (snd (snd st)))) \<and> serializedSize (fst st) < blockSize (emConf (snd (snd (snd st))))"
  show ?case
  proof (cases ?go)
    case True
    with "1.prems"(1) obtain st1 where step: "getBlock_step st = Inr st1" and rest: "getBlock_loop st1 = Inr st'"
      by (subst (asm) getBlock_loop.simps) (auto simp: rbind_Inr_iff)
    show ?thesis
      using "1.IH" [OF True step rest "1.prems"(2)] taking_step [OF "1.prems"(2,3) step] step_has_edges [OF "1.prems"(3) step] "1.prems"(4)
      by blast
  next
    case False
    then have "st' = st" using "1.prems"(1) by (subst (asm) getBlock_loop.simps) auto
    then show ?thesis using "1.prems" by simp
  qed
qed

lemma em_getBlock_progress:
  assumes inv: "em_inv em" and blk: "em_getBlock em = Inr (b, em')" and "neigLists em \<noteq> []" and fit: "fits (emConf em) (neigLists em)"
  shows "neigs b \<noteq> []"
proof -
  from blk obtain b0 nTaken h em1 where loop: "getBlock_loop (Block 0, [], 0, em) = Inr (b0, nTaken, h, em1)"
    by (auto simp: em_getBlock_def rbind_Inr_iff Let_def split: prod.splits)
  let ?st = "(Block 0, [], 0, em) :: taking"
  note ok = taking_start [OF inv]
  note D = taking_okD [OF getBlock_loop_ok [OF loop inv ok]]
  obtain v nl where v: "um_find (neigLists em) v = Some nl" using assms(3) by (cases "neigLists em") fastforce+
  have "edges nl \<noteq> []" using heads_ok_find [of "neigLists em" v nl] v inv by (simp add: em_inv_def)
  then obtain e where "edge_fits (emConf em) e" using fit v unfolding fits_def by (metis list.set_intros(1) neq_Nil_conv)
  then have room: "serializedSize (Block 0) < blockSize (emConf em)"
    by (auto simp: edge_fits_def Block_def word_less_nat_alt)
  have ne: "\<not> pq_empty (scoreQueue em)"
    using assms(3) inv by (auto simp: em_inv_def pq_empty_def pq_look_dom)
  from loop room ne obtain st1 where step: "getBlock_step ?st = Inr st1" and rest: "getBlock_loop st1 = Inr (b0, nTaken, h, em1)"
    by (subst (asm) getBlock_loop.simps) (auto simp: rbind_Inr_iff)
  have size: "serializedSize (fst st1) \<le> blockSize (emConf em)"
  proof (rule step_block [OF ok step])
    fix h nl e
    assume "um_find (neigLists em) h = Some nl" "e \<in> set (edges nl)" "addEdge h (toVertex e) (tm e) (edata e) (fst ?st) = Inr (fst st1)"
    then show ?thesis using fit addEdge_first_size [of "emConf em" e h "fst st1"] by (simp add: fits_def)
  qed
  have two: "has_two (b0, nTaken, h, em1) \<or> serializedSize b0 \<le> blockSize (emConf em)" and one: "has_edges (b0, nTaken, h, em1)"
    using loop_keeps_two [OF rest inv _ step_has_edges(1) [OF ok step]] taking_step [OF inv ok step] size by auto
  show ?thesis
  proof (cases "blockSize (emConf em1) < serializedSize b0")
    case False
    then have "b = b0" using blk loop by (auto simp: em_getBlock_def rbind_Inr_iff Let_def)
    then show ?thesis using one by (auto simp: has_edges_def)
  next
    case True
    then obtain b1 where rem: "removeNewestEdge h b0 = Inr b1" and b: "b = b1"
      using blk loop by (auto simp: em_getBlock_def rbind_Inr_iff Let_def)
    have "has_two (b0, nTaken, h, em1)" using two True D(3) by (metis not_le)
    then have "\<exists>v. keys_at (neigs b1) v \<noteq> []"
      by (rule has_two_rest [where h = h]) (use removeNewestEdge_keys(2) [OF rem D(5)] in simp)
    then obtain v where "keys_at (neigs b1) v \<noteq> []" ..
    then show ?thesis by (auto simp: b)
  qed
qed

section \<open>Blocks keep the records of their edges\<close>

lemma loop_carries:
  "getBlock_loop st = Inr st' \<Longrightarrow> em_inv em0 \<Longrightarrow> taking_ok em0 st \<Longrightarrow> sharp D \<Longrightarrow> carries D (neigLists em0) \<Longrightarrow>
    carries D (neigs (fst st)) \<Longrightarrow> carries D (neigs (fst st'))"
proof (induction st rule: getBlock_loop.induct)
  case (1 st)
  let ?go = "\<not> pq_empty (scoreQueue (snd (snd (snd st)))) \<and> serializedSize (fst st) < blockSize (emConf (snd (snd (snd st))))"
  show ?case
  proof (cases ?go)
    case True
    with "1.prems"(1) obtain st1 where step: "getBlock_step st = Inr st1" and rest: "getBlock_loop st1 = Inr st'"
      by (subst (asm) getBlock_loop.simps) (auto simp: rbind_Inr_iff)
    have "carries D (neigs (fst st1))"
    proof (rule step_block [OF "1.prems"(3) step])
      fix h nl e
      assume "um_find (neigLists em0) h = Some nl" "e \<in> set (edges nl)" and add: "addEdge h (toVertex e) (tm e) (edata e) (fst st) = Inr (fst st1)"
        and ok: "heads_ok (neigs (fst st))"
      then have "D (tm e) = Some (edata e)" using "1.prems"(5) by (auto simp: carries_def)
      then show ?thesis by (rule addEdge_carries [OF add ok "1.prems"(4,6)])
    qed
    then show ?thesis using "1.IH" [OF True step rest "1.prems"(2)] taking_step [OF "1.prems"(2,3) step] "1.prems"(4,5) by blast
  next
    case False
    then have "st' = st" using "1.prems"(1) by (subst (asm) getBlock_loop.simps) auto
    then show ?thesis using "1.prems" by simp
  qed
qed

lemma em_getBlock_carries:
  assumes "em_inv em" "em_getBlock em = Inr (b, em')" "sharp D" "carries D (neigLists em)"
  shows "carries D (neigs b)"
proof -
  from assms(2) obtain b0 nTaken h em1 where loop: "getBlock_loop (Block 0, [], 0, em) = Inr (b0, nTaken, h, em1)"
    and b: "b = b0 \<or> removeNewestEdge h b0 = Inr b"
    by (auto simp: em_getBlock_def rbind_Inr_iff Let_def split: prod.splits if_splits)
  have "carries D (neigs (fst (b0, nTaken, h, em1)))"
    by (rule loop_carries [OF loop assms(1) taking_start [OF assms(1)] assms(3,4)]) (simp add: Block_def)
  then show ?thesis using b removeNewestEdge_carries by auto
qed

lemma form_list_carries:
  assumes "form_list m p b = Inr b'" "sharp D" "carries D m" "heads_ok (neigs b) \<and> carries D (neigs b)"
  shows "heads_ok (neigs b') \<and> carries D (neigs b')"
proof -
  from assms(1) obtain nl where nl: "um_find m (fst p) = Some nl"
    and run: "for_each (\<lambda>i b1. rbind (getNthOldestEdge nl i) (\<lambda>e. addEdge (fst p) (toVertex e) (tm e) (edata e) b1)) [0..<snd p] b = Inr b'"
    by (auto simp: form_list_def rbind_Inr_iff)
  show ?thesis
  proof (rule for_each_invariant [where P = "\<lambda>b. heads_ok (neigs b) \<and> carries D (neigs b)", OF run assms(4)])
    fix i b1 b2
    assume b1: "heads_ok (neigs b1) \<and> carries D (neigs b1)"
      and "rbind (getNthOldestEdge nl i) (\<lambda>e. addEdge (fst p) (toVertex e) (tm e) (edata e) b1) = Inr b2"
    then obtain e where e: "e \<in> set (edges nl)" "addEdge (fst p) (toVertex e) (tm e) (edata e) b1 = Inr b2"
      by (auto simp: rbind_Inr_iff getNthOldestEdge_def vec_index_def split: if_splits intro: nth_mem)
    then have "D (tm e) = Some (edata e)" using assms(3) nl by (auto simp: carries_def)
    then show "heads_ok (neigs b2) \<and> carries D (neigs b2)"
      using addEdge_carries [OF e(2) _ assms(2)] addEdge_keys(1) [OF e(2)] b1 by blast
  qed
qed

lemma em_getBlockSmart_carries:
  assumes "em_inv em" "em_getBlockSmart em = Inr (b, em')" "0 < seedEdgeCount (smartLayoutConf (emConf em))"
    and "sharp D" "carries D (neigLists em)"
  shows "carries D (neigs b)"
proof -
  from assms(2) obtain c em2 where form: "for_each (form_list (neigLists em2)) (numEdges c) (Block 0) = Inr b"
    and "em' = em2\<lparr>stats := bs_update c (stats em2)\<rparr>"
    by (auto simp: em_getBlockSmart_def Let_def rbind_Inr_iff split: if_splits)
  then have "neigLists em2 = neigLists em"
    using em_getBlockSmart_cuts [OF assms(1-3)] by (simp add: same_edges_def)
  then have D: "carries D (neigLists em2)" using assms(5) by simp
  have "heads_ok (neigs b) \<and> carries D (neigs b)"
    by (rule for_each_invariant [where P = "\<lambda>b. heads_ok (neigs b) \<and> carries D (neigs b)", OF form]) (simp add: Block_def, rule form_list_carries [OF _ assms(4) D])
  then show ?thesis ..
qed

section \<open>Writing a block\<close>

text \<open>The configuration lets every block take at least one edge.\<close>

definition can_progress :: "expirationMap \<Rightarrow> bool" where
  "can_progress em \<longleftrightarrow> 0 < seedEdgeCount (smartLayoutConf (emConf em)) \<and> fits (emConf em) (neigLists em)"

lemma writeBlock_result:
  assumes inv: "em_inv em" and seed: "0 < seedEdgeCount (smartLayoutConf (emConf em))"
    and w: "writeBlock addBlk (em, h) = Inr (em', h')"
  shows "\<exists>b. addBlk b h = Inr h' \<and> em_inv em' \<and> conserves em b em' \<and> (can_progress em \<and> neigLists em \<noteq> [] \<longrightarrow> neigs b \<noteq> [])
    \<and> (\<forall>D. sharp D \<and> carries D (neigLists em) \<longrightarrow> carries D (neigs b))"
proof -
  from w obtain b em1 where get: "(case layoutMode (emConf em) of LM_Smart \<Rightarrow> em_getBlockSmart em | _ \<Rightarrow> em_getBlock em) = Inr (b, em1)"
    and rem: "removeEdges b em1 = Inr em'" and add: "addBlk b h = Inr h'"
    by (auto simp: writeBlock_def rbind_Inr_iff cong: layoutMode.case_cong)
  have "cuts b (neigLists em) \<and> same_edges em em1 \<and> mid_inv (fst ` set (neigs b)) em1
      \<and> (can_progress em \<and> neigLists em \<noteq> [] \<longrightarrow> neigs b \<noteq> [])"
    using get em_getBlock_cuts [OF inv] em_getBlockSmart_cuts [OF inv _ seed] em_getBlock_progress [OF inv]
    by (auto simp: can_progress_def split: layoutMode.splits)
  moreover have "carries D (neigs b)" if "sharp D" "carries D (neigLists em)" for D
    using get em_getBlock_carries [OF inv _ that] em_getBlockSmart_carries [OF inv _ seed that]
    by (auto split: layoutMode.splits)
  ultimately show ?thesis using removeEdges_conserves [of b em em1] rem add by auto
qed

end
