(* ===== verification/Expiration.thy ===== *)
theory Expiration
  imports LayoutSmart
begin

text \<open>
  Properties of the expiration map: adding an edge and writing a block lose nothing and duplicate
  nothing, and \<open>flush\<close> ends with an empty map after handing every edge to the historical graph, in order,
  provided every single edge fits into a block. Without that proviso a block can come out empty and
  \<open>flush\<close> makes no progress.
\<close>

section \<open>Adding an edge\<close>

lemma nl_ref_result:
  "nl_ref v em = (nl, em1) \<Longrightarrow> edges nl = (case um_find (neigLists em) v of None \<Rightarrow> [] | Some nl \<Rightarrow> edges nl)
    \<and> (\<exists>m. em1 = em\<lparr>neigLists := m\<rparr> \<and> um_put v nl' m = um_put v nl' (neigLists em))"
  by (auto simp: nl_ref_def um_put_put split: option.splits intro: exI [where x = "neigLists em"])

definition new_edge_ok :: "(vertexId, neighborList) umap \<Rightarrow> vertexId \<Rightarrow> edge \<Rightarrow> bool" where
  "new_edge_ok m v e \<longleftrightarrow> \<not> is_nan (tm e)
     \<and> (\<forall>nl. um_find m v = Some nl \<longrightarrow> (toVertex e, dkey (tm e)) \<notin> (\<lambda>e. (toVertex e, dkey (tm e))) ` set (edges nl))"

definition list_at :: "vertexId \<Rightarrow> (vertexId, neighborList) umap \<Rightarrow> edge list" where
  "list_at v m = (case um_find m v of None \<Rightarrow> [] | Some nl \<Rightarrow> edges nl)"

lemma total_put_list_at:
  "um_ok m \<Longrightarrow> total (um_put v nl m) + length (list_at v m) = total m + length (edges nl)"
proof (cases "um_find m v")
  case None
  then have "v \<notin> set (um_keys m)" by (simp add: map_of_eq_None_iff)
  then show ?thesis using None by (simp add: um_put_new total_def list_at_def)
next
  case (Some nl0)
  assume "um_ok m"
  from total_put_aux [OF this Some, of nl] Some show ?thesis by (simp add: list_at_def)
qed

text \<open>The invariant without the size, which \<open>addEdge\<close> adjusts at the end.\<close>

definition lists_inv :: "expirationMap \<Rightarrow> bool" where
  "lists_inv em \<longleftrightarrow> heads_ok (neigLists em) \<and> times_ok (neigLists em) \<and> unique_edges (neigLists em)
     \<and> pq_inv MinAtTop (scoreQueue em) \<and> dom (pq_look (scoreQueue em)) = fst ` set (neigLists em)"

lemma em_inv_lists: "em_inv em \<longleftrightarrow> lists_inv em \<and> unat (emSize em) = total (neigLists em)"
  by (auto simp: em_inv_def lists_inv_def)

lemma em_push_result:
  assumes inv: "lists_inv em" and e: "new_edge_ok (neigLists em) v e"
  shows "\<exists>em'. em_push v e em = Inr em' \<and> lists_inv em' \<and> emSize em' = emSize em \<and> maxSize em' = maxSize em \<and> emConf em' = emConf em
    \<and> neigLists em' = um_put v \<lparr>headVertex = v, edges = list_at v (neigLists em) @ [e]\<rparr> (neigLists em)"
proof -
  note I = inv [unfolded lists_inv_def]
  let ?m = "neigLists em"
  define nl1 where "nl1 = \<lparr>headVertex = v, edges = list_at v ?m @ [e]\<rparr>"
  obtain nl em1 where ref: "nl_ref v em = (nl, em1)" by force
  from nl_ref_result [OF ref, of nl1] obtain m where nl: "edges nl = list_at v ?m"
    and em1: "em1 = em\<lparr>neigLists := m\<rparr>" and m: "um_put v nl1 m = um_put v nl1 ?m" by (auto simp: list_at_def)
  have nl1: "nl_addEdge e (nl\<lparr>headVertex := v\<rparr>) = nl1" using nl by (simp add: nl_addEdge_def nl1_def)
  define em2 where "em2 = em\<lparr>neigLists := um_put v nl1 ?m\<rparr>"
  have push: "em_push v e em = rescore v 0 em2" using ref by (simp add: em_push_def nl1 em1 m em2_def)
  have find: "um_find (neigLists em2) v = Some nl1" by (simp add: em2_def)
  have old: "\<forall>x \<in> set (list_at v ?m). \<not> is_nan (tm x)" "distinct (map (\<lambda>e. (toVertex e, dkey (tm e))) (list_at v ?m))"
    using I unfolding list_at_def times_ok_def unique_edges_def by (cases "um_find ?m v"; simp)+
  have "times_ok (neigLists em2)" using I old e by (auto simp: em2_def nl1_def new_edge_ok_def intro!: times_ok_put)
  moreover have "pq_inv MinAtTop (scoreQueue em2)" using I by (simp add: em2_def)
  ultimately obtain k q where q: "rescore v 0 em2 = Inr (em2\<lparr>randPos := k, scoreQueue := q\<rparr>)" "pq_inv MinAtTop q"
      "dom (pq_look q) = insert v (dom (pq_look (scoreQueue em)))"
    using rescore_result [OF find, of 0] by (auto simp: nl1_def em2_def)
  define em' where "em' = em2\<lparr>randPos := k, scoreQueue := q\<rparr>"
  have "distinct (map (\<lambda>e. (toVertex e, dkey (tm e))) (edges nl1))"
    using old(2) e by (auto simp: nl1_def new_edge_ok_def list_at_def split: option.splits)
  then have "unique_edges (um_put v nl1 ?m)" using I by (simp add: unique_put)
  moreover have "heads_ok (um_put v nl1 ?m)" using I by (simp add: heads_ok_put nl1_def)
  ultimately have "lists_inv em'"
    using \<open>times_ok (neigLists em2)\<close> q I fst_put [of v nl1 ?m] by (simp add: lists_inv_def em'_def em2_def)
  then show ?thesis using push q(1) by (simp add: em'_def em2_def nl1_def)
qed

definition ends :: "uEdge \<Rightarrow> attributeData shared_ptr \<Rightarrow> vertexId \<Rightarrow> (vertexId \<times> timestamp \<times> nat option) list" where
  "ends ue data v =
     (if v = firstVertex ue then [(secondVertex ue, utm ue, map_option fst data)]
      else if v = secondVertex ue then [(firstVertex ue, utm ue, map_option fst data)] else [])"

definition new_ok :: "uEdge \<Rightarrow> expirationMap \<Rightarrow> bool" where
  "new_ok ue em \<longleftrightarrow> firstVertex ue \<noteq> secondVertex ue
     \<and> new_edge_ok (neigLists em) (firstVertex ue) \<lparr>toVertex = secondVertex ue, tm = utm ue, edata = None\<rparr>
     \<and> new_edge_ok (neigLists em) (secondVertex ue) \<lparr>toVertex = firstVertex ue, tm = utm ue, edata = None\<rparr>
     \<and> total (neigLists em) + 2 < 2 ^ 64"

lemma new_edge_ok_data: "new_edge_ok m v (e\<lparr>edata := d\<rparr>) = new_edge_ok m v e"
  by (simp add: new_edge_ok_def)

lemma keys_at_push:
  "keys_at (um_put v \<lparr>headVertex = v, edges = list_at v m @ [e]\<rparr> m) w = (if w = v then keys_at m v @ [ekey e] else keys_at m w)"
  by (auto simp: keys_at_def list_at_def split: option.splits)

lemma fits_push:
  "fits c m \<Longrightarrow> edge_fits c e \<Longrightarrow> fits c (um_put v \<lparr>headVertex = v, edges = list_at v m @ [e]\<rparr> m)"
  unfolding fits_def list_at_def by (cases "um_find m v") auto

lemma carries_push:
  "carries D m \<Longrightarrow> D (tm e) = Some (edata e) \<Longrightarrow> carries D (um_put v \<lparr>headVertex = v, edges = list_at v m @ [e]\<rparr> m)"
  unfolding carries_def list_at_def by (cases "um_find m v") auto

lemma addEdge_lists:
  assumes inv: "em_inv em" and ok: "new_ok ue em"
  shows "\<exists>em3. em_inv em3 \<and> emConf em3 = emConf em \<and> maxSize em3 = maxSize em \<and> emSize em3 = emSize em + 2
    \<and> (\<forall>c. fits c (neigLists em) \<and> edge_fits c \<lparr>toVertex = 0, tm = 0, edata = data\<rparr> \<longrightarrow> fits c (neigLists em3))
    \<and> (\<forall>D. carries D (neigLists em) \<and> D (utm ue) = Some data \<longrightarrow> carries D (neigLists em3))
    \<and> (\<forall>v. keys_at (neigLists em3) v = keys_at (neigLists em) v @ ends ue data v)
    \<and> em_addEdge addBlk ue data (em, h) = (if maxSize em3 < emSize em3 then writeBlock addBlk (em3, h) else Inr (em3, h))"
proof -
  let ?u = "firstVertex ue" and ?w = "secondVertex ue"
  let ?e1 = "\<lparr>toVertex = ?w, tm = utm ue, edata = data\<rparr>" and ?e2 = "\<lparr>toVertex = ?u, tm = utm ue, edata = data\<rparr>"
  note O = ok [unfolded new_ok_def]
  have l0: "lists_inv em" "unat (emSize em) = total (neigLists em)" using inv by (simp_all add: em_inv_lists)
  have "new_edge_ok (neigLists em) ?u ?e1" using O by (simp add: new_edge_ok_def)
  from em_push_result [OF l0(1) this] obtain em1 where em1: "em_push ?u ?e1 em = Inr em1" "lists_inv em1" "emSize em1 = emSize em"
    "maxSize em1 = maxSize em" "emConf em1 = emConf em"
    and n1: "neigLists em1 = um_put ?u \<lparr>headVertex = ?u, edges = list_at ?u (neigLists em) @ [?e1]\<rparr> (neigLists em)" by blast
  have "new_edge_ok (neigLists em1) ?w ?e2" using O not_sym [of ?u ?w] by (simp add: new_edge_ok_def n1)
  from em_push_result [OF em1(2) this] obtain em2 where em2: "em_push ?w ?e2 em1 = Inr em2" "lists_inv em2" "emSize em2 = emSize em1"
    "maxSize em2 = maxSize em1" "emConf em2 = emConf em1"
    and n2: "neigLists em2 = um_put ?w \<lparr>headVertex = ?w, edges = list_at ?w (neigLists em1) @ [?e2]\<rparr> (neigLists em1)" by blast
  have um: "um_ok (neigLists em)" "um_ok (neigLists em1)" using l0(1) em1(2) by (simp_all add: lists_inv_def heads_ok_um)
  have tot: "total (neigLists em2) = total (neigLists em) + 2"
    using total_put_list_at [OF um(1), of ?u "\<lparr>headVertex = ?u, edges = list_at ?u (neigLists em) @ [?e1]\<rparr>"]
      total_put_list_at [OF um(2), of ?w "\<lparr>headVertex = ?w, edges = list_at ?w (neigLists em1) @ [?e2]\<rparr>"] n1 n2 by simp
  define em3 where "em3 = em2\<lparr>emSize := emSize em2 + 2\<rparr>"
  have "unat (emSize em + 2) = unat (emSize em) + 2"
    using O l0(2) by (simp add: unat_word_ariths)
  then have "em_inv em3" using em2(2) tot l0(2) em1(3) em2(3) by (simp add: em_inv_lists lists_inv_def em3_def)
  moreover have "keys_at (neigLists em3) v = keys_at (neigLists em) v @ ends ue data v" for v
    using O by (simp add: em3_def n2 keys_at_push) (simp add: n1 keys_at_push ends_def ekey_def)
  moreover have "em_addEdge addBlk ue data (em, h) = (if maxSize em3 < emSize em3 then writeBlock addBlk (em3, h) else Inr (em3, h))"
    using em1(1) em2(1) by (simp add: em_addEdge_def em3_def Let_def)
  moreover have "fits c (neigLists em3)" if "fits c (neigLists em)" "edge_fits c \<lparr>toVertex = 0, tm = 0, edata = data\<rparr>" for c
    using fits_push [OF fits_push, of c "neigLists em" ?e1 ?e2] that by (simp add: em3_def n2 n1 edge_fits_def)
  moreover have "carries D (neigLists em3)" if "carries D (neigLists em)" "D (utm ue) = Some data" for D
    using carries_push [OF carries_push, of D "neigLists em" ?e1 ?e2] that by (simp add: em3_def n2 n1)
  ultimately show ?thesis using em1 em2 by (intro exI [of _ em3]) (simp add: em3_def)
qed

section \<open>Sequences of written blocks\<close>

definition written :: "block list \<Rightarrow> vertexId \<Rightarrow> (vertexId \<times> timestamp \<times> nat option) list" where
  "written bs v = concat (map (\<lambda>b. keys_at (neigs b) v) bs)"

text \<open>Blocks drawn from a state: their lists are well formed, they are not empty when every edge fits (\<open>F\<close>), and
  their edges carry the records of their times for every assignment that the state respects (\<open>C\<close>).\<close>

definition drawn :: "((timestamp \<rightharpoonup> attributeData shared_ptr) \<Rightarrow> bool) \<Rightarrow> bool \<Rightarrow> block list \<Rightarrow> bool" where
  "drawn C F bs \<longleftrightarrow> (\<forall>b \<in> set bs. heads_ok (neigs b) \<and> (F \<longrightarrow> neigs b \<noteq> []) \<and> (\<forall>D. sharp D \<and> C D \<longrightarrow> carries D (neigs b)))"

lemma drawn_nil [simp]: "drawn C F []"
  by (simp add: drawn_def)

lemma drawn_append: "drawn C F (bs @ cs) \<longleftrightarrow> drawn C F bs \<and> drawn C F cs"
  by (auto simp: drawn_def)

lemma drawn_Cons: "drawn C F (b # bs) \<longleftrightarrow> drawn C F [b] \<and> drawn C F bs"
  by (auto simp: drawn_def)

lemma drawn_mono: "drawn C F bs \<Longrightarrow> (\<And>D. sharp D \<Longrightarrow> C' D \<Longrightarrow> C D) \<Longrightarrow> (F' \<Longrightarrow> F) \<Longrightarrow> drawn C' F' bs"
  by (auto simp: drawn_def)

lemma writeBlock_drawn:
  assumes "em_inv em" "0 < seedEdgeCount (smartLayoutConf (emConf em))" "neigLists em \<noteq> []" "writeBlock addBlk (em, h) = Inr (em', h')"
  shows "\<exists>b. addBlk b h = Inr h' \<and> em_inv em' \<and> conserves em b em'
    \<and> drawn (\<lambda>D. carries D (neigLists em)) (fits (emConf em) (neigLists em)) [b]"
  using writeBlock_result [OF assms(1,2,4)] assms(2,3) by (auto simp: drawn_def conserves_def can_progress_def)

lemma emSize_zero: "em_inv em \<Longrightarrow> emSize em = 0 \<longleftrightarrow> neigLists em = []"
proof -
  assume inv: "em_inv em"
  have "emSize em = 0 \<longleftrightarrow> total (neigLists em) = 0" using inv unat_eq_0 [of "emSize em"] by (simp add: em_inv_def)
  moreover have "total (neigLists em) = 0 \<longleftrightarrow> neigLists em = []"
    using total_pos [of "neigLists em"] inv by (cases "neigLists em = []") (simp_all add: em_inv_def total_def [of "[]"])
  ultimately show ?thesis by simp
qed

lemma emSize_pos: "em_inv em \<Longrightarrow> neigLists em \<noteq> [] \<Longrightarrow> 0 < emSize em"
  by (simp add: word_gt_0 emSize_zero)

lemma can_progress_step: "can_progress em \<Longrightarrow> conserves em b em' \<Longrightarrow> can_progress em'"
  by (auto simp: can_progress_def conserves_def intro: fits_remains)

lemma flush_run:
  "em_inv em \<Longrightarrow> can_progress em \<Longrightarrow>
    \<exists>r. flush addBlk (em, h) = Some r \<and> (\<forall>em' h'. r = Inr (em', h') \<longrightarrow> em_inv em' \<and> neigLists em' = [] \<and> emSize em' = 0
      \<and> (\<exists>bs. for_each addBlk bs h = Inr h' \<and> (\<forall>v. keys_at (neigLists em) v = written bs v)
        \<and> drawn (\<lambda>D. carries D (neigLists em)) True bs))"
proof (induction "total (neigLists em)" arbitrary: em h rule: less_induct)
  case less
  show ?case
  proof (cases "neigLists em = []")
    case True
    then have zero: "emSize em = 0" using emSize_zero less.prems(1) by simp
    then have "flush addBlk (em, h) = Some (Inr (em, h))" by (simp add: flush.simps)
    moreover have "for_each addBlk [] h = Inr h" "\<And>v. keys_at (neigLists em) v = written [] v"
      using True by (simp_all add: written_def)
    ultimately show ?thesis using True zero less.prems(1) drawn_nil by blast
  next
    case False
    with less.prems(1) have pos: "0 < emSize em" by (rule emSize_pos)
    show ?thesis
    proof (cases "writeBlock addBlk (em, h)")
      case (Inl err)
      then have "flush addBlk (em, h) = Some (Inl err)" using pos by (simp add: flush.simps)
      then show ?thesis by blast
    next
      case (Inr st)
      obtain em1 h1 where st: "st = (em1, h1)" by force
      have seed: "0 < seedEdgeCount (smartLayoutConf (emConf em))" using less.prems(2) by (simp add: can_progress_def)
      from writeBlock_drawn [OF less.prems(1) seed False Inr [unfolded st]] obtain b where
        b: "addBlk b h = Inr h1" "em_inv em1" "conserves em b em1" "neigs b \<noteq> []" "drawn (\<lambda>D. carries D (neigLists em)) True [b]"
        using less.prems(2) by (auto simp: can_progress_def drawn_def)
      have "0 < total (neigs b)" using b(3,4) total_pos by (simp add: conserves_def)
      then have "total (neigLists em1) < total (neigLists em)" using b(3) by (simp add: conserves_def)
      from less.hyps [OF this b(2) can_progress_step [OF less.prems(2) b(3)], of h1] obtain r where
        r: "flush addBlk (em1, h1) = Some r"
        and res: "\<And>em' h'. r = Inr (em', h') \<Longrightarrow> em_inv em' \<and> neigLists em' = [] \<and> emSize em' = 0
          \<and> (\<exists>bs. for_each addBlk bs h1 = Inr h' \<and> (\<forall>v. keys_at (neigLists em1) v = written bs v)
            \<and> drawn (\<lambda>D. carries D (neigLists em1)) True bs)" by blast
      have "flush addBlk (em, h) = Some r" using pos Inr r by (simp add: flush.simps [of addBlk "(em, h)"] st)
      moreover have "em_inv em' \<and> neigLists em' = [] \<and> emSize em' = 0
          \<and> (\<exists>bs. for_each addBlk bs h = Inr h' \<and> (\<forall>v. keys_at (neigLists em) v = written bs v)
            \<and> drawn (\<lambda>D. carries D (neigLists em)) True bs)" if "r = Inr (em', h')" for em' h'
      proof -
        from res [OF that] obtain bs where e: "em_inv em'" "neigLists em' = []" "emSize em' = 0"
          and bs: "for_each addBlk bs h1 = Inr h'" "\<And>v. keys_at (neigLists em1) v = written bs v"
            "drawn (\<lambda>D. carries D (neigLists em1)) True bs" by blast
        have "for_each addBlk (b # bs) h = Inr h'" using b(1) bs(1) by simp
        moreover have "keys_at (neigLists em) v = written (b # bs) v" for v
          using b(3) bs(2) [of v] by (simp add: conserves_def written_def)
        moreover have "drawn (\<lambda>D. carries D (neigLists em)) True bs"
          by (rule drawn_mono [OF bs(3)]) (use b(3) carries_remains in \<open>auto simp: conserves_def\<close>)
        then have "drawn (\<lambda>D. carries D (neigLists em)) True (b # bs)" using b(5) drawn_Cons by blast
        ultimately show ?thesis using e by blast
      qed
      ultimately show ?thesis by blast
    qed
  qed
qed

text \<open>The configuration is never changed.\<close>

lemma writeBlock_conf:
  "em_inv em \<Longrightarrow> 0 < seedEdgeCount (smartLayoutConf (emConf em)) \<Longrightarrow> writeBlock addBlk (em, h) = Inr (em', h') \<Longrightarrow>
    em_inv em' \<and> emConf em' = emConf em"
  using writeBlock_result [of em addBlk h em' h'] by (auto simp: conserves_def)

lemma flush_conf:
  assumes "flush addBlk st = Some r" and "em_inv (fst st)" and "0 < seedEdgeCount (smartLayoutConf (emConf (fst st)))" and "r = Inr (em', h')"
  shows "emConf em' = emConf (fst st)"
proof -
  have "em_inv (fst st) \<and> 0 < seedEdgeCount (smartLayoutConf (emConf (fst st))) \<longrightarrow> (\<forall>em' h'. r = Inr (em', h') \<longrightarrow> emConf em' = emConf (fst st))"
    using assms(1)
  proof (rule flush.raw_induct [where P = "\<lambda>addBlk st r. em_inv (fst st) \<and> 0 < seedEdgeCount (smartLayoutConf (emConf (fst st)))
      \<longrightarrow> (\<forall>em' h'. r = Inr (em', h') \<longrightarrow> emConf em' = emConf (fst st))", rotated], intro impI allI, elim conjE, goal_cases)
    case (1 f addBlk st y em' h')
    show ?case
    proof (cases "0 < emSize (fst st)")
      case False
      then show ?thesis using 1 by auto
    next
      case True
      show ?thesis
      proof (cases "writeBlock addBlk st")
        case (Inl err)
        then show ?thesis using 1 True by (auto simp: sum.case)
      next
        case (Inr st1)
        then have "f addBlk st1 = Some y" using 1(2) True by simp
        moreover have "em_inv (fst st1) \<and> emConf (fst st1) = emConf (fst st)"
          using writeBlock_conf [of "fst st" addBlk "snd st" "fst st1" "snd st1"] Inr 1(3-) by simp
        ultimately show ?thesis using 1(1) [of addBlk st1 y] 1(3-) by simp
      qed
    qed
  qed
  with assms(2-4) show ?thesis by blast
qed

section \<open>An edge that does not fit\<close>

definition edge_oversized :: "conf \<Rightarrow> edge \<Rightarrow> bool" where
  "edge_oversized c e \<longleftrightarrow> (\<exists>a d. edata e = Some (a, d) \<and> data_ok d \<and> unat (blockSize c) < 36 + data_size d \<and> 36 + data_size d < 2 ^ 64)"

definition stuck :: "expirationMap \<Rightarrow> bool" where
  "stuck em \<longleftrightarrow> em_inv em \<and> layoutMode (emConf em) \<noteq> LM_Smart \<and> neigLists em \<noteq> [] \<and> 8 < blockSize (emConf em)
     \<and> 0 < seedEdgeCount (smartLayoutConf (emConf em))
     \<and> (\<forall>v nl. um_find (neigLists em) v = Some nl \<longrightarrow> (\<forall>e \<in> set (edges nl). edge_oversized (emConf em) e))"

lemma addEdge_first_oversized:
  assumes "edge_oversized c e" and "addEdge h (toVertex e) (tm e) (edata e) (Block 0) = Inr b1"
  shows "blockSize c < serializedSize b1" and "keys_at (neigs b1) v = (if v = h then [ekey e] else [])"
proof -
  from assms(1) obtain a d where d: "edata e = Some (a, d)" "data_ok d" "unat (blockSize c) < 36 + data_size d" "36 + data_size d < 2 ^ 64"
    by (auto simp: edge_oversized_def)
  have "addEdge h (toVertex e) (tm e) (Some (a, d)) (Block 0) =
      Inr (Block 0\<lparr>neigs := nb_push h \<lparr>toVertex = toVertex e, tm = tm e, edata = Some (a, d)\<rparr> [],
            serializedSize := 8 + word_of_nat (data_size d) + 12 + 16\<rparr>)"
    by (subst addEdge_result [OF d(2)]) (simp_all add: Block_def found_def um_count_def)
  then have "serializedSize b1 = word_of_nat (36 + data_size d)" using assms(2) d(1) by (auto simp: algebra_simps)
  moreover have "unat (word_of_nat (36 + data_size d) :: size_t) = 36 + data_size d"
    unfolding unat_of_nat by (rule mod_less) (use d(4) in simp)
  ultimately show "blockSize c < serializedSize b1" using d(3) by (simp add: word_less_nat_alt)
  have "heads_ok (neigs (Block 0))" "keys_at (neigs (Block 0)) v = []" for v by (simp_all add: Block_def)
  then show "keys_at (neigs b1) v = (if v = h then [ekey e] else [])"
    using addEdge_keys(2) [OF assms(2)] by (simp add: ekey_def)
qed

lemma stuck_block_empty:
  assumes "stuck em" and blk: "em_getBlock em = Inr (b, em')"
  shows "neigs b = []"
proof -
  note S = assms(1) [unfolded stuck_def]
  have inv: "em_inv em" using S by simp
  let ?st = "(Block 0, [], 0, em) :: taking"
  from blk obtain b0 nTaken h em1 where loop: "getBlock_loop ?st = Inr (b0, nTaken, h, em1)"
    by (auto simp: em_getBlock_def rbind_Inr_iff Let_def split: prod.splits)
  note ok = taking_start [OF inv]
  have "\<not> pq_empty (scoreQueue em)" using S by (auto simp: em_inv_def pq_empty_def pq_look_dom)
  then obtain st1 where step: "getBlock_step ?st = Inr st1" and rest: "getBlock_loop st1 = Inr (b0, nTaken, h, em1)"
    using loop S by (subst (asm) getBlock_loop.simps) (auto simp: rbind_Inr_iff Block_def)
  have ok1: "taking_ok em st1" using taking_step [OF inv ok step] by simp
  obtain b1 t1 h1 e1 where st1: "st1 = (b1, t1, h1, e1)" by (cases st1)
  note D = taking_okD [OF ok1 [unfolded st1]]
  have "blockSize (emConf em) < serializedSize b1 \<and> (\<exists>u x. \<forall>v. keys_at (neigs b1) v = (if v = u then [x] else []))"
  proof (rule step_block [OF ok step])
    fix u nl e
    assume "um_find (neigLists em) u = Some nl" "e \<in> set (edges nl)" and add: "addEdge u (toVertex e) (tm e) (edata e) (fst ?st) = Inr (fst st1)"
    then have "edge_oversized (emConf em) e" using S by blast
    from addEdge_first_oversized [OF this, of u b1] add
    have "blockSize (emConf em) < serializedSize b1" "\<forall>v. keys_at (neigs b1) v = (if v = u then [ekey e] else [])"
      by (simp_all add: st1)
    then show ?thesis by blast
  qed
  then obtain u x where big: "blockSize (emConf em) < serializedSize b1" and K: "\<And>v. keys_at (neigs b1) v = (if v = u then [x] else [])" by blast
  have "\<not> serializedSize b1 < blockSize (emConf em)" using big by (simp add: not_less order_less_imp_le)
  then have "getBlock_loop st1 = Inr st1" using D(3) by (subst getBlock_loop.simps) (simp add: st1)
  then have b0: "b0 = b1" "h = h1" "em1 = e1" using rest st1 by auto
  obtain b2 where rem: "removeNewestEdge h1 b1 = Inr b2" and b: "b = b2"
    using blk loop big D(3) unfolding b0 by (auto simp: em_getBlock_def rbind_Inr_iff Let_def)
  note R = removeNewestEdge_keys [OF rem D(5)]
  have "keys_at (neigs b1) h1 \<noteq> []"
    using rem heads_ok_find [OF D(5)] by (auto simp: removeNewestEdge_def keys_at_def split: option.splits)
  then have "h1 = u" using K [of h1] by (auto split: if_splits)
  then have nil: "keys_at (neigs b2) v = []" for v using R(2) [of v] K [of v] by (auto split: if_splits)
  show ?thesis unfolding b
  proof (cases "neigs b2")
    case (Cons p ps)
    then have "fst p \<in> fst ` set (neigs b2)" by simp
    then show "neigs b2 = []" using nil [of "fst p"] keys_at_nil_iff [OF R(1), of "fst p"] by simp
  qed simp
qed

lemma stuck_step:
  assumes "stuck em" and w: "writeBlock addBlk (em, h) = Inr (em', h')"
  shows "stuck em'"
proof -
  note S = assms(1) [unfolded stuck_def]
  from w obtain b em1 where get: "em_getBlock em = Inr (b, em1)" and rem: "removeEdges b em1 = Inr em'"
    using S by (auto simp: writeBlock_def rbind_Inr_iff split: layoutMode.splits)
  have nil: "neigs b = []" using stuck_block_empty [OF assms(1) get] .
  from em_getBlock_cuts [OF _ get] S removeEdges_conserves [of b em em1] rem
  have c: "em_inv em'" "conserves em b em'" by auto
  have keys: "keys_at (neigLists em') v = keys_at (neigLists em) v" for v
    using c(2) nil by (simp add: conserves_def)
  have "neigLists em' \<noteq> []"
    using c S nil total_pos [of "neigLists em"] by (auto simp: conserves_def total_def em_inv_def)
  moreover have "edge_oversized (emConf em) e" if f: "um_find (neigLists em') v = Some nl" and "e \<in> set (edges nl)" for v nl e
  proof -
    from c(2) f obtain nl0 where "um_find (neigLists em) v = Some nl0" "set (edges nl) \<subseteq> set (edges nl0)"
      unfolding conserves_def remains_def by blast
    then show ?thesis using S that(2) by blast
  qed
  ultimately show ?thesis using S c by (simp add: stuck_def conserves_def)
qed

lemma flush_stuck_aux: "flush addBlk st = Some r \<Longrightarrow> stuck (fst st) \<longrightarrow> (\<exists>err. r = Inl err)"
proof (erule flush.raw_induct [where P = "\<lambda>addBlk st r. stuck (fst st) \<longrightarrow> (\<exists>err. r = Inl err)", rotated], rule impI, goal_cases)
  case (1 f addBlk st y)
  have "em_inv (fst st)" "neigLists (fst st) \<noteq> []" using 1(3) by (simp_all add: stuck_def)
  then have pos: "0 < emSize (fst st)" by (rule emSize_pos)
  show ?case
  proof (cases "writeBlock addBlk st")
    case (Inl err)
    then have "y = Inl err" using 1(2) pos by (simp add: sum.case)
    then show ?thesis by blast
  next
    case (Inr st1)
    then have "f addBlk st1 = Some y" using 1(2) pos by simp
    moreover have "stuck (fst st1)" using stuck_step [of "fst st" addBlk "snd st" "fst st1" "snd st1"] Inr 1(3) by simp
    ultimately show ?thesis using 1(1) by blast
  qed
qed

text \<open>What a step of the map makes of its lists and of the blocks it writes, when it adds an edge with record \<open>data\<close>.\<close>

definition takes_in :: "expirationMap \<Rightarrow> timestamp \<Rightarrow> attributeData shared_ptr \<Rightarrow> block list \<Rightarrow> expirationMap \<Rightarrow> bool" where
  "takes_in em t data bs em' \<longleftrightarrow> emConf em' = emConf em \<and> total (neigLists em') \<le> total (neigLists em) + 2
     \<and> (\<forall>c. fits c (neigLists em) \<and> edge_fits c \<lparr>toVertex = 0, tm = 0, edata = data\<rparr> \<longrightarrow> fits c (neigLists em'))
     \<and> (\<forall>D. carries D (neigLists em) \<and> D t = Some data \<longrightarrow> carries D (neigLists em'))
     \<and> drawn (\<lambda>D. carries D (neigLists em) \<and> D t = Some data)
          (fits (emConf em) (neigLists em) \<and> edge_fits (emConf em) \<lparr>toVertex = 0, tm = 0, edata = data\<rparr>) bs"

lemma em_addEdge_run:
  assumes "em_inv em" and "new_ok ue em" and "0 < seedEdgeCount (smartLayoutConf (emConf em))"
    and "em_addEdge addBlk ue data (em, h) = Inr (em', h')"
  shows "em_inv em' \<and> (\<exists>bs. length bs \<le> 1 \<and> for_each addBlk bs h = Inr h' \<and> takes_in em (utm ue) data bs em'
    \<and> (\<forall>v. written bs v @ keys_at (neigLists em') v = keys_at (neigLists em) v @ ends ue data v))"
proof -
  from addEdge_lists [OF assms(1,2), of data addBlk h] obtain em3 where em3: "em_inv em3" "emConf em3 = emConf em" "emSize em3 = emSize em + 2"
    "\<And>c. fits c (neigLists em) \<and> edge_fits c \<lparr>toVertex = 0, tm = 0, edata = data\<rparr> \<Longrightarrow> fits c (neigLists em3)"
    "\<And>D. carries D (neigLists em) \<and> D (utm ue) = Some data \<Longrightarrow> carries D (neigLists em3)"
    "\<And>v. keys_at (neigLists em3) v = keys_at (neigLists em) v @ ends ue data v"
    and add: "em_addEdge addBlk ue data (em, h) = (if maxSize em3 < emSize em3 then writeBlock addBlk (em3, h) else Inr (em3, h))"
    by blast
  have "unat (emSize em + 2) \<le> unat (emSize em) + 2" by (simp add: unat_word_ariths)
  then have tot: "total (neigLists em3) \<le> total (neigLists em) + 2" using em3(1,3) assms(1) by (simp add: em_inv_def)
  show ?thesis
  proof (cases "maxSize em3 < emSize em3")
    case True
    then have "emSize em3 \<noteq> 0" by auto
    then have "neigLists em3 \<noteq> []" using emSize_zero [OF em3(1)] by blast
    moreover have "writeBlock addBlk (em3, h) = Inr (em', h')" using add assms(4) True by simp
    ultimately obtain b where b: "addBlk b h = Inr h'" "em_inv em'" "conserves em3 b em'"
      "drawn (\<lambda>D. carries D (neigLists em3)) (fits (emConf em3) (neigLists em3)) [b]"
      using writeBlock_drawn [OF em3(1)] assms(3) em3(2) by metis
    have "written [b] v @ keys_at (neigLists em') v = keys_at (neigLists em) v @ ends ue data v" for v
      using b(3) em3(6) [of v] by (simp add: written_def conserves_def)
    moreover have "drawn (\<lambda>D. carries D (neigLists em) \<and> D (utm ue) = Some data)
          (fits (emConf em) (neigLists em) \<and> edge_fits (emConf em) \<lparr>toVertex = 0, tm = 0, edata = data\<rparr>) [b]"
      by (rule drawn_mono [OF b(4)]) (use em3(2,4,5) in simp_all)
    then have "takes_in em (utm ue) data [b] em'"
      using b(3) em3(2,4,5) tot fits_remains carries_remains by (fastforce simp: takes_in_def conserves_def)
    moreover have "for_each addBlk [b] h = Inr h'" using b(1) by simp
    ultimately show ?thesis using b(2) by (intro conjI exI [of _ "[b]"]) simp_all
  next
    case False
    then have "em' = em3" "h' = h" using add assms(4) by auto
    then show ?thesis using em3 tot by (intro conjI exI [of _ "[]"]) (simp_all add: written_def takes_in_def)
  qed
qed

text \<open>\<open>addEdge\<close> fails only when writing a block fails.\<close>

lemma em_addEdge_full:
  assumes inv: "em_inv em" and ok: "new_ok ue em" and seed: "0 < seedEdgeCount (smartLayoutConf (emConf em))"
  shows "(\<exists>em' h' bs. em_addEdge addBlk ue data (em, h) = Inr (em', h') \<and> em_inv em' \<and> for_each addBlk bs h = Inr h'
        \<and> takes_in em (utm ue) data bs em'
        \<and> (\<forall>v. written bs v @ keys_at (neigLists em') v = keys_at (neigLists em) v @ ends ue data v))
    \<or> (\<exists>err em3. em_addEdge addBlk ue data (em, h) = Inl err \<and> writeBlock addBlk (em3, h) = Inl err)"
proof (cases "em_addEdge addBlk ue data (em, h)")
  case (Inl err)
  obtain em3 where "em_addEdge addBlk ue data (em, h) = (if maxSize em3 < emSize em3 then writeBlock addBlk (em3, h) else Inr (em3, h))"
    using addEdge_lists [OF inv ok, of data addBlk h] by blast
  then have "writeBlock addBlk (em3, h) = Inl err" using Inl by (simp split: if_splits)
  with Inl show ?thesis by blast
next
  case (Inr st)
  then obtain em' h' where st: "em_addEdge addBlk ue data (em, h) = Inr (em', h')" by (cases st) auto
  from em_addEdge_run [OF inv ok seed st] st show ?thesis by blast
qed

section \<open>Properties\<close>

text \<open>C4: adding an expired edge loses nothing. If \<open>addEdge\<close> returns, the map still satisfies its
  invariant (lists, score queue and size counter agree), at most one block was handed to the historical
  graph, and for every vertex the edges of that block followed by the edges still in the map are the
  edges the map had before, followed by the new edge at its two endpoints.\<close>

theorem em_addEdge_conserves:
  assumes "em_inv em" and "new_ok ue em" and "0 < seedEdgeCount (smartLayoutConf (emConf em))"
    and "em_addEdge addBlk ue data (em, h) = Inr (em', h')"
  shows "em_inv em' \<and> (\<exists>bs. length bs \<le> 1 \<and> for_each addBlk bs h = Inr h'
    \<and> (\<forall>v. written bs v @ keys_at (neigLists em') v = keys_at (neigLists em) v @ ends ue data v))"
  using em_addEdge_run [OF assms] by blast



definition ex_conf :: conf where
  "ex_conf = (Conf ''g'' ''/tmp'' [] [])\<lparr>layoutMode := LM_Old\<rparr>"

definition ex_em :: "conf \<Rightarrow> expirationMap" where
  "ex_em c =
     \<lparr>stats = BlockStats c, emSize = 2, maxSize = 2 * expirationMapSize c, emConf = c, hvScorer = OldScorer,
      randAt = (\<lambda>n. n), randPos = 0,
      scoreQueue = updateItem MinAtTop 0 2 (updateItem MinAtTop 0 1 (PriorityQueue max_size_t)),
      neigLists = [(1, \<lparr>headVertex = 1, edges = [\<lparr>toVertex = 2, tm = 0, edata = Some (7, ex_data)\<rparr>]\<rparr>),
                   (2, \<lparr>headVertex = 2, edges = [\<lparr>toVertex = 1, tm = 0, edata = Some (7, ex_data)\<rparr>]\<rparr>)]\<rparr>"

lemma zero_ok: "\<not> is_nan 0"
  by (simp add: is_nan_def dmag_def inf_mag_def)

lemma ex_em_inv: "em_inv (ex_em c)"
proof -
  let ?q1 = "updateItem MinAtTop 0 (1 :: vertexId) (PriorityQueue max_size_t)"
  have q1: "pq_inv MinAtTop ?q1" "dom (pq_look ?q1) = {1}"
  proof -
    have nil: "dom (pq_look (PriorityQueue max_size_t :: vertexId pqueue)) = {}" by (simp add: pq_look_dom PriorityQueue_def)
    show "pq_inv MinAtTop ?q1" by (rule pq.upd_inv [OF PriorityQueue_inv zero_ok])
    show "dom (pq_look ?q1) = {1}" unfolding pq.upd_dom [OF PriorityQueue_inv zero_ok, of MinAtTop] nil ..
  qed
  have "pq_inv MinAtTop (updateItem MinAtTop 0 2 ?q1)" "dom (pq_look (updateItem MinAtTop 0 2 ?q1)) = {2, 1}"
    using pq.upd_inv [OF q1(1) zero_ok] pq.upd_dom [OF q1(1) zero_ok] q1(2) by auto
  then show ?thesis
    by (auto simp: em_inv_def ex_em_def heads_ok_def times_ok_def unique_edges_def total_def zero_ok split: if_splits)
qed

lemma ex_data_size: "data_size ex_data = 15"
  by (simp add: data_size_def ex_data_fields)

theorem em_addEdge_conserves_witness:
  "\<exists>em'. em_addEdge (\<lambda>b h. Inr (b # h)) (UEdge 3 4 0) (Some (8, ex_data)) (ex_em ex_conf, []) = Inr (em', [])
     \<and> keys_at (neigLists em') 3 = [(4, 0, Some 8)] \<and> keys_at (neigLists em') 1 = [(2, 0, Some 7)]"
proof -
  have ok: "new_ok (UEdge 3 4 0) (ex_em ex_conf)"
    by (simp add: new_ok_def UEdge_def new_edge_ok_def ex_em_def total_def zero_ok)
  have seed: "0 < seedEdgeCount (smartLayoutConf (emConf (ex_em ex_conf)))"
    by (simp add: ex_em_def ex_conf_def Conf_def SmartLayoutConf_def)
  let ?blk = "\<lambda>b h. Inr (b # h)" and ?ue = "UEdge 3 4 0" and ?d = "Some (8, ex_data)"
  from addEdge_lists [OF ex_em_inv ok, of ?d ?blk "[]"] obtain em3 where
    max: "maxSize em3 = maxSize (ex_em ex_conf)" "emSize em3 = emSize (ex_em ex_conf) + 2"
    and add: "em_addEdge ?blk ?ue ?d (ex_em ex_conf, []) =
      (if maxSize em3 < emSize em3 then writeBlock ?blk (em3, []) else Inr (em3, []))" by blast
  have "\<not> maxSize em3 < emSize em3"
    by (simp add: max ex_em_def ex_conf_def Conf_def expiration_size_def word_less_nat_alt)
  with add have run: "em_addEdge ?blk ?ue ?d (ex_em ex_conf, []) = Inr (em3, [])" by simp
  from em_addEdge_conserves [OF ex_em_inv ok seed run] obtain bs where
    bs: "length bs \<le> 1" "for_each ?blk bs [] = Inr []"
    and k: "\<And>v. written bs v @ keys_at (neigLists em3) v = keys_at (neigLists (ex_em ex_conf)) v @ ends ?ue ?d v" by blast
  have "bs = []" using bs by (cases bs; cases "tl bs") auto
  then show ?thesis using run k [of 3] k [of 1]
    by (simp add: written_def ends_def UEdge_def ex_em_def keys_at_def ekey_def)
qed

lemma ex_can_progress: "can_progress (ex_em ex_conf)"
  by (auto simp: can_progress_def ex_em_def ex_conf_def Conf_def SmartLayoutConf_def fits_def edge_fits_def ex_data_ok ex_data_size
      split: if_splits)



end
