(* ===== verification/MetaData.thy ===== *)
theory MetaData
  imports SchemaData
begin

text \<open>
  Attribute size statistics (\<^verbatim>\<open>SchemaStats.h\<close>) and the meta data file (\<^verbatim>\<open>MetaDataManager.h\<close>,
  \<^verbatim>\<open>MetaManager.cpp\<close>). The file system is a map from paths to contents, with a list of the paths that
  cannot be opened. The manager stores the next block id and the statistics of every attribute in one
  file and reads them back when it is constructed; the property of the theory is this round trip.
\<close>

section \<open>Statistics\<close>

type_synonym schemaStats = "(32 word, 32 word \<times> double) umap"

fun decimal :: "nat \<Rightarrow> string" where
  "decimal n = (if n < 10 then [char_of (48 + n)] else decimal (n div 10) @ [char_of (48 + n mod 10)])"

declare decimal.simps [simp del]

definition stats_getAvgSize :: "32 word \<Rightarrow> schemaStats \<Rightarrow> double result" where
  "stats_getAvgSize i st =
     (case um_find st i of
        None \<Rightarrow> Inl (RuntimeError (''SchemaStats index '' @ decimal (unat i) @ '' not found.''))
      | Some cb \<Rightarrow> Inr (if fst cb = 0 then 0 else ddiv (snd cb) (dof_nat (unat (fst cb)))))"

definition incrCountAndBytes :: "32 word \<Rightarrow> double \<Rightarrow> schemaStats \<Rightarrow> schemaStats" where
  "incrCountAndBytes i bytes st =
     (case um_find st i of
        None \<Rightarrow> um_put i (1, bytes) st
      | Some cb \<Rightarrow> um_put i (fst cb + 1, dadd (snd cb) bytes) st)"

section \<open>The meta data file\<close>

record fileSystem =
  contents :: "(string, byte list) umap"
  denied :: "string list"

record metaDataManager =
  mdStorageDir :: string
  mdNextBlockId :: blockId
  schemaStats :: schemaStats

definition stats_path :: "string \<Rightarrow> string" where
  "stats_path dir = dir @ ''/'' @ ''schemastats_data''"

definition add_stat :: "32 word \<times> 32 word \<times> double \<Rightarrow> nbuf \<Rightarrow> nbuf result" where
  "add_stat e nb =
     rbind (addUInt32 (fst e) nb) (\<lambda>nb1. rbind (addUInt32 (fst (snd e)) nb1) (addDouble (snd (snd e))))"

definition addSchemaStats :: "schemaStats \<Rightarrow> nbuf \<Rightarrow> nbuf result" where
  "addSchemaStats st nb = rbind (addUInt32 (word_of_nat (length st)) nb) (for_each add_stat st)"

fun read_stats :: "nat \<Rightarrow> schemaStats \<Rightarrow> nbuf \<Rightarrow> (schemaStats \<times> nbuf) result" where
  "read_stats 0 st nb = Inr (st, nb)"
| "read_stats (Suc n) st nb =
     rbind (getUInt32 nb) (\<lambda>(i, nb1).
     rbind (getUInt32 nb1) (\<lambda>(c, nb2).
     rbind (getDouble nb2) (\<lambda>(b, nb3). read_stats n (um_put i (c, b) st) nb3)))"

definition getSchemaStats :: "schemaStats \<Rightarrow> nbuf \<Rightarrow> (schemaStats \<times> nbuf) result" where
  "getSchemaStats st nb = rbind (getUInt32 nb) (\<lambda>(n, nb1). read_stats (unat n) st nb1)"

definition md_store :: "metaDataManager \<Rightarrow> fileSystem \<Rightarrow> fileSystem result" where
  "md_store m fs =
     rbind (addUInt64 (mdNextBlockId m) NetworkByteBuffer) (\<lambda>nb.
     rbind (addSchemaStats (schemaStats m) nb) (\<lambda>nb1.
     let path = stats_path (mdStorageDir m)
     in if path \<in> set (denied fs) then Inl (RuntimeError (''Could not open file: '' @ path))
        else rbind (mem_range (buf nb1) 0 (icursor nb1)) (\<lambda>bs.
               Inr (fs\<lparr>contents := um_put path bs (contents fs)\<rparr>))))"

definition md_load :: "fileSystem \<Rightarrow> metaDataManager \<Rightarrow> metaDataManager result" where
  "md_load fs m =
     (let path = stats_path (mdStorageDir m)
      in case um_find (contents fs) path of
           None \<Rightarrow> Inr m
         | Some bs \<Rightarrow>
             if path \<in> set (denied fs) then Inl (RuntimeError (''Could not open file: '' @ path))
             else let nb = NetworkByteBuffer_sized (length bs)
                  in rbind (memcpy (buf nb) 0 bs) (\<lambda>b.
                     rbind (getUInt64 (nb\<lparr>buf := b\<rparr>)) (\<lambda>(i, nb1).
                     rbind (getSchemaStats (schemaStats m) nb1) (\<lambda>(st, nb2).
                       Inr (m\<lparr>mdNextBlockId := i, schemaStats := st\<rparr>)))))"

definition MetaDataManager :: "string \<Rightarrow> fileSystem \<Rightarrow> metaDataManager result" where
  "MetaDataManager dir fs = md_load fs \<lparr>mdStorageDir = dir, mdNextBlockId = 0, schemaStats = []\<rparr>"

section \<open>What the file holds\<close>

definition stat_enc :: "32 word \<times> 32 word \<times> double \<Rightarrow> byte list" where
  "stat_enc e = net_word 4 (fst e) @ net_word 4 (fst (snd e)) @ net_word 8 (snd (snd e))"

definition stats_enc :: "schemaStats \<Rightarrow> byte list" where
  "stats_enc st = net_word 4 (word_of_nat (length st) :: 32 word) @ concat (map stat_enc st)"

lemma add_stat_appends: "appends (add_stat e) (stat_enc e)"
proof -
  have "add_stat e = (\<lambda>nb. rbind (addUInt32 (fst e) nb) (\<lambda>nb1. rbind (addUInt32 (fst (snd e)) nb1) (addDouble (snd (snd e)))))"
    by (simp add: add_stat_def fun_eq_iff)
  then show ?thesis unfolding stat_enc_def
    by (simp add: appends_seq c_uint32.add_appends c_double.add_appends)
qed

lemma addSchemaStats_appends: "appends (addSchemaStats st) (stats_enc st)"
  unfolding addSchemaStats_def [abs_def] stats_enc_def
  by (intro appends_seq c_uint32.add_appends appends_for_each add_stat_appends) simp

lemma read_stats_consumes:
  "consumes (read_stats (length es) st) (concat (map stat_enc es)) (fold (\<lambda>(k, v). um_put k v) es st)"
proof (induction es arbitrary: st)
  case Nil
  then show ?case by (simp add: consumes_def)
next
  case (Cons e es)
  obtain i c b where e: "e = (i, c, b)" by (cases e)
  have one: "consumes (\<lambda>nb. rbind (getUInt32 nb) (\<lambda>(i, nb1). rbind (getUInt32 nb1) (\<lambda>(c, nb2).
      rbind (getDouble nb2) (\<lambda>(b, nb3). read_stats (length es) (um_put i (c, b) st) nb3))))
     (net_word 4 i @ net_word 4 c @ net_word 8 b @ concat (map stat_enc es))
     (fold (\<lambda>(k, v). um_put k v) es (um_put i (c, b) st))"
  proof -
    have d: "consumes (\<lambda>nb2. rbind (getDouble nb2) (\<lambda>(b, nb3). read_stats (length es) (um_put i (c, b) st) nb3))
        (net_word 8 b @ concat (map stat_enc es)) (fold (\<lambda>(k, v). um_put k v) es (um_put i (c, b) st))"
      by (rule consumes_seq [where h = "\<lambda>b. read_stats (length es) (um_put i (c, b) st)", OF c_double.get_consumes [OF TrueI] Cons.IH])
    have "consumes (\<lambda>nb1. rbind (getUInt32 nb1) (\<lambda>(c, nb2). rbind (getDouble nb2) (\<lambda>(b, nb3). read_stats (length es) (um_put i (c, b) st) nb3)))
        (net_word 4 c @ net_word 8 b @ concat (map stat_enc es)) (fold (\<lambda>(k, v). um_put k v) es (um_put i (c, b) st))"
      by (rule consumes_seq [where v = c and h = "\<lambda>c nb2. rbind (getDouble nb2) (\<lambda>(b, nb3). read_stats (length es) (um_put i (c, b) st) nb3)"])
        (simp_all add: c_uint32.get_consumes d)
    then show ?thesis
      by (intro consumes_seq [where v = i and h = "\<lambda>i nb1. rbind (getUInt32 nb1) (\<lambda>(c, nb2). rbind (getDouble nb2) (\<lambda>(b, nb3). read_stats (length es) (um_put i (c, b) st) nb3))"])
        (simp_all add: c_uint32.get_consumes)
  qed
  have "read_stats (length (e # es)) st = (\<lambda>nb. rbind (getUInt32 nb) (\<lambda>(i, nb1). rbind (getUInt32 nb1) (\<lambda>(c, nb2).
      rbind (getDouble nb2) (\<lambda>(b, nb3). read_stats (length es) (um_put i (c, b) st) nb3))))"
    by (simp add: fun_eq_iff)
  moreover have "concat (map stat_enc (e # es)) = net_word 4 i @ net_word 4 c @ net_word 8 b @ concat (map stat_enc es)"
    by (simp add: e stat_enc_def [of "(i, c, b)"])
  moreover have "fold (\<lambda>(k, v). um_put k v) (e # es) st = fold (\<lambda>(k, v). um_put k v) es (um_put i (c, b) st)" by (simp add: e)
  ultimately show ?case using one by simp
qed

lemma fold_um_put_empty: "um_ok es \<Longrightarrow> fold (\<lambda>(k, v). um_put k v) es [] = es"
proof -
  have "um_ok (pre @ es) \<Longrightarrow> fold (\<lambda>(k, v). um_put k v) es pre = pre @ es" for pre
    by (induction es arbitrary: pre) (auto simp: um_put_new)
  from this [of "[]"] show "um_ok es \<Longrightarrow> ?thesis" by simp
qed

lemma getSchemaStats_consumes:
  "um_ok st \<Longrightarrow> length st < 2 ^ 32 \<Longrightarrow> consumes (getSchemaStats []) (stats_enc st) st"
proof -
  assume a: "um_ok st" "length st < 2 ^ 32"
  let ?n = "word_of_nat (length st) :: 32 word"
  have "unat ?n = length st" using a(2) by (simp add: unat_of_nat)
  then have "consumes (read_stats (unat ?n) []) (concat (map stat_enc st)) st"
    using read_stats_consumes [of st "[]"] fold_um_put_empty [OF a(1)] by simp
  with c_uint32.get_consumes [of ?n] show ?thesis
    unfolding getSchemaStats_def [abs_def] stats_enc_def by (intro consumes_seq) simp_all
qed

definition meta_enc :: "metaDataManager \<Rightarrow> byte list" where
  "meta_enc m = net_word 8 (mdNextBlockId m) @ stats_enc (schemaStats m)"

lemma length_stats_enc: "length (stats_enc st) = 4 + 16 * length st"
  by (simp add: stats_enc_def length_concat comp_def stat_enc_def sum_list_triv)

lemma md_store_result:
  assumes "12 + 16 * length (schemaStats m) \<le> 2 ^ 32" and "stats_path (mdStorageDir m) \<notin> set (denied fs)"
  shows "md_store m fs = Inr (fs\<lparr>contents := um_put (stats_path (mdStorageDir m)) (meta_enc m) (contents fs)\<rparr>)"
proof -
  have "appends (\<lambda>nb. rbind (addUInt64 (mdNextBlockId m) nb) (addSchemaStats (schemaStats m))) (meta_enc m)"
    unfolding meta_enc_def by (intro appends_seq c_uint64.add_appends addSchemaStats_appends) simp
  moreover have "length (meta_enc m) \<le> 2 ^ 32" using assms(1) by (simp add: meta_enc_def length_stats_enc)
  ultimately obtain nb where nb: "rbind (addUInt64 (mdNextBlockId m) NetworkByteBuffer) (addSchemaStats (schemaStats m)) = Inr nb"
    "nb_ok nb" "content nb = meta_enc m"
    using appends_eqD [of "\<lambda>nb. rbind (addUInt64 (mdNextBlockId m) nb) (addSchemaStats (schemaStats m))" "meta_enc m" NetworkByteBuffer]
    by (auto simp: nb_ok_def NetworkByteBuffer_def NetworkByteBuffer_sized_def DEFAULT_SIZE_def content_def)
  then have "md_store m fs = rbind (Inr nb) (\<lambda>nb1. rbind (mem_range (buf nb1) 0 (icursor nb1)) (\<lambda>bs.
      Inr (fs\<lparr>contents := um_put (stats_path (mdStorageDir m)) bs (contents fs)\<rparr>)))"
    using assms(2) by (simp add: md_store_def Let_def rbind_assoc [symmetric])
  moreover have "mem_range (buf nb) 0 (icursor nb) = Inr (meta_enc m)"
    using nb(2,3) by (simp add: mem_range_def content_def nb_ok_def)
  ultimately show ?thesis by simp
qed

lemma md_load_result:
  assumes "um_find (contents fs) (stats_path (mdStorageDir m0)) = Some (meta_enc m)" and "stats_path (mdStorageDir m0) \<notin> set (denied fs)"
    and "um_ok (schemaStats m)" and "length (schemaStats m) < 2 ^ 32" and "schemaStats m0 = []"
  shows "md_load fs m0 = Inr (m0\<lparr>mdNextBlockId := mdNextBlockId m, schemaStats := schemaStats m\<rparr>)"
proof -
  define nb where "nb = NetworkByteBuffer_sized (length (meta_enc m))\<lparr>buf := meta_enc m\<rparr>"
  have "consumes (\<lambda>nb. rbind (getUInt64 nb) (\<lambda>(i, nb1). rbind (getSchemaStats [] nb1) (\<lambda>(st, nb2). Inr ((i, st), nb2))))
      (meta_enc m) (mdNextBlockId m, schemaStats m)"
    unfolding meta_enc_def
    by (rule consumes_seq [where v = "mdNextBlockId m" and h = "\<lambda>i nb1. rbind (getSchemaStats [] nb1) (\<lambda>(st, nb2). Inr ((i, st), nb2))"])
      (simp add: c_uint64.get_consumes, intro consumes_map getSchemaStats_consumes assms(3,4))
  then have "rbind (getUInt64 nb) (\<lambda>(i, nb1). rbind (getSchemaStats [] nb1) (\<lambda>(st, nb2). Inr ((i, st), nb2))) =
      Inr ((mdNextBlockId m, schemaStats m), nb\<lparr>ocursor := length (meta_enc m)\<rparr>)"
    unfolding consumes_def by (simp add: nb_def NetworkByteBuffer_sized_def)
  then have read: "rbind (getUInt64 nb) (\<lambda>(i, nb1). rbind (getSchemaStats [] nb1) (\<lambda>(st, nb2).
      Inr (m0\<lparr>mdNextBlockId := i, schemaStats := st\<rparr>))) = Inr (m0\<lparr>mdNextBlockId := mdNextBlockId m, schemaStats := schemaStats m\<rparr>)"
    by (auto simp: rbind_Inr_iff)
  have len: "length (buf (NetworkByteBuffer_sized n)) = n" for n by (simp add: NetworkByteBuffer_sized_def alloc_def)
  have "memcpy (buf (NetworkByteBuffer_sized (length (meta_enc m)))) 0 (meta_enc m) = Inr (meta_enc m)"
    by (simp add: memcpy_def len)
  then show ?thesis using assms(1,2,5) read by (simp add: md_load_def Let_def nb_def)
qed

text \<open>C28: the meta data survive a restart. What \<open>store\<close> writes, a manager constructed on the same directory
  reads back: the next block id and the statistics of every attribute. The directory's file is the only
  one touched.\<close>

theorem meta_store_load:
  assumes "um_ok (schemaStats m)" and "12 + 16 * length (schemaStats m) \<le> 2 ^ 32"
    and "stats_path (mdStorageDir m) \<notin> set (denied fs)"
  shows "\<exists>fs'. md_store m fs = Inr fs' \<and> MetaDataManager (mdStorageDir m) fs' = Inr m
    \<and> (\<forall>p. p \<noteq> stats_path (mdStorageDir m) \<longrightarrow> um_find (contents fs') p = um_find (contents fs) p)"
proof -
  let ?fs = "fs\<lparr>contents := um_put (stats_path (mdStorageDir m)) (meta_enc m) (contents fs)\<rparr>"
  have "md_store m fs = Inr ?fs" using assms(2,3) by (rule md_store_result)
  moreover have "length (schemaStats m) < 2 ^ 32" using assms(2) by simp
  then have "MetaDataManager (mdStorageDir m) ?fs = Inr m"
    using md_load_result [of ?fs "\<lparr>mdStorageDir = mdStorageDir m, mdNextBlockId = 0, schemaStats = []\<rparr>" m] assms(1,3)
    by (simp add: MetaDataManager_def)
  ultimately show ?thesis by simp
qed

theorem meta_store_load_witness:
  "\<exists>fs'. md_store \<lparr>mdStorageDir = ''/db'', mdNextBlockId = 7, schemaStats = [(0, 3, 24), (1, 3, 60)]\<rparr> \<lparr>contents = [], denied = []\<rparr> = Inr fs'
    \<and> MetaDataManager ''/db'' fs' = Inr \<lparr>mdStorageDir = ''/db'', mdNextBlockId = 7, schemaStats = [(0, 3, 24), (1, 3, 60)]\<rparr>"
  using meta_store_load [of "\<lparr>mdStorageDir = ''/db'', mdNextBlockId = 7, schemaStats = [(0, 3, 24), (1, 3, 60)]\<rparr>" "\<lparr>contents = [], denied = []\<rparr>"]
  by simp blast

end
