(* ===== verification/InMemory.thy ===== *)
theory InMemory
  imports Expiration MetaData
begin

text \<open>
  The in-memory graph (\<^verbatim>\<open>InMemoryGraph.h/.cpp\<close>): the window of the most recent edges with the neighbour
  lists they form, in front of the expiration map. An edge that leaves the window is taken from the two
  lists of its endpoints, where it is the oldest, and handed to the expiration map. The reference
  \<^verbatim>\<open>stats_\<close> into the meta data is the second component of the state that the operations pass along;
  the third is the state of the historical graph.
\<close>

section \<open>Operations\<close>

record inMemoryGraph =
  vfifo :: "uEdge edgeFIFO"
  expm :: expirationMap
  mgLists :: "(vertexId, neighborList) umap"

type_synonym 'h mgState = "inMemoryGraph \<times> schemaStats \<times> 'h"

definition InMemoryGraph :: "(nat \<Rightarrow> nat) \<Rightarrow> conf \<Rightarrow> inMemoryGraph result" where
  "InMemoryGraph rnd c =
     rbind (ExpirationMap rnd c) (\<lambda>em.
       Inr \<lparr>vfifo = EdgeFIFO (unat (confWindowSize c)), expm = em, mgLists = []\<rparr>)"

definition mg_push :: "vertexId \<Rightarrow> edge \<Rightarrow> (vertexId, neighborList) umap \<Rightarrow> (vertexId, neighborList) umap" where
  "mg_push v e m =
     (let nlist = (case um_find m v of Some nl \<Rightarrow> nl | None \<Rightarrow> \<lparr>headVertex = 0, edges = []\<rparr>)
      in um_put v (nl_addEdge e (nlist\<lparr>headVertex := v\<rparr>)) m)"

text \<open>One endpoint of \<open>removeEdge\<close>; the data pointer is that of the edge removed.\<close>

definition mg_pop ::
  "vertexId \<Rightarrow> vertexId \<Rightarrow> timestamp \<Rightarrow> (vertexId, neighborList) umap
     \<Rightarrow> (attributeData shared_ptr \<times> (vertexId, neighborList) umap) result" where
  "mg_pop v u t m =
     (let nlist = (case um_find m v of Some nl \<Rightarrow> nl | None \<Rightarrow> \<lparr>headVertex = 0, edges = []\<rparr>)
      in rbind (getOldestEdge nlist) (\<lambda>e.
         rbind (assert_that (toVertex e = u)) (\<lambda>_.
         rbind (assert_that (deq (tm e) t)) (\<lambda>_.
         let nlist1 = removeOldestEdge nlist
         in Inr (edata e, if edges nlist1 = [] then um_erase v m else um_put v nlist1 m)))))"

definition mg_removeEdge :: "uEdge \<Rightarrow> inMemoryGraph \<Rightarrow> (attributeData shared_ptr \<times> inMemoryGraph) result" where
  "mg_removeEdge ue mg =
     rbind (mg_pop (firstVertex ue) (secondVertex ue) (utm ue) (mgLists mg)) (\<lambda>(data, m1).
     rbind (mg_pop (secondVertex ue) (firstVertex ue) (utm ue) m1) (\<lambda>(data2, m2).
       Inr (data, mg\<lparr>mgLists := m2\<rparr>)))"

text \<open>The common body of the loops of \<open>addEdge\<close> and \<open>flush\<close>.\<close>

definition expire_oldest :: "(block \<Rightarrow> 'h \<Rightarrow> 'h result) \<Rightarrow> inMemoryGraph \<times> 'h \<Rightarrow> (inMemoryGraph \<times> 'h) result" where
  "expire_oldest addBlk st =
     rbind (fifo_getOldestEdge (vfifo (fst st))) (\<lambda>oldEdge.
     rbind (mg_removeEdge oldEdge (fst st)) (\<lambda>(data, mg1).
     rbind (em_addEdge addBlk oldEdge data (expm mg1, snd st)) (\<lambda>(em, h).
     rbind (popOldestEdge (vfifo mg1)) (\<lambda>f.
       Inr (mg1\<lparr>vfifo := f, expm := em\<rparr>, h)))))"

lemma mg_removeEdge_lists: "mg_removeEdge ue mg = Inr (d, mg1) \<Longrightarrow> \<exists>m. mg1 = mg\<lparr>mgLists := m\<rparr>"
  by (auto simp: mg_removeEdge_def rbind_Inr_iff)

lemma expire_oldest_Inr:
  assumes "expire_oldest addBlk st = Inr st'"
  shows "\<exists>ue rest data m em h. fifoEdges (vfifo (fst st)) = ue # rest \<and> mg_removeEdge ue (fst st) = Inr (data, (fst st)\<lparr>mgLists := m\<rparr>)
    \<and> em_addEdge addBlk ue data (expm (fst st), snd st) = Inr (em, h)
    \<and> st' = ((fst st)\<lparr>mgLists := m, vfifo := (vfifo (fst st))\<lparr>fifoEdges := rest\<rparr>, expm := em\<rparr>, h)"
proof -
  from assms obtain ue where ue: "fifo_getOldestEdge (vfifo (fst st)) = Inr ue"
    by (auto simp: expire_oldest_def rbind_Inr_iff)
  then obtain rest where rest: "fifoEdges (vfifo (fst st)) = ue # rest" by (auto simp: fifo_getOldestEdge_def split: list.splits)
  from assms ue obtain data mg1 where rem: "mg_removeEdge ue (fst st) = Inr (data, mg1)"
    by (auto simp: expire_oldest_def rbind_Inr_iff)
  from mg_removeEdge_lists [OF rem] obtain m where m: "mg1 = (fst st)\<lparr>mgLists := m\<rparr>" ..
  from assms ue rem m rest obtain em h where "em_addEdge addBlk ue data (expm (fst st), snd st) = Inr (em, h)"
    "st' = ((fst st)\<lparr>mgLists := m, vfifo := (vfifo (fst st))\<lparr>fifoEdges := rest\<rparr>, expm := em\<rparr>, h)"
    by (auto simp: expire_oldest_def rbind_Inr_iff popOldestEdge_def)
  then show ?thesis using rest rem m by blast
qed

lemma expire_oldest_shorter:
  "expire_oldest addBlk st = Inr st' \<Longrightarrow>
    length (fifoEdges (vfifo (fst st'))) < length (fifoEdges (vfifo (fst st))) \<and> windowSize (vfifo (fst st')) = windowSize (vfifo (fst st))"
  by (drule expire_oldest_Inr) auto

function expire_loop :: "(block \<Rightarrow> 'h \<Rightarrow> 'h result) \<Rightarrow> inMemoryGraph \<times> 'h \<Rightarrow> (inMemoryGraph \<times> 'h) result" where
  "expire_loop addBlk st =
     (if hasExpiredEdges (vfifo (fst st)) then rbind (expire_oldest addBlk st) (expire_loop addBlk) else Inr st)"
  by pat_completeness auto

termination expire_loop
  by (relation "measure (\<lambda>(a, st). length (fifoEdges (vfifo (fst st))))") (auto dest: expire_oldest_shorter)

function drain_loop :: "(block \<Rightarrow> 'h \<Rightarrow> 'h result) \<Rightarrow> inMemoryGraph \<times> 'h \<Rightarrow> (inMemoryGraph \<times> 'h) result" where
  "drain_loop addBlk st =
     (if \<not> fifo_isEmpty (vfifo (fst st)) then rbind (expire_oldest addBlk st) (drain_loop addBlk) else Inr st)"
  by pat_completeness auto

termination drain_loop
  by (relation "measure (\<lambda>(a, st). length (fifoEdges (vfifo (fst st))))") (auto dest: expire_oldest_shorter)

declare expire_loop.simps [simp del] drain_loop.simps [simp del]

definition count_fields :: "attributeData \<Rightarrow> schemaStats \<Rightarrow> schemaStats result" where
  "count_fields d st =
     for_each (\<lambda>f s. rbind (getFieldSize d (fst f)) (\<lambda>n. Inr (incrCountAndBytes (word_of_nat (fst f)) (dof_nat n) s))) (fieldsOf d) st"

definition mg_addEdge ::
  "(block \<Rightarrow> 'h \<Rightarrow> 'h result) \<Rightarrow> vertexId \<Rightarrow> vertexId \<Rightarrow> timestamp \<Rightarrow> attributeData shared_ptr \<Rightarrow> 'h mgState \<Rightarrow> 'h mgState result" where
  "mg_addEdge addBlk v u ts data s =
     (case s of (mg, st, h) \<Rightarrow>
       let m1 = mg_push v \<lparr>toVertex = u, tm = ts, edata = data\<rparr> (mgLists mg);
           m2 = mg_push u \<lparr>toVertex = v, tm = ts, edata = data\<rparr> m1;
           mg1 = mg\<lparr>mgLists := m2, vfifo := fifo_addEdge (UEdge v u ts) (vfifo mg)\<rparr>
       in rbind (expire_loop addBlk (mg1, h)) (\<lambda>(mg2, h2).
          rbind (deref data) (\<lambda>p.
          rbind (count_fields (snd p) st) (\<lambda>st1. Inr (mg2, st1, h2)))))"

definition mg_flush :: "(block \<Rightarrow> 'h \<Rightarrow> 'h result) \<Rightarrow> 'h mgState \<Rightarrow> 'h mgState result option" where
  "mg_flush addBlk s =
     (case s of (mg, st, h) \<Rightarrow>
       case drain_loop addBlk (mg, h) of
         Inl err \<Rightarrow> Some (Inl err)
       | Inr (mg1, h1) \<Rightarrow>
           (case flush addBlk (expm mg1, h1) of
              None \<Rightarrow> None
            | Some (Inl err) \<Rightarrow> Some (Inl err)
            | Some (Inr (em, h2)) \<Rightarrow> Some (Inr (mg1\<lparr>expm := em\<rparr>, st, h2))))"

section \<open>The window and its lists\<close>

definition tt :: "edge \<Rightarrow> vertexId \<times> timestamp" where
  "tt e = (toVertex e, tm e)"

definition touch_at :: "vertexId \<Rightarrow> uEdge \<Rightarrow> (vertexId \<times> timestamp) list" where
  "touch_at v ue =
     (if v = firstVertex ue then [(secondVertex ue, utm ue)]
      else if v = secondVertex ue then [(firstVertex ue, utm ue)] else [])"

definition window_at :: "vertexId \<Rightarrow> uEdge list \<Rightarrow> (vertexId \<times> timestamp) list" where
  "window_at v es = concat (map (touch_at v) es)"

text \<open>Every edge of the expiration map is older than the given time.\<close>

definition older :: "timestamp \<Rightarrow> expirationMap \<Rightarrow> bool" where
  "older t em \<longleftrightarrow> (\<forall>v. \<forall>k \<in> set (keys_at (neigLists em) v). dlt (fst (snd k)) t)"

definition uedge_ok :: "uEdge \<Rightarrow> bool" where
  "uedge_ok ue \<longleftrightarrow> firstVertex ue \<noteq> secondVertex ue \<and> \<not> is_nan (utm ue)"

definition mg_inv :: "inMemoryGraph \<Rightarrow> bool" where
  "mg_inv mg \<longleftrightarrow> em_inv (expm mg) \<and> heads_ok (mgLists mg)
     \<and> (\<forall>v. map tt (list_at v (mgLists mg)) = window_at v (fifoEdges (vfifo mg)))
     \<and> sorted_wrt (\<lambda>a b. dlt (utm a) (utm b)) (fifoEdges (vfifo mg))
     \<and> (\<forall>ue \<in> set (fifoEdges (vfifo mg)). uedge_ok ue \<and> older (utm ue) (expm mg))
     \<and> 0 < seedEdgeCount (smartLayoutConf (emConf (expm mg)))"

text \<open>Every edge in memory fits into a block.\<close>

definition mg_fits :: "inMemoryGraph \<Rightarrow> bool" where
  "mg_fits mg \<longleftrightarrow> fits (emConf (expm mg)) (neigLists (expm mg)) \<and> fits (emConf (expm mg)) (mgLists mg)"

text \<open>Every edge in memory has the record of its time.\<close>

definition mg_carries :: "inMemoryGraph \<Rightarrow> (timestamp \<rightharpoonup> attributeData shared_ptr) \<Rightarrow> bool" where
  "mg_carries mg D \<longleftrightarrow> carries D (neigLists (expm mg)) \<and> carries D (mgLists mg)"

definition load :: "inMemoryGraph \<Rightarrow> nat" where
  "load mg = total (neigLists (expm mg)) + 2 * length (fifoEdges (vfifo mg))"

lemma list_at_put: "list_at w (um_put v nl m) = (if w = v then edges nl else list_at w m)"
  by (simp add: list_at_def)

lemma list_at_erase: "list_at w (um_erase v m) = (if w = v then [] else list_at w m)"
  by (simp add: list_at_def)

lemma keys_list_at: "keys_at m v = map ekey (list_at v m)"
  by (simp add: keys_at_def list_at_def split: option.splits)

lemma mg_push_ok:
  assumes "heads_ok m"
  shows "heads_ok (mg_push v e m)" and "list_at w (mg_push v e m) = (if w = v then list_at v m @ [e] else list_at w m)"
  using assms by (auto simp: mg_push_def Let_def nl_addEdge_def list_at_def intro!: heads_ok_put split: option.splits)

lemma mg_pop_result:
  assumes "heads_ok m" and "map tt (list_at v m) = (u, t) # rest" and "\<not> is_nan t"
  shows "\<exists>d m'. mg_pop v u t m = Inr (d, m') \<and> heads_ok m' \<and> map tt (list_at v m') = rest \<and> (\<forall>w. w \<noteq> v \<longrightarrow> list_at w m' = list_at w m)
    \<and> (\<forall>c. fits c m \<longrightarrow> fits c m' \<and> edge_fits c \<lparr>toVertex = 0, tm = 0, edata = d\<rparr>)
    \<and> (\<forall>D. carries D m \<longrightarrow> carries D m' \<and> D t = Some d)"
proof -
  from assms(2) obtain nl where nl: "um_find m v = Some nl" by (auto simp: list_at_def split: option.splits)
  from assms(2) nl obtain e es where e: "edges nl = e # es" "tt e = (u, t)" "map tt es = rest"
    by (auto simp: list_at_def)
  have hd: "headVertex nl = v" using heads_ok_find [OF assms(1) nl] by simp
  let ?m = "if es = [] then um_erase v m else um_put v (nl\<lparr>edges := es\<rparr>) m"
  have "mg_pop v u t m = Inr (edata e, ?m)"
    using nl e assms(3) by (simp add: mg_pop_def getOldestEdge_def removeOldestEdge_def tt_def)
  moreover have "heads_ok ?m" using assms(1) hd by (simp add: heads_ok_erase heads_ok_put)
  moreover have "map tt (list_at v ?m) = rest" using e by (auto simp: list_at_put list_at_erase)
  moreover have "\<forall>w. w \<noteq> v \<longrightarrow> list_at w ?m = list_at w m" by (simp add: list_at_put list_at_erase)
  moreover have rem: "remains m ?m" using nl e(1) by (auto simp: remains_def)
  have "fits c ?m \<and> edge_fits c \<lparr>toVertex = 0, tm = 0, edata = edata e\<rparr>" if "fits c m" for c
  proof -
    have es: "\<forall>x \<in> set (e # es). edge_fits c x" using that nl e(1) unfolding fits_def by metis
    then show ?thesis using fits_remains [OF that rem] by (auto simp: edge_fits_def)
  qed
  moreover have "carries D ?m \<and> D t = Some (edata e)" if "carries D m" for D
  proof -
    have "D (tm e) = Some (edata e)" using that nl e(1) unfolding carries_def by (metis list.set_intros(1))
    then show ?thesis using carries_remains [OF that rem] e(2) by (simp add: tt_def)
  qed
  ultimately show ?thesis by blast
qed

lemma mg_removeEdge_result:
  assumes "heads_ok (mgLists mg)" and "uedge_ok ue"
    and "\<And>v. map tt (list_at v (mgLists mg)) = window_at v (ue # rest)"
  shows "\<exists>d m. mg_removeEdge ue mg = Inr (d, mg\<lparr>mgLists := m\<rparr>) \<and> heads_ok m \<and> (\<forall>v. map tt (list_at v m) = window_at v rest)
    \<and> (\<forall>c. fits c (mgLists mg) \<longrightarrow> fits c m \<and> edge_fits c \<lparr>toVertex = 0, tm = 0, edata = d\<rparr>)
    \<and> (\<forall>D. carries D (mgLists mg) \<longrightarrow> carries D m \<and> D (utm ue) = Some d)"
proof -
  let ?u = "firstVertex ue" and ?w = "secondVertex ue"
  have ne: "?u \<noteq> ?w" "?w \<noteq> ?u" "\<not> is_nan (utm ue)" using assms(2) by (auto simp: uedge_ok_def)
  have "map tt (list_at ?u (mgLists mg)) = (?w, utm ue) # window_at ?u rest"
    using assms(3) [of ?u] by (simp add: window_at_def touch_at_def)
  from mg_pop_result [OF assms(1) this ne(3)] obtain d m1 where
    p1: "mg_pop ?u ?w (utm ue) (mgLists mg) = Inr (d, m1)" "heads_ok m1" "map tt (list_at ?u m1) = window_at ?u rest"
      "\<And>v. v \<noteq> ?u \<Longrightarrow> list_at v m1 = list_at v (mgLists mg)"
    and f1: "\<And>c. fits c (mgLists mg) \<Longrightarrow> fits c m1 \<and> edge_fits c \<lparr>toVertex = 0, tm = 0, edata = d\<rparr>"
    and c1: "\<And>D. carries D (mgLists mg) \<Longrightarrow> carries D m1 \<and> D (utm ue) = Some d" by blast
  have "map tt (list_at ?w m1) = (?u, utm ue) # window_at ?w rest"
    using assms(3) [of ?w] p1(4) [OF ne(2)] ne by (simp add: window_at_def touch_at_def)
  from mg_pop_result [OF p1(2) this ne(3)] obtain d2 m2 where
    p2: "mg_pop ?w ?u (utm ue) m1 = Inr (d2, m2)" "heads_ok m2" "map tt (list_at ?w m2) = window_at ?w rest"
      "\<And>v. v \<noteq> ?w \<Longrightarrow> list_at v m2 = list_at v m1" and f2: "\<And>c. fits c m1 \<Longrightarrow> fits c m2"
    and c2: "\<And>D. carries D m1 \<Longrightarrow> carries D m2" by blast
  have "map tt (list_at v m2) = window_at v rest" for v
  proof -
    consider "v = ?w" | "v = ?u" | "v \<noteq> ?w" "v \<noteq> ?u" by blast
    then show ?thesis
    proof cases
      case 3
      then show ?thesis using assms(3) [of v] p2(4) p1(4) by (simp add: window_at_def touch_at_def)
    qed (use p1 p2 ne in auto)
  qed
  then show ?thesis using p1(1) p2(1,2) f1 f2 c1 c2 by (auto simp: mg_removeEdge_def)
qed

lemma older_new_ok:
  assumes inv: "em_inv em" and ue: "uedge_ok ue" and old: "older (utm ue) em" and small: "total (neigLists em) + 2 < 2 ^ 64"
  shows "new_ok ue em"
proof -
  have "new_edge_ok (neigLists em) v \<lparr>toVertex = w, tm = utm ue, edata = None\<rparr>" for v w
  proof -
    have "(w, dkey (utm ue)) \<notin> (\<lambda>e. (toVertex e, dkey (tm e))) ` set (edges nl)" if nl: "um_find (neigLists em) v = Some nl" for nl
    proof
      assume "(w, dkey (utm ue)) \<in> (\<lambda>e. (toVertex e, dkey (tm e))) ` set (edges nl)"
      then obtain e where e: "e \<in> set (edges nl)" "dkey (tm e) = dkey (utm ue)" by auto
      then have "ekey e \<in> set (keys_at (neigLists em) v)" using nl by (simp add: keys_at_def)
      then have "dlt (tm e) (utm ue)" using old unfolding older_def by (force simp: ekey_def)
      with e(2) show False by (simp add: dlt_def)
    qed
    then show ?thesis using ue by (simp add: new_edge_ok_def uedge_ok_def)
  qed
  then show ?thesis using ue small by (simp add: new_ok_def uedge_ok_def)
qed

lemma older_after:
  assumes "\<forall>v. written bs v @ keys_at (neigLists em') v = keys_at (neigLists em) v @ ends ue data v"
    and "older t em" and "dlt (utm ue) t"
  shows "older t em'"
  unfolding older_def
proof (intro allI ballI)
  fix v k assume "k \<in> set (keys_at (neigLists em') v)"
  then have "k \<in> set (written bs v @ keys_at (neigLists em') v)" by simp
  then have "k \<in> set (keys_at (neigLists em) v) \<or> k \<in> set (ends ue data v)" unfolding assms(1) [rule_format] by simp
  then show "dlt (fst (snd k)) t" using assms(2,3) by (auto simp: older_def ends_def split: if_splits)
qed

text \<open>Taking the oldest edge out of the window never trips an assertion of its own.\<close>

lemma expire_oldest_result:
  assumes inv: "mg_inv mg" and fifo: "fifoEdges (vfifo mg) = ue # rest" and small: "load mg < 2 ^ 64"
  shows "(\<exists>mg' h' bs d. expire_oldest addBlk (mg, h) = Inr (mg', h') \<and> mg_inv mg' \<and> load mg' \<le> load mg
        \<and> vfifo mg' = (vfifo mg)\<lparr>fifoEdges := rest\<rparr> \<and> for_each addBlk bs h = Inr h' \<and> (mg_fits mg \<longrightarrow> mg_fits mg')
        \<and> emConf (expm mg') = emConf (expm mg) \<and> (\<forall>D. mg_carries mg D \<longrightarrow> mg_carries mg' D) \<and> drawn (mg_carries mg) (mg_fits mg) bs
        \<and> (\<forall>v. written bs v @ keys_at (neigLists (expm mg')) v = keys_at (neigLists (expm mg)) v @ ends ue d v))
    \<or> (\<exists>err em3. expire_oldest addBlk (mg, h) = Inl err \<and> writeBlock addBlk (em3, h) = Inl err)"
proof -
  note I = inv [unfolded mg_inv_def fifo]
  have ue: "uedge_ok ue" and old: "older (utm ue) (expm mg)" using I by auto
  have "\<And>v. map tt (list_at v (mgLists mg)) = window_at v (ue # rest)" using I by simp
  from mg_removeEdge_result [OF _ ue this] I obtain d m where
    rem: "mg_removeEdge ue mg = Inr (d, mg\<lparr>mgLists := m\<rparr>)" "heads_ok m" "\<forall>v. map tt (list_at v m) = window_at v rest"
    and fit: "\<And>c. fits c (mgLists mg) \<Longrightarrow> fits c m \<and> edge_fits c \<lparr>toVertex = 0, tm = 0, edata = d\<rparr>"
    and car: "\<And>D. carries D (mgLists mg) \<Longrightarrow> carries D m \<and> D (utm ue) = Some d" by blast
  have em: "em_inv (expm mg)" "0 < seedEdgeCount (smartLayoutConf (emConf (expm mg)))" using I by simp_all
  have "total (neigLists (expm mg)) + 2 < 2 ^ 64" using small fifo by (simp add: load_def)
  note new = older_new_ok [OF em(1) ue old this]
  have step: "expire_oldest addBlk (mg, h) = rbind (em_addEdge addBlk ue d (expm mg, h)) (\<lambda>(em, h1).
      Inr (mg\<lparr>mgLists := m, vfifo := (vfifo mg)\<lparr>fifoEdges := rest\<rparr>, expm := em\<rparr>, h1))"
    using fifo rem(1) by (simp add: expire_oldest_def fifo_getOldestEdge_def popOldestEdge_def)
  from em_addEdge_full [OF em(1) new em(2), of addBlk d h] show ?thesis
  proof (elim disjE exE conjE, goal_cases)
    case (1 em' h' bs)
    note T = 1(4) [unfolded takes_in_def]
    let ?mg = "mg\<lparr>mgLists := m, vfifo := (vfifo mg)\<lparr>fifoEdges := rest\<rparr>, expm := em'\<rparr>"
    have "older (utm x) em'" if "x \<in> set rest" for x
      using older_after [OF 1(5), of "utm x"] I that by auto
    then have "mg_inv ?mg" using I 1(2) T rem(2,3) by (simp add: mg_inv_def)
    moreover have "load ?mg \<le> load mg" using T fifo by (simp add: load_def)
    moreover have "mg_fits mg \<longrightarrow> mg_fits ?mg" using T fit by (auto simp: mg_fits_def)
    moreover have "\<forall>D. mg_carries mg D \<longrightarrow> mg_carries ?mg D" using T car by (auto simp: mg_carries_def)
    moreover have "drawn (mg_carries mg) (mg_fits mg) bs"
      using T car fit
      by (elim conjE) (erule drawn_mono [of _ "fits _ _ \<and> edge_fits _ _"], auto simp: mg_carries_def mg_fits_def)
    moreover have "emConf em' = emConf (expm mg)" using T by simp
    ultimately show ?case using step 1(1,3,5) by (intro disjI1 exI [of _ ?mg] exI [of _ h'] exI [of _ bs] exI [of _ d]) simp
  next
    case (2 err em3)
    then show ?case using step by auto
  qed
qed

lemma for_each_snoc_blocks: "for_each f xs s = Inr t \<Longrightarrow> for_each f ys t = Inr u \<Longrightarrow> for_each f (xs @ ys) s = Inr u"
  by (simp add: for_each_append)

lemma written_append: "written (bs @ cs) v = written bs v @ written cs v"
  by (simp add: written_def)

definition forget :: "vertexId \<times> timestamp \<times> nat option \<Rightarrow> vertexId \<times> timestamp" where
  "forget k = (fst k, fst (snd k))"

text \<open>All edges of a vertex that the graph has taken: written, waiting, and in the window.\<close>

definition history :: "block list \<Rightarrow> inMemoryGraph \<Rightarrow> vertexId \<Rightarrow> (vertexId \<times> timestamp) list" where
  "history bs mg v = map forget (written bs v @ keys_at (neigLists (expm mg)) v) @ window_at v (fifoEdges (vfifo mg))"

lemma ends_forget: "uedge_ok ue \<Longrightarrow> map forget (ends ue d v) = touch_at v ue"
  by (simp add: ends_def touch_at_def forget_def uedge_ok_def)

text \<open>The outcome of expiring edges: nothing is lost, or writing a block failed.\<close>

definition expired_to :: "(block \<Rightarrow> 'h \<Rightarrow> 'h result) \<Rightarrow> inMemoryGraph \<Rightarrow> 'h \<Rightarrow> (inMemoryGraph \<times> 'h) result \<Rightarrow> bool" where
  "expired_to addBlk mg h r \<longleftrightarrow> (case r of
     Inr st \<Rightarrow> mg_inv (fst st) \<and> load (fst st) \<le> load mg \<and> windowSize (vfifo (fst st)) = windowSize (vfifo mg)
       \<and> (mg_fits mg \<longrightarrow> mg_fits (fst st)) \<and> emConf (expm (fst st)) = emConf (expm mg)
       \<and> (\<forall>D. mg_carries mg D \<longrightarrow> mg_carries (fst st) D)
       \<and> (\<exists>bs. for_each addBlk bs h = Inr (snd st) \<and> (\<forall>v. history bs (fst st) v = history [] mg v)
            \<and> drawn (mg_carries mg) (mg_fits mg) bs)
   | Inl err \<Rightarrow> \<exists>em3 h3. writeBlock addBlk (em3, h3) = Inl err)"

lemma expired_refl: "mg_inv mg \<Longrightarrow> expired_to addBlk mg h (Inr (mg, h))"
  unfolding expired_to_def by (auto intro!: exI [of _ "[]"])

lemma expired_step:
  assumes inv: "mg_inv mg" and "fifoEdges (vfifo mg) \<noteq> []" and "load mg < 2 ^ 64"
  shows "expired_to addBlk mg h (expire_oldest addBlk (mg, h))"
proof -
  from assms(2) obtain ue rest where fifo: "fifoEdges (vfifo mg) = ue # rest" by (cases "fifoEdges (vfifo mg)") auto
  have ue: "uedge_ok ue" using inv fifo by (simp add: mg_inv_def)
  from expire_oldest_result [OF inv fifo assms(3), of addBlk h] show ?thesis
  proof (elim disjE exE conjE, goal_cases)
    case (1 mg' h' bs d)
    have "history bs mg' v = history [] mg v" for v
    proof -
      have "map forget (written bs v @ keys_at (neigLists (expm mg')) v) = map forget (keys_at (neigLists (expm mg)) v) @ touch_at v ue"
        unfolding 1(10) [rule_format] by (simp add: ends_forget [OF ue])
      then show ?thesis using 1(4) fifo by (simp add: history_def written_def [of "[]"] window_at_def)
    qed
    then show ?case using 1 by (auto simp: expired_to_def)
  next
    case (2 err em3)
    then show ?case by (auto simp: expired_to_def)
  qed
qed

lemma expired_trans:
  assumes "expired_to addBlk mg h (Inr (mg1, h1))" and "expired_to addBlk mg1 h1 r"
  shows "expired_to addBlk mg h r"
proof (cases r)
  case (Inl err)
  then show ?thesis using assms(2) by (simp add: expired_to_def)
next
  case (Inr st)
  from assms(1) obtain bs where bs: "for_each addBlk bs h = Inr h1" "\<And>v. history bs mg1 v = history [] mg v" "drawn (mg_carries mg) (mg_fits mg) bs"
    and l: "load mg1 \<le> load mg" "windowSize (vfifo mg1) = windowSize (vfifo mg)" "mg_fits mg \<Longrightarrow> mg_fits mg1"
      "emConf (expm mg1) = emConf (expm mg)" "\<And>D. mg_carries mg D \<Longrightarrow> mg_carries mg1 D" by (auto simp: expired_to_def)
  from assms(2) Inr obtain cs where cs: "for_each addBlk cs h1 = Inr (snd st)" "\<And>v. history cs (fst st) v = history [] mg1 v" "drawn (mg_carries mg1) (mg_fits mg1) cs"
    and l2: "mg_inv (fst st)" "load (fst st) \<le> load mg1" "windowSize (vfifo (fst st)) = windowSize (vfifo mg1)" "mg_fits mg1 \<Longrightarrow> mg_fits (fst st)"
      "emConf (expm (fst st)) = emConf (expm mg1)" "\<And>D. mg_carries mg1 D \<Longrightarrow> mg_carries (fst st) D" by (auto simp: expired_to_def)
  have "history (bs @ cs) (fst st) v = history [] mg v" for v
    using bs(2) [of v] cs(2) [of v] by (simp add: history_def written_append) (simp add: written_def [of "[]"])
  moreover have "drawn (mg_carries mg) (mg_fits mg) (bs @ cs)"
    unfolding drawn_append using bs(3) drawn_mono [OF cs(3)] l(3,5) by blast
  moreover have "for_each addBlk (bs @ cs) h = Inr (snd st)" using bs(1) cs(1) by (simp add: for_each_append)
  ultimately have "\<exists>bs. for_each addBlk bs h = Inr (snd st) \<and> (\<forall>v. history bs (fst st) v = history [] mg v) \<and> drawn (mg_carries mg) (mg_fits mg) bs" by blast
  then show ?thesis using l l2 Inr by (simp add: expired_to_def)
qed

lemma expired_load: "expired_to addBlk mg h (Inr (mg1, h1)) \<Longrightarrow> mg_inv mg1 \<and> load mg1 \<le> load mg"
  by (simp add: expired_to_def)

lemma expire_loop_result:
  "mg_inv (fst st) \<Longrightarrow> load (fst st) < 2 ^ 64 \<Longrightarrow> expired_to addBlk (fst st) (snd st) (expire_loop addBlk st)
    \<and> (\<forall>st'. expire_loop addBlk st = Inr st' \<longrightarrow> \<not> hasExpiredEdges (vfifo (fst st')))"
proof (induction addBlk st rule: expire_loop.induct)
  case (1 addBlk st)
  show ?case
  proof (cases "hasExpiredEdges (vfifo (fst st))")
    case False
    then have "expire_loop addBlk st = Inr st" by (simp add: expire_loop.simps)
    then show ?thesis using False expired_refl [OF "1.prems"(1), of addBlk "snd st"] by simp
  next
    case True
    then have "fifoEdges (vfifo (fst st)) \<noteq> []" by (auto simp: hasExpiredEdges_def)
    then have step: "expired_to addBlk (fst st) (snd st) (expire_oldest addBlk st)"
      using expired_step [OF "1.prems"(1) _ "1.prems"(2), of addBlk "snd st"] by simp
    have eq: "expire_loop addBlk st = rbind (expire_oldest addBlk st) (expire_loop addBlk)"
      using True by (subst expire_loop.simps) simp
    show ?thesis
    proof (cases "expire_oldest addBlk st")
      case (Inl err)
      then show ?thesis using step eq by simp
    next
      case (Inr st1)
      then have s: "expired_to addBlk (fst st) (snd st) (Inr (fst st1, snd st1))" using step by simp
      note l = expired_load [OF s]
      have "expired_to addBlk (fst st1) (snd st1) (expire_loop addBlk st1)
          \<and> (\<forall>st'. expire_loop addBlk st1 = Inr st' \<longrightarrow> \<not> hasExpiredEdges (vfifo (fst st')))"
        using "1.IH" [OF True Inr] l "1.prems"(2) by simp
      then show ?thesis using expired_trans [OF s] eq Inr by simp
    qed
  qed
qed

lemma drain_loop_result:
  "mg_inv (fst st) \<Longrightarrow> load (fst st) < 2 ^ 64 \<Longrightarrow> expired_to addBlk (fst st) (snd st) (drain_loop addBlk st)
    \<and> (\<forall>st'. drain_loop addBlk st = Inr st' \<longrightarrow> fifoEdges (vfifo (fst st')) = [])"
proof (induction addBlk st rule: drain_loop.induct)
  case (1 addBlk st)
  show ?case
  proof (cases "fifo_isEmpty (vfifo (fst st))")
    case True
    then have "drain_loop addBlk st = Inr st" by (simp add: drain_loop.simps)
    then show ?thesis using True expired_refl [OF "1.prems"(1), of addBlk "snd st"] by (simp add: fifo_isEmpty_def)
  next
    case False
    then have step: "expired_to addBlk (fst st) (snd st) (expire_oldest addBlk st)"
      using expired_step [OF "1.prems"(1) _ "1.prems"(2), of addBlk "snd st"] by (simp add: fifo_isEmpty_def)
    have eq: "drain_loop addBlk st = rbind (expire_oldest addBlk st) (drain_loop addBlk)"
      using False by (subst drain_loop.simps) simp
    show ?thesis
    proof (cases "expire_oldest addBlk st")
      case (Inl err)
      then show ?thesis using step eq by simp
    next
      case (Inr st1)
      then have s: "expired_to addBlk (fst st) (snd st) (Inr (fst st1, snd st1))" using step by simp
      note l = expired_load [OF s]
      have "expired_to addBlk (fst st1) (snd st1) (drain_loop addBlk st1)
          \<and> (\<forall>st'. drain_loop addBlk st1 = Inr st' \<longrightarrow> fifoEdges (vfifo (fst st')) = [])"
        using "1.IH" [OF False Inr] l "1.prems"(2) by simp
      then show ?thesis using expired_trans [OF s] eq Inr by simp
    qed
  qed
qed

section \<open>Adding an edge to the window\<close>

text \<open>Everything the graph holds is before the time \<open>t\<close>.\<close>

definition before :: "inMemoryGraph \<Rightarrow> timestamp \<Rightarrow> bool" where
  "before mg t \<longleftrightarrow> (\<forall>v. \<forall>x \<in> set (history [] mg v). dlt (snd x) t)"

lemma before_older: "before mg t \<Longrightarrow> older t (expm mg)"
  by (force simp: before_def history_def written_def older_def forget_def)

lemma before_window: "before mg t \<Longrightarrow> ue \<in> set (fifoEdges (vfifo mg)) \<Longrightarrow> dlt (utm ue) t"
proof -
  assume b: "before mg t" and ue: "ue \<in> set (fifoEdges (vfifo mg))"
  have "(secondVertex ue, utm ue) \<in> set (touch_at (firstVertex ue) ue)" by (simp add: touch_at_def)
  then have "(secondVertex ue, utm ue) \<in> set (history [] mg (firstVertex ue))"
    using ue by (auto simp: history_def window_at_def)
  then show ?thesis using b unfolding before_def by fastforce
qed

lemma before_history:
  assumes "\<And>v. history bs mg' v = history [] mg v @ xs v" and "before mg t" and "\<And>v x. x \<in> set (xs v) \<Longrightarrow> dlt (snd x) t"
  shows "before mg' t"
  unfolding before_def
proof (intro allI ballI)
  fix v x assume "x \<in> set (history [] mg' v)"
  then have "x \<in> set (history bs mg' v)" by (auto simp: history_def written_def)
  then have "x \<in> set (history [] mg v) \<or> x \<in> set (xs v)" unfolding assms(1) by simp
  then show "dlt (snd x) t" using assms(2) assms(3) [of x v] by (auto simp: before_def)
qed

lemma count_fields_ok: "data_ok d \<Longrightarrow> \<exists>st'. count_fields d st = Inr st'"
proof -
  assume ok: "data_ok d"
  have "count_fields d st = Inr (fold (\<lambda>f. incrCountAndBytes (word_of_nat (fst f)) (dof_nat (val_size (snd f)))) (fieldsOf d) st)"
    unfolding count_fields_def by (rule for_each_pure) (use getFieldSize_val [OF ok] in \<open>auto simp: prod.collapse\<close>)
  then show ?thesis ..
qed

lemma window_snoc: "window_at v (es @ [ue]) = window_at v es @ touch_at v ue"
  by (simp add: window_at_def)

text \<open>What adding an edge with record \<open>data\<close> makes of the memory and of the blocks it writes.\<close>

definition absorbs :: "inMemoryGraph \<Rightarrow> timestamp \<Rightarrow> attributeData shared_ptr \<Rightarrow> block list \<Rightarrow> inMemoryGraph \<Rightarrow> bool" where
  "absorbs mg t data bs mg' \<longleftrightarrow> emConf (expm mg') = emConf (expm mg)
     \<and> (mg_fits mg \<and> edge_fits (emConf (expm mg)) \<lparr>toVertex = 0, tm = 0, edata = data\<rparr> \<longrightarrow> mg_fits mg')
     \<and> (\<forall>D. mg_carries mg D \<and> D t = Some data \<longrightarrow> mg_carries mg' D)
     \<and> drawn (\<lambda>D. mg_carries mg D \<and> D t = Some data)
          (mg_fits mg \<and> edge_fits (emConf (expm mg)) \<lparr>toVertex = 0, tm = 0, edata = data\<rparr>) bs"

lemma mg_addEdge_run:
  assumes inv: "mg_inv mg" and new: "before mg ts" and ue: "uedge_ok (UEdge v u ts)" and small: "load mg + 2 < 2 ^ 64"
    and d: "data_ok d"
  shows "case mg_addEdge addBlk v u ts (Some (a, d)) (mg, st, h) of
      Inr (mg', st', h') \<Rightarrow> mg_inv mg' \<and> load mg' \<le> load mg + 2 \<and> (\<forall>t. dlt ts t \<longrightarrow> before mg' t)
        \<and> length (fifoEdges (vfifo mg')) \<le> windowSize (vfifo mg) \<and> windowSize (vfifo mg') = windowSize (vfifo mg)
        \<and> (mg_fits mg \<and> edge_fits (emConf (expm mg)) \<lparr>toVertex = 0, tm = 0, edata = Some (a, d)\<rparr> \<longrightarrow> mg_fits mg')
        \<and> (\<exists>bs. for_each addBlk bs h = Inr h' \<and> (\<forall>w. history bs mg' w = history [] mg w @ touch_at w (UEdge v u ts))
             \<and> absorbs mg ts (Some (a, d)) bs mg')
    | Inl err \<Rightarrow> \<exists>em3 h3. writeBlock addBlk (em3, h3) = Inl err"
proof -
  let ?e1 = "\<lparr>toVertex = u, tm = ts, edata = Some (a, d)\<rparr>" and ?e2 = "\<lparr>toVertex = v, tm = ts, edata = Some (a, d)\<rparr>"
  define m1 where "m1 = mg_push v ?e1 (mgLists mg)"
  define m2 where "m2 = mg_push u ?e2 m1"
  define mg1 where "mg1 = mg\<lparr>mgLists := m2, vfifo := fifo_addEdge (UEdge v u ts) (vfifo mg)\<rparr>"
  note I = inv [unfolded mg_inv_def]
  have ne: "v \<noteq> u" "\<not> is_nan ts" using ue by (simp_all add: uedge_ok_def UEdge_def)
  have h1: "heads_ok m1" "\<And>w. list_at w m1 = (if w = v then list_at v (mgLists mg) @ [?e1] else list_at w (mgLists mg))"
    unfolding m1_def using mg_push_ok [of "mgLists mg"] I by auto
  have h2: "heads_ok m2" "\<And>w. list_at w m2 = (if w = u then list_at u m1 @ [?e2] else list_at w m1)"
    unfolding m2_def using mg_push_ok [OF h1(1)] by auto
  have win: "map tt (list_at w m2) = window_at w (fifoEdges (vfifo mg) @ [UEdge v u ts])" for w
    unfolding window_snoc h2(2) h1(2) using I ne by (auto simp: tt_def touch_at_def UEdge_def)
  have fifo1: "fifoEdges (vfifo mg1) = fifoEdges (vfifo mg) @ [UEdge v u ts]" by (simp add: mg1_def fifo_addEdge_def)
  have "mg_inv mg1"
    unfolding mg_inv_def fifo1
    using I h2(1) win ue before_older [OF new] before_window [OF new]
    by (auto simp: mg1_def sorted_wrt_append UEdge_def)
  have l1: "load mg1 = load mg + 2" by (simp add: load_def fifo1) (simp add: mg1_def)
  have hist1: "history [] mg1 w = history [] mg w @ touch_at w (UEdge v u ts)" for w
    by (simp add: history_def fifo1 window_snoc) (simp add: mg1_def)
  have fits1: "mg_fits mg1" if "mg_fits mg" "edge_fits (emConf (expm mg)) \<lparr>toVertex = 0, tm = 0, edata = Some (a, d)\<rparr>"
  proof -
    have "fits c (mg_push w e m)" if "fits c m" "edge_fits c e" for c w e m
      using that unfolding fits_def mg_push_def Let_def by (cases "um_find m w") (auto simp: nl_addEdge_def)
    then show ?thesis using that by (simp add: mg_fits_def mg1_def m1_def m2_def edge_fits_def)
  qed
  have car1: "mg_carries mg1 D" if "mg_carries mg D" "D ts = Some (Some (a, d))" for D
  proof -
    have "carries D (mg_push w e m)" if "carries D m" "D (tm e) = Some (edata e)" for w e m
      using that unfolding carries_def mg_push_def Let_def by (cases "um_find m w") (auto simp: nl_addEdge_def)
    then show ?thesis using that by (simp add: mg_carries_def mg1_def m1_def m2_def)
  qed
  have run: "mg_addEdge addBlk v u ts (Some (a, d)) (mg, st, h) =
      rbind (expire_loop addBlk (mg1, h)) (\<lambda>(mg2, h2). rbind (count_fields d st) (\<lambda>st1. Inr (mg2, st1, h2)))"
    by (simp add: mg_addEdge_def Let_def mg1_def m1_def m2_def)
  obtain st' where st': "count_fields d st = Inr st'" using count_fields_ok [OF d] by blast
  have L: "expired_to addBlk mg1 h (expire_loop addBlk (mg1, h))"
    "\<And>s. expire_loop addBlk (mg1, h) = Inr s \<Longrightarrow> \<not> hasExpiredEdges (vfifo (fst s))"
    using expire_loop_result [of "(mg1, h)" addBlk] \<open>mg_inv mg1\<close> l1 small by auto
  show ?thesis
  proof (cases "expire_loop addBlk (mg1, h)")
    case (Inl err)
    then show ?thesis using L(1) run by (simp add: expired_to_def)
  next
    case (Inr s)
    obtain mg2 h2 where s: "s = (mg2, h2)" by force
    from L(1) obtain bs where X: "mg_inv mg2" "load mg2 \<le> load mg1" "windowSize (vfifo mg2) = windowSize (vfifo mg1)"
      "mg_fits mg1 \<longrightarrow> mg_fits mg2" "emConf (expm mg2) = emConf (expm mg1)" "\<And>D. mg_carries mg1 D \<Longrightarrow> mg_carries mg2 D"
      and bs: "for_each addBlk bs h = Inr h2" "\<And>v. history bs mg2 v = history [] mg1 v" "drawn (mg_carries mg1) (mg_fits mg1) bs"
      by (auto simp: Inr s expired_to_def)
    have "\<not> hasExpiredEdges (vfifo mg2)" using L(2) [OF Inr] s by simp
    then have "length (fifoEdges (vfifo mg2)) \<le> windowSize (vfifo mg)"
      using X(3) by (simp add: hasExpiredEdges_def mg1_def fifo_addEdge_def)
    moreover have "before mg2 t" if "dlt ts t" for t
    proof (rule before_history)
      show "history bs mg2 w = history [] mg w @ touch_at w (UEdge v u ts)" for w using bs(2) hist1 by simp
      show "before mg t" using new dlt_trans [OF _ that] by (auto simp: before_def)
      show "dlt (snd x) t" if "x \<in> set (touch_at w (UEdge v u ts))" for w x
        using that \<open>dlt ts t\<close> by (auto simp: touch_at_def UEdge_def split: if_splits)
    qed
    moreover have "drawn (\<lambda>D. mg_carries mg D \<and> D ts = Some (Some (a, d)))
        (mg_fits mg \<and> edge_fits (emConf (expm mg)) \<lparr>toVertex = 0, tm = 0, edata = Some (a, d)\<rparr>) bs"
      by (rule drawn_mono [OF bs(3)]) (use car1 fits1 in auto)
    moreover have "emConf (expm mg2) = emConf (expm mg)" "windowSize (vfifo mg2) = windowSize (vfifo mg)"
      using X(3,5) by (simp_all add: mg1_def fifo_addEdge_def)
    ultimately show ?thesis
      unfolding run Inr s st' absorbs_def using X(1,2,4,6) bs(1,2) l1 hist1 fits1 car1 by (simp add: st') blast
  qed
qed

section \<open>Flushing\<close>

lemma mg_flush_run:
  assumes inv: "mg_inv mg" and fit: "mg_fits mg" and small: "load mg < 2 ^ 64"
  shows "\<exists>r. mg_flush addBlk (mg, st, h) = Some r \<and> (\<forall>mg' st' h'. r = Inr (mg', st', h') \<longrightarrow>
      fifoEdges (vfifo mg') = [] \<and> neigLists (expm mg') = [] \<and> st' = st \<and> mg_inv mg' \<and> emConf (expm mg') = emConf (expm mg)
      \<and> (\<exists>bs. for_each addBlk bs h = Inr h' \<and> (\<forall>v. map forget (written bs v) = history [] mg v) \<and> drawn (mg_carries mg) True bs))"
proof -
  have D: "expired_to addBlk mg h (drain_loop addBlk (mg, h))"
    "\<And>s. drain_loop addBlk (mg, h) = Inr s \<Longrightarrow> fifoEdges (vfifo (fst s)) = []"
    using drain_loop_result [of "(mg, h)" addBlk] inv small by auto
  show ?thesis
  proof (cases "drain_loop addBlk (mg, h)")
    case (Inl err)
    then show ?thesis by (simp add: mg_flush_def)
  next
    case (Inr s)
    obtain mg1 h1 where s: "s = (mg1, h1)" by force
    from D(1) obtain bs where X: "mg_inv mg1" "mg_fits mg1" "emConf (expm mg1) = emConf (expm mg)" "\<And>D. mg_carries mg D \<Longrightarrow> mg_carries mg1 D"
      and bs: "for_each addBlk bs h = Inr h1" "\<And>v. history bs mg1 v = history [] mg v" "drawn (mg_carries mg) True bs"
      using fit by (auto simp: Inr s expired_to_def)
    have nil: "fifoEdges (vfifo mg1) = []" using D(2) [OF Inr] s by simp
    have em: "em_inv (expm mg1)" "can_progress (expm mg1)" using X by (simp_all add: mg_inv_def mg_fits_def can_progress_def)
    from flush_run [OF em, of addBlk h1] obtain r where r: "flush addBlk (expm mg1, h1) = Some r"
      and R: "\<And>em' h'. r = Inr (em', h') \<Longrightarrow> em_inv em' \<and> neigLists em' = [] \<and> emSize em' = 0
        \<and> (\<exists>bs. for_each addBlk bs h1 = Inr h' \<and> (\<forall>v. keys_at (neigLists (expm mg1)) v = written bs v)
          \<and> drawn (\<lambda>D. carries D (neigLists (expm mg1))) True bs)" by blast
    show ?thesis
    proof (cases r)
      case (Inl err)
      then show ?thesis using r Inr s by (simp add: mg_flush_def)
    next
      case (Inr q)
      obtain em' h' where q: "q = (em', h')" by force
      from R [of em' h'] Inr q obtain cs where e: "em_inv em'" "neigLists em' = []"
        and cs: "for_each addBlk cs h1 = Inr h'" "\<And>v. keys_at (neigLists (expm mg1)) v = written cs v"
          "drawn (\<lambda>D. carries D (neigLists (expm mg1))) True cs" by blast
      let ?mg = "mg1\<lparr>expm := em'\<rparr>"
      have run: "mg_flush addBlk (mg, st, h) = Some (Inr (?mg, st, h'))"
        using r Inr q \<open>drain_loop addBlk (mg, h) = Inr s\<close> s by (simp add: mg_flush_def)
      have "for_each addBlk (bs @ cs) h = Inr h'" using bs(1) cs(1) by (simp add: for_each_append)
      moreover have "map forget (written (bs @ cs) v) = history [] mg v" for v
        using bs(2) [of v] cs(2) [of v] nil by (simp add: history_def window_at_def written_append)
      moreover have "drawn (mg_carries mg) True cs" by (rule drawn_mono [OF cs(3)]) (use X(4) in \<open>auto simp: mg_carries_def\<close>)
      then have "drawn (mg_carries mg) True (bs @ cs)" using bs(3) by (simp add: drawn_append)
      moreover have conf: "emConf em' = emConf (expm mg1)" using flush_conf [OF r, of em' h'] em X(1) Inr q by (simp add: mg_inv_def)
      then have "mg_inv ?mg" using X e nil by (simp add: mg_inv_def)
      moreover have "emConf (expm ?mg) = emConf (expm mg)" using conf X(3) by simp
      ultimately show ?thesis using run e nil by (intro exI [of _ "Inr (?mg, st, h')"] conjI) auto
    qed
  qed
qed

section \<open>Properties\<close>



definition ex_mg :: inMemoryGraph where
  "ex_mg = \<lparr>vfifo = EdgeFIFO 1, expm = ex_em ex_conf, mgLists = []\<rparr>"

lemma ex_mg_inv: "mg_inv ex_mg"
  using ex_em_inv ex_can_progress by (simp add: mg_inv_def ex_mg_def EdgeFIFO_def window_at_def list_at_def can_progress_def)

lemma ex_mg_load: "load ex_mg = 2"
  by (simp add: load_def ex_mg_def EdgeFIFO_def ex_em_def total_def)



end
