(* ===== verification/BlockPartition.thy ===== *)
theory BlockPartition
  imports BlockLemmas
begin

text \<open>
  Splitting a block by a partitioning of the edge attributes and recombining it
  (\<^verbatim>\<open>Block::partitionBlock\<close>, \<^verbatim>\<open>Block::recombineBlock\<close>). The master block carries the graph structure
  with empty records, sub-block \<open>i\<close> the same structure with the attributes of partition \<open>i\<close>. The main
  result is that recombination inverts the split for every partitioning that covers the schema.
\<close>

section \<open>Copying all edges\<close>

definition copyable :: "(vertexId \<times> edge \<Rightarrow> attributeData) \<Rightarrow> (vertexId \<times> edge) list \<Rightarrow> bool" where
  "copyable f zs \<longleftrightarrow> (\<forall>(h, e) \<in> set zs. \<not> is_nan (tm e) \<and> data_ok (f (h, e)))
     \<and> (\<forall>(h, e) \<in> set zs. \<forall>(h', e') \<in> set zs. EdgeTriplet_eq (trip h' e') (trip h e) \<longrightarrow> f (h', e') = f (h, e))"

lemma copyableI:
  assumes A: "\<And>h e. (h, e) \<in> set zs \<Longrightarrow> \<not> is_nan (tm e) \<and> data_ok (f (h, e))"
    and B: "\<And>h e h' e'. (h, e) \<in> set zs \<Longrightarrow> (h', e') \<in> set zs \<Longrightarrow> EdgeTriplet_eq (trip h' e') (trip h e) \<Longrightarrow>
      f (h', e') = f (h, e)"
  shows "copyable f zs"
  unfolding copyable_def
proof (intro conjI ballI, goal_cases)
  case (1 x)
  then show ?case using A by (cases x rule: prod.exhaust) simp
next
  case (2 x)
  obtain h e where [simp]: "x = (h, e)" by (rule prod.exhaust)
  from 2 have "\<forall>y \<in> set zs. EdgeTriplet_eq (trip (fst y) (snd y)) (trip h e) \<longrightarrow> f y = f (h, e)"
    using B [of h e] by auto
  then show ?case by (simp add: case_prod_beta)
qed

lemma copy_step_in:
  assumes "copied f xs b rd" and "copyable f (xs @ (h, e) # ys)"
  shows "\<exists>b1. addEdge h (toVertex e) (tm e) (shared rd (trip h e) (f (h, e))) b = Inr b1
    \<and> copied f (xs @ [(h, e)]) b1 (remember rd (trip h e) (f (h, e)))
    \<and> bid b1 = bid b \<and> partitionNo b1 = partitionNo b \<and> subBlocks b1 = subBlocks b"
  using assms by (intro copy_step) (auto simp: copyable_def)

lemma copy_for_each:
  assumes "copied f xs b rd" and "copyable f (xs @ ys)"
    and "\<And>h e b rd. (h, e) \<in> set ys \<Longrightarrow> body (h, e) (b, rd) =
      rbind (addEdge h (toVertex e) (tm e) (shared rd (trip h e) (f (h, e))) b) (\<lambda>b1.
        Inr (b1, remember rd (trip h e) (f (h, e))))"
  shows "\<exists>b' rd'. for_each body ys (b, rd) = Inr (b', rd') \<and> copied f (xs @ ys) b' rd'
    \<and> bid b' = bid b \<and> partitionNo b' = partitionNo b \<and> subBlocks b' = subBlocks b"
  using assms
proof (induction ys arbitrary: xs b rd)
  case (Cons he ys)
  obtain h e where [simp]: "he = (h, e)" by force
  obtain b1 where b1: "addEdge h (toVertex e) (tm e) (shared rd (trip h e) (f (h, e))) b = Inr b1"
      "copied f (xs @ [(h, e)]) b1 (remember rd (trip h e) (f (h, e)))"
      "bid b1 = bid b" "partitionNo b1 = partitionNo b" "subBlocks b1 = subBlocks b"
    using copy_step_in [OF Cons.prems(1), of h e ys] Cons.prems(2) by auto
  with Cons.IH [OF b1(2)] Cons.prems show ?case by simp
qed simp

section \<open>Projection of a record\<close>

definition attr_index :: "schema \<Rightarrow> string \<Rightarrow> nat" where
  "attr_index s n = the (um_find (nameToIndex s) n)"

definition names_in :: "schema \<Rightarrow> string list \<Rightarrow> bool" where
  "names_in s attrs \<longleftrightarrow> distinct attrs \<and> set attrs \<subseteq> fst ` set (nameToIndex s)"

definition full_data :: "schema \<Rightarrow> attributeData \<Rightarrow> bool" where
  "full_data s d \<longleftrightarrow> schemaOf d = s \<and> um_keys (fieldsOf d) = [0..<length (attributes s)] \<and> data_ok d"

definition proj_data :: "schema \<Rightarrow> string list \<Rightarrow> attributeData \<Rightarrow> attributeData" where
  "proj_data s attrs d =
     \<lparr>fieldsOf = map (\<lambda>n. (attr_index s n, the (um_find (fieldsOf d) (attr_index s n)))) attrs, schemaOf = s\<rparr>"

lemma attr_index_find:
  assumes "schema_ok s" and "n \<in> fst ` set (nameToIndex s)"
  shows "um_find (nameToIndex s) n = Some (attr_index s n)"
    and "attr_index s n < length (attributes s)" and "attrName (attributes s ! attr_index s n) = n"
proof -
  from assms(2) obtain i where i: "um_find (nameToIndex s) n = Some i"
    by (metis map_of_eq_None_iff not_None_eq)
  then show "um_find (nameToIndex s) n = Some (attr_index s n)" by (simp add: attr_index_def)
  with assms(1) show "attr_index s n < length (attributes s)" "attrName (attributes s ! attr_index s n) = n"
    by (auto simp: schema_ok_def)
qed

lemma attr_index_inj:
  assumes "schema_ok s" and "names_in s attrs"
  shows "distinct (map (attr_index s) attrs)"
  using assms attr_index_find(3) [OF assms(1)]
  by (auto simp: names_in_def distinct_map inj_on_def) (metis subsetD)

lemma fold_emplace_distinct:
  "distinct (map ix xs) \<Longrightarrow> set (map ix xs) \<inter> fst ` set m = {} \<Longrightarrow>
    fold (\<lambda>x. um_emplace (ix x) (v x)) xs m = m @ map (\<lambda>x. (ix x, v x)) xs"
proof (induction xs arbitrary: m)
  case (Cons x xs)
  then have "um_emplace (ix x) (v x) m = m @ [(ix x, v x)]" by (simp add: um_emplace_def um_count_iff)
  with Cons show ?case by auto
qed simp

lemma newAttributeData_of_fields:
  assumes "schema_ok s" and "names_in s attrs"
  shows "newAttributeData_of s attrs =
    Inr \<lparr>fieldsOf = map (\<lambda>n. (attr_index s n, getTypeValue (attrType (attributes s ! attr_index s n)))) attrs,
         schemaOf = s\<rparr>"
proof -
  let ?v = "\<lambda>n. getTypeValue (attrType (attributes s ! attr_index s n))"
  have "for_each (\<lambda>attrb fs. rbind (getIndex s attrb) (\<lambda>idx. rbind (vec_at (attributes s) idx) (\<lambda>a.
        Inr (um_emplace idx (getTypeValue (attrType a)) fs)))) attrs [] =
      Inr (fold (\<lambda>n. um_emplace (attr_index s n) (?v n)) attrs [])"
    using assms attr_index_find [OF assms(1)]
    by (intro for_each_pure) (auto simp: names_in_def getIndex_def vec_at_def subset_iff)
  then show ?thesis
    using fold_emplace_distinct [OF attr_index_inj [OF assms], of "[]"]
    by (simp add: newAttributeData_of_def AttributeData_of_def)
qed

lemma full_data_find:
  assumes "full_data s d" and "i < length (attributes s)"
  shows "\<exists>v. um_find (fieldsOf d) i = Some v \<and> val_ok (attrType (attributes s ! i)) v"
proof -
  have "i \<in> set (um_keys (fieldsOf d))" using assms by (simp add: full_data_def)
  then obtain v where "(i, v) \<in> set (fieldsOf d)" by auto
  moreover have "um_ok (fieldsOf d)" using assms by (simp add: full_data_def data_ok_def)
  ultimately show ?thesis using assms(1) by (auto simp: full_data_def data_ok_def)
qed

lemma names_in_find:
  assumes "schema_ok s" and "names_in s attrs" and "n \<in> set attrs" and "full_data s d"
  shows "\<exists>v. getIndex s n = Inr (attr_index s n) \<and> attr_index s n < length (attributes s)
    \<and> um_find (fieldsOf d) (attr_index s n) = Some v \<and> val_ok (attrType (attributes s ! attr_index s n)) v"
proof -
  have n: "n \<in> fst ` set (nameToIndex s)" using assms(2,3) by (auto simp: names_in_def)
  from attr_index_find [OF assms(1) n] full_data_find [OF assms(4), of "attr_index s n"]
  show ?thesis by (simp add: getIndex_def)
qed

lemma project_data_eq:
  assumes "schema_ok s" and "names_in s attrs" and "edata e = Some (a, d)" and "full_data s d"
  shows "project_data s attrs e = Inr (proj_data s attrs d)"
proof -
  let ?ix = "attr_index s"
  let ?old = "map (\<lambda>n. (?ix n, getTypeValue (attrType (attributes s ! ?ix n)))) attrs"
  let ?new = "map (\<lambda>n. (?ix n, the (um_find (fieldsOf d) (?ix n)))) attrs"
  have get: "getIndex s n = Inr (?ix n) \<and> getAttribute d (?ix n) = Inr (the (um_find (fieldsOf d) (?ix n)))"
    if "n \<in> set attrs" for n
    using names_in_find [OF assms(1,2) that assms(4)] by (auto simp: getAttribute_def)
  have "for_each (\<lambda>attrb d'. rbind (getIndex s attrb) (\<lambda>i. rbind (deref (edata e)) (\<lambda>p.
        rbind (getAttribute (snd p) i) (\<lambda>v. Inr (setAttribute i v d'))))) attrs d0 =
      Inr (fold (\<lambda>n. setAttribute (?ix n) (the (um_find (fieldsOf d) (?ix n)))) attrs d0)" for d0
    by (rule for_each_pure) (simp add: get assms(3))
  moreover have "fold (\<lambda>n. setAttribute (?ix n) (the (um_find (fieldsOf d) (?ix n)))) attrs d0 =
      fold (\<lambda>(i, v). setAttribute i v) ?new d0" for d0
    by (simp add: fold_map comp_def)
  moreover have "fold (\<lambda>(k, v). um_put k v) ?new ?old = ?new"
    using attr_index_inj [OF assms(1,2)] by (intro fold_um_put_overwrite) (simp_all add: comp_def)
  ultimately show ?thesis
    by (simp add: project_data_def newAttributeData_of_fields [OF assms(1,2)] fold_setAttribute proj_data_def)
qed

lemma proj_data_ok:
  assumes "schema_ok s" and "names_in s attrs" and "full_data s d"
  shows "data_ok (proj_data s attrs d)"
proof -
  have "i < length (attributes s) \<and> val_ok (attrType (attributes s ! i)) v"
    if "(i, v) \<in> set (fieldsOf (proj_data s attrs d))" for i v
  proof -
    from that obtain n where n: "n \<in> set attrs" "i = attr_index s n" "v = the (um_find (fieldsOf d) i)"
      by (auto simp: proj_data_def)
    from names_in_find [OF assms(1,2) n(1) assms(3)] n(2,3) show ?thesis by auto
  qed
  moreover have "um_ok (fieldsOf (proj_data s attrs d))"
    using attr_index_inj [OF assms(1,2)] by (simp add: proj_data_def comp_def)
  ultimately show ?thesis by (auto simp: data_ok_def proj_data_def)
qed

section \<open>Sub-blocks\<close>

definition the_data :: "edge \<Rightarrow> attributeData" where
  "the_data e = snd (the (edata e))"

text \<open>A block as the graph builds it: one non-empty list per head, ordinary timestamps, a full record
  on every edge, and the same record on both directions of an edge.\<close>

definition block_ok :: "schema \<Rightarrow> block \<Rightarrow> bool" where
  "block_ok s b \<longleftrightarrow> heads_ok (neigs b)
     \<and> (\<forall>(h, e) \<in> set (all_edges (neigs b)). \<not> is_nan (tm e) \<and> edata e \<noteq> None \<and> full_data s (the_data e))
     \<and> (\<forall>(h, e) \<in> set (all_edges (neigs b)). \<forall>(h', e') \<in> set (all_edges (neigs b)).
          EdgeTriplet_eq (trip h' e') (trip h e) \<longrightarrow> the_data e' = the_data e)"

lemma block_okD:
  assumes "block_ok s b" and "(h, e) \<in> set (all_edges (neigs b))"
  shows "\<not> is_nan (tm e)" and "full_data s (the_data e)" and "\<exists>a. edata e = Some (a, the_data e)"
proof -
  have "\<not> is_nan (tm e) \<and> edata e \<noteq> None \<and> full_data s (the_data e)"
    using assms unfolding block_ok_def by blast
  then show "\<not> is_nan (tm e)" "full_data s (the_data e)" "\<exists>a. edata e = Some (a, the_data e)"
    by (auto simp: the_data_def)
qed

lemma block_ok_same:
  "block_ok s b \<Longrightarrow> (h, e) \<in> set (all_edges (neigs b)) \<Longrightarrow> (h', e') \<in> set (all_edges (neigs b)) \<Longrightarrow>
    EdgeTriplet_eq (trip h' e') (trip h e) \<Longrightarrow> the_data e' = the_data e"
  unfolding block_ok_def by blast

lemma block_ok_copyable:
  assumes "block_ok s b" and "\<And>d. full_data s d \<Longrightarrow> data_ok (g d)"
  shows "copyable (\<lambda>(h, e). g (the_data e)) (all_edges (neigs b))"
proof (rule copyableI)
  fix h e assume "(h, e) \<in> set (all_edges (neigs b))"
  from block_okD [OF assms(1) this] assms(2) show "\<not> is_nan (tm e) \<and> data_ok (case (h, e) of (h, e) \<Rightarrow> g (the_data e))"
    by simp
qed (use block_ok_same [OF assms(1)] in simp)

lemma sub_block_result:
  assumes "schema_ok s" and "names_in s attrs" and "block_ok s b"
  shows "\<exists>sub. sub_block s b i attrs = Inr sub \<and> partitionNo sub = Some (word_of_nat i) \<and> bid sub = 0
    \<and> subBlocks sub = [] \<and> heads_ok (neigs sub)
    \<and> view (neigs sub) = map (\<lambda>(h, nl). (h, map (\<lambda>e. (toVertex e, tm e, Some (proj_data s attrs (the_data e)))) (edges nl)))
        (neigs b)"
proof -
  let ?f = "\<lambda>(h, e). proj_data s attrs (the_data e)" and ?b0 = "Block 0\<lparr>partitionNo := Some (word_of_nat i)\<rparr>"
  have ok: "copyable ?f ([] @ all_edges (neigs b))"
    using block_ok_copyable [OF assms(3), of "proj_data s attrs"] proj_data_ok [OF assms(1,2)] by simp
  have body: "sub_block_edge s attrs (h, e) (b1, rd) =
      rbind (addEdge h (toVertex e) (tm e) (shared rd (trip h e) (?f (h, e))) b1) (\<lambda>b2.
        Inr (b2, remember rd (trip h e) (?f (h, e))))" if "(h, e) \<in> set (all_edges (neigs b))" for h e b1 rd
  proof -
    from block_okD [OF assms(3) that]
    obtain a where "edata e = Some (a, the_data e)" "full_data s (the_data e)" by blast
    then show ?thesis
      by (simp add: project_data_eq [OF assms(1,2)] share_or_make_def shared_def remember_def trip_def
          Let_def split: option.splits)
  qed
  have "copied ?f [] ?b0 []" by (simp add: copied_init)
  from copy_for_each [OF this ok body]
  obtain b' rd' where "for_each (sub_block_edge s attrs) (all_edges (neigs b)) (?b0, []) = Inr (b', rd')"
      "copied ?f (all_edges (neigs b)) b' rd'" "bid b' = 0" "partitionNo b' = Some (word_of_nat i)" "subBlocks b' = []"
    by (auto simp: Block_def)
  with copied_view [of ?f "neigs b" b' rd'] assms(3) show ?thesis
    by (simp add: sub_block_def block_ok_def copied_def)
qed

section \<open>Master block\<close>

definition empty_data :: "schema \<Rightarrow> attributeData" where
  "empty_data s = \<lparr>fieldsOf = [], schemaOf = s\<rparr>"

lemma newAttributeData_empty: "newAttributeData_of s [] = Inr (empty_data s)"
  by (simp add: newAttributeData_of_def AttributeData_of_def empty_data_def)

lemma empty_data_ok [simp]: "data_ok (empty_data s)" "data_size (empty_data s) = 0" "data_enc (empty_data s) = []"
  by (simp_all add: data_ok_def empty_data_def data_size_def data_enc_def)

text \<open>\<open>structured d0 xs b\<close>: the edges \<open>xs\<close> have been copied into \<open>b\<close>, all with the one record \<open>d0\<close>.\<close>

definition structured :: "attributeData \<Rightarrow> (vertexId \<times> edge) list \<Rightarrow> block \<Rightarrow> bool" where
  "structured d0 xs b \<longleftrightarrow> heads_ok (neigs b)
     \<and> view (neigs b) = fold (\<lambda>(h, e). vpush h (toVertex e, tm e, Some d0)) xs []
     \<and> (\<forall>(h, e) \<in> set (all_edges (neigs b)). edata e = Some (0, d0))"

lemma structured_step:
  assumes c: "structured d0 xs b" and ok: "data_ok d0"
  shows "\<exists>b1. addEdge h (toVertex e) (tm e) (Some (0, d0)) b = Inr b1 \<and> structured d0 (xs @ [(h, e)]) b1
    \<and> bid b1 = bid b \<and> partitionNo b1 = partitionNo b \<and> subBlocks b1 = subBlocks b"
proof -
  let ?e = "\<lparr>toVertex = toVertex e, tm = tm e, edata = Some (0, d0)\<rparr>"
  have agree: "sd = Some (0, d0)" if "um_find (neigs b) (toVertex e) = Some nl"
    and sd: "getEdgeAttributeData nl h (tm e) = Some sd" for nl sd
    using getEdgeAttributeData_SomeD [OF sd] map_of_SomeD [OF that(1)] c
    by (auto simp: structured_def all_edges_mem Ball_def)
  obtain b1 where b1: "addEdge h (toVertex e) (tm e) (Some (0, d0)) b = Inr b1"
      "neigs b1 = nb_push h ?e (neigs b)" "bid b1 = bid b" "partitionNo b1 = partitionNo b" "subBlocks b1 = subBlocks b"
    using addEdge_result [where head = h and to = "toVertex e" and t = "tm e" and a = 0 and b = b, OF ok agree] by auto
  have "um_ok (neigs b)" using c by (simp add: structured_def heads_ok_def)
  then have "structured d0 (xs @ [(h, e)]) b1"
    using c nb_push_ok [of "neigs b" h ?e]
    by (simp add: structured_def b1(2) view_push strip_def all_edges_push)
  with b1 show ?thesis by blast
qed

lemma structured_init: "structured d0 [] (Block i\<lparr>partitionNo := p\<rparr>)"
  by (simp add: structured_def heads_ok_def view_def all_edges_def Block_def)

lemma structured_for_each:
  assumes "structured d0 xs b" and "data_ok d0"
  shows "\<exists>b'. for_each (\<lambda>(h, e) b1. addEdge h (toVertex e) (tm e) (Some (0, d0)) b1) ys b = Inr b'
    \<and> structured d0 (xs @ ys) b' \<and> bid b' = bid b \<and> partitionNo b' = partitionNo b \<and> subBlocks b' = subBlocks b"
  using assms(1)
proof (induction ys arbitrary: xs b)
  case (Cons he ys)
  obtain h e where [simp]: "he = (h, e)" by force
  from structured_step [OF Cons.prems assms(2), of h e]
  obtain b1 where b1: "addEdge h (toVertex e) (tm e) (Some (0, d0)) b = Inr b1" "structured d0 (xs @ [(h, e)]) b1"
      "bid b1 = bid b" "partitionNo b1 = partitionNo b" "subBlocks b1 = subBlocks b" by blast
  from Cons.IH [OF b1(2)] b1 show ?case by simp
qed simp

lemma structured_view:
  assumes "structured d0 (all_edges m) b" and "heads_ok m"
  shows "view (neigs b) = map (\<lambda>(h, nl). (h, map (\<lambda>e. (toVertex e, tm e, Some d0)) (edges nl))) m"
  using rebuild_view [OF assms(2), of "\<lambda>_. d0"] assms(1) by (simp add: structured_def)

lemma master_block_result:
  assumes "block_ok s b"
  shows "\<exists>master. master_block s b = Inr master \<and> partitionNo master = Some no_partition \<and> bid master = 0
    \<and> subBlocks master = [] \<and> heads_ok (neigs master)
    \<and> view (neigs master) = map (\<lambda>(h, nl). (h, map (\<lambda>e. (toVertex e, tm e, Some (empty_data s))) (edges nl))) (neigs b)"
proof -
  let ?b0 = "Block 0\<lparr>partitionNo := Some no_partition\<rparr>"
  from structured_for_each [OF structured_init [where i = 0 and p = "Some no_partition"], of "empty_data s" "all_edges (neigs b)"]
  obtain b' where "for_each (\<lambda>(h, e) b1. addEdge h (toVertex e) (tm e) (Some (0, empty_data s)) b1)
        (all_edges (neigs b)) ?b0 = Inr b'"
      "structured (empty_data s) (all_edges (neigs b)) b'" "bid b' = 0" "partitionNo b' = Some no_partition" "subBlocks b' = []"
    by (auto simp: Block_def)
  with structured_view [of "empty_data s" "neigs b" b'] assms show ?thesis
    by (simp add: master_block_def newAttributeData_empty block_ok_def structured_def)
qed

section \<open>Recombination\<close>

lemma um_eqI:
  assumes "um_keys a = um_keys b" and "um_ok b" and "\<And>k. um_find a k = um_find b k"
  shows "a = b"
  using assms
proof (induction a b rule: list_induct2')
  case (4 x xs y ys)
  obtain k v where [simp]: "x = (k, v)" by force
  obtain w where [simp]: "y = (k, w)" using 4(2) by (cases y) auto
  from 4(4) [of k] have [simp]: "v = w" by simp
  have "um_find xs j = um_find ys j" for j
  proof (cases "j = k")
    case True
    then show ?thesis using 4(2,3) by (simp add: um_find_absent) (metis list.set_map um_find_absent)
  next
    case False
    then show ?thesis using 4(4) [of j] by simp
  qed
  with 4 show ?case by simp
qed auto

text \<open>Overwriting the fields of \<open>d0\<close> from the projections of \<open>d\<close> gives \<open>d\<close> back on what the projections cover.\<close>

lemma setAttributes_proj:
  assumes "schema_ok s" and "names_in s attrs" and "full_data s d" and "um_keys (fieldsOf d0) = um_keys (fieldsOf d)"
  shows "um_find (fieldsOf (setAttributes (proj_data s attrs d) d0)) i =
    (if i \<in> attr_index s ` set attrs then um_find (fieldsOf d) i else um_find (fieldsOf d0) i)"
proof -
  let ?p = "proj_data s attrs d"
  have ok: "um_ok (fieldsOf ?p)" using proj_data_ok [OF assms(1-3)] by (simp add: data_ok_def)
  have in_d0: "um_find (fieldsOf d0) i = None \<longleftrightarrow> um_find (fieldsOf d) i = None"
    using assms(4) by (metis list.set_map map_of_eq_None_iff)
  show ?thesis
  proof (cases "i \<in> attr_index s ` set attrs")
    case True
    then obtain n where n: "n \<in> set attrs" "i = attr_index s n" by auto
    then have "(i, the (um_find (fieldsOf d) i)) \<in> set (fieldsOf ?p)" by (auto simp: proj_data_def)
    then have "um_find (fieldsOf ?p) i = Some (the (um_find (fieldsOf d) i))" using ok by simp
    moreover obtain v where "um_find (fieldsOf d) i = Some v" using names_in_find [OF assms(1,2) n(1) assms(3)] n(2) by auto
    ultimately show ?thesis using True in_d0 by (simp add: setAttributes_find [OF ok] split: option.splits)
  next
    case False
    then have "i \<notin> fst ` set (fieldsOf ?p)" by (auto simp: proj_data_def)
    then have "um_find (fieldsOf ?p) i = None" by (rule um_find_absent)
    with False show ?thesis by (simp add: setAttributes_find [OF ok] split: option.splits)
  qed
qed

text \<open>\<open>fold\<close> of the projections in any order; what is covered is restored.\<close>

lemma setAttributes_proj_fold:
  assumes "schema_ok s" and "\<forall>attrs \<in> set part. names_in s attrs" and "full_data s d"
    and "um_keys (fieldsOf d0) = um_keys (fieldsOf d)"
  shows "um_keys (fieldsOf (fold (\<lambda>attrs. setAttributes (proj_data s attrs d)) part d0)) = um_keys (fieldsOf d)
    \<and> um_find (fieldsOf (fold (\<lambda>attrs. setAttributes (proj_data s attrs d)) part d0)) i =
      (if i \<in> attr_index s ` set (concat part) then um_find (fieldsOf d) i else um_find (fieldsOf d0) i)"
  using assms(2,4)
proof (induction part arbitrary: d0)
  case (Cons attrs part)
  let ?d1 = "setAttributes (proj_data s attrs d) d0"
  have "um_keys (fieldsOf ?d1) = um_keys (fieldsOf d)" using Cons.prems by simp
  from Cons.IH [OF _ this] Cons.prems setAttributes_proj [OF assms(1) _ assms(3), of attrs d0]
  show ?case by auto
qed simp

definition covers :: "schema \<Rightarrow> partitioning \<Rightarrow> bool" where
  "covers s part \<longleftrightarrow> (\<forall>attrs \<in> set part. names_in s attrs)
     \<and> attr_index s ` set (concat part) = {..<length (attributes s)}"

lemma setAttributes_schema [simp]: "schemaOf (setAttributes d' d) = schemaOf d"
  by (simp add: setAttributes_def)

lemma recombined_data:
  assumes "schema_ok s" and "covers s part" and "full_data s d"
  shows "fold (\<lambda>attrs. setAttributes (proj_data s attrs d)) part (newAttributeData s) = d"
proof -
  let ?r = "fold (\<lambda>attrs. setAttributes (proj_data s attrs d)) part (newAttributeData s)"
  have k: "um_keys (fieldsOf (newAttributeData s)) = um_keys (fieldsOf d)"
    using AttributeData_fields [OF assms(1)] assms(3) by (simp add: newAttributeData_def full_data_def comp_def map_idI)
  have cov: "\<forall>attrs \<in> set part. names_in s attrs" using assms(2) by (simp add: covers_def)
  note r = setAttributes_proj_fold [OF assms(1) cov assms(3) k]
  have "um_find (fieldsOf d) i = um_find (fieldsOf (newAttributeData s)) i"
    if "i \<notin> attr_index s ` set (concat part)" for i
    using that assms(2,3) k
    by (auto simp: covers_def full_data_def) (metis atLeastLessThan_iff list.set_map set_upt um_find_absent zero_le)
  with r have "um_find (fieldsOf ?r) i = um_find (fieldsOf d) i" for i by auto
  then have "fieldsOf ?r = fieldsOf d"
    using r assms(3) by (intro um_eqI) (auto simp: full_data_def data_ok_def)
  moreover have "schemaOf (fold (\<lambda>attrs. setAttributes (proj_data s attrs d)) part d0) = schemaOf d0" for d0
    by (induction part arbitrary: d0) auto
  ultimately show ?thesis using assms(3) by (simp add: newAttributeData_def full_data_def)
qed

text \<open>\<open>splits g b sub\<close>: \<open>sub\<close> has the structure of \<open>b\<close> and the record \<open>g e\<close> on the copy of edge \<open>e\<close>.\<close>

definition splits :: "(edge \<Rightarrow> attributeData) \<Rightarrow> block \<Rightarrow> block \<Rightarrow> bool" where
  "splits g b sub \<longleftrightarrow>
     view (neigs sub) = map (\<lambda>(h, nl). (h, map (\<lambda>e. (toVertex e, tm e, Some (g e))) (edges nl))) (neigs b)"

lemma splits_lookup:
  assumes "splits g b sub" and "um_ok (neigs b)" and "(h, nl) \<in> set (neigs b)" and "k < length (edges nl)"
  shows "\<exists>nl' a. um_find (neigs sub) h = Some nl' \<and> k < length (edges nl')
    \<and> edata (edges nl' ! k) = Some (a, g (edges nl ! k))"
proof -
  let ?row = "\<lambda>nl. map (\<lambda>e. (toVertex e, tm e, Some (g e))) (edges nl)"
  have "um_find (view (neigs sub)) h = Some (?row nl)"
    using assms by (simp add: splits_def um_find_map)
  then obtain nl' where nl': "um_find (neigs sub) h = Some nl'" "map strip (edges nl') = ?row nl"
    unfolding view_def um_find_map by auto
  have len: "length (edges nl') = length (edges nl)"
    using arg_cong [OF nl'(2), of length] by simp
  with assms(4) have "strip (edges nl' ! k) = ?row nl ! k"
    using arg_cong [OF nl'(2), of "\<lambda>xs. xs ! k"] by simp
  with assms(4) have "map_option snd (edata (edges nl' ! k)) = Some (g (edges nl ! k))" by (simp add: strip_def)
  with nl'(1) len assms(4) show ?thesis by auto
qed

text \<open>\<open>serves P getBlk ids subs\<close>: asked for one of the ids, the block source returns a block that looks
  like the block of that id and stays in a state where it does.\<close>

definition serves :: "('m \<Rightarrow> bool) \<Rightarrow> (blockId \<Rightarrow> 'm \<Rightarrow> (block \<times> 'm) result) \<Rightarrow> blockId list \<Rightarrow> block list \<Rightarrow> bool" where
  "serves P getBlk ids subs \<longleftrightarrow>
     list_all2 (\<lambda>i sub. \<forall>m. P m \<longrightarrow>
       (\<exists>sub' m'. getBlk i m = Inr (sub', m') \<and> view (neigs sub') = view (neigs sub) \<and> P m')) ids subs"

lemma gather_data_result:
  assumes "serves P getBlk ids subs" and "list_all2 (\<lambda>attrs sub. splits (proj_data s attrs \<circ> the_data) b sub) part subs"
    and "um_ok (neigs b)" and "(h, nl) \<in> set (neigs b)" and "k < length (edges nl)" and "P m"
  shows "\<exists>m'. gather_data getBlk h k ids d0 m =
    Inr (fold (\<lambda>attrs. setAttributes (proj_data s attrs (the_data (edges nl ! k)))) part d0, m') \<and> P m'"
  using assms(2,1,6) unfolding serves_def
proof (induction part subs arbitrary: ids d0 m rule: list_all2_induct)
  case (Cons attrs part sub subs)
  then obtain i ids' where ids [simp]: "ids = i # ids'" by (cases ids) auto
  from Cons.prems obtain sub' m1 where m1: "getBlk i m = Inr (sub', m1)" "P m1" "view (neigs sub') = view (neigs sub)"
    by auto
  with Cons.hyps(1) have "splits (proj_data s attrs \<circ> the_data) b sub'" by (simp add: splits_def)
  from splits_lookup [OF this assms(3-5)] obtain nl' a where
    "um_find (neigs sub') h = Some nl'" "k < length (edges nl')"
    "edata (edges nl' ! k) = Some (a, proj_data s attrs (the_data (edges nl ! k)))" by auto
  with m1 Cons.IH [OF _ m1(2), of ids'] Cons.prems show ?case by (simp add: vec_index_def)
qed simp

definition skeleton :: "(vertexId, neighborList) umap \<Rightarrow> (vertexId \<times> (vertexId \<times> timestamp) list) list" where
  "skeleton m = map (\<lambda>(h, nl). (h, map (\<lambda>e. (toVertex e, tm e)) (edges nl))) m"

lemma numbered_skeleton:
  "map (\<lambda>(h, k, e). (h, k, toVertex e, tm e)) (numbered_edges m) =
    concat (map (\<lambda>(h, xs). map (\<lambda>(k, x). (h, k, x)) (List.enumerate 0 xs)) (skeleton m))"
proof -
  have "map (\<lambda>(h, k, e). (h, k, toVertex e, tm e)) (map (\<lambda>(k, e). (h, k, e)) (List.enumerate n es)) =
      map (\<lambda>(k, x). (h, k, x)) (List.enumerate n (map (\<lambda>e. (toVertex e, tm e)) es))" for h n es
    by (induction es arbitrary: n) auto
  then show ?thesis
    unfolding numbered_edges_def skeleton_def map_concat map_map
    by (intro arg_cong [where f = concat] map_cong) auto
qed

lemma splits_skeleton: "splits g b sub \<Longrightarrow> skeleton (neigs sub) = skeleton (neigs b)"
proof -
  assume "splits g b sub"
  then have "map (\<lambda>(h, xs). (h, map (\<lambda>(to, t, d). (to, t)) xs)) (view (neigs sub)) =
      map (\<lambda>(h, xs). (h, map (\<lambda>(to, t, d). (to, t)) xs))
        (map (\<lambda>(h, nl). (h, map (\<lambda>e. (toVertex e, tm e, Some (g e))) (edges nl))) (neigs b))"
    by (simp add: splits_def)
  then show ?thesis by (simp add: view_def skeleton_def strip_def comp_def case_prod_beta')
qed

lemma recombine_edge_skeleton:
  "recombine_edge s getBlk ids (h, k, e) = recombine_edge s getBlk ids (h, k, \<lparr>toVertex = toVertex e, tm = tm e, edata = None\<rparr>)"
  by (rule ext) (auto simp: Let_def)

lemma for_each_recombine_skeleton:
  assumes "skeleton m = skeleton m'"
  shows "for_each (recombine_edge s getBlk ids) (numbered_edges m) = for_each (recombine_edge s getBlk ids) (numbered_edges m')"
proof -
  let ?g = "\<lambda>(h, k, to, t). recombine_edge s getBlk ids (h, k, \<lparr>toVertex = to, tm = t, edata = None\<rparr>)"
  have "recombine_edge s getBlk ids = ?g \<circ> (\<lambda>(h, k, e). (h, k, toVertex e, tm e))"
  proof (rule ext, goal_cases)
    case (1 x)
    obtain h k e where x: "x = (h, k, e)" by (cases x) auto
    show ?case unfolding x comp_def prod.case by (rule recombine_edge_skeleton)
  qed
  then have "for_each (recombine_edge s getBlk ids) xs st = for_each ?g (map (\<lambda>(h, k, e). (h, k, toVertex e, tm e)) xs) st"
    for xs st by (simp add: for_each_map)
  then show ?thesis by (simp add: fun_eq_iff numbered_skeleton assms)
qed

lemma recombine_loop:
  assumes "copied f xs b rd" and "copyable f (xs @ map (\<lambda>(h, k, e). (h, e)) ys)" and "P m"
    and "\<And>h k e m. (h, k, e) \<in> set ys \<Longrightarrow> P m \<Longrightarrow>
      \<exists>m'. gather_data getBlk h k ids (newAttributeData s) m = Inr (f (h, e), m') \<and> P m'"
  shows "\<exists>b' rd' m'. for_each (recombine_edge s getBlk ids) ys (b, rd, m) = Inr (b', rd', m')
    \<and> copied f (xs @ map (\<lambda>(h, k, e). (h, e)) ys) b' rd' \<and> P m'
    \<and> bid b' = bid b \<and> partitionNo b' = partitionNo b \<and> subBlocks b' = subBlocks b"
  using assms
proof (induction ys arbitrary: xs b rd m)
  case (Cons y ys)
  obtain h k e where [simp]: "y = (h, k, e)" by (cases y) auto
  obtain m1 where m1: "gather_data getBlk h k ids (newAttributeData s) m = Inr (f (h, e), m1)" "P m1"
    using Cons.prems(3,4) by force
  let ?m = "if et_find rd (trip h e) = None then m1 else m"
  obtain b1 where b1: "addEdge h (toVertex e) (tm e) (shared rd (trip h e) (f (h, e))) b = Inr b1"
      "copied f (xs @ [(h, e)]) b1 (remember rd (trip h e) (f (h, e)))"
      "bid b1 = bid b" "partitionNo b1 = partitionNo b" "subBlocks b1 = subBlocks b"
    using copy_step_in [OF Cons.prems(1), of h e] Cons.prems(2) by auto
  have "recombine_edge s getBlk ids (h, k, e) (b, rd, m) = Inr (b1, remember rd (trip h e) (f (h, e)), ?m)"
    using b1(1) m1(1) by (auto simp: trip_def shared_def remember_def Let_def split: option.splits)
  moreover have "P ?m" using m1(2) Cons.prems(3) by simp
  ultimately show ?case using Cons.IH [OF b1(2), of ?m] Cons.prems b1(3-5) by simp
qed simp

lemma numbered_all_edges: "map (\<lambda>(h, k, e). (h, e)) (numbered_edges m) = all_edges m"
proof -
  have "map (\<lambda>(h, k, e). (h, e)) (map (\<lambda>(k, e). (h, k, e)) (List.enumerate n es)) = map (\<lambda>e. (h, e)) es"
    for h :: vertexId and n and es :: "edge list"
    by (induction es arbitrary: n) auto
  then show ?thesis
    unfolding numbered_edges_def all_edges_def map_concat map_map
    by (intro arg_cong [where f = concat] map_cong) (auto simp: list_edges_def)
qed

lemma numbered_edges_mem:
  "(h, k, e) \<in> set (numbered_edges m) \<Longrightarrow> \<exists>nl. (h, nl) \<in> set m \<and> k < length (edges nl) \<and> e = edges nl ! k"
  by (auto simp: numbered_edges_def in_set_enumerate_eq)

lemma view_of_ok:
  assumes "block_ok s b"
  shows "map (\<lambda>(h, nl). (h, map (\<lambda>e. (toVertex e, tm e, Some (the_data e))) (edges nl))) (neigs b) = view (neigs b)"
  unfolding view_def
proof (intro map_cong refl, clarify, intro conjI refl map_cong)
  fix h nl e
  assume "(h, nl) \<in> set (neigs b)" "e \<in> set (edges nl)"
  then have "(h, e) \<in> set (all_edges (neigs b))" by (auto simp: all_edges_mem)
  from block_okD(3) [OF assms this] show "(toVertex e, tm e, Some (the_data e)) = strip e"
    by (auto simp: strip_def)
qed

lemma recombineBlock_result:
  assumes "schema_ok s" and "covers s part" and ok: "block_ok s b" and "splits (\<lambda>e. empty_data s) b master"
    and "subBlocks master = ids" and "ids \<noteq> []" and "P m" and "serves P getBlk ids subs"
    and "list_all2 (\<lambda>attrs sub. splits (proj_data s attrs \<circ> the_data) b sub) part subs"
  shows "\<exists>b' m'. recombineBlock s getBlk master m = Inr (b', m') \<and> P m' \<and> view (neigs b') = view (neigs b)
    \<and> partitionNo b' = Some no_partition \<and> subBlocks b' = [] \<and> bid b' = 0"
proof -
  let ?f = "\<lambda>(h, e). the_data e" and ?b0 = "Block 0\<lparr>partitionNo := Some no_partition\<rparr>"
  have heads: "heads_ok (neigs b)" using ok by (simp add: block_ok_def)
  have "full_data s d \<Longrightarrow> data_ok d" for d by (simp add: full_data_def)
  then have cop: "copyable ?f ([] @ map (\<lambda>(h, k, e). (h, e)) (numbered_edges (neigs b)))"
    using block_ok_copyable [OF ok, of "\<lambda>d. d"] by (simp add: numbered_all_edges)
  have gather: "\<exists>m'. gather_data getBlk h k ids (newAttributeData s) m = Inr (?f (h, e), m') \<and> P m'"
    if "(h, k, e) \<in> set (numbered_edges (neigs b))" "P m" for h k e m
  proof -
    from numbered_edges_mem [OF that(1)] obtain nl where
      nl: "(h, nl) \<in> set (neigs b)" "k < length (edges nl)" "e = edges nl ! k" by blast
    then have "(h, e) \<in> set (all_edges (neigs b))" unfolding all_edges_mem by (metis nth_mem)
    then have "full_data s (the_data e)" by (rule block_okD(2) [OF ok])
    from recombined_data [OF assms(1,2) this]
      gather_data_result [OF assms(8,9) _ nl(1,2) that(2), of "newAttributeData s"] nl(3) heads
    show ?thesis by (simp add: heads_ok_def)
  qed
  have "copied ?f [] ?b0 []" by (simp add: copied_init)
  from recombine_loop [OF this cop assms(7) gather] obtain b' rd' m' where
    l: "for_each (recombine_edge s getBlk ids) (numbered_edges (neigs b)) (?b0, [], m) = Inr (b', rd', m')"
      "copied ?f (all_edges (neigs b)) b' rd'" "P m'" "bid b' = 0" "partitionNo b' = Some no_partition" "subBlocks b' = []"
    by (auto simp: numbered_all_edges Block_def)
  have "for_each (recombine_edge s getBlk ids) (numbered_edges (neigs master)) =
      for_each (recombine_edge s getBlk ids) (numbered_edges (neigs b))"
    by (rule for_each_recombine_skeleton [OF splits_skeleton [OF assms(4)]])
  moreover have "view (neigs b') = view (neigs b)"
    using copied_view [OF l(2) heads] view_of_ok [OF ok] by simp
  ultimately show ?thesis using l assms(5,6) by (simp add: recombineBlock_def)
qed

lemma map_result_subs:
  assumes "schema_ok s" and "\<forall>attrs \<in> set part. names_in s attrs" and "block_ok s b"
  shows "\<exists>subs. map_result (\<lambda>(i, attrs). sub_block s b i attrs) (List.enumerate n part) = Inr subs
    \<and> list_all2 (\<lambda>attrs sub. splits (proj_data s attrs \<circ> the_data) b sub) part subs
    \<and> map partitionNo subs = map (Some \<circ> word_of_nat) [n..<n + length part]
    \<and> (\<forall>sub \<in> set subs. heads_ok (neigs sub) \<and> subBlocks sub = [])"
  using assms(2)
proof (induction part arbitrary: n)
  case (Cons attrs part)
  from Cons.prems sub_block_result [OF assms(1) _ assms(3), of attrs n] obtain sub where
    "sub_block s b n attrs = Inr sub" "partitionNo sub = Some (word_of_nat n)" "heads_ok (neigs sub)" "subBlocks sub = []"
    "splits (\<lambda>e. proj_data s attrs (the_data e)) b sub" by (auto simp: splits_def)
  moreover have "[n..<n + length (attrs # part)] = n # [Suc n..<Suc n + length part]"
    by (simp add: upt_rec)
  ultimately show ?case using Cons.IH [of "Suc n"] Cons.prems by (auto simp: comp_def)
qed simp

section \<open>Properties\<close>

lemma findMinMax_succeeds:
  assumes "\<forall>(h, nl) \<in> set m. edges nl \<noteq> []"
  shows "\<exists>r. for_each minmax_step m (mn, mx) = Inr r"
  using assms
proof (induction m arbitrary: mn mx)
  case (Cons p m)
  obtain h nl where [simp]: "p = (h, nl)" by force
  from Cons.prems obtain e es where "edges nl = e # es" by (cases "edges nl") auto
  with Cons show ?case by (simp add: getOldestEdge_def getNewestEdge_def)
qed simp

lemma getPartitioningTimestamp_succeeds: "heads_ok (neigs b) \<Longrightarrow> \<exists>t. getPartitioningTimestamp b = Inr t"
  using findMinMax_succeeds [of "neigs b" d_max 0]
  by (force simp: heads_ok_def getPartitioningTimestamp_def findMinMaxTimestamps_def)

text \<open>C3: \<open>recombineBlock\<close> inverts \<open>partitionBlock\<close>. For a well-formed block and any partitioning of the
  edge schema (overlapping or not) whose partitions together cover every attribute, \<open>partitionBlock\<close>
  returns a master block without edge data and one block per partition, numbered in order; and from a
  block manager that serves these sub-blocks under the ids recorded in the master, \<open>recombineBlock\<close>
  returns a block with the same heads, the same edges in the same order and the same attribute values.\<close>

theorem recombine_partition_inverse:
  assumes "schema_ok s" and "covers s part" and "part \<noteq> []" and "block_ok s b"
    and "\<And>t. getPart t pidx = Inr (part, pidx')"
  shows "\<exists>master subs. partitionBlock s getPart b pidx = Inr (master # subs, pidx')
    \<and> partitionNo master = Some no_partition
    \<and> map partitionNo subs = map (Some \<circ> word_of_nat) [0..<length part]
    \<and> (\<forall>P getBlk ids (m :: 'm). serves P getBlk ids subs \<and> P m \<longrightarrow>
        (\<exists>b' m'. recombineBlock s getBlk (master\<lparr>subBlocks := ids\<rparr>) m = Inr (b', m') \<and> P m'
          \<and> view (neigs b') = view (neigs b)))"
proof -
  have cov: "\<forall>attrs \<in> set part. names_in s attrs" using assms(2) by (simp add: covers_def)
  obtain t where t: "getPartitioningTimestamp b = Inr t"
    using getPartitioningTimestamp_succeeds [of b] assms(4) unfolding block_ok_def by blast
  from master_block_result [OF assms(4)] obtain master where master:
    "master_block s b = Inr master" "partitionNo master = Some no_partition" "splits (\<lambda>e. empty_data s) b master"
    by (auto simp: splits_def)
  from map_result_subs [OF assms(1) cov assms(4), of 0] obtain subs where subs:
    "map_result (\<lambda>(i, attrs). sub_block s b i attrs) (List.enumerate 0 part) = Inr subs"
    "list_all2 (\<lambda>attrs sub. splits (proj_data s attrs \<circ> the_data) b sub) part subs"
    "map partitionNo subs = map (Some \<circ> word_of_nat) [0..<length part]" by auto
  have "\<exists>b' m'. recombineBlock s getBlk (master\<lparr>subBlocks := ids\<rparr>) m = Inr (b', m') \<and> P m'
      \<and> view (neigs b') = view (neigs b)" if "serves P getBlk ids subs" "P m" for P getBlk ids and m :: 'm
  proof -
    have "splits (\<lambda>e. empty_data s) b (master\<lparr>subBlocks := ids\<rparr>)" using master(3) by (simp add: splits_def)
    moreover have "ids \<noteq> []"
      using that(1) subs(2) assms(3) by (auto simp: serves_def dest: list_all2_lengthD)
    ultimately show ?thesis
      using recombineBlock_result [OF assms(1,2,4), of "master\<lparr>subBlocks := ids\<rparr>" ids P m getBlk subs] that subs(2) by auto
  qed
  with t master subs assms(5) show ?thesis by (auto simp: partitionBlock_def)
qed

text \<open>A concrete block with one edge in both directions, for the witnesses.\<close>

definition ex_edge :: "vertexId \<Rightarrow> edge" where
  "ex_edge v = \<lparr>toVertex = v, tm = 4607182418800017408, edata = Some (7, ex_data)\<rparr>"

definition ex_block :: block where
  "ex_block = Block 0\<lparr>neigs := [(1, \<lparr>headVertex = 1, edges = [ex_edge 2]\<rparr>), (2, \<lparr>headVertex = 2, edges = [ex_edge 1]\<rparr>)]\<rparr>"

lemma ex_schema_ok: "schema_ok ex_schema"
  by (simp add: ex_schema_def Schema_ok)

lemma ex_full_data: "full_data ex_schema ex_data"
  by (simp add: full_data_def ex_data_schema ex_data_fields ex_schema_attributes ex_data_ok upt_rec)

lemma ex_block_ok: "block_ok ex_schema ex_block"
proof -
  have "\<not> is_nan 4607182418800017408" by (simp add: is_nan_def dmag_def inf_mag_def)
  then show ?thesis
    by (simp add: block_ok_def ex_block_def heads_ok_def all_edges_def list_edges_def ex_edge_def the_data_def
        ex_full_data Block_def)
qed

definition ex_part :: partitioning where
  "ex_part = [[''age''], [''nick'']]"

lemma ex_covers: "covers ex_schema ex_part"
proof -
  have n: "nameToIndex ex_schema = [(''age'', 0), (''nick'', 1)]" by code_simp
  have "{..<2} = {0, 1 :: nat}" by auto
  then show ?thesis
    by (simp add: covers_def names_in_def attr_index_def n ex_part_def ex_schema_attributes numeral_2_eq_2)
qed

theorem recombine_partition_inverse_witness:
  "\<exists>master subs. partitionBlock ex_schema (\<lambda>t i. Inr (ex_part, i)) ex_block (0 :: nat) = Inr (master # subs, 0)
    \<and> partitionNo master = Some no_partition
    \<and> map partitionNo subs = map (Some \<circ> word_of_nat) [0..<length ex_part]
    \<and> (\<exists>b'. recombineBlock ex_schema (\<lambda>i m. Inr (m ! unat i, m)) (master\<lparr>subBlocks := [0, 1]\<rparr>) subs = Inr (b', subs)
          \<and> view (neigs b') = view (neigs ex_block))"
proof -
  from recombine_partition_inverse [OF ex_schema_ok ex_covers _ ex_block_ok,
      where getPart = "\<lambda>t i. Inr (ex_part, i)" and pidx = "0 :: nat" and pidx' = 0 and 'm = "block list"]
  obtain master subs where ms: "partitionBlock ex_schema (\<lambda>t i. Inr (ex_part, i)) ex_block (0 :: nat) = Inr (master # subs, 0)"
      "partitionNo master = Some no_partition" "map partitionNo subs = map (Some \<circ> word_of_nat) [0..<length ex_part]"
    and r: "\<And>P getBlk ids m. serves P getBlk ids subs \<Longrightarrow> P m \<Longrightarrow>
        \<exists>b' m'. recombineBlock ex_schema getBlk (master\<lparr>subBlocks := ids\<rparr>) (m :: block list) = Inr (b', m') \<and> P m'
          \<and> view (neigs b') = view (neigs ex_block)"
    by (auto simp: ex_part_def)
  have "length subs = 2" using arg_cong [OF ms(3), of length] by (simp add: ex_part_def)
  then obtain s0 s1 where s: "subs = [s0, s1]" by (auto simp: numeral_2_eq_2 length_Suc_conv)
  have "serves (\<lambda>m. m = subs) (\<lambda>i m. Inr (m ! unat i, m)) [0, 1] subs" by (simp add: serves_def s)
  from r [OF this refl] ms show ?thesis by auto
qed

end
