(* ===== verification/BlockCodec.thy ===== *)
theory BlockCodec
  imports BlockPartition
begin

text \<open>
  The on-disk format of a block (\<^verbatim>\<open>Block::serialize\<close>, \<^verbatim>\<open>Block::deserialize\<close>): id, sub-block ids, time
  range, partition number, then per head vertex the number of its edges and the edges. The attribute
  record of an edge is written once, at the first of its two directions, and not at all in a master
  block. \<open>lists_enc\<close> is this format as a function of the block; the theorems show that \<open>serialize\<close>
  writes it, that \<open>deserialize\<close> reads the block back, and how its length relates to the size the block
  keeps account of.
\<close>

section \<open>Writers with a result\<close>

definition emits :: "(nbuf \<Rightarrow> ('v \<times> nbuf) result) \<Rightarrow> byte list \<Rightarrow> 'v \<Rightarrow> bool" where
  "emits f bs v \<longleftrightarrow> (\<forall>nb. nb_ok nb \<and> autoDealloc nb \<and> icursor nb + length bs \<le> 2 ^ 32 \<longrightarrow>
     (\<exists>nb'. f nb = Inr (v, nb') \<and> nb_ok nb' \<and> autoDealloc nb' \<and> content nb' = content nb @ bs
            \<and> ocursor nb' = ocursor nb))"

lemma emits_iff: "emits (\<lambda>nb. rbind (f nb) (\<lambda>nb1. Inr (v, nb1))) bs v \<longleftrightarrow> appends f bs"
  by (auto simp: emits_def appends_def rbind_Inr_iff)

lemma emits_appendsI: "emits f bs v \<Longrightarrow> appends (\<lambda>nb. rbind (f nb) (\<lambda>(v, nb1). Inr nb1)) bs"
  by (force simp: emits_def appends_def)

lemma appends_fit:
  assumes "appends f bs" and "nb_ok nb" and "autoDealloc nb" and "icursor nb + length bs \<le> 2 ^ 32"
  obtains nb' where "f nb = Inr nb'" "nb_ok nb'" "autoDealloc nb'" "content nb' = content nb @ bs"
    "ocursor nb' = ocursor nb" "icursor nb' = icursor nb + length bs"
  using appends_eqD [OF assms] assms(2) by (metis length_append length_content)

lemma emits_after:
  assumes "appends f bs" and "emits g cs v"
  shows "emits (\<lambda>nb. rbind (f nb) g) (bs @ cs) v"
  unfolding emits_def
proof (intro allI impI, elim conjE)
  fix nb :: nbuf
  assume nb: "nb_ok nb" "autoDealloc nb" "icursor nb + length (bs @ cs) \<le> 2 ^ 32"
  then obtain nb1 where nb1: "f nb = Inr nb1" "nb_ok nb1" "autoDealloc nb1" "content nb1 = content nb @ bs"
      "ocursor nb1 = ocursor nb" "icursor nb1 = icursor nb + length bs"
    using appends_fit [OF assms(1), of nb] by auto
  with nb assms(2) show "\<exists>nb'. rbind (f nb) g = Inr (v, nb') \<and> nb_ok nb' \<and> autoDealloc nb' \<and>
      content nb' = content nb @ bs @ cs \<and> ocursor nb' = ocursor nb"
    unfolding emits_def by force
qed

lemma emits_seq:
  assumes "emits f bs v" and "emits (g v) cs w"
  shows "emits (\<lambda>nb. rbind (f nb) (\<lambda>(x, nb1). g x nb1)) (bs @ cs) w"
proof -
  have "emits (\<lambda>nb. rbind (rbind (f nb) (\<lambda>(x, nb1). Inr nb1)) (g v)) (bs @ cs) w"
    by (rule emits_after [OF emits_appendsI [OF assms(1)] assms(2)])
  then show ?thesis using assms(1) unfolding emits_def by (simp add: rbind_assoc) (metis (no_types, lifting) add.assoc add_leD1 case_prod_conv length_append rbind_simps(2))
qed

lemma emits_Inr: "emits (\<lambda>nb. Inr (v, nb)) [] v"
  by (simp add: emits_def)

section \<open>The format\<close>

definition skip_data :: "32 word \<Rightarrow> vertexId \<Rightarrow> edge \<Rightarrow> edgeTriplet list \<Rightarrow> bool" where
  "skip_data p h e w \<longleftrightarrow> p = no_partition \<or> et_count w (trip h e)"

definition edge_enc :: "32 word \<Rightarrow> vertexId \<Rightarrow> edge \<Rightarrow> edgeTriplet list \<Rightarrow> byte list" where
  "edge_enc p h e w =
     net_word 8 (toVertex e) @ net_word 8 (tm e) @ (if skip_data p h e w then [] else data_enc (the_data e))"

definition edge_written :: "32 word \<Rightarrow> vertexId \<Rightarrow> edge \<Rightarrow> edgeTriplet list \<Rightarrow> edgeTriplet list" where
  "edge_written p h e w = (if skip_data p h e w then w else w @ [trip h e])"

fun edges_enc :: "32 word \<Rightarrow> vertexId \<Rightarrow> edge list \<Rightarrow> edgeTriplet list \<Rightarrow> byte list" where
  "edges_enc p h [] w = []"
| "edges_enc p h (e # es) w = edge_enc p h e w @ edges_enc p h es (edge_written p h e w)"

fun edges_written :: "32 word \<Rightarrow> vertexId \<Rightarrow> edge list \<Rightarrow> edgeTriplet list \<Rightarrow> edgeTriplet list" where
  "edges_written p h [] w = w"
| "edges_written p h (e # es) w = edges_written p h es (edge_written p h e w)"

definition list_head_enc :: "vertexId \<Rightarrow> neighborList \<Rightarrow> byte list" where
  "list_head_enc h nl = net_word 8 h @ net_word 4 (word_of_nat (length (edges nl)) :: 32 word)"

fun lists_enc :: "32 word \<Rightarrow> (vertexId, neighborList) umap \<Rightarrow> edgeTriplet list \<Rightarrow> byte list" where
  "lists_enc p [] w = []"
| "lists_enc p ((h, nl) # m) w =
     list_head_enc h nl @ edges_enc p h (edges nl) w @ lists_enc p m (edges_written p h (edges nl) w)"

definition block_enc :: "block \<Rightarrow> 32 word \<Rightarrow> timestamp \<Rightarrow> timestamp \<Rightarrow> byte list" where
  "block_enc b p mn mx =
     net_word 8 (bid b) @ vec_enc (net_word 8) (subBlocks b) @ net_word 8 mn @ net_word 8 mx @ net_word 4 p
       @ lists_enc p (neigs b) []"

section \<open>What \<open>serialize\<close> writes\<close>

definition edge_ser_ok :: "edge \<Rightarrow> bool" where
  "edge_ser_ok e \<longleftrightarrow> edata e \<noteq> None \<and> data_ok (the_data e)"

lemma ser_edge_emits:
  assumes "edge_ser_ok e"
  shows "emits (\<lambda>nb. ser_edge p h e (w, nb)) (edge_enc p h e w) (edge_written p h e w)"
proof -
  obtain a where a: "edata e = Some (a, the_data e)" and ok: "data_ok (the_data e)"
    using assms by (auto simp: edge_ser_ok_def the_data_def)
  let ?rest = "\<lambda>nb2. if skip_data p h e w then Inr (w, nb2)
    else rbind (addAttributeData (the_data e) nb2) (\<lambda>nb3. Inr (w @ [trip h e], nb3))"
  have "emits ?rest (if skip_data p h e w then [] else data_enc (the_data e)) (edge_written p h e w)"
    using addAttributeData_appends [OF ok] by (simp add: edge_written_def emits_Inr emits_iff)
  from emits_after [OF c_uint64.add_appends [OF TrueI, of "toVertex e"]
      emits_after [OF c_double.add_appends [OF TrueI, of "tm e"] this]]
  have "emits (\<lambda>nb. rbind (addUInt64 (toVertex e) nb) (\<lambda>nb1. rbind (addDouble (tm e) nb1) ?rest))
      (edge_enc p h e w) (edge_written p h e w)"
    by (simp add: edge_enc_def)
  moreover have "ser_edge p h e (w, nb) =
      rbind (addUInt64 (toVertex e) nb) (\<lambda>nb1. rbind (addDouble (tm e) nb1) ?rest)" for nb
    by (cases "p = no_partition"; cases "et_count w (trip h e)") (simp_all add: skip_data_def trip_def a)
  ultimately show ?thesis by simp
qed

lemma ser_edges_emits:
  assumes "\<forall>e \<in> set es. edge_ser_ok e"
  shows "emits (\<lambda>nb. for_each (ser_edge p h) es (w, nb)) (edges_enc p h es w) (edges_written p h es w)"
  using assms
proof (induction es arbitrary: w)
  case (Cons e es)
  have "emits (\<lambda>nb. rbind (ser_edge p h e (w, nb)) (\<lambda>(x, nb1). for_each (ser_edge p h) es (x, nb1)))
      (edge_enc p h e w @ edges_enc p h es (edge_written p h e w)) (edges_written p h (e # es) w)"
    using emits_seq [where g = "\<lambda>x nb1. for_each (ser_edge p h) es (x, nb1)", OF ser_edge_emits] Cons by simp
  then show ?case by (simp add: case_prod_eta del: ser_edge.simps)
qed (simp add: emits_Inr)

lemma ser_list_emits:
  assumes "\<forall>e \<in> set (edges nl). edge_ser_ok e"
  shows "emits (\<lambda>nb. ser_list p (h, nl) (w, nb)) (list_head_enc h nl @ edges_enc p h (edges nl) w)
    (edges_written p h (edges nl) w)"
  using emits_after [OF c_uint64.add_appends [OF TrueI, of h]
      emits_after [OF c_uint32.add_appends [OF TrueI] ser_edges_emits [OF assms]]]
  by (simp add: list_head_enc_def del: ser_edge.simps)

lemma ser_lists_emits:
  assumes "\<forall>(h, nl) \<in> set m. \<forall>e \<in> set (edges nl). edge_ser_ok e"
  shows "\<exists>w'. emits (\<lambda>nb. for_each (ser_list p) m (w, nb)) (lists_enc p m w) w'"
  using assms
proof (induction m arbitrary: w)
  case Nil
  then show ?case by (auto intro: emits_Inr)
next
  case (Cons hn m)
  obtain h nl where [simp]: "hn = (h, nl)" by force
  from Cons obtain w' where "emits (\<lambda>nb. for_each (ser_list p) m (edges_written p h (edges nl) w, nb))
      (lists_enc p m (edges_written p h (edges nl) w)) w'" by fastforce
  from emits_seq [where g = "\<lambda>x nb1. for_each (ser_list p) m (x, nb1)", OF ser_list_emits this] Cons.prems
  show ?case by (auto simp: case_prod_eta simp del: ser_list.simps)
qed

definition ser_ok :: "block \<Rightarrow> bool" where
  "ser_ok b \<longleftrightarrow> (\<forall>(h, e) \<in> set (all_edges (neigs b)). edge_ser_ok e)
     \<and> (\<exists>p. partitionNo b = Some p \<and> (p \<noteq> no_partition \<or> subBlocks b \<noteq> []))"

lemma serialize_appends:
  assumes "ser_ok b" and "partitionNo b = Some p" and "findMinMaxTimestamps b = Inr (mn, mx)"
  shows "appends (serialize b) (block_enc b p mn mx)"
proof -
  have "\<forall>(h, nl) \<in> set (neigs b). \<forall>e \<in> set (edges nl). edge_ser_ok e"
    using assms(1) by (fastforce simp: ser_ok_def all_edges_mem)
  then obtain w' where l: "emits (\<lambda>nb. for_each (ser_list p) (neigs b) ([], nb)) (lists_enc p (neigs b) []) w'"
    using ser_lists_emits by blast
  have sub: "appends (addVector addUInt64 (subBlocks b)) (vec_enc (net_word 8) (subBlocks b))"
    using c_uint64.vector_appends [of "subBlocks b"] by (simp add: vec_enc_def)
  have "emits (\<lambda>nb. rbind (addUInt64 (bid b) nb) (\<lambda>nb1. rbind (addVector addUInt64 (subBlocks b) nb1) (\<lambda>nb2.
      rbind (addDouble mn nb2) (\<lambda>nb3. rbind (addDouble mx nb3) (\<lambda>nb4. rbind (addInt32 p nb4) (\<lambda>nb5.
        for_each (ser_list p) (neigs b) ([], nb5)))))))
      (block_enc b p mn mx) w'"
    unfolding block_enc_def
    by (intro emits_after [OF c_uint64.add_appends] emits_after [OF sub] emits_after [OF c_double.add_appends]
        emits_after [OF c_int32.add_appends] l) simp_all
  from emits_appendsI [OF this] show ?thesis
    using assms by (simp add: serialize_def [abs_def] rbind_assoc ser_ok_def case_prod_beta' del: ser_list.simps)
qed

section \<open>What \<open>deserialize\<close> reads\<close>

definition reads :: "nbuf \<Rightarrow> byte list \<Rightarrow> bool" where
  "reads nb bs \<longleftrightarrow> (\<exists>rest. drop (ocursor nb) (buf nb) = bs @ rest) \<and> ocursor nb \<le> length (buf nb)"

definition adv :: "nbuf \<Rightarrow> byte list \<Rightarrow> nbuf" where
  "adv nb bs = nb\<lparr>ocursor := ocursor nb + length bs\<rparr>"

lemma adv_simps [simp]:
  "adv (adv nb bs) cs = adv nb (bs @ cs)" "adv nb [] = nb"
  "buf (adv nb bs) = buf nb" "icursor (adv nb bs) = icursor nb" "ocursor (adv nb bs) = ocursor nb + length bs"
  by (simp_all add: adv_def add.assoc)

lemma reads_adv: "reads nb (bs @ cs) \<Longrightarrow> reads (adv nb bs) cs"
proof -
  assume "reads nb (bs @ cs)"
  then obtain rest where d: "drop (ocursor nb) (buf nb) = bs @ cs @ rest" "ocursor nb \<le> length (buf nb)"
    by (auto simp: reads_def)
  have "drop (length bs) (drop (ocursor nb) (buf nb)) = cs @ rest" by (simp add: d)
  moreover have "length bs \<le> length (drop (ocursor nb) (buf nb))" unfolding d by simp
  ultimately show ?thesis using d(2) by (auto simp: reads_def add.commute)
qed

lemma reads_prefix: "reads nb (bs @ cs) \<Longrightarrow> reads nb bs"
  by (auto simp: reads_def)

lemma consumes_reads:
  "consumes g bs v \<Longrightarrow> reads nb (bs @ cs) \<Longrightarrow> g nb = Inr (v, adv nb bs)"
  by (auto simp: consumes_def reads_def adv_def)

lemmas scalar_reads =
  consumes_reads [OF c_uint64.get_consumes [OF TrueI]] consumes_reads [OF c_double.get_consumes [OF TrueI]]
  consumes_reads [OF c_uint32.get_consumes [OF TrueI]] consumes_reads [OF c_int32.get_consumes [OF TrueI]]

text \<open>One edge of a partition block: the reader's map of triplets covers the writer's set.\<close>

definition in_step :: "readMap \<Rightarrow> edgeTriplet list \<Rightarrow> bool" where
  "in_step rd w \<longleftrightarrow> (\<forall>k. et_count w k \<longleftrightarrow> et_find rd k \<noteq> None)"

lemma in_stepD: "in_step rd w \<Longrightarrow> et_count w k \<longleftrightarrow> et_find rd k \<noteq> None"
  unfolding in_step_def by blast

lemma et_count_snoc: "et_count (w @ [k]) k' \<longleftrightarrow> et_count w k' \<or> EdgeTriplet_eq k k'"
  by (auto simp: et_count_def)

lemma in_step_remember:
  assumes "in_step rd w" and "p \<noteq> no_partition"
  shows "in_step (remember rd (trip h e) d) (edge_written p h e w)"
  unfolding in_step_def
proof (intro allI)
  fix k
  show "et_count (edge_written p h e w) k \<longleftrightarrow> et_find (remember rd (trip h e) d) k \<noteq> None"
    using in_stepD [OF assms(1), of k] in_stepD [OF assms(1), of "trip h e"] assms(2)
    by (cases "et_find rd (trip h e)")
       (auto simp: edge_written_def skip_data_def remember_def et_count_snoc et_find_snoc split: option.splits)
qed

text \<open>What the edges of a block of partition \<open>p\<close> carry: the attributes of that partition, in its order.\<close>

definition part_data :: "schema \<Rightarrow> string list \<Rightarrow> attributeData \<Rightarrow> bool" where
  "part_data s attrs d \<longleftrightarrow> data_ok d \<and> schemaOf d = s \<and> um_keys (fieldsOf d) = map (attr_index s) attrs"

lemma deser_edge_partition:
  assumes "copied f xs b rd" and "copyable f (xs @ (h, e) # ys)" and "in_step rd w" and "p \<noteq> no_partition"
    and part: "unat p < length part" "schema_ok s" "names_in s (part ! unat p)"
    and f: "f (h, e) = the_data e" and d: "part_data s (part ! unat p) (the_data e)"
    and r: "reads nb (edge_enc p h e w)"
  shows "\<exists>b1 rd1. deser_edge s p part fs h (b, rd, nb) = Inr (b1, rd1, adv nb (edge_enc p h e w))
    \<and> copied f (xs @ [(h, e)]) b1 rd1 \<and> in_step rd1 (edge_written p h e w)
    \<and> bid b1 = bid b \<and> partitionNo b1 = partitionNo b \<and> subBlocks b1 = subBlocks b"
proof -
  let ?to = "net_word 8 (toVertex e)" and ?t = "net_word 8 (tm e)"
  let ?d = "if skip_data p h e w then [] else data_enc (the_data e)"
  have to: "getUInt64 nb = Inr (toVertex e, adv nb ?to)"
    using r scalar_reads(1) by (simp add: edge_enc_def)
  have r1: "reads (adv nb ?to) (?t @ ?d)" using r by (intro reads_adv) (simp add: edge_enc_def)
  then have t: "getDouble (adv nb ?to) = Inr (tm e, adv nb (?to @ ?t))" using scalar_reads(2) by fastforce
  have r2: "reads (adv nb (?to @ ?t)) ?d" using reads_adv [OF r1] by simp
  obtain d0 where d0: "newAttributeData_of s (part ! unat p) = Inr d0" "schemaOf d0 = s"
      "um_keys (fieldsOf d0) = map (attr_index s) (part ! unat p)"
    using newAttributeData_of_fields [OF part(2,3)] by (auto simp: comp_def)
  have get: "getAttributeData d0 (adv nb (?to @ ?t)) = Inr (the_data e, adv nb (?to @ ?t @ ?d))"
    if "\<not> skip_data p h e w"
  proof -
    have "consumes (getAttributeData d0) (data_enc (the_data e)) (d0\<lparr>fieldsOf := fieldsOf (the_data e)\<rparr>)"
      using d d0 by (intro getAttributeData_consumes) (simp_all add: part_data_def)
    moreover have "d0\<lparr>fieldsOf := fieldsOf (the_data e)\<rparr> = the_data e"
      using d d0 by (simp add: part_data_def)
    ultimately show ?thesis using consumes_reads [where cs = "[]"] r2 that by fastforce
  qed
  obtain b1 where b1: "addEdge h (toVertex e) (tm e) (shared rd (trip h e) (the_data e)) b = Inr b1"
      "copied f (xs @ [(h, e)]) b1 (remember rd (trip h e) (the_data e))"
      "bid b1 = bid b" "partitionNo b1 = partitionNo b" "subBlocks b1 = subBlocks b"
    using copy_step_in [OF assms(1,2)] f by auto
  have skip: "skip_data p h e w \<longleftrightarrow> et_find rd (trip h e) \<noteq> None"
    using assms(4) in_stepD [OF assms(3)] by (simp add: skip_data_def)
  have "deser_edge s p part fs h (b, rd, nb) =
      Inr (b1, remember rd (trip h e) (the_data e), adv nb (edge_enc p h e w))"
  proof (cases "et_find rd (trip h e)")
    case None
    with skip have ns: "\<not> skip_data p h e w" by simp
    have "et_find rd (EdgeTriplet h (toVertex e) (tm e)) = None" using None by (simp add: trip_def)
    with None b1(1) get [OF ns] ns show ?thesis
      using assms(4) part(1)
      by (simp add: to t d0(1) vec_index_def Let_def remember_def shared_def trip_def edge_enc_def)
  next
    case (Some q)
    with skip have sk: "skip_data p h e w" by simp
    have "et_find rd (EdgeTriplet h (toVertex e) (tm e)) = Some q" using Some by (simp add: trip_def)
    with Some b1(1) sk show ?thesis
      using assms(4) by (simp add: to t Let_def remember_def shared_def edge_enc_def)
  qed
  with b1 in_step_remember [OF assms(3,4)] show ?thesis by blast
qed

lemma deser_edge_master:
  assumes "structured fs xs b" and "data_ok fs" and r: "reads nb (edge_enc no_partition h e w)"
  shows "\<exists>b1. deser_edge s no_partition part fs h (b, rd, nb) = Inr (b1, rd, adv nb (edge_enc no_partition h e w))
    \<and> structured fs (xs @ [(h, e)]) b1
    \<and> bid b1 = bid b \<and> partitionNo b1 = partitionNo b \<and> subBlocks b1 = subBlocks b"
proof -
  let ?to = "net_word 8 (toVertex e)" and ?t = "net_word 8 (tm e)"
  have to: "getUInt64 nb = Inr (toVertex e, adv nb ?to)"
    using r scalar_reads(1) by (simp add: edge_enc_def)
  have "reads (adv nb ?to) (?t @ [])"
    using r by (intro reads_adv) (simp add: edge_enc_def skip_data_def)
  then have t: "getDouble (adv nb ?to) = Inr (tm e, adv nb (?to @ ?t))" using scalar_reads(2) by fastforce
  from structured_step [OF assms(1,2), of h e] to t show ?thesis
    by (auto simp: edge_enc_def skip_data_def)
qed

text \<open>The loops, for any invariant that one edge preserves.\<close>

definition edge_reader ::
  "schema \<Rightarrow> 32 word \<Rightarrow> partitioning \<Rightarrow> attributeData \<Rightarrow> (vertexId \<times> edge) list
     \<Rightarrow> ((vertexId \<times> edge) list \<Rightarrow> block \<Rightarrow> readMap \<Rightarrow> edgeTriplet list \<Rightarrow> bool) \<Rightarrow> bool" where
  "edge_reader s p part fs zs Inv \<longleftrightarrow>
     (\<forall>xs h e ys b rd w nb. zs = xs @ (h, e) # ys \<and> Inv xs b rd w \<and> reads nb (edge_enc p h e w) \<longrightarrow>
        (\<exists>b1 rd1. deser_edge s p part fs h (b, rd, nb) = Inr (b1, rd1, adv nb (edge_enc p h e w))
           \<and> Inv (xs @ [(h, e)]) b1 rd1 (edge_written p h e w)))"

lemma edge_readerI:
  "(\<And>xs h e ys b rd w nb. zs = xs @ (h, e) # ys \<Longrightarrow> Inv xs b rd w \<Longrightarrow> reads nb (edge_enc p h e w) \<Longrightarrow>
      \<exists>b1 rd1. deser_edge s p part fs h (b, rd, nb) = Inr (b1, rd1, adv nb (edge_enc p h e w))
        \<and> Inv (xs @ [(h, e)]) b1 rd1 (edge_written p h e w)) \<Longrightarrow> edge_reader s p part fs zs Inv"
  unfolding edge_reader_def by blast

lemma edge_readerD:
  "edge_reader s p part fs zs Inv \<Longrightarrow> zs = xs @ (h, e) # ys \<Longrightarrow> Inv xs b rd w \<Longrightarrow> reads nb (edge_enc p h e w) \<Longrightarrow>
    \<exists>b1 rd1. deser_edge s p part fs h (b, rd, nb) = Inr (b1, rd1, adv nb (edge_enc p h e w))
      \<and> Inv (xs @ [(h, e)]) b1 rd1 (edge_written p h e w)"
  unfolding edge_reader_def by blast

lemma deser_edges_run:
  assumes "edge_reader s p part fs zs Inv" and "zs = xs @ map (\<lambda>e. (h, e)) es @ ys" and "Inv xs b rd w"
    and "reads nb (edges_enc p h es w)"
  shows "\<exists>b1 rd1. deser_edges s p part fs h (length es) (b, rd, nb) = Inr (b1, rd1, adv nb (edges_enc p h es w))
    \<and> Inv (xs @ map (\<lambda>e. (h, e)) es) b1 rd1 (edges_written p h es w)"
  using assms(2-4)
proof (induction es arbitrary: xs b rd w nb)
  case (Cons e es)
  have r: "reads nb (edge_enc p h e w)" using Cons.prems(3) reads_prefix by fastforce
  have zs: "zs = xs @ (h, e) # map (\<lambda>e. (h, e)) es @ ys" using Cons.prems(1) by simp
  from edge_readerD [OF assms(1) zs Cons.prems(2) r]
  obtain b1 rd1 where 1: "deser_edge s p part fs h (b, rd, nb) = Inr (b1, rd1, adv nb (edge_enc p h e w))"
      "Inv (xs @ [(h, e)]) b1 rd1 (edge_written p h e w)"
    by blast
  have "reads (adv nb (edge_enc p h e w)) (edges_enc p h es (edge_written p h e w))"
    using Cons.prems(3) by (intro reads_adv) simp
  from Cons.IH [OF _ 1(2) this] zs 1(1) show ?case by (simp del: deser_edge.simps)
qed simp

definition rest_is :: "nbuf \<Rightarrow> byte list \<Rightarrow> bool" where
  "rest_is nb bs \<longleftrightarrow> drop (ocursor nb) (buf nb) = bs \<and> ocursor nb \<le> length (buf nb)
     \<and> icursor nb = length (buf nb) \<and> length (buf nb) < 2 ^ 64"

lemma rest_is_reads: "rest_is nb bs \<Longrightarrow> reads nb bs"
  by (auto simp: rest_is_def reads_def)

lemma rest_is_adv: "rest_is nb (bs @ cs) \<Longrightarrow> rest_is (adv nb bs) cs"
proof -
  assume r: "rest_is nb (bs @ cs)"
  then have d: "drop (ocursor nb) (buf nb) = bs @ cs" by (simp add: rest_is_def)
  have "drop (length bs) (drop (ocursor nb) (buf nb)) = cs" by (simp add: d)
  then have "drop (ocursor nb + length bs) (buf nb) = cs" by (simp add: add.commute)
  moreover have "length (buf nb) - ocursor nb = length bs + length cs"
    using arg_cong [OF d, of length] by simp
  ultimately show ?thesis using r by (auto simp: rest_is_def)
qed

lemma rest_is_remaining: "rest_is nb bs \<Longrightarrow> getNRemainingBytes nb = length bs"
  by (auto simp: rest_is_def getNRemainingBytes_def)

declare deser_loop.simps [simp del]

lemma deser_loop_run:
  assumes "edge_reader s p part fs zs Inv" and "zs = xs @ all_edges m" and "Inv xs b rd w"
    and "rest_is nb (lists_enc p m w)" and "\<forall>(h, nl) \<in> set m. length (edges nl) < 2 ^ 32"
  shows "\<exists>b' rd' w'. deser_loop s p part fs b rd nb = Inr (b', adv nb (lists_enc p m w)) \<and> Inv zs b' rd' w'"
  using assms(2-5)
proof (induction m arbitrary: xs b rd w nb)
  case Nil
  then show ?case
    by (subst deser_loop.simps) (auto simp: rest_is_remaining all_edges_def)
next
  case (Cons hn m)
  obtain h nl where [simp]: "hn = (h, nl)" by force
  let ?n = "word_of_nat (length (edges nl)) :: 32 word"
  let ?h = "net_word 8 h" and ?c = "net_word 4 ?n" and ?es = "edges_enc p h (edges nl) w"
  let ?w = "edges_written p h (edges nl) w"
  have n: "unat ?n = length (edges nl)" using Cons.prems(4) by (simp add: unat_of_nat)
  have r0: "rest_is nb (?h @ ?c @ ?es @ lists_enc p m ?w)" using Cons.prems(3) by (simp add: list_head_enc_def)
  note r1 = rest_is_adv [OF r0]
  note r2 = rest_is_adv [OF r1]
  have 1: "getUInt64 nb = Inr (h, adv nb ?h)" using scalar_reads(1) rest_is_reads [OF r0] by blast
  have 2: "getUInt32 (adv nb ?h) = Inr (?n, adv nb (?h @ ?c))"
    using scalar_reads(3) rest_is_reads [OF r1] by fastforce
  have "reads (adv nb (?h @ ?c)) ?es" using reads_prefix [OF rest_is_reads [OF r2]] by simp
  from deser_edges_run [OF assms(1) _ Cons.prems(2) this, of "all_edges m"] Cons.prems(1)
  obtain b1 rd1 where 3: "deser_edges s p part fs h (unat ?n) (b, rd, adv nb (?h @ ?c)) =
        Inr (b1, rd1, adv nb (?h @ ?c @ ?es))"
      "Inv (xs @ map (\<lambda>e. (h, e)) (edges nl)) b1 rd1 ?w"
    unfolding n by (auto simp: all_edges_def list_edges_def)
  have "rest_is (adv nb (?h @ ?c @ ?es)) (lists_enc p m ?w)" using rest_is_adv [OF r2] by simp
  from Cons.IH [OF _ 3(2) this] Cons.prems
  obtain b' rd' w' where 4: "deser_loop s p part fs b1 rd1 (adv nb (?h @ ?c @ ?es)) =
      Inr (b', adv nb (lists_enc p (hn # m) w))" "Inv zs b' rd' w'"
    by (auto simp: all_edges_def list_edges_def list_head_enc_def)
  have "0 < getNRemainingBytes nb" using rest_is_remaining [OF r0] by simp
  then have "deser_loop s p part fs b rd nb = Inr (b', adv nb (lists_enc p (hn # m) w))"
    using 1 2 3 4(1) by (subst deser_loop.simps) simp
  with 4(2) show ?case by blast
qed

section \<open>Round trip\<close>

text \<open>What a block must satisfy to be stored under a schema and a partitioning: either it is a master
  block, with sub-blocks and empty records, or its partition number names a partition and every edge
  carries the attributes of that partition, the same record in both directions.\<close>

definition storable :: "schema \<Rightarrow> partitioning \<Rightarrow> 32 word \<Rightarrow> block \<Rightarrow> bool" where
  "storable s part p b \<longleftrightarrow> partitionNo b = Some p \<and> heads_ok (neigs b)
     \<and> length (subBlocks b) < 2 ^ 32 \<and> (\<forall>(h, nl) \<in> set (neigs b). length (edges nl) < 2 ^ 32)
     \<and> (\<forall>(h, e) \<in> set (all_edges (neigs b)). \<not> is_nan (tm e) \<and> edata e \<noteq> None)
     \<and> (if p = no_partition
        then subBlocks b \<noteq> [] \<and> (\<forall>(h, e) \<in> set (all_edges (neigs b)). the_data e = empty_data s)
        else unat p < length part \<and> schema_ok s \<and> names_in s (part ! unat p)
          \<and> (\<forall>(h, e) \<in> set (all_edges (neigs b)). part_data s (part ! unat p) (the_data e))
          \<and> (\<forall>(h, e) \<in> set (all_edges (neigs b)). \<forall>(h', e') \<in> set (all_edges (neigs b)).
               EdgeTriplet_eq (trip h' e') (trip h e) \<longrightarrow> the_data e' = the_data e))"

lemma storable_edgeD:
  assumes "storable s part p b" and "(h, e) \<in> set (all_edges (neigs b))"
  shows "\<not> is_nan (tm e)" and "\<exists>a. edata e = Some (a, the_data e)" and "edge_ser_ok e"
proof -
  have e: "\<not> is_nan (tm e) \<and> edata e \<noteq> None" using assms unfolding storable_def by blast
  then show "\<not> is_nan (tm e)" "\<exists>a. edata e = Some (a, the_data e)" by (auto simp: the_data_def)
  have "data_ok (the_data e)"
  proof (cases "p = no_partition")
    case True
    with assms have "the_data e = empty_data s" unfolding storable_def by auto
    then show ?thesis by simp
  next
    case False
    with assms have "part_data s (part ! unat p) (the_data e)" unfolding storable_def by auto
    then show ?thesis by (simp add: part_data_def)
  qed
  with e show "edge_ser_ok e" by (simp add: edge_ser_ok_def)
qed

lemma storable_ser_ok: "storable s part p b \<Longrightarrow> ser_ok b"
  using storable_edgeD(3) [of s part p b] unfolding ser_ok_def by (auto simp: storable_def split: if_splits)

lemma storable_reader:
  assumes ok: "storable s part p b" and p: "p \<noteq> no_partition"
  shows "edge_reader s p part fs (all_edges (neigs b))
    (\<lambda>xs b' rd w. copied (\<lambda>(h, e). the_data e) xs b' rd \<and> in_step rd w
       \<and> bid b' = i \<and> partitionNo b' = q \<and> subBlocks b' = subs)"
proof (rule edge_readerI, elim conjE)
  fix xs h e ys b' rd w nb
  assume zs: "all_edges (neigs b) = xs @ (h, e) # ys" and r: "reads nb (edge_enc p h e w)"
    and c: "copied (\<lambda>(h, e). the_data e) xs b' rd" and w: "in_step rd w"
    and hd: "bid b' = i" "partitionNo b' = q" "subBlocks b' = subs"
  have part: "unat p < length part" "schema_ok s" "names_in s (part ! unat p)"
    using ok p by (simp_all add: storable_def)
  have same: "the_data e' = the_data e" if "(h, e) \<in> set (all_edges (neigs b))" "(h', e') \<in> set (all_edges (neigs b))"
    "EdgeTriplet_eq (trip h' e') (trip h e)" for h e h' e'
    using ok p that unfolding storable_def by auto
  have data: "part_data s (part ! unat p) (the_data e)" if "(h, e) \<in> set (all_edges (neigs b))" for h e
    using ok p that unfolding storable_def by auto
  have "copyable (\<lambda>(h, e). the_data e) (all_edges (neigs b))"
  proof (rule copyableI)
    fix h e assume m: "(h, e) \<in> set (all_edges (neigs b))"
    from storable_edgeD(1) [OF ok m] data [OF m]
    show "\<not> is_nan (tm e) \<and> data_ok (case (h, e) of (h, e) \<Rightarrow> the_data e)" by (simp add: part_data_def)
  next
    fix h e h' e' assume m: "(h, e) \<in> set (all_edges (neigs b))" "(h', e') \<in> set (all_edges (neigs b))"
      "EdgeTriplet_eq (trip h' e') (trip h e)"
    from same [OF m] show "(case (h', e') of (h, e) \<Rightarrow> the_data e) = (case (h, e) of (h, e) \<Rightarrow> the_data e)" by simp
  qed
  then have cop: "copyable (\<lambda>(h, e). the_data e) (xs @ (h, e) # ys)" by (simp add: zs)
  have "(h, e) \<in> set (all_edges (neigs b))" by (simp add: zs)
  from deser_edge_partition [OF c cop w p part _ data [OF this] r, where fs = fs] hd
  show "\<exists>b1 rd1. deser_edge s p part fs h (b', rd, nb) = Inr (b1, rd1, adv nb (edge_enc p h e w))
      \<and> copied (\<lambda>(h, e). the_data e) (xs @ [(h, e)]) b1 rd1 \<and> in_step rd1 (edge_written p h e w)
      \<and> bid b1 = i \<and> partitionNo b1 = q \<and> subBlocks b1 = subs"
    by (simp del: deser_edge.simps)
qed

lemma storable_reader_master:
  assumes ok: "data_ok fs"
  shows "edge_reader s no_partition part fs zs
    (\<lambda>xs b' rd w. structured fs xs b' \<and> bid b' = i \<and> partitionNo b' = q \<and> subBlocks b' = subs)"
proof (rule edge_readerI, elim conjE)
  fix xs h e ys b' rd w nb
  assume r: "reads nb (edge_enc no_partition h e w)" and c: "structured fs xs b'"
    and hd: "bid b' = i" "partitionNo b' = q" "subBlocks b' = subs"
  from deser_edge_master [OF c ok r, where s = s and part = part and rd = rd] hd
  show "\<exists>b1 rd1. deser_edge s no_partition part fs h (b', rd, nb) = Inr (b1, rd1, adv nb (edge_enc no_partition h e w))
      \<and> structured fs (xs @ [(h, e)]) b1 \<and> bid b1 = i \<and> partitionNo b1 = q \<and> subBlocks b1 = subs"
    by (auto simp del: deser_edge.simps)
qed

lemma storable_view:
  assumes "storable s part p b"
  shows "map (\<lambda>(h, nl). (h, map (\<lambda>e. (toVertex e, tm e, Some (the_data e))) (edges nl))) (neigs b) = view (neigs b)"
  unfolding view_def
proof (intro map_cong refl, clarify, intro conjI refl map_cong)
  fix h nl e
  assume "(h, nl) \<in> set (neigs b)" "e \<in> set (edges nl)"
  then have "(h, e) \<in> set (all_edges (neigs b))" by (auto simp: all_edges_mem)
  from storable_edgeD(2) [OF assms this] show "(toVertex e, tm e, Some (the_data e)) = strip e"
    by (auto simp: strip_def)
qed

text \<open>The loop of \<open>deserialize\<close> on the lists of a stored block.\<close>

lemma storable_loop:
  assumes ok: "storable s part p b" and nb: "rest_is nb (lists_enc p (neigs b) [])"
    and b0: "b0 = Block 0\<lparr>bid := i, subBlocks := subs, partitionNo := Some p\<rparr>"
  shows "\<exists>b'. deser_loop s p part (empty_data s) b0 [] nb = Inr (b', adv nb (lists_enc p (neigs b) []))
    \<and> view (neigs b') = view (neigs b) \<and> bid b' = i \<and> partitionNo b' = Some p \<and> subBlocks b' = subs"
proof -
  have heads: "heads_ok (neigs b)" and len: "\<forall>(h, nl) \<in> set (neigs b). length (edges nl) < 2 ^ 32"
    using ok by (simp_all add: storable_def)
  have zs: "all_edges (neigs b) = [] @ all_edges (neigs b)" by simp
  show ?thesis
  proof (cases "p = no_partition")
    case False
    have init: "copied (\<lambda>(h, e). the_data e) [] b0 [] \<and> in_step [] [] \<and> bid b0 = i
        \<and> partitionNo b0 = Some p \<and> subBlocks b0 = subs"
      by (simp add: b0 copied_init in_step_def et_count_def et_find_def)
    from deser_loop_run [OF storable_reader [OF ok False] zs init nb len] obtain b' rd' w' where
      "deser_loop s p part (empty_data s) b0 [] nb = Inr (b', adv nb (lists_enc p (neigs b) []))"
      "copied (\<lambda>(h, e). the_data e) (all_edges (neigs b)) b' rd'" "bid b' = i" "partitionNo b' = Some p" "subBlocks b' = subs"
      by blast
    with copied_view [OF _ heads] storable_view [OF ok] show ?thesis by fastforce
  next
    case True
    have init: "structured (empty_data s) [] b0 \<and> bid b0 = i \<and> partitionNo b0 = Some p \<and> subBlocks b0 = subs"
      by (simp add: b0 structured_def heads_ok_def view_def all_edges_def Block_def)
    note rd = storable_reader_master [OF empty_data_ok(1), of s part, folded True]
    from deser_loop_run [OF rd zs init nb len] obtain b' where l:
      "deser_loop s p part (empty_data s) b0 [] nb = Inr (b', adv nb (lists_enc p (neigs b) []))"
      "structured (empty_data s) (all_edges (neigs b)) b'" "bid b' = i" "partitionNo b' = Some p" "subBlocks b' = subs"
      by blast
    have "map (\<lambda>(h, nl). (h, map (\<lambda>e. (toVertex e, tm e, Some (empty_data s))) (edges nl))) (neigs b) =
        map (\<lambda>(h, nl). (h, map (\<lambda>e. (toVertex e, tm e, Some (the_data e))) (edges nl))) (neigs b)"
    proof (intro map_cong refl, clarify, intro conjI refl map_cong)
      fix h nl e
      assume "(h, nl) \<in> set (neigs b)" "e \<in> set (edges nl)"
      then have "(h, e) \<in> set (all_edges (neigs b))" by (auto simp: all_edges_mem)
      then have "the_data e = empty_data s" using ok True unfolding storable_def by auto
      then show "(toVertex e, tm e, Some (empty_data s)) = (toVertex e, tm e, Some (the_data e))" by simp
    qed
    with l structured_view [OF l(2) heads] storable_view [OF ok] show ?thesis by auto
  qed
qed

lemma block_store_load:
  assumes "storable s part p b" and "findMinMaxTimestamps b = Inr (mn, mx)"
    and "length (block_enc b p mn mx) \<le> 2 ^ 32"
    and "getPart (ddiv (dadd mn mx) d_two) pidx = Inr (part, pidx')"
  shows "\<exists>nb b' nb'. serialize b NetworkByteBuffer = Inr nb \<and> content nb = block_enc b p mn mx
    \<and> deserialize s getPart (Block 0) (NetworkByteBuffer_over (content nb) (length (content nb))) pidx
        = Inr (b', nb', pidx')
    \<and> getNRemainingBytes nb' = 0
    \<and> bid b' = bid b \<and> subBlocks b' = subBlocks b \<and> partitionNo b' = partitionNo b
    \<and> view (neigs b') = view (neigs b)"
proof -
  have p: "partitionNo b = Some p" using assms(1) by (simp add: storable_def)
  let ?bs = "block_enc b p mn mx" and ?l = "lists_enc p (neigs b) []"
  let ?nb = "NetworkByteBuffer_over ?bs (length ?bs)"
  let ?h1 = "net_word 8 (bid b)" and ?h2 = "vec_enc (net_word 8) (subBlocks b)" and ?h3 = "net_word 8 mn"
  let ?h4 = "net_word 8 mx" and ?h5 = "net_word 4 p"
  obtain nb where nb: "serialize b NetworkByteBuffer = Inr nb" "content nb = ?bs"
    using appends_fresh [OF serialize_appends [OF storable_ser_ok [OF assms(1)] p assms(2)] assms(3)] by blast
  have r0: "rest_is ?nb (?h1 @ ?h2 @ ?h3 @ ?h4 @ ?h5 @ ?l)"
    using assms(3) by (simp add: rest_is_def NetworkByteBuffer_over_def block_enc_def)
  note r1 = rest_is_adv [OF r0] note r2 = rest_is_adv [OF r1] note r3 = rest_is_adv [OF r2]
  note r4 = rest_is_adv [OF r3] note r5 = rest_is_adv [OF r4]
  have vec: "consumes (getVector getUInt64 []) ?h2 (subBlocks b)"
    using c_uint64s.get_consumes [of "subBlocks b"] assms(1) by (simp add: storable_def)
  note g = scalar_reads(1) [OF rest_is_reads [OF r0]] consumes_reads [OF vec rest_is_reads [OF r1]]
    scalar_reads(2) [OF rest_is_reads [OF r2]] scalar_reads(2) [OF rest_is_reads [OF r3]]
    scalar_reads(4) [OF rest_is_reads [OF r4]]
  from storable_loop [OF assms(1) r5 refl] obtain b' where b':
    "deser_loop s p part (empty_data s) (Block 0\<lparr>bid := bid b, subBlocks := subBlocks b, partitionNo := Some p\<rparr>) []
       (adv (adv (adv (adv (adv ?nb ?h1) ?h2) ?h3) ?h4) ?h5) = Inr (b', adv ?nb ?bs)"
    "view (neigs b') = view (neigs b)" "bid b' = bid b" "partitionNo b' = Some p" "subBlocks b' = subBlocks b"
    by (auto simp: block_enc_def)
  have as: "p \<noteq> no_partition \<or> 0 < length (subBlocks b)" using assms(1) by (auto simp: storable_def)
  have s0: "subBlocks (Block 0) = []" by (simp add: Block_def)
  have "deserialize s getPart (Block 0) ?nb pidx = Inr (b', adv ?nb ?bs, pidx')"
    unfolding deserialize_def s0
    by (simp only: g rbind_simps prod.case assms(4) newAttributeData_empty b' assert_that_def as if_True)
  moreover have "getNRemainingBytes (adv ?nb ?bs) = 0"
    using assms(3) by (simp add: getNRemainingBytes_def NetworkByteBuffer_over_def)
  ultimately show ?thesis using nb b' p by auto
qed

text \<open>C6: a block that is stored and read back is the block. \<open>serialize\<close> into an empty buffer succeeds and
  writes exactly the format \<open>block_enc\<close>; \<open>deserialize\<close> of these bytes, with the partitioning in force
  at the block's mid time, consumes all of them and yields a block with the same id, sub-block ids and
  partition number, the same heads in the same order, and the same edges with the same attribute
  values, for master blocks and partition blocks alike.\<close>

theorem serialize_deserialize:
  assumes "storable s part p b" and "findMinMaxTimestamps b = Inr (mn, mx)"
    and "length (block_enc b p mn mx) \<le> 2 ^ 32"
    and "getPart (ddiv (dadd mn mx) d_two) pidx = Inr (part, pidx')"
  shows "\<exists>nb b' nb'. serialize b NetworkByteBuffer = Inr nb \<and> content nb = block_enc b p mn mx
    \<and> deserialize s getPart (Block 0) (NetworkByteBuffer_over (content nb) (length (content nb))) pidx
        = Inr (b', nb', pidx')
    \<and> getNRemainingBytes nb' = 0
    \<and> bid b' = bid b \<and> subBlocks b' = subBlocks b \<and> partitionNo b' = partitionNo b
    \<and> view (neigs b') = view (neigs b)"
  using assms by (rule block_store_load)

definition ex_sub_edge :: "vertexId \<Rightarrow> edge" where
  "ex_sub_edge v = \<lparr>toVertex = v, tm = 4607182418800017408,
     edata = Some (0, \<lparr>fieldsOf = [(1, StringV ''bob'')], schemaOf = ex_schema\<rparr>)\<rparr>"

definition ex_sub_block :: block where
  "ex_sub_block = Block 9\<lparr>partitionNo := Some 1,
     neigs := [(1, \<lparr>headVertex = 1, edges = [ex_sub_edge 2]\<rparr>), (2, \<lparr>headVertex = 2, edges = [ex_sub_edge 1]\<rparr>)]\<rparr>"

lemma ex_time: "\<not> is_nan 4607182418800017408"
  by (simp add: is_nan_def dmag_def inf_mag_def)

lemma ex_sub_minmax: "findMinMaxTimestamps ex_sub_block = Inr (4607182418800017408, 4607182418800017408)"
  by (simp add: findMinMaxTimestamps_def ex_sub_block_def ex_sub_edge_def getOldestEdge_def getNewestEdge_def
      Block_def dlt_def is_nan_def dkey_def dneg_def dmag_def inf_mag_def d_max_def)

lemma ex_sub_storable: "storable ex_schema ex_part 1 ex_sub_block"
proof -
  have n: "names_in ex_schema [''nick'']" using ex_covers by (simp add: covers_def ex_part_def)
  have i: "attr_index ex_schema ''nick'' = 1" by code_simp
  have "(1 :: 32 word) \<noteq> no_partition" by (simp add: no_partition_def)
  then show ?thesis
    by (simp add: storable_def ex_sub_block_def Block_def heads_ok_def all_edges_def list_edges_def ex_sub_edge_def
        the_data_def ex_time ex_part_def n ex_schema_ok part_data_def data_ok_def val_ok_def ex_schema_attributes i)
qed

lemma ex_sub_enc_length: "length (block_enc ex_sub_block 1 4607182418800017408 4607182418800017408) \<le> 2 ^ 32"
  by (simp add: block_enc_def vec_enc_def list_head_enc_def edge_enc_def edge_written_def skip_data_def
      ex_sub_block_def Block_def ex_sub_edge_def the_data_def data_size_def et_count_def)

theorem serialize_deserialize_witness:
  "\<exists>nb b' nb'. serialize ex_sub_block NetworkByteBuffer = Inr nb
    \<and> deserialize ex_schema (\<lambda>t i. Inr (ex_part, i)) (Block 0)
        (NetworkByteBuffer_over (content nb) (length (content nb))) (0 :: nat) = Inr (b', nb', 0)
    \<and> bid b' = 9 \<and> view (neigs b') = view (neigs ex_sub_block)"
proof -
  from serialize_deserialize [OF ex_sub_storable ex_sub_minmax ex_sub_enc_length,
      where getPart = "\<lambda>t i. Inr (ex_part, i)" and pidx = "0 :: nat" and pidx' = 0]
  have "\<exists>nb b' nb'. serialize ex_sub_block NetworkByteBuffer = Inr nb
    \<and> deserialize ex_schema (\<lambda>t i. Inr (ex_part, i)) (Block 0)
        (NetworkByteBuffer_over (content nb) (length (content nb))) (0 :: nat) = Inr (b', nb', 0)
    \<and> bid b' = bid ex_sub_block \<and> view (neigs b') = view (neigs ex_sub_block)" by blast
  then show ?thesis by (simp add: ex_sub_block_def Block_def)
qed

section \<open>Adding and removing the newest edge\<close>

lemma um_put_same: "um_find m k = Some v \<Longrightarrow> um_put k v m = m"
  by (simp add: um_put_def) (induction m, auto)

lemma um_erase_last: "k \<notin> fst ` set m \<Longrightarrow> um_erase k (m @ [(k, v)]) = m"
  unfolding um_erase_def by (induction m) auto

lemma removeNewestEdge_result:
  assumes "um_find (neigs b) h = Some nl" and "edges nl = es @ [e]" and "edata e = Some (a, d)" and "data_ok d"
  shows "removeNewestEdge h b =
    Inr (b\<lparr>neigs := (if es = [] then um_erase h (neigs b) else um_put h (nl\<lparr>edges := es\<rparr>) (neigs b)),
           serializedSize := serializedSize b
             - (if found b (toVertex e) h (tm e) \<or> \<not> um_count (neigs b) (toVertex e) then 0 else word_of_nat (data_size d))
             - 16 - (if es = [] then 12 else 0)\<rparr>)"
proof -
  let ?sz = "serializedSize b
    - (if found b (toVertex e) h (tm e) \<or> \<not> um_count (neigs b) (toVertex e) then 0 else word_of_nat (data_size d))"
  have "(case um_find (neigs b) (toVertex e) of None \<Rightarrow> Inr (serializedSize b)
        | Some nl \<Rightarrow> (case getEdgeAttributeData nl h (tm e) of
            Some _ \<Rightarrow> Inr (serializedSize b)
          | None \<Rightarrow> rbind (deref (edata e)) (\<lambda>p. rbind (getSerializedSizeOf (snd p)) (\<lambda>n.
              Inr (serializedSize b - word_of_nat n))))) = Inr ?sz"
    using assms(3) by (auto simp: found_def um_count_def getSerializedSizeOf_eq [OF assms(4)] split: option.splits)
  moreover have "getNewestEdge nl = Inr e" "nl_removeNewestEdge nl = nl\<lparr>edges := es\<rparr>"
    using assms(2) by (simp_all add: getNewestEdge_def nl_removeNewestEdge_def)
  ultimately show ?thesis using assms(1) by (simp add: removeNewestEdge_def Let_def)
qed

text \<open>C33: \<open>removeNewestEdge\<close> undoes \<open>addEdge\<close>. After adding an edge to a head's list and removing the newest
  edge of that head, all neighbour lists are what they were. The size account is restored as well when
  the other endpoint has a neighbour list in the block; when it has none, the bytes of the edge's record
  stay in the account.\<close>

theorem removeNewestEdge_addEdge:
  assumes "data_ok d" and "heads_ok (neigs b)" and "to \<noteq> h"
    and "\<And>nl sd. um_find (neigs b) to = Some nl \<Longrightarrow> getEdgeAttributeData nl h t = Some sd \<Longrightarrow> sd = Some (a, d)"
  shows "rbind (addEdge h to t (Some (a, d)) b) (removeNewestEdge h) =
    Inr (b\<lparr>serializedSize := serializedSize b + (if um_count (neigs b) to then 0 else word_of_nat (data_size d))\<rparr>)"
proof -
  define e where "e = \<lparr>toVertex = to, tm = t, edata = Some (a, d)\<rparr>"
  have e: "toVertex e = to" "tm e = t" "edata e = Some (a, d)" by (simp_all add: e_def)
  define nl where "nl = (case um_find (neigs b) h of None \<Rightarrow> \<lparr>headVertex = h, edges = []\<rparr> | Some nl \<Rightarrow> nl)"
  define b1 where "b1 = b\<lparr>neigs := nb_push h e (neigs b), serializedSize := serializedSize b
      + (if found b to h t then 0 else word_of_nat (data_size d)) + (if um_count (neigs b) h then 0 else 12) + 16\<rparr>"
  have add: "addEdge h to t (Some (a, d)) b = Inr b1"
    unfolding b1_def e_def using assms(1,4) by (rule addEdge_result)
  have b1: "um_find (neigs b1) h = Some (nl_addEdge e nl)" "um_find (neigs b1) to = um_find (neigs b) to"
    using assms(3) by (simp_all add: b1_def nb_push_def nl_def)
  have nl: "edges (nl_addEdge e nl) = edges nl @ [e]" "(nl_addEdge e nl)\<lparr>edges := edges nl\<rparr> = nl"
    by (simp_all add: nl_addEdge_def)
  have new: "um_count (neigs b) h \<longleftrightarrow> edges nl \<noteq> []"
    using assms(2) by (auto simp: nl_def um_count_def heads_ok_def split: option.splits dest!: map_of_SomeD)
  have restored: "(if edges nl = [] then um_erase h (neigs b1) else um_put h nl (neigs b1)) = neigs b"
  proof (cases "um_find (neigs b) h")
    case None
    then have "h \<notin> fst ` set (neigs b)" by (simp add: map_of_eq_None_iff)
    with None show ?thesis by (simp add: b1_def nl_def nb_push_def um_put_new um_erase_last)
  next
    case (Some nl')
    then have "nl = nl'" "edges nl \<noteq> []" using new by (simp_all add: nl_def um_count_def)
    with Some show ?thesis by (simp add: b1_def nb_push_def um_put_put um_put_same)
  qed
  have "removeNewestEdge h b1 = Inr (b1\<lparr>neigs := neigs b, serializedSize := serializedSize b1
      - (if found b1 to h t \<or> \<not> um_count (neigs b1) to then 0 else word_of_nat (data_size d))
      - 16 - (if edges nl = [] then 12 else 0)\<rparr>)"
    using removeNewestEdge_result [OF b1(1) nl(1), of a d, unfolded nl(2) restored] assms(1) e by simp
  moreover have "found b1 to h t = found b to h t" "um_count (neigs b1) to = um_count (neigs b) to"
    "found b to h t \<Longrightarrow> um_count (neigs b) to"
    using b1(2) by (auto simp: found_def um_count_def split: option.splits)
  ultimately show ?thesis using add new by (auto simp: b1_def)
qed

theorem removeNewestEdge_addEdge_witness:
  "rbind (addEdge 1 2 0 (Some (0, ex_data)) ex_block) (removeNewestEdge 1) = Inr ex_block"
proof -
  have find: "um_find (neigs ex_block) 2 = Some \<lparr>headVertex = 2, edges = [ex_edge 1]\<rparr>"
    by (simp add: ex_block_def)
  have none: "getEdgeAttributeData \<lparr>headVertex = 2, edges = [ex_edge 1]\<rparr> 1 0 = None"
    by (simp add: getEdgeAttributeData_def lower_bound_def ex_edge_def deq_def dkey_def dneg_def dmag_def dlt_def)
  have "heads_ok (neigs ex_block)" using ex_block_ok by (simp add: block_ok_def)
  then have "rbind (addEdge 1 2 0 (Some (0, ex_data)) ex_block) (removeNewestEdge 1) =
    Inr (ex_block\<lparr>serializedSize := serializedSize ex_block
      + (if um_count (neigs ex_block) 2 then 0 else word_of_nat (data_size ex_data))\<rparr>)"
    by (rule removeNewestEdge_addEdge [OF ex_data_ok]) (use find none in simp_all)
  then show ?thesis using find by (simp add: um_count_def)
qed

end
