(* ===== verification/KVStore.thy ===== *)
theory KVStore
  imports NetworkBuffer "HOL-Library.List_Lexorder"
begin

text \<open>
  The key-value store the managers and indexes sit on. LevelDB is third-party code; what the program
  relies on is its documented interface: a persistent map from byte strings to byte strings, ordered
  by the bytewise comparator (lexicographic on unsigned bytes, a proper prefix first), whose
  operations report a status. An open database is the sorted list of its entries together with the
  failure its operations report, if any. The locale \<open>kv_store\<close> is the contract; the second half
  shows that the big-endian keys built by the byte buffer sort as the numbers they encode, which is
  what the ordered iterations of the indexes rest on.
\<close>

datatype status = StatusOk | StatusNotFound | StatusError string

record leveldb =
  entries :: "(byte list \<times> byte list) list"
  failure :: "string option"

definition db_ok :: "leveldb \<Rightarrow> bool" where
  "db_ok db \<longleftrightarrow> sorted_wrt (<) (map fst (entries db))"

fun kv_put :: "byte list \<Rightarrow> byte list \<Rightarrow> (byte list \<times> byte list) list \<Rightarrow> (byte list \<times> byte list) list" where
  "kv_put k v [] = [(k, v)]"
| "kv_put k v ((k', v') # es) =
     (if k < k' then (k, v) # (k', v') # es
      else if k = k' then (k, v) # es
      else (k', v') # kv_put k v es)"

definition db_Get :: "leveldb \<Rightarrow> byte list \<Rightarrow> status \<times> byte list" where
  "db_Get db k =
     (case failure db of
        Some e \<Rightarrow> (StatusError e, [])
      | None \<Rightarrow> (case map_of (entries db) k of None \<Rightarrow> (StatusNotFound, []) | Some v \<Rightarrow> (StatusOk, v)))"

definition db_Put :: "leveldb \<Rightarrow> byte list \<Rightarrow> byte list \<Rightarrow> status \<times> leveldb" where
  "db_Put db k v =
     (case failure db of
        Some e \<Rightarrow> (StatusError e, db)
      | None \<Rightarrow> (StatusOk, db\<lparr>entries := kv_put k v (entries db)\<rparr>))"

definition db_Delete :: "leveldb \<Rightarrow> byte list \<Rightarrow> status \<times> leveldb" where
  "db_Delete db k =
     (case failure db of
        Some e \<Rightarrow> (StatusError e, db)
      | None \<Rightarrow> (StatusOk, db\<lparr>entries := filter (\<lambda>e. fst e \<noteq> k) (entries db)\<rparr>))"

text \<open>An iterator is the list of the entries from its position on; it is valid while that is not
  empty. \<^verbatim>\<open>Seek\<close> moves to the first entry at or past the key.\<close>

definition db_Seek :: "leveldb \<Rightarrow> byte list \<Rightarrow> (byte list \<times> byte list) list" where
  "db_Seek db k = dropWhile (\<lambda>e. fst e < k) (entries db)"

definition throw_unless_ok :: "status \<Rightarrow> unit result" where
  "throw_unless_ok st =
     (case st of StatusOk \<Rightarrow> Inr () | StatusNotFound \<Rightarrow> Inl (RuntimeError ''NotFound: '')
      | StatusError e \<Rightarrow> Inl (RuntimeError e))"

text \<open>\<^verbatim>\<open>DB::Open\<close> with \<^verbatim>\<open>create_if_missing\<close>: the status and the database come from the environment.\<close>

definition db_Open :: "status \<times> leveldb \<Rightarrow> leveldb result" where
  "db_Open opened = rbind (throw_unless_ok (fst opened)) (\<lambda>_. Inr (snd opened))"

section \<open>The contract of a key-value store\<close>

locale kv_store =
  fixes get :: "'db \<Rightarrow> 'k \<Rightarrow> 'v option"
    and put :: "'k \<Rightarrow> 'v \<Rightarrow> 'db \<Rightarrow> 'db"
    and del :: "'k \<Rightarrow> 'db \<Rightarrow> 'db"
    and ok :: "'db \<Rightarrow> bool"
  assumes ok_put: "ok db \<Longrightarrow> ok (put k v db)"
    and ok_del: "ok db \<Longrightarrow> ok (del k db)"
    and get_put: "ok db \<Longrightarrow> get (put k v db) k' = (if k' = k then Some v else get db k')"
    and get_del: "ok db \<Longrightarrow> get (del k db) k' = (if k' = k then None else get db k')"
begin

lemma put_put: "ok db \<Longrightarrow> get (put k v (put k w db)) = get (put k v db)"
  by (rule ext) (simp add: get_put ok_put)

lemma get_put_all:
  "ok db \<Longrightarrow> ok (fold (\<lambda>(k, v). put k v) kvs db)
     \<and> get (fold (\<lambda>(k, v). put k v) kvs db) k = (case map_of (rev kvs) k of None \<Rightarrow> get db k | Some v \<Rightarrow> Some v)"
  by (induction kvs arbitrary: db) (auto simp: get_put ok_put map_add_def split: option.splits)

end

lemma kv_put_set: "fst ` set (kv_put k v es) = insert k (fst ` set es)"
  by (induction k v es rule: kv_put.induct) auto

lemma kv_put_sorted: "sorted_wrt (<) (map fst es) \<Longrightarrow> sorted_wrt (<) (map fst (kv_put k v es))"
proof (induction es)
  case (Cons e es)
  obtain k' v' where [simp]: "e = (k', v')" by force
  have "\<forall>x \<in> fst ` set (kv_put k v es). k' < x" if "k' < k"
    using that Cons.prems unfolding kv_put_set by auto
  with Cons show ?case by (auto dest: less_trans)
qed simp

lemma kv_put_find:
  "sorted_wrt (<) (map fst es) \<Longrightarrow> map_of (kv_put k v es) k' = (if k' = k then Some v else map_of es k')"
  by (induction es) auto

interpretation sorted_kv: kv_store map_of kv_put "\<lambda>k. filter (\<lambda>e. fst e \<noteq> k)" "\<lambda>es. sorted_wrt (<) (map fst es)"
proof (unfold_locales, goal_cases)
  case (2 db k)
  then show ?case by (simp add: sorted_wrt_map sorted_wrt_filter)
next
  case (4 db k k')
  then show ?case by (induction db) auto
qed (simp_all add: kv_put_sorted kv_put_find)

lemma db_Put_ok: "db_ok db \<Longrightarrow> db_Put db k v = (st, db') \<Longrightarrow> db_ok db'"
  by (auto simp: db_ok_def db_Put_def kv_put_sorted split: option.splits)

lemma db_Delete_ok: "db_ok db \<Longrightarrow> db_Delete db k = (st, db') \<Longrightarrow> db_ok db'"
  using sorted_kv.ok_del [of "entries db" k] by (auto simp: db_ok_def db_Delete_def split: option.splits)

section \<open>Numeric keys sort as numbers\<close>

lemma lex_append:
  fixes xs ys :: "'a::linorder list"
  assumes "length xs = length ys"
  shows "xs @ xs' < ys @ ys' \<longleftrightarrow> xs < ys \<or> xs = ys \<and> xs' < ys'"
  using assms by (induction xs ys rule: list_induct2) auto

lemma le_enc_rev_less:
  "x < 256 ^ n \<Longrightarrow> y < 256 ^ n \<Longrightarrow> rev (le_enc n x) < rev (le_enc n y) \<longleftrightarrow> x < y"
proof (induction n arbitrary: x y)
  case (Suc n)
  have d: "x div 256 < 256 ^ n" "y div 256 < 256 ^ n"
    using Suc.prems by (simp_all add: less_mult_imp_div_less mult.commute)
  have eq: "le_enc n a = le_enc n b \<longleftrightarrow> a = b" if "a < 256 ^ n" "b < 256 ^ n" for a b
    using that le_dec_enc [of n a] le_dec_enc [of n b] by (metis mod_less)
  have w: "(word_of_nat (x mod 256) :: byte) < word_of_nat (y mod 256) \<longleftrightarrow> x mod 256 < y mod 256"
    by (simp add: word_less_nat_alt unat_of_nat)
  have "rev (le_enc (Suc n) x) < rev (le_enc (Suc n) y) \<longleftrightarrow>
      x div 256 < y div 256 \<or> x div 256 = y div 256 \<and> x mod 256 < y mod 256"
    by (simp add: lex_append Suc.IH [OF d] eq [OF d] w)
  also have "\<dots> \<longleftrightarrow> x < y"
    using div_mult_mod_eq [of x 256] div_mult_mod_eq [of y 256] mod_less_divisor [of 256 x] mod_less_divisor [of 256 y]
    by linarith
  finally show ?case .
qed simp

lemma net_word_less_iff:
  fixes a b :: "'w::len word"
  assumes "LENGTH('w) \<le> 8 * n"
  shows "net_word n a < net_word n b \<longleftrightarrow> a < b"
proof -
  have "unat w < 256 ^ n" for w :: "'w word"
    using less_le_trans [OF unsigned_less [of w] power_increasing [OF assms, of "2::nat"]] by (simp add: power_mult)
  then show ?thesis by (simp add: net_word_def host_to_network_rev le_enc_rev_less word_less_nat_alt)
qed

lemma net_word_eq_iff:
  fixes a b :: "'w::len word"
  assumes "LENGTH('w) \<le> 8 * n"
  shows "net_word n a = net_word n b \<longleftrightarrow> a = b"
  using net_word_decode [OF assms, of a] net_word_decode [OF assms, of b] by metis

text \<open>A composite key compares component by component, timestamps by their IEEE order.\<close>

lemma composite_key_less:
  fixes v v' :: vertexId and t t' :: timestamp and b b' :: blockId
  assumes "\<not> dneg t" and "\<not> dneg t'" and "\<not> is_nan t" and "\<not> is_nan t'"
  shows "net_word 8 v @ net_word 8 t @ net_word 8 b < net_word 8 v' @ net_word 8 t' @ net_word 8 b' \<longleftrightarrow>
    v < v' \<or> v = v' \<and> (dlt t t' \<or> deq t t' \<and> b < b')"
  using assms by (simp add: lex_append net_word_less_iff net_word_eq_iff dlt_nonneg_iff deq_nonneg_iff)

end
