(* ===== verification/Caches.thy ===== *)
theory Caches
  imports BlockCodec KVStore
begin

text \<open>
  The block manager (\<^verbatim>\<open>BlockManager.h/.cpp\<close>) and the vertex manager (\<^verbatim>\<open>VertexManager.h/.cpp\<close>): least
  recently used caches over the key-value store. The LRU list holds each cached id once, so the
  list iterator a cache entry keeps is determined by the id and is not stored separately. The partition
  index the block manager consults while deserialising is a parameter \<open>getPart\<close> with its state \<open>pidx\<close>;
  the reference \<^verbatim>\<open>nextBlockId_\<close> into the meta data is the field \<open>nextBlockId\<close>. The I/O and hit counters are
  unbounded here.
\<close>

section \<open>Block manager\<close>

record 'p blockManager =
  nIOReads :: nat
  nIOWrites :: nat
  reqCount :: nat
  hitCount :: nat
  blockBufferSize :: nat
  lruList :: "blockId list"
  cache :: "(blockId, block) umap"
  pidx :: 'p
  blockDb :: leveldb
  nextBlockId :: blockId

definition BlockManager :: "nat \<Rightarrow> 'p \<Rightarrow> leveldb \<Rightarrow> blockId \<Rightarrow> 'p blockManager" where
  "BlockManager n p db next =
     \<lparr>nIOReads = 0, nIOWrites = 0, reqCount = 0, hitCount = 0, blockBufferSize = n, lruList = [],
      cache = [], pidx = p, blockDb = db, nextBlockId = next\<rparr>"

definition BlockManager_open :: "nat \<Rightarrow> 'p \<Rightarrow> status \<times> leveldb \<Rightarrow> blockId \<Rightarrow> 'p blockManager result" where
  "BlockManager_open n p opened next = rbind (db_Open opened) (\<lambda>db. Inr (BlockManager n p db next))"

definition bm_clear :: "'p blockManager \<Rightarrow> 'p blockManager" where
  "bm_clear bm = bm\<lparr>lruList := [], cache := []\<rparr>"

definition touch :: "'a \<Rightarrow> 'a list \<Rightarrow> 'a list" where
  "touch i l = (if l \<noteq> [] \<and> hd l = i then l else i # remove1 i l)"

definition bm_getBlock ::
  "schema \<Rightarrow> (timestamp \<Rightarrow> 'p \<Rightarrow> (partitioning \<times> 'p) result) \<Rightarrow> blockId \<Rightarrow> 'p blockManager
     \<Rightarrow> (block \<times> 'p blockManager) result" where
  "bm_getBlock s getPart i bm0 =
     (let bm = bm0\<lparr>reqCount := reqCount bm0 + 1\<rparr>
      in case um_find (cache bm) i of
           Some blk \<Rightarrow>
             rbind (assert_that (bid blk = i)) (\<lambda>_.
               Inr (blk, bm\<lparr>hitCount := hitCount bm + 1, lruList := touch i (lruList bm)\<rparr>))
         | None \<Rightarrow>
             rbind (addUInt64 i (NetworkByteBuffer_sized 8)) (\<lambda>keyBuf.
             (case db_Get (blockDb bm) (content keyBuf) of
                (StatusNotFound, v) \<Rightarrow> Inl (BlockNotFound i)
              | (StatusError e, v) \<Rightarrow> Inl (RuntimeError e)
              | (StatusOk, v) \<Rightarrow>
                  let dataBuf = NetworkByteBuffer_over v (length v)
                  in rbind (deserialize s getPart (Block 0) dataBuf (pidx bm)) (\<lambda>(blk, nb, p1).
                     let bm1 = bm\<lparr>nIOReads := nIOReads bm + icursor keyBuf + icursor dataBuf, pidx := p1,
                                  cache := um_emplace i blk (cache bm), lruList := i # lruList bm\<rparr>;
                         bm2 = (if blockBufferSize bm1 < length (lruList bm1)
                                then bm1\<lparr>lruList := butlast (lruList bm1),
                                         cache := um_erase (last (lruList bm1)) (cache bm1)\<rparr>
                                else bm1)
                     in rbind (deref (um_find (cache bm2) i)) (\<lambda>b.
                        rbind (assert_that (bid b = i)) (\<lambda>_. Inr (b, bm2)))))))"

definition bm_addBlock :: "block \<Rightarrow> bool \<Rightarrow> 'p blockManager \<Rightarrow> (block \<times> 'p blockManager) result" where
  "bm_addBlock b0 setId bm0 =
     (let b = (if setId then b0\<lparr>bid := nextBlockId bm0\<rparr> else b0);
          bm = (if setId then bm0\<lparr>nextBlockId := nextBlockId bm0 + 1\<rparr> else bm0)
      in rbind (addUInt64 (bid b) (NetworkByteBuffer_sized 8)) (\<lambda>keyBuf.
         rbind (serialize b NetworkByteBuffer) (\<lambda>dataBuf.
           case db_Put (blockDb bm) (content keyBuf) (content dataBuf) of (st, db1) \<Rightarrow>
             rbind (throw_unless_ok st) (\<lambda>_.
               Inr (b, bm\<lparr>blockDb := db1, nIOWrites := nIOWrites bm + icursor keyBuf + icursor dataBuf\<rparr>)))))"

definition bm_updateBlock ::
  "schema \<Rightarrow> (timestamp \<Rightarrow> 'p \<Rightarrow> (partitioning \<times> 'p) result) \<Rightarrow> block \<Rightarrow> 'p blockManager \<Rightarrow> 'p blockManager result" where
  "bm_updateBlock s getPart b bm =
     rbind (bm_getBlock s getPart (bid b) bm) (\<lambda>(existing, bm1).
     rbind (bm_addBlock b False (bm1\<lparr>cache := um_put (bid b) b (cache bm1)\<rparr>)) (\<lambda>(_, bm2). Inr bm2))"

definition bm_removeBlock :: "blockId \<Rightarrow> 'p blockManager \<Rightarrow> 'p blockManager result" where
  "bm_removeBlock i bm =
     rbind (addUInt64 i (NetworkByteBuffer_sized 8)) (\<lambda>keyBuf.
       case db_Delete (blockDb bm) (content keyBuf) of (st, db1) \<Rightarrow>
         rbind (throw_unless_ok st) (\<lambda>_.
           let bm1 = bm\<lparr>blockDb := db1, nIOWrites := nIOWrites bm + icursor keyBuf\<rparr>
           in Inr (if um_count (cache bm1) i
                   then bm1\<lparr>lruList := remove1 i (lruList bm1), cache := um_erase i (cache bm1)\<rparr>
                   else bm1)))"

definition bm_getHitRatio :: "'p blockManager \<Rightarrow> double" where
  "bm_getHitRatio bm = ddiv (dof_nat (hitCount bm)) (dof_nat (reqCount bm))"

section \<open>Vertex manager\<close>

record vertexManager =
  vReqCount :: nat
  vHitCount :: nat
  vertexDataBufferSize :: nat
  vLruList :: "vertexId list"
  vCache :: "(vertexId, attributeData) umap"
  vertexDb :: leveldb
  vertexSchema :: schema

definition VertexManager :: "nat \<Rightarrow> leveldb \<Rightarrow> schema \<Rightarrow> vertexManager" where
  "VertexManager n db s =
     \<lparr>vReqCount = 0, vHitCount = 0, vertexDataBufferSize = n, vLruList = [], vCache = [], vertexDb = db,
      vertexSchema = s\<rparr>"

definition VertexManager_open :: "nat \<Rightarrow> status \<times> leveldb \<Rightarrow> schema \<Rightarrow> vertexManager result" where
  "VertexManager_open n opened s = rbind (db_Open opened) (\<lambda>db. Inr (VertexManager n db s))"

text \<open>The entry is looked up again after the eviction, as the code uses its reference to it; an entry
  that evicted itself is a dangling reference.\<close>

definition getVertexData :: "vertexId \<Rightarrow> vertexManager \<Rightarrow> (attributeData \<times> vertexManager) result" where
  "getVertexData i vm0 =
     (let vm = vm0\<lparr>vReqCount := vReqCount vm0 + 1\<rparr>
      in case um_find (vCache vm) i of
           Some d \<Rightarrow> Inr (d, vm\<lparr>vHitCount := vHitCount vm + 1, vLruList := touch i (vLruList vm)\<rparr>)
         | None \<Rightarrow>
             rbind (addUInt64 i (NetworkByteBuffer_sized 8)) (\<lambda>keyBuf.
             (case db_Get (vertexDb vm) (content keyBuf) of
                (StatusNotFound, v) \<Rightarrow> Inl (VertexNotFound i)
              | (StatusError e, v) \<Rightarrow> Inl (RuntimeError e)
              | (StatusOk, v) \<Rightarrow>
                  rbind (getAttributeData (newAttributeData (vertexSchema vm)) (NetworkByteBuffer_over v (length v)))
                    (\<lambda>(d, nb).
                     let vm1 = vm\<lparr>vCache := um_put i d (vCache vm), vLruList := i # vLruList vm\<rparr>;
                         vm2 = (if vertexDataBufferSize vm1 \<le> length (vLruList vm1)
                                then vm1\<lparr>vLruList := butlast (vLruList vm1),
                                         vCache := um_erase (last (vLruList vm1)) (vCache vm1)\<rparr>
                                else vm1)
                     in rbind (deref (um_find (vCache vm2) i)) (\<lambda>d1. Inr (d1, vm2))))))"

definition addVertex :: "vertexId \<Rightarrow> attributeData \<Rightarrow> vertexManager \<Rightarrow> vertexManager result" where
  "addVertex i d vm =
     (if um_count (vCache vm) i then Inl (VertexAlreadyExists i)
      else rbind (addUInt64 i (NetworkByteBuffer_sized 8)) (\<lambda>keyBuf.
           (case db_Get (vertexDb vm) (content keyBuf) of
              (StatusOk, v) \<Rightarrow> Inl (VertexAlreadyExists i)
            | (StatusError e, v) \<Rightarrow> Inl (RuntimeError e)
            | (StatusNotFound, v) \<Rightarrow>
                rbind (addAttributeData d NetworkByteBuffer) (\<lambda>dataBuf.
                  case db_Put (vertexDb vm) (content keyBuf) (content dataBuf) of (st, db1) \<Rightarrow>
                    rbind (throw_unless_ok st) (\<lambda>_. Inr (vm\<lparr>vertexDb := db1\<rparr>))))))"

definition vm_getHitRatio :: "vertexManager \<Rightarrow> double" where
  "vm_getHitRatio vm = ddiv (dof_nat (vHitCount vm)) (dof_nat (vReqCount vm))"

section \<open>Keys\<close>

lemma key_bytes: "\<exists>kb. addUInt64 i (NetworkByteBuffer_sized 8) = Inr kb \<and> content kb = net_word 8 i \<and> icursor kb = 8"
proof -
  have nb: "nb_ok (NetworkByteBuffer_sized 8)" "autoDealloc (NetworkByteBuffer_sized 8)"
    "content (NetworkByteBuffer_sized 8) = []" "icursor (NetworkByteBuffer_sized 8) = 0"
    by (simp_all add: nb_ok_def NetworkByteBuffer_sized_def content_def)
  obtain kb where "addUInt64 i (NetworkByteBuffer_sized 8) = Inr kb" "nb_ok kb" "content kb = net_word 8 i"
    using appends_eqD [OF c_uint64.add_appends [OF TrueI, of i] nb(1,2)] nb by auto
  moreover from this have "icursor kb = 8" using length_content by (metis length_net_word)
  ultimately show ?thesis by blast
qed

lemma key_inj: "net_word 8 (i :: 64 word) = net_word 8 j \<longleftrightarrow> i = j"
  by (rule net_word_eq_iff) simp

section \<open>LRU lists\<close>

definition lru_ok :: "nat \<Rightarrow> 'a list \<Rightarrow> ('a, 'v) umap \<Rightarrow> bool" where
  "lru_ok n l m \<longleftrightarrow> distinct l \<and> um_ok m \<and> set l = fst ` set m \<and> length l \<le> n"

lemma touch_set: "i \<in> set l \<Longrightarrow> distinct l \<Longrightarrow> set (touch i l) = set l"
  by (auto simp: touch_def)

lemma touch_distinct: "distinct l \<Longrightarrow> distinct (touch i l)"
  by (simp add: touch_def)

lemma touch_length: "i \<in> set l \<Longrightarrow> length (touch i l) = length l"
  using length_pos_if_in_set [of i l] by (auto simp: touch_def length_remove1)

lemma lru_touch: "lru_ok n l m \<Longrightarrow> um_find m i = Some v \<Longrightarrow> lru_ok n (touch i l) m"
proof -
  assume "lru_ok n l m" and "um_find m i = Some v"
  moreover from this have "i \<in> set l" by (force simp: lru_ok_def dest: map_of_SomeD)
  ultimately show "lru_ok n (touch i l) m"
    by (simp add: lru_ok_def touch_set touch_length touch_distinct)
qed

text \<open>Insertion at the front with eviction from the back, at most \<open>n\<close> entries with \<open>n > 0\<close>.\<close>

lemma lru_insert:
  fixes m :: "('a, 'v) umap" and v :: 'v
  assumes "lru_ok n l m" and "um_find m i = None" and "0 < n"
  defines "m1 \<equiv> m @ [(i, v)]"
  defines "l2 \<equiv> (if n < length (i # l) then butlast (i # l) else i # l)"
    and "m2 \<equiv> (if n < length (i # l) then um_erase (last (i # l)) m1 else m1)"
  shows "lru_ok n l2 m2" and "um_find m2 i = Some v" and "\<And>j w. um_find m2 j = Some w \<Longrightarrow> j = i \<and> w = v \<or> um_find m j = Some w"
proof -
  have i: "i \<notin> fst ` set m" using assms(2) by (simp add: map_of_eq_None_iff)
  have find1: "um_find m1 j = (if j = i then Some v else um_find m j)" for j
    using assms(2) by (auto simp: m1_def map_add_def split: option.splits)
  have m1: "um_ok m1" "fst ` set m1 = insert i (set l)" using assms(1) i by (auto simp: m1_def lru_ok_def)
  have l: "distinct (i # l)" using assms(1) i by (auto simp: lru_ok_def)
  show "um_find m2 j = Some w \<Longrightarrow> j = i \<and> w = v \<or> um_find m j = Some w" for j w
    by (auto simp: m2_def find1 split: if_splits)
  show "lru_ok n l2 m2"
  proof (cases "n < length (i # l)")
    case False
    then show ?thesis using l m1 assms(1) by (simp add: l2_def m2_def lru_ok_def)
  next
    case True
    let ?r = "last (i # l)"
    have "set (i # l) = insert ?r (set (butlast (i # l)))" "?r \<notin> set (butlast (i # l))"
      using l by (metis append_butlast_last_id list.set(2) list.simps(3) rotate1.simps(2) set_rotate1,
          metis append_butlast_last_id distinct_append disjoint_iff list.set_intros(1) list.simps(3) l)
    moreover have "fst ` set (um_erase ?r m1) = fst ` set m1 - {?r}"
      by (rule um_erase_keys)
    ultimately have "set l2 = fst ` set m2" using True m1(2) by (auto simp: l2_def m2_def)
    moreover have "distinct l2" using l True unfolding l2_def by (simp only: if_True distinct_butlast)
    moreover have "length l2 \<le> n" using assms(1) True by (simp add: l2_def lru_ok_def)
    moreover have "um_ok m2" using m1(1) True by (simp add: m2_def)
    ultimately show ?thesis by (simp add: lru_ok_def)
  qed
  have "last (i # l) \<noteq> i" if "n < length (i # l)"
    using that assms(3) l by (cases l) (auto dest: last_in_set)
  then show "um_find m2 i = Some v" using assms(3) by (auto simp: m2_def find1)
qed

section \<open>Coherence of the block manager\<close>

text \<open>Two blocks that agree in everything a reader can see.\<close>

definition same_block :: "block \<Rightarrow> block \<Rightarrow> bool" where
  "same_block a b \<longleftrightarrow> bid a = bid b \<and> partitionNo a = partitionNo b \<and> subBlocks a = subBlocks b
     \<and> view (neigs a) = view (neigs b)"

text \<open>The contract of the partition index as seen from deserialisation: in a state satisfying \<open>Q\<close> it
  answers, for the times it serves, with the partitioning in force then, and stays in such a state.\<close>

locale partition_source =
  fixes Q :: "'p \<Rightarrow> bool"
    and getPart :: "timestamp \<Rightarrow> 'p \<Rightarrow> (partitioning \<times> 'p) result"
    and partOf :: "timestamp \<Rightarrow> partitioning"
    and served :: "timestamp \<Rightarrow> bool"
  assumes getPart_serves: "Q p \<Longrightarrow> served t \<Longrightarrow> \<exists>p'. getPart t p = Inr (partOf t, p') \<and> Q p'"


text \<open>\<open>on_disk s getPart Q db i blk\<close>: the store has an entry for block \<open>i\<close> that deserialises to \<open>blk\<close>.\<close>

definition on_disk ::
  "schema \<Rightarrow> (timestamp \<Rightarrow> 'p \<Rightarrow> (partitioning \<times> 'p) result) \<Rightarrow> ('p \<Rightarrow> bool) \<Rightarrow> leveldb \<Rightarrow> blockId \<Rightarrow> block \<Rightarrow> bool" where
  "on_disk s getPart Q db i blk \<longleftrightarrow> failure db = None \<and> bid blk = i \<and>
     (\<exists>v. map_of (entries db) (net_word 8 i) = Some v \<and>
        (\<forall>p. Q p \<longrightarrow> (\<exists>b nb p'. deserialize s getPart (Block 0) (NetworkByteBuffer_over v (length v)) p = Inr (b, nb, p')
           \<and> Q p' \<and> same_block b blk)))"

definition bm_ok ::
  "schema \<Rightarrow> (timestamp \<Rightarrow> 'p \<Rightarrow> (partitioning \<times> 'p) result) \<Rightarrow> ('p \<Rightarrow> bool) \<Rightarrow> 'p blockManager \<Rightarrow> bool" where
  "bm_ok s getPart Q bm \<longleftrightarrow> 0 < blockBufferSize bm \<and> lru_ok (blockBufferSize bm) (lruList bm) (cache bm)
     \<and> db_ok (blockDb bm) \<and> failure (blockDb bm) = None \<and> Q (pidx bm)
     \<and> (\<forall>i blk. um_find (cache bm) i = Some blk \<longrightarrow> on_disk s getPart Q (blockDb bm) i blk)"

lemma icursor_over [simp]: "icursor (NetworkByteBuffer_over v n) = n"
  by (simp add: NetworkByteBuffer_over_def)

lemma same_block_refl [simp]: "same_block b b"
  by (simp add: same_block_def)

lemma same_block_trans: "same_block a b \<Longrightarrow> same_block b c \<Longrightarrow> same_block a c"
  by (simp add: same_block_def)

lemma same_block_sym: "same_block a b \<Longrightarrow> same_block b a"
  by (simp add: same_block_def)

lemma on_disk_same: "on_disk s getPart Q db i blk \<Longrightarrow> same_block b blk \<Longrightarrow> on_disk s getPart Q db i b"
proof -
  assume disk: "on_disk s getPart Q db i blk" and same: "same_block b blk"
  from disk obtain v where v: "map_of (entries db) (net_word 8 i) = Some v" "failure db = None" "bid blk = i"
      and des: "\<And>p. Q p \<Longrightarrow> \<exists>b nb p'. deserialize s getPart (Block 0)
        (NetworkByteBuffer_over v (length v)) p = Inr (b, nb, p') \<and> Q p' \<and> same_block b blk"
    unfolding on_disk_def by blast
  have "\<exists>b' nb p'. deserialize s getPart (Block 0) (NetworkByteBuffer_over v (length v)) p = Inr (b', nb, p')
      \<and> Q p' \<and> same_block b' b" if "Q p" for p
    using des [OF that] same same_block_trans same_block_sym by blast
  then show "on_disk s getPart Q db i b"
    using v same unfolding on_disk_def by (simp add: same_block_def)
qed

lemma on_disk_unique:
  "Q p \<Longrightarrow> on_disk s getPart Q db i a \<Longrightarrow> on_disk s getPart Q db i b \<Longrightarrow> same_block a b"
proof -
  assume Q: "Q p" and a: "on_disk s getPart Q db i a" and b: "on_disk s getPart Q db i b"
  from a obtain v where v: "map_of (entries db) (net_word 8 i) = Some v" unfolding on_disk_def by blast
  from a v Q obtain x nb p' where
    x: "deserialize s getPart (Block 0) (NetworkByteBuffer_over v (length v)) p = Inr (x, nb, p')" "same_block x a"
    unfolding on_disk_def by fastforce
  from b v Q x(1) have "same_block x b" unfolding on_disk_def by fastforce
  with x(2) show "same_block a b" by (simp add: same_block_def)
qed

text \<open>A cached or stored block is returned, the cache keeps its bound and its coherence, and the store
  is not changed.\<close>

lemma bm_getBlock_result:
  assumes ok: "bm_ok s getPart Q bm" and disk: "on_disk s getPart Q (blockDb bm) i blk"
  shows "\<exists>b bm'. bm_getBlock s getPart i bm = Inr (b, bm') \<and> same_block b blk \<and> bm_ok s getPart Q bm'
    \<and> blockDb bm' = blockDb bm \<and> nextBlockId bm' = nextBlockId bm
    \<and> um_find (cache bm') i = Some b \<and> blockBufferSize bm' = blockBufferSize bm"
proof (cases "um_find (cache bm) i")
  case (Some b)
  then have b: "on_disk s getPart Q (blockDb bm) i b" using ok by (simp add: bm_ok_def)
  have "same_block b blk" using on_disk_unique [OF _ b disk] ok by (auto simp: bm_ok_def)
  with Some b ok show ?thesis
    using lru_touch [of "blockBufferSize bm" "lruList bm" "cache bm" i b]
    by (simp add: bm_getBlock_def on_disk_def bm_ok_def)
next
  case None
  from disk obtain v where v: "map_of (entries (blockDb bm)) (net_word 8 i) = Some v" "failure (blockDb bm) = None"
      "bid blk = i" and des: "\<And>p. Q p \<Longrightarrow> \<exists>b nb p'. deserialize s getPart (Block 0)
        (NetworkByteBuffer_over v (length v)) p = Inr (b, nb, p') \<and> Q p' \<and> same_block b blk"
    unfolding on_disk_def by blast
  from ok have Q: "Q (pidx bm)" and n: "0 < blockBufferSize bm"
      and lru: "lru_ok (blockBufferSize bm) (lruList bm) (cache bm)" by (auto simp: bm_ok_def)
  from des [OF Q] obtain b nb p' where b: "deserialize s getPart (Block 0) (NetworkByteBuffer_over v (length v)) (pidx bm)
      = Inr (b, nb, p')" "Q p'" "same_block b blk" by blast
  obtain kb where kb: "addUInt64 i (NetworkByteBuffer_sized 8) = Inr kb" "content kb = net_word 8 i" "icursor kb = 8"
    using key_bytes by blast
  have get: "db_Get (blockDb bm) (net_word 8 i) = (StatusOk, v)" using v by (simp add: db_Get_def)
  have emp: "um_emplace i b (cache bm) = cache bm @ [(i, b)]" using None by (simp add: um_emplace_def um_count_def)
  note ins = lru_insert [OF lru None n, of b]
  have bid: "bid b = i" using b(3) v(3) by (simp add: same_block_def)
  have disk_b: "on_disk s getPart Q (blockDb bm) i b" by (rule on_disk_same [OF disk b(3)])
  let ?over = "blockBufferSize bm < length (i # lruList bm)"
  let ?m2 = "if ?over then um_erase (last (i # lruList bm)) (cache bm @ [(i, b)]) else cache bm @ [(i, b)]"
  let ?l2 = "if ?over then butlast (i # lruList bm) else i # lruList bm"
  define bm2 where "bm2 = bm\<lparr>reqCount := reqCount bm + 1, nIOReads := nIOReads bm + 8 + length v, pidx := p',
      cache := ?m2, lruList := ?l2\<rparr>"
  have "bm_getBlock s getPart i bm = Inr (b, bm2)"
  proof (cases ?over)
    case True
    with ins(2) have f: "um_find (um_erase (last (i # lruList bm)) (cache bm @ [(i, b)])) i = Some b"
      by (simp only: if_True)
    then have "lruList bm \<noteq> []" "i \<noteq> last (lruList bm)" by (auto split: if_splits)
    then show ?thesis using None True bid
      by (simp add: bm_getBlock_def Let_def kb get b(1) emp bm2_def map_add_def)
  next
    case False
    with ins(2) have f: "um_find (cache bm @ [(i, b)]) i = Some b" by (simp only: if_False)
    show ?thesis using None False f bid
      by (simp add: bm_getBlock_def Let_def kb get b(1) emp bm2_def)
  qed
  moreover have "on_disk s getPart Q (blockDb bm) j w" if "um_find ?m2 j = Some w" for j w
    using ins(3) [OF that] ok disk_b by (auto simp: bm_ok_def)
  then have "bm_ok s getPart Q bm2"
    using ok ins(1) b(2) unfolding bm_ok_def bm2_def by simp
  ultimately show ?thesis using b(3) ins(2) by (auto simp: bm2_def)
qed

text \<open>What is stored under a key before a block is deserialised: a block that the codec can represent, with
  its encoding no longer than the buffer allows.\<close>

definition bm_storable :: "schema \<Rightarrow> (timestamp \<Rightarrow> partitioning) \<Rightarrow> (timestamp \<Rightarrow> bool) \<Rightarrow> block \<Rightarrow> bool" where
  "bm_storable s partOf served b \<longleftrightarrow> (\<exists>p mn mx. findMinMaxTimestamps b = Inr (mn, mx) \<and> served (ddiv (dadd mn mx) d_two)
     \<and> storable s (partOf (ddiv (dadd mn mx) d_two)) p b \<and> length (block_enc b p mn mx) \<le> 2 ^ 32)"

definition ids_below :: "'p blockManager \<Rightarrow> bool" where
  "ids_below bm \<longleftrightarrow> (\<forall>j. map_of (entries (blockDb bm)) (net_word 8 j) \<noteq> None \<longrightarrow> j < nextBlockId bm)"

context partition_source
begin

lemma stored_on_disk:
  assumes "bm_storable s partOf served b" and "failure db = None" and "db_ok db"
  shows "\<exists>nb. serialize b NetworkByteBuffer = Inr nb
    \<and> on_disk s getPart Q (db\<lparr>entries := kv_put (net_word 8 (bid b)) (content nb) (entries db)\<rparr>) (bid b) b"
proof -
  from assms(1) obtain p mn mx where b: "findMinMaxTimestamps b = Inr (mn, mx)"
      "storable s (partOf (ddiv (dadd mn mx) d_two)) p b" "length (block_enc b p mn mx) \<le> 2 ^ 32"
      and t: "served (ddiv (dadd mn mx) d_two)"
    unfolding bm_storable_def by blast
  note run = block_store_load [OF b(2,1,3)]
  have "\<exists>nb. serialize b NetworkByteBuffer = Inr nb \<and> content nb = block_enc b p mn mx"
    by (rule appends_fresh [OF serialize_appends [OF storable_ser_ok [OF b(2)] _ b(1)] b(3)])
      (use b(2) in \<open>simp add: storable_def\<close>)
  then obtain nb where nb: "serialize b NetworkByteBuffer = Inr nb" by blast
  have "\<exists>b' nb' q'. deserialize s getPart (Block 0) (NetworkByteBuffer_over (content nb) (length (content nb))) q
      = Inr (b', nb', q') \<and> Q q' \<and> same_block b' b" if q: "Q q" for q
  proof -
    obtain q' where q': "getPart (ddiv (dadd mn mx) d_two) q = Inr (partOf (ddiv (dadd mn mx) d_two), q')" "Q q'"
      using getPart_serves [OF q t] by blast
    from run [where getPart = getPart, OF q'(1)] nb q'(2) show ?thesis by (auto simp: same_block_def)
  qed
  then show ?thesis using nb assms(2,3)
    by (intro exI [of _ nb]) (simp add: on_disk_def kv_put_find db_ok_def)
qed

end

lemma on_disk_entry: "on_disk s getPart Q db i b \<Longrightarrow> map_of (entries db) (net_word 8 i) \<noteq> None"
  unfolding on_disk_def by blast

lemma on_disk_other:
  "on_disk s getPart Q db j c \<Longrightarrow> map_of (entries db') (net_word 8 j) = map_of (entries db) (net_word 8 j)
    \<Longrightarrow> failure db' = None \<Longrightarrow> on_disk s getPart Q db' j c"
  unfolding on_disk_def by simp

text \<open>Writing a storable block under its id: it is on disk afterwards, and so is every other block that was.\<close>

lemma bm_addBlock_result:
  assumes "partition_source Q getPart partOf served" and "bm_storable s partOf served b"
    and "failure (blockDb bm) = None" and "db_ok (blockDb bm)"
  shows "\<exists>nb. bm_addBlock b False bm = Inr (b, bm\<lparr>
        blockDb := (blockDb bm)\<lparr>entries := kv_put (net_word 8 (bid b)) (content nb) (entries (blockDb bm))\<rparr>,
        nIOWrites := nIOWrites bm + 8 + icursor nb\<rparr>)
    \<and> on_disk s getPart Q ((blockDb bm)\<lparr>entries := kv_put (net_word 8 (bid b)) (content nb) (entries (blockDb bm))\<rparr>) (bid b) b"
proof -
  obtain kb where kb: "addUInt64 (bid b) (NetworkByteBuffer_sized 8) = Inr kb" "content kb = net_word 8 (bid b)" "icursor kb = 8"
    using key_bytes by blast
  from partition_source.stored_on_disk [OF assms] obtain nb where nb: "serialize b NetworkByteBuffer = Inr nb"
    "on_disk s getPart Q ((blockDb bm)\<lparr>entries := kv_put (net_word 8 (bid b)) (content nb) (entries (blockDb bm))\<rparr>) (bid b) b"
    by blast
  then show ?thesis using kb assms(3)
    by (intro exI [of _ nb]) (simp add: bm_addBlock_def db_Put_def throw_unless_ok_def)
qed

lemma bm_addBlock_setId:
  "bm_addBlock b True bm = bm_addBlock (b\<lparr>bid := nextBlockId bm\<rparr>) False (bm\<lparr>nextBlockId := nextBlockId bm + 1\<rparr>)"
  by (simp add: bm_addBlock_def Let_def)

text \<open>The invariant of the block manager is kept by a write of any id whose cached copy, if there is one,
  is the block written.\<close>

lemma bm_ok_write:
  assumes ok: "bm_ok s getPart Q bm"
    and disk: "on_disk s getPart Q (db\<lparr>entries := kv_put (net_word 8 i) v (entries db)\<rparr>) i b"
    and db: "blockDb bm = db" and hit: "\<And>c. um_find (cache bm) i = Some c \<Longrightarrow> c = b"
    and bm': "blockDb bm' = db\<lparr>entries := kv_put (net_word 8 i) v (entries db)\<rparr>" "cache bm' = cache bm"
      "lruList bm' = lruList bm" "blockBufferSize bm' = blockBufferSize bm" "pidx bm' = pidx bm"
  shows "bm_ok s getPart Q bm'"
proof -
  from ok db have f: "failure db = None" "db_ok db" by (auto simp: bm_ok_def)
  have "on_disk s getPart Q (blockDb bm') j c" if "um_find (cache bm) j = Some c" for j c
  proof (cases "j = i")
    case True
    with that hit disk bm' show ?thesis by simp
  next
    case False
    have "on_disk s getPart Q db j c" using ok that db by (simp add: bm_ok_def)
    then show ?thesis unfolding bm'(1)
      by (rule on_disk_other) (use False f in \<open>simp_all add: kv_put_find db_ok_def key_inj\<close>)
  qed
  then show ?thesis using ok f bm' by (simp add: bm_ok_def db_ok_def kv_put_sorted)
qed

lemma BlockManager_ok: "0 < n \<Longrightarrow> db_ok db \<Longrightarrow> failure db = None \<Longrightarrow> Q p \<Longrightarrow> bm_ok s getPart Q (BlockManager n p db i)"
  by (simp add: bm_ok_def BlockManager_def lru_ok_def)

lemma bm_addBlock_new:
  assumes src: "partition_source Q getPart partOf served" and ok: "bm_ok s getPart Q bm" and ids: "ids_below bm"
    and b: "bm_storable s partOf served (b\<lparr>bid := nextBlockId bm\<rparr>)" and wrap: "nextBlockId bm \<noteq> - 1"
  shows "\<exists>bm1. bm_addBlock b True bm = Inr (b\<lparr>bid := nextBlockId bm\<rparr>, bm1) \<and> bm_ok s getPart Q bm1 \<and> ids_below bm1
    \<and> (\<forall>j blk. on_disk s getPart Q (blockDb bm) j blk
         \<longrightarrow> j \<noteq> nextBlockId bm \<and> on_disk s getPart Q (blockDb bm1) j blk)
    \<and> on_disk s getPart Q (blockDb bm1) (nextBlockId bm) (b\<lparr>bid := nextBlockId bm\<rparr>)
    \<and> nextBlockId bm1 = nextBlockId bm + 1 \<and> pidx bm1 = pidx bm"
proof -
  let ?i = "nextBlockId bm" and ?b = "b\<lparr>bid := nextBlockId bm\<rparr>"
  let ?bm0 = "bm\<lparr>nextBlockId := nextBlockId bm + 1\<rparr>"
  have f: "failure (blockDb bm) = None" "db_ok (blockDb bm)" using ok by (auto simp: bm_ok_def)
  obtain nb where nb: "bm_addBlock ?b False ?bm0 = Inr (?b, ?bm0\<lparr>
        blockDb := (blockDb bm)\<lparr>entries := kv_put (net_word 8 ?i) (content nb) (entries (blockDb bm))\<rparr>,
        nIOWrites := nIOWrites bm + 8 + icursor nb\<rparr>)"
      and disk: "on_disk s getPart Q ((blockDb bm)\<lparr>entries := kv_put (net_word 8 ?i) (content nb) (entries (blockDb bm))\<rparr>) ?i ?b"
    using bm_addBlock_result [OF src b, of ?bm0] f by auto
  define bm1 where "bm1 = ?bm0\<lparr>
        blockDb := (blockDb bm)\<lparr>entries := kv_put (net_word 8 ?i) (content nb) (entries (blockDb bm))\<rparr>,
        nIOWrites := nIOWrites bm + 8 + icursor nb\<rparr>"
  have fresh: "j \<noteq> ?i" if "map_of (entries (blockDb bm)) (net_word 8 j) \<noteq> None" for j
    using ids that by (auto simp: ids_below_def)
  have nohit: "um_find (cache bm) ?i = None"
    using ok fresh by (metis bm_ok_def on_disk_entry not_None_eq)
  have ok1: "bm_ok s getPart Q bm1"
    by (rule bm_ok_write [OF ok disk refl]) (use nohit in \<open>simp_all add: bm1_def\<close>)
  have less: "j < nextBlockId bm + 1" if "j \<le> nextBlockId bm" for j
  proof -
    have "1 + nextBlockId bm \<noteq> 0" using wrap by (metis add.right_inverse add_left_cancel)
    then have "unat (nextBlockId bm + 1) = Suc (unat (nextBlockId bm))" by (simp add: add.commute unatSuc)
    with that show ?thesis by (simp add: word_less_nat_alt word_le_nat_alt)
  qed
  have ids1: "ids_below bm1"
    using ids f less by (auto simp: ids_below_def bm1_def kv_put_find db_ok_def key_inj split: if_splits)
  have others: "j \<noteq> ?i \<and> on_disk s getPart Q (blockDb bm1) j blk" if "on_disk s getPart Q (blockDb bm) j blk" for j blk
  proof -
    have "j \<noteq> ?i" using on_disk_entry [OF that] fresh by blast
    moreover have "on_disk s getPart Q (blockDb bm1) j blk"
      using that by (rule on_disk_other) (use f calculation in \<open>simp_all add: bm1_def kv_put_find db_ok_def key_inj\<close>)
    ultimately show ?thesis by blast
  qed
  have "blockDb bm1 = (blockDb bm)\<lparr>entries := kv_put (net_word 8 ?i) (content nb) (entries (blockDb bm))\<rparr>"
    by (simp add: bm1_def)
  with disk have disk1: "on_disk s getPart Q (blockDb bm1) ?i ?b" by simp
  then show ?thesis using ok1 ids1 others nb by (auto simp: bm_addBlock_setId bm1_def [symmetric]) (simp_all add: bm1_def)
qed

text \<open>A concrete store with one block, read through a partition index that always answers with one partitioning.\<close>

definition ex_getPart :: "timestamp \<Rightarrow> unit \<Rightarrow> (partitioning \<times> unit) result" where
  "ex_getPart t p = Inr (ex_part, p)"

definition ex_db :: leveldb where
  "ex_db = \<lparr>entries = [], failure = None\<rparr>"

lemma ex_source: "partition_source (\<lambda>_. True) ex_getPart (\<lambda>_. ex_part) (\<lambda>_. True)"
  by unfold_locales (simp add: ex_getPart_def)

lemma ex_bm_storable: "bm_storable ex_schema (\<lambda>_. ex_part) (\<lambda>_. True) ex_sub_block"
  unfolding bm_storable_def using ex_sub_minmax ex_sub_storable ex_sub_enc_length by blast

lemma ex_stored:
  "\<exists>db. db_ok db \<and> failure db = None \<and> on_disk ex_schema ex_getPart (\<lambda>_. True) db (bid ex_sub_block) ex_sub_block"
proof -
  have "failure ex_db = None" "db_ok ex_db" by (simp_all add: ex_db_def db_ok_def)
  from partition_source.stored_on_disk [OF ex_source ex_bm_storable this] obtain nb where
    "on_disk ex_schema ex_getPart (\<lambda>_. True)
       (ex_db\<lparr>entries := kv_put (net_word 8 (bid ex_sub_block)) (content nb) (entries ex_db)\<rparr>) (bid ex_sub_block) ex_sub_block"
    by blast
  then show ?thesis by (intro exI conjI) (auto simp: ex_db_def db_ok_def)
qed

section \<open>Properties of the block manager\<close>

text \<open>C9: Blocks are durable and addressed by their ids. Adding a block under a new id succeeds, gives it the
  next block id, leaves every block already stored readable, keeps the cache coherent with the store and
  within its bound, and a later read of the new id returns the block with its id, partition number,
  sub-block ids and neighbour lists. The new id is never one in use.\<close>

theorem bm_addBlock_getBlock:
  assumes src: "partition_source Q getPart partOf served" and ok: "bm_ok s getPart Q bm" and ids: "ids_below bm"
    and b: "bm_storable s partOf served (b\<lparr>bid := nextBlockId bm\<rparr>)" and wrap: "nextBlockId bm \<noteq> - 1"
  shows "\<exists>bm1 c bm2. bm_addBlock b True bm = Inr (b\<lparr>bid := nextBlockId bm\<rparr>, bm1)
    \<and> bm_ok s getPart Q bm1 \<and> ids_below bm1
    \<and> (\<forall>j blk. on_disk s getPart Q (blockDb bm) j blk
         \<longrightarrow> j \<noteq> nextBlockId bm \<and> on_disk s getPart Q (blockDb bm1) j blk)
    \<and> bm_getBlock s getPart (nextBlockId bm) bm1 = Inr (c, bm2)
    \<and> same_block c (b\<lparr>bid := nextBlockId bm\<rparr>) \<and> bm_ok s getPart Q bm2"
proof -
  obtain bm1 where b1: "bm_addBlock b True bm = Inr (b\<lparr>bid := nextBlockId bm\<rparr>, bm1)" "bm_ok s getPart Q bm1" "ids_below bm1"
      "\<forall>j blk. on_disk s getPart Q (blockDb bm) j blk \<longrightarrow> j \<noteq> nextBlockId bm \<and> on_disk s getPart Q (blockDb bm1) j blk"
      "on_disk s getPart Q (blockDb bm1) (nextBlockId bm) (b\<lparr>bid := nextBlockId bm\<rparr>)"
    using bm_addBlock_new [OF assms] by blast
  from bm_getBlock_result [OF b1(2,5)] b1(1-4) show ?thesis by auto
qed

theorem bm_addBlock_getBlock_witness:
  "\<exists>bm1 c bm2. bm_addBlock ex_sub_block True (BlockManager 2 () ex_db 9) = Inr (ex_sub_block, bm1)
    \<and> bm_getBlock ex_schema ex_getPart 9 bm1 = Inr (c, bm2) \<and> same_block c ex_sub_block"
proof -
  let ?bm = "BlockManager 2 () ex_db 9"
  have i: "nextBlockId ?bm = 9" "ex_sub_block\<lparr>bid := 9\<rparr> = ex_sub_block"
    by (simp_all add: BlockManager_def ex_sub_block_def Block_def)
  have "bm_ok ex_schema ex_getPart (\<lambda>_. True) ?bm" by (rule BlockManager_ok) (simp_all add: ex_db_def db_ok_def)
  moreover have "ids_below ?bm" by (simp add: ids_below_def BlockManager_def ex_db_def)
  ultimately show ?thesis
    using bm_addBlock_getBlock [OF ex_source, of ex_schema ?bm ex_sub_block] ex_bm_storable unfolding i by auto
qed

text \<open>C25: Updating a stored block replaces it: the block read next is the new one, wherever the old one was
  (cache or store), and all other blocks are unchanged.\<close>

theorem bm_updateBlock_getBlock:
  assumes src: "partition_source Q getPart partOf served" and ok: "bm_ok s getPart Q bm"
    and old: "on_disk s getPart Q (blockDb bm) (bid b) old" and b: "bm_storable s partOf served b"
  shows "\<exists>bm1 c bm2. bm_updateBlock s getPart b bm = Inr bm1 \<and> bm_ok s getPart Q bm1
    \<and> (\<forall>j blk. j \<noteq> bid b \<longrightarrow> on_disk s getPart Q (blockDb bm) j blk \<longrightarrow> on_disk s getPart Q (blockDb bm1) j blk)
    \<and> bm_getBlock s getPart (bid b) bm1 = Inr (c, bm2) \<and> same_block c b"
proof -
  from bm_getBlock_result [OF ok old] obtain e bm0 where e: "bm_getBlock s getPart (bid b) bm = Inr (e, bm0)"
      "bm_ok s getPart Q bm0" "blockDb bm0 = blockDb bm" "um_find (cache bm0) (bid b) = Some e" by blast
  let ?bm0 = "bm0\<lparr>cache := um_put (bid b) b (cache bm0)\<rparr>"
  have f: "failure (blockDb bm0) = None" "db_ok (blockDb bm0)" using e(2) by (auto simp: bm_ok_def)
  obtain nb where nb: "bm_addBlock b False ?bm0 = Inr (b, ?bm0\<lparr>
        blockDb := (blockDb bm0)\<lparr>entries := kv_put (net_word 8 (bid b)) (content nb) (entries (blockDb bm0))\<rparr>,
        nIOWrites := nIOWrites bm0 + 8 + icursor nb\<rparr>)"
      and disk: "on_disk s getPart Q ((blockDb bm0)\<lparr>entries := kv_put (net_word 8 (bid b)) (content nb) (entries (blockDb bm0))\<rparr>) (bid b) b"
    using bm_addBlock_result [OF src b, of ?bm0] f by auto
  define bm1 where "bm1 = ?bm0\<lparr>
        blockDb := (blockDb bm0)\<lparr>entries := kv_put (net_word 8 (bid b)) (content nb) (entries (blockDb bm0))\<rparr>,
        nIOWrites := nIOWrites bm0 + 8 + icursor nb\<rparr>"
  have db1: "blockDb bm1 = (blockDb bm0)\<lparr>entries := kv_put (net_word 8 (bid b)) (content nb) (entries (blockDb bm0))\<rparr>"
    by (simp add: bm1_def)
  have others: "on_disk s getPart Q (blockDb bm1) j blk"
    if "j \<noteq> bid b" "on_disk s getPart Q (blockDb bm) j blk" for j blk
    using that(2) by (rule on_disk_other) (use f that e(3) in \<open>simp_all add: bm1_def kv_put_find db_ok_def key_inj\<close>)
  have "lru_ok (blockBufferSize bm1) (lruList bm1) (cache bm1)"
  proof -
    have "bid b \<in> fst ` set (cache bm0)" using e(4) by (metis map_of_eq_None_iff option.simps(3))
    then have "fst ` set (um_put (bid b) b (cache bm0)) = fst ` set (cache bm0)"
      using um_put_keys [of "bid b" b "cache bm0"] by (metis image_set)
    then show ?thesis using e(2) by (simp add: bm1_def lru_ok_def bm_ok_def)
  qed
  moreover have "on_disk s getPart Q (blockDb bm1) j blk" if "um_find (cache bm1) j = Some blk" for j blk
    using that others disk e(2,3) unfolding db1 by (auto simp: bm1_def bm_ok_def split: if_splits)
  ultimately have ok1: "bm_ok s getPart Q bm1"
    using e(2) f unfolding bm_ok_def by (auto simp: bm1_def db_ok_def kv_put_sorted)
  have "on_disk s getPart Q (blockDb bm1) (bid b) b" using disk unfolding db1 .
  from bm_getBlock_result [OF ok1 this] show ?thesis
    using ok1 others nb e(1) by (auto simp: bm_updateBlock_def bm1_def [symmetric])
qed

theorem bm_updateBlock_getBlock_witness:
  "\<exists>db bm1 c bm2. bm_updateBlock ex_schema ex_getPart ex_sub_block (BlockManager 2 () db 10) = Inr bm1
    \<and> bm_getBlock ex_schema ex_getPart (bid ex_sub_block) bm1 = Inr (c, bm2) \<and> same_block c ex_sub_block"
proof -
  obtain db where db: "db_ok db" "failure db = None"
      "on_disk ex_schema ex_getPart (\<lambda>_. True) db (bid ex_sub_block) ex_sub_block" using ex_stored by blast
  have "bm_ok ex_schema ex_getPart (\<lambda>_. True) (BlockManager 2 () db 10)" by (rule BlockManager_ok) (use db in simp_all)
  moreover have "on_disk ex_schema ex_getPart (\<lambda>_. True) (blockDb (BlockManager 2 () db 10)) (bid ex_sub_block) ex_sub_block"
    using db by (simp add: BlockManager_def)
  ultimately show ?thesis using bm_updateBlock_getBlock [OF ex_source _ _ ex_bm_storable] by blast
qed

text \<open>C26: After \<open>removeBlock\<close> the id is gone from the cache and from the store, so reading it throws
  \<open>BlockNotFound\<close>, and every other block is still there.\<close>

theorem bm_removeBlock_gone:
  assumes ok: "bm_ok s getPart Q bm"
  shows "\<exists>bm1. bm_removeBlock i bm = Inr bm1 \<and> bm_ok s getPart Q bm1
    \<and> bm_getBlock s getPart i bm1 = Inl (BlockNotFound i)
    \<and> (\<forall>j blk. j \<noteq> i \<longrightarrow> on_disk s getPart Q (blockDb bm) j blk \<longrightarrow> on_disk s getPart Q (blockDb bm1) j blk)"
proof -
  obtain kb where kb: "addUInt64 i (NetworkByteBuffer_sized 8) = Inr kb" "content kb = net_word 8 i" "icursor kb = 8"
    using key_bytes by blast
  have f: "failure (blockDb bm) = None" "db_ok (blockDb bm)" using ok by (auto simp: bm_ok_def)
  let ?db = "(blockDb bm)\<lparr>entries := filter (\<lambda>e. fst e \<noteq> net_word 8 i) (entries (blockDb bm))\<rparr>"
  define bm1 where "bm1 = (let b1 = bm\<lparr>blockDb := ?db, nIOWrites := nIOWrites bm + 8\<rparr>
     in if um_count (cache b1) i then b1\<lparr>lruList := remove1 i (lruList b1), cache := um_erase i (cache b1)\<rparr> else b1)"
  have rm: "bm_removeBlock i bm = Inr bm1"
    using kb f by (simp add: bm_removeBlock_def db_Delete_def throw_unless_ok_def bm1_def Let_def)
  have bm1: "blockDb bm1 = ?db" "blockBufferSize bm1 = blockBufferSize bm" "pidx bm1 = pidx bm"
      "um_find (cache bm1) = (um_find (cache bm))(i := None)"
    by (auto simp: bm1_def Let_def um_count_def fun_eq_iff)
  have find: "map_of (entries ?db) (net_word 8 j) = (if j = i then None else map_of (entries (blockDb bm)) (net_word 8 j))" for j
    using sorted_kv.get_del [of "entries (blockDb bm)" "net_word 8 i" "net_word 8 j"] f by (simp add: db_ok_def key_inj)
  have others: "on_disk s getPart Q (blockDb bm1) j blk" if "j \<noteq> i" "on_disk s getPart Q (blockDb bm) j blk" for j blk
    using that(2) by (rule on_disk_other) (use f that bm1 find in simp_all)
  have "lru_ok (blockBufferSize bm1) (lruList bm1) (cache bm1)"
    using ok by (auto simp: bm1_def Let_def bm_ok_def lru_ok_def um_erase_keys um_count_iff length_remove1)
  moreover have "on_disk s getPart Q (blockDb bm1) j blk" if "um_find (cache bm1) j = Some blk" for j blk
    using that others ok by (auto simp: bm1 bm_ok_def split: if_splits)
  moreover have "db_ok ?db" using f by (simp add: db_ok_def sorted_wrt_map sorted_wrt_filter)
  ultimately have ok1: "bm_ok s getPart Q bm1" using ok f bm1 unfolding bm_ok_def by simp
  have "bm_getBlock s getPart i bm1 = Inl (BlockNotFound i)"
    using kb f find [of i] by (simp add: bm_getBlock_def Let_def bm1 db_Get_def)
  with rm ok1 others show ?thesis by blast
qed

theorem bm_removeBlock_gone_witness:
  "\<exists>db bm1. map_of (entries db) (net_word 8 (bid ex_sub_block)) \<noteq> None
    \<and> bm_removeBlock (bid ex_sub_block) (BlockManager 2 () db 10) = Inr bm1
    \<and> bm_getBlock ex_schema ex_getPart (bid ex_sub_block) bm1 = Inl (BlockNotFound (bid ex_sub_block))"
proof -
  obtain db where db: "db_ok db" "failure db = None"
      "on_disk ex_schema ex_getPart (\<lambda>_. True) db (bid ex_sub_block) ex_sub_block" using ex_stored by blast
  have "bm_ok ex_schema ex_getPart (\<lambda>_. True) (BlockManager 2 () db 10)" by (rule BlockManager_ok) (use db in simp_all)
  from bm_removeBlock_gone [OF this] on_disk_entry [OF db(3)] show ?thesis by blast
qed

section \<open>Properties of the vertex manager\<close>

text \<open>A record as the vertex manager can store it: well typed, complete and in the field order of a fresh
  record of its schema. The store holds it under the vertex id.\<close>

definition vertex_data_ok :: "schema \<Rightarrow> attributeData \<Rightarrow> bool" where
  "vertex_data_ok s d \<longleftrightarrow> data_ok d \<and> schemaOf d = s \<and> um_keys (fieldsOf d) = um_keys (fieldsOf (newAttributeData s))
     \<and> data_size d \<le> 2 ^ 32"

definition v_stored :: "schema \<Rightarrow> leveldb \<Rightarrow> vertexId \<Rightarrow> attributeData \<Rightarrow> bool" where
  "v_stored s db i d \<longleftrightarrow> vertex_data_ok s d \<and> map_of (entries db) (net_word 8 i) = Some (data_enc d)"

text \<open>The cache never holds more than one entry fewer than its size, since eviction starts when the size is
  reached.\<close>

definition vm_ok :: "vertexManager \<Rightarrow> bool" where
  "vm_ok vm \<longleftrightarrow> 2 \<le> vertexDataBufferSize vm \<and> lru_ok (vertexDataBufferSize vm - 1) (vLruList vm) (vCache vm)
     \<and> db_ok (vertexDb vm) \<and> failure (vertexDb vm) = None
     \<and> (\<forall>i d. um_find (vCache vm) i = Some d \<longrightarrow> v_stored (vertexSchema vm) (vertexDb vm) i d)"

lemma schemaOf_new [simp]: "schemaOf (newAttributeData s) = s"
  by (simp add: newAttributeData_def AttributeData_def)

lemma v_stored_load:
  assumes "vertex_data_ok s d"
  shows "\<exists>nb. getAttributeData (newAttributeData s) (NetworkByteBuffer_over (data_enc d) (length (data_enc d))) = Inr (d, nb)"
  using attributeData_store_load [of d "newAttributeData s"] assms by (auto simp: vertex_data_ok_def)

lemma getVertexData_result:
  assumes ok: "vm_ok vm" and st: "v_stored (vertexSchema vm) (vertexDb vm) i d"
  shows "\<exists>vm'. getVertexData i vm = Inr (d, vm') \<and> vm_ok vm' \<and> vertexDb vm' = vertexDb vm
    \<and> vertexSchema vm' = vertexSchema vm"
proof (cases "um_find (vCache vm) i")
  case (Some d')
  then have "v_stored (vertexSchema vm) (vertexDb vm) i d'" using ok by (simp add: vm_ok_def)
  with st have "data_enc d' = data_enc d" by (simp add: v_stored_def)
  moreover have "\<exists>nb. getAttributeData (newAttributeData (vertexSchema vm))
      (NetworkByteBuffer_over (data_enc x) (length (data_enc x))) = Inr (x, nb)" if "x = d \<or> x = d'" for x
    using that st \<open>v_stored _ _ i d'\<close> v_stored_load by (auto simp: v_stored_def)
  ultimately have "d' = d" by (metis Inr_inject Pair_inject)
  with Some ok show ?thesis
    using lru_touch [of "vertexDataBufferSize vm - 1" "vLruList vm" "vCache vm" i d]
    by (simp add: getVertexData_def vm_ok_def)
next
  case None
  let ?n = "vertexDataBufferSize vm - 1"
  obtain kb where kb: "addUInt64 i (NetworkByteBuffer_sized 8) = Inr kb" "content kb = net_word 8 i"
    using key_bytes by blast
  have lru: "lru_ok ?n (vLruList vm) (vCache vm)" and n: "0 < ?n" and n2: "2 \<le> vertexDataBufferSize vm"
    and f: "failure (vertexDb vm) = None" using ok by (auto simp: vm_ok_def)
  obtain nb where nb: "getAttributeData (newAttributeData (vertexSchema vm))
      (NetworkByteBuffer_over (data_enc d) (length (data_enc d))) = Inr (d, nb)"
    using st v_stored_load by (auto simp: v_stored_def)
  have get: "db_Get (vertexDb vm) (net_word 8 i) = (StatusOk, data_enc d)"
    using st f by (simp add: db_Get_def v_stored_def)
  have put: "um_put i d (vCache vm) = vCache vm @ [(i, d)]"
    using None by (intro um_put_new) (simp add: map_of_eq_None_iff)
  note ins = lru_insert [OF lru None n, of d]
  let ?over = "?n < length (i # vLruList vm)"
  have over: "vertexDataBufferSize vm \<le> length (i # vLruList vm) \<longleftrightarrow> ?over" using n2 by auto
  let ?m2 = "if ?over then um_erase (last (i # vLruList vm)) (vCache vm @ [(i, d)]) else vCache vm @ [(i, d)]"
  define vm2 where "vm2 = (if ?over
      then vm\<lparr>vReqCount := vReqCount vm + 1, vLruList := butlast (i # vLruList vm), vCache := ?m2\<rparr>
      else vm\<lparr>vReqCount := vReqCount vm + 1, vCache := ?m2, vLruList := i # vLruList vm\<rparr>)"
  have vm2: "vCache vm2 = ?m2" "vLruList vm2 = (if ?over then butlast (i # vLruList vm) else i # vLruList vm)"
      "vertexDb vm2 = vertexDb vm" "vertexSchema vm2 = vertexSchema vm"
      "vertexDataBufferSize vm2 = vertexDataBufferSize vm"
    by (simp_all add: vm2_def del: last.simps butlast.simps)
  have "getVertexData i vm = rbind (deref (um_find (vCache vm2) i)) (\<lambda>d1. Inr (d1, vm2))"
    unfolding getVertexData_def Let_def vm2_def
    using None kb get nb put over by (simp del: last.simps butlast.simps)
  then have "getVertexData i vm = Inr (d, vm2)" unfolding vm2(1) ins(2) by simp
  moreover have "v_stored (vertexSchema vm) (vertexDb vm) j w" if "um_find ?m2 j = Some w" for j w
    using ins(3) [OF that] ok st by (auto simp: vm_ok_def)
  then have "vm_ok vm2" using ok ins(1) unfolding vm_ok_def vm2 by blast
  ultimately show ?thesis using vm2 by blast
qed

lemma db_entry_other: "db_ok db \<Longrightarrow> j \<noteq> i \<Longrightarrow>
    map_of (kv_put (net_word 8 i) v (entries db)) (net_word 8 (j :: 64 word)) = map_of (entries db) (net_word 8 j)"
  by (simp add: db_ok_def kv_put_find key_inj)

lemma addVertex_stores:
  assumes ok: "vm_ok vm" and d: "vertex_data_ok (vertexSchema vm) d"
    and new: "map_of (entries (vertexDb vm)) (net_word 8 i) = None"
  shows "\<exists>vm1 vm2. addVertex i d vm = Inr vm1 \<and> vm_ok vm1
    \<and> getVertexData i vm = Inl (VertexNotFound i)
    \<and> getVertexData i vm1 = Inr (d, vm2) \<and> vm_ok vm2
    \<and> addVertex i d' vm2 = Inl (VertexAlreadyExists i) \<and> addVertex i d' vm1 = Inl (VertexAlreadyExists i)
    \<and> (\<forall>j e. v_stored (vertexSchema vm) (vertexDb vm) j e \<longrightarrow> v_stored (vertexSchema vm1) (vertexDb vm1) j e)"
proof -
  obtain kb where kb: "addUInt64 i (NetworkByteBuffer_sized 8) = Inr kb" "content kb = net_word 8 i"
    using key_bytes by blast
  obtain nb where nb: "addAttributeData d NetworkByteBuffer = Inr nb" "content nb = data_enc d"
    using attributeData_written d by (auto simp: vertex_data_ok_def)
  have f: "failure (vertexDb vm) = None" "db_ok (vertexDb vm)" using ok by (auto simp: vm_ok_def)
  have "v_stored (vertexSchema vm) (vertexDb vm) i c" if "um_find (vCache vm) i = Some c" for c
    using ok that by (simp add: vm_ok_def)
  then have miss: "um_find (vCache vm) i = None"
    using new by (cases "um_find (vCache vm) i") (auto simp: v_stored_def)
  define vm1 where "vm1 = vm\<lparr>vertexDb := (vertexDb vm)\<lparr>entries := kv_put (net_word 8 i) (data_enc d) (entries (vertexDb vm))\<rparr>\<rparr>"
  have add: "addVertex i d vm = Inr vm1"
    using kb nb f new miss by (simp add: addVertex_def um_count_def db_Get_def db_Put_def throw_unless_ok_def vm1_def)
  have keep: "v_stored (vertexSchema vm1) (vertexDb vm1) j e" if "v_stored (vertexSchema vm) (vertexDb vm) j e" for j e
    using that new db_entry_other [OF f(2), of j i "data_enc d"]
    by (cases "j = i") (simp_all add: vm1_def v_stored_def)
  have "vm_ok vm1" using ok keep f unfolding vm_ok_def by (simp add: vm1_def db_ok_def kv_put_sorted)
  moreover have st: "v_stored (vertexSchema vm1) (vertexDb vm1) i d"
    using d f by (simp add: vm1_def v_stored_def db_ok_def kv_put_find)
  ultimately obtain vm2 where vm2: "getVertexData i vm1 = Inr (d, vm2)" "vm_ok vm2" "vertexDb vm2 = vertexDb vm1"
    using getVertexData_result by blast
  have "addVertex i d' w = Inl (VertexAlreadyExists i)" if "vertexDb w = vertexDb vm1" for w
    using st kb that f by (simp add: addVertex_def db_Get_def v_stored_def vm1_def)
  then show ?thesis using add \<open>vm_ok vm1\<close> vm2 keep kb miss new f
    by (auto simp: getVertexData_def db_Get_def)
qed

text \<open>C27: Vertices are written once. Adding the data of a new vertex succeeds, keeps the caches coherent and
  every other vertex readable; reading the vertex returns exactly the data added; adding it again throws
  \<open>VertexAlreadyExists\<close> and reading an unknown vertex throws \<open>VertexNotFound\<close>. The cache size has to be at
  least two.\<close>

theorem addVertex_getVertexData:
  assumes ok: "vm_ok vm" and d: "vertex_data_ok (vertexSchema vm) d"
    and new: "map_of (entries (vertexDb vm)) (net_word 8 i) = None"
  shows "\<exists>vm1 vm2. addVertex i d vm = Inr vm1 \<and> vm_ok vm1
    \<and> getVertexData i vm = Inl (VertexNotFound i)
    \<and> getVertexData i vm1 = Inr (d, vm2) \<and> vm_ok vm2
    \<and> addVertex i d' vm2 = Inl (VertexAlreadyExists i) \<and> addVertex i d' vm1 = Inl (VertexAlreadyExists i)
    \<and> (\<forall>j e. v_stored (vertexSchema vm) (vertexDb vm) j e \<longrightarrow> v_stored (vertexSchema vm1) (vertexDb vm1) j e)"
  using assms by (rule addVertex_stores)

theorem addVertex_getVertexData_witness:
  "\<exists>vm1 vm2. addVertex 7 ex_data (VertexManager 2 ex_db ex_schema) = Inr vm1
    \<and> getVertexData 7 vm1 = Inr (ex_data, vm2) \<and> addVertex 7 ex_data vm2 = Inl (VertexAlreadyExists 7)"
proof -
  have "vm_ok (VertexManager 2 ex_db ex_schema)"
    by (simp add: vm_ok_def VertexManager_def lru_ok_def ex_db_def db_ok_def)
  moreover have "vertex_data_ok ex_schema ex_data"
    by (simp add: vertex_data_ok_def ex_data_ok ex_data_schema ex_data_fields ex_fresh_fields newAttributeData_def data_size_def)
  ultimately show ?thesis
    using addVertex_getVertexData [of "VertexManager 2 ex_db ex_schema" ex_data 7 ex_data]
    by (auto simp: VertexManager_def ex_db_def)
qed

text \<open>C39: With a cache size of one, a vertex read from the store is evicted before it is returned: the
  reference the code returns is dangling.\<close>

theorem getVertexData_size_one:
  assumes "vCache vm = []" and "vLruList vm = []" and "vertexDataBufferSize vm = 1"
    and "failure (vertexDb vm) = None" and "v_stored (vertexSchema vm) (vertexDb vm) i d"
  shows "getVertexData i vm = Inl UndefinedBehavior"
proof -
  obtain kb where kb: "addUInt64 i (NetworkByteBuffer_sized 8) = Inr kb" "content kb = net_word 8 i"
    using key_bytes by blast
  obtain nb where "getAttributeData (newAttributeData (vertexSchema vm))
      (NetworkByteBuffer_over (data_enc d) (length (data_enc d))) = Inr (d, nb)"
    using assms(5) v_stored_load by (auto simp: v_stored_def)
  then show ?thesis using assms kb
    by (simp add: getVertexData_def Let_def db_Get_def v_stored_def um_put_def um_erase_def)
qed

theorem getVertexData_size_one_witness:
  "getVertexData 7 (VertexManager 1 \<lparr>entries = [(net_word 8 (7 :: vertexId), data_enc ex_data)], failure = None\<rparr> ex_schema) = Inl UndefinedBehavior"
  by (rule getVertexData_size_one [where d = ex_data])
    (simp_all add: VertexManager_def v_stored_def vertex_data_ok_def ex_data_ok ex_data_schema ex_data_fields
      ex_fresh_fields newAttributeData_def data_size_def)

end
