(* ===== verification/Indexes.thy ===== *)
theory Indexes
  imports Caches
begin

text \<open>
  The two time indexes. \<^verbatim>\<open>FocusedIntervalQueryIndex\<close> keeps, in the key-value store, one entry per block and
  head vertex: the key is the vertex and the time of the newest edge of its list, the data the block id
  and the time of the oldest edge. \<^verbatim>\<open>IntervalQueryIndex\<close> keeps the same intervals in an R-tree
  (\<^verbatim>\<open>RTreeIntervalIndex\<close>) and reads a block when the interval alone does not tell whether it has an edge in
  the range.

  The R-tree (libspatialindex) is third-party code: its insertion \<open>ins\<close> and the sequence \<open>hits\<close> of the data
  it visits for a query are parameters, and \<open>spatial_index\<close> states what the program relies on. The
  coroutine that turns the visitor into an iterator is the list of the data still to be visited; its head
  is the one the visitor has loaded. Current values of an iterator are meaningful while it is valid.
\<close>

section \<open>Focused interval query index\<close>

record fiqIterator =
  fVertex :: vertexId
  fStart :: timestamp
  fEnd :: timestamp
  currentStart :: timestamp
  currentEnd :: timestamp
  currentVertex :: vertexId
  currentBlock :: blockId
  dbIter :: "(byte list \<times> byte list) list"

definition FocusedIntervalQueryIndex :: "status \<times> leveldb \<Rightarrow> leveldb result" where
  "FocusedIntervalQueryIndex opened = db_Open opened"

definition fiq_readCurrents :: "fiqIterator \<Rightarrow> fiqIterator result" where
  "fiq_readCurrents it =
     (case dbIter it of
        [] \<Rightarrow> Inl AssertionFailed
      | (k, v) # _ \<Rightarrow>
          rbind (getUInt64 (NetworkByteBuffer_over k (length k))) (\<lambda>(cv, kb1).
          rbind (getDouble kb1) (\<lambda>(ce, kb2).
          rbind (getUInt64 (NetworkByteBuffer_over v (length v))) (\<lambda>(cb, vb1).
          rbind (getDouble vb1) (\<lambda>(cs, vb2).
            Inr (it\<lparr>currentVertex := cv, currentEnd := ce, currentBlock := cb, currentStart := cs\<rparr>))))))"

definition fiq_read_if_valid :: "fiqIterator \<Rightarrow> fiqIterator result" where
  "fiq_read_if_valid it = (if dbIter it \<noteq> [] then fiq_readCurrents it else Inr it)"

definition fiq_query :: "leveldb \<Rightarrow> vertexId \<Rightarrow> timestamp \<Rightarrow> timestamp \<Rightarrow> fiqIterator result" where
  "fiq_query db vertex start end1 =
     rbind (addUInt64 vertex (NetworkByteBuffer_sized 16)) (\<lambda>t1.
     rbind (addDouble start t1) (\<lambda>t2.
       fiq_read_if_valid \<lparr>fVertex = vertex, fStart = start, fEnd = end1, currentStart = 0, currentEnd = 0,
         currentVertex = 0, currentBlock = 0, dbIter = db_Seek db (content t2)\<rparr>))"

definition fiq_isValid :: "fiqIterator \<Rightarrow> bool" where
  "fiq_isValid it \<longleftrightarrow> dbIter it \<noteq> [] \<and> currentVertex it = fVertex it \<and> dlt (currentStart it) (fEnd it)"

definition fiq_next :: "fiqIterator \<Rightarrow> fiqIterator result" where
  "fiq_next it = rbind (assert_that (fiq_isValid it)) (\<lambda>_. fiq_read_if_valid (it\<lparr>dbIter := tl (dbIter it)\<rparr>))"

definition fiq_put :: "blockId \<Rightarrow> neighborList \<Rightarrow> leveldb \<Rightarrow> leveldb result" where
  "fiq_put i nlist db =
     rbind (getOldestEdge nlist) (\<lambda>oldest.
     rbind (getNewestEdge nlist) (\<lambda>newest.
     rbind (addPair addUInt64 addDouble (headVertex nlist, tm newest) (NetworkByteBuffer_sized 16)) (\<lambda>keyBuf.
     rbind (addPair addUInt64 addDouble (i, tm oldest) (NetworkByteBuffer_sized 16)) (\<lambda>dataBuf.
       case db_Put db (content keyBuf) (content dataBuf) of (st, db1) \<Rightarrow>
         rbind (throw_unless_ok st) (\<lambda>_. Inr db1)))))"

definition fiq_indexBlock :: "block \<Rightarrow> leveldb \<Rightarrow> leveldb result" where
  "fiq_indexBlock b = for_each (\<lambda>(v, nlist). fiq_put (bid b) nlist) (neigs b)"


lemma fiq_next_shorter: "fiq_next it = Inr it1 \<Longrightarrow> length (dbIter it1) < length (dbIter it)"
  by (cases "dbIter it") (auto simp: fiq_next_def fiq_read_if_valid_def fiq_readCurrents_def fiq_isValid_def
      rbind_Inr_iff split: if_splits list.splits prod.splits)

text \<open>The loop of the clients: collect what the iterator shows until it is no longer valid.\<close>

function fiq_collect :: "fiqIterator \<Rightarrow> (blockId \<times> timestamp \<times> timestamp) list result" where
  "fiq_collect it =
     (if fiq_isValid it
      then rbind (fiq_next it) (\<lambda>it1.
           rbind (fiq_collect it1) (\<lambda>rest. Inr ((currentBlock it, currentStart it, currentEnd it) # rest)))
      else Inr [])"
  by pat_completeness auto
termination by (relation "measure (length \<circ> dbIter)") (simp_all add: fiq_next_shorter)

section \<open>R-tree interval index\<close>

record intervalData =
  ivBlock :: blockId
  ivVertex :: vertexId
  ivStart :: timestamp
  ivEnd :: timestamp

text \<open>A region of the plane by its low and high corner.\<close>

type_synonym region = "(double \<times> double) \<times> (double \<times> double)"

definition d_nine :: double where "d_nine = 4621256167635550208"
definition d_ten :: double where "d_ten = 4621819117588971520"

definition getRegion :: "timestamp \<Rightarrow> timestamp \<Rightarrow> timestamp \<Rightarrow> timestamp \<Rightarrow> region" where
  "getRegion start end1 yStart yEnd = ((start, yStart), (end1, yEnd))"

definition data_region :: "intervalData \<Rightarrow> region" where
  "data_region d = getRegion (ivStart d) (ivEnd d) d_one d_nine"

definition getBytes :: "intervalData \<Rightarrow> byte list result" where
  "getBytes d =
     rbind (addUInt64 (ivBlock d) NetworkByteBuffer) (\<lambda>nb1.
     rbind (addUInt64 (ivVertex d) nb1) (\<lambda>nb2.
     rbind (addDouble (ivStart d) nb2) (\<lambda>nb3.
     rbind (addDouble (ivEnd d) nb3) (\<lambda>nb4. Inr (content nb4)))))"

definition iv_load :: "byte list \<Rightarrow> intervalData result" where
  "iv_load bytes =
     rbind (getUInt64 (NetworkByteBuffer_over bytes (length bytes))) (\<lambda>(i, b1).
     rbind (getUInt64 b1) (\<lambda>(v, b2).
     rbind (getDouble b2) (\<lambda>(s, b3).
     rbind (getDouble b3) (\<lambda>(e, b4).
       Inr \<lparr>ivBlock = i, ivVertex = v, ivStart = s, ivEnd = e\<rparr>))))"

record 'rt rtreeIndex =
  nextId :: size_t
  rtidx :: 'rt

text \<open>\<open>exists1\<close> tells whether the index file is there, \<open>created\<close> is the new tree with the id it got, \<open>loaded\<close>
  the tree on disk with its number of data.\<close>

definition rt_openOrCreate :: "bool \<Rightarrow> 'rt \<times> nat \<Rightarrow> 'rt \<times> size_t \<Rightarrow> 'rt rtreeIndex result" where
  "rt_openOrCreate exists1 created loaded =
     (if \<not> exists1
      then rbind (assert_that (snd created = 1)) (\<lambda>_. Inr \<lparr>nextId = 0, rtidx = fst created\<rparr>)
      else Inr \<lparr>nextId = snd loaded, rtidx = fst loaded\<rparr>)"

definition addInterval ::
  "(byte list \<Rightarrow> region \<Rightarrow> size_t \<Rightarrow> 'rt \<Rightarrow> 'rt) \<Rightarrow> blockId \<Rightarrow> vertexId \<Rightarrow> timestamp \<Rightarrow> timestamp
     \<Rightarrow> 'rt rtreeIndex \<Rightarrow> 'rt rtreeIndex result" where
  "addInterval ins i vertex start end1 idx =
     (let data = \<lparr>ivBlock = i, ivVertex = vertex, ivStart = start, ivEnd = end1\<rparr>
      in rbind (getBytes data) (\<lambda>bytes.
           Inr (idx\<lparr>rtidx := ins bytes (data_region data) (nextId idx) (rtidx idx), nextId := nextId idx + 1\<rparr>)))"

definition rt_queryBatch ::
  "(region \<Rightarrow> 'rt \<Rightarrow> byte list list) \<Rightarrow> timestamp \<Rightarrow> timestamp \<Rightarrow> 'rt rtreeIndex \<Rightarrow> vertexId list result" where
  "rt_queryBatch hits start end1 idx =
     for_each (\<lambda>bytes vs. rbind (iv_load bytes) (\<lambda>d. Inr (us_insert (ivVertex d) vs)))
       (hits (getRegion start end1 0 d_ten) (rtidx idx)) []"

text \<open>The iterator: the data from the current one on, and the one loaded last.\<close>

record rtIterator =
  pending :: "byte list list"
  loadedData :: intervalData

definition rt_resume :: "byte list list \<Rightarrow> intervalData \<Rightarrow> rtIterator result" where
  "rt_resume todo d =
     (case todo of
        [] \<Rightarrow> Inr \<lparr>pending = [], loadedData = d\<rparr>
      | bytes # _ \<Rightarrow> rbind (iv_load bytes) (\<lambda>d1. Inr \<lparr>pending = todo, loadedData = d1\<rparr>))"

definition rt_getNewIterator ::
  "(region \<Rightarrow> 'rt \<Rightarrow> byte list list) \<Rightarrow> timestamp \<Rightarrow> timestamp \<Rightarrow> 'rt rtreeIndex \<Rightarrow> rtIterator result" where
  "rt_getNewIterator hits from to idx =
     rt_resume (hits (getRegion from to 0 d_ten) (rtidx idx)) \<lparr>ivBlock = 0, ivVertex = 0, ivStart = 0, ivEnd = 0\<rparr>"

definition rt_isValid :: "rtIterator \<Rightarrow> bool" where
  "rt_isValid it \<longleftrightarrow> pending it \<noteq> []"

definition rt_moveToNext :: "rtIterator \<Rightarrow> rtIterator result" where
  "rt_moveToNext it = (if rt_isValid it then rt_resume (tl (pending it)) (loadedData it) else Inr it)"

section \<open>Interval query index\<close>

record iqIterator =
  iqStart :: timestamp
  iqEnd :: timestamp
  iqCurrent :: intervalData
  iidxIter :: rtIterator

definition iq_isValid :: "iqIterator \<Rightarrow> bool" where
  "iq_isValid it = rt_isValid (iidxIter it)"

definition iq_readCurrents :: "iqIterator \<Rightarrow> iqIterator result" where
  "iq_readCurrents it =
     rbind (assert_that (rt_isValid (iidxIter it))) (\<lambda>_. Inr (it\<lparr>iqCurrent := loadedData (iidxIter it)\<rparr>))"

text \<open>Whether the entry under the iterator is a match; the block is read when the range lies inside it.\<close>

definition iq_matches ::
  "(blockId \<Rightarrow> 'm \<Rightarrow> (block \<times> 'm) result) \<Rightarrow> iqIterator \<Rightarrow> 'm \<Rightarrow> (bool \<times> 'm) result" where
  "iq_matches getBlk it m =
     (let d = iqCurrent it; start = iqStart it; end1 = iqEnd it
      in if dlt (ivEnd d) start \<or> dge (ivStart d) end1 then Inr (False, m)
         else if dgt start (ivStart d) \<and> dle end1 (ivEnd d)
         then rbind (getBlk (ivBlock d) m) (\<lambda>(blk, m1).
              rbind (assert_that (um_count (neigs blk) (ivVertex d))) (\<lambda>_.
              rbind (deref (um_find (neigs blk) (ivVertex d))) (\<lambda>nlist.
                Inr (hasEdgesInRange nlist start end1, m1))))
         else Inr (True, m))"

lemma rt_moveToNext_shorter:
  "rt_moveToNext it = Inr r \<Longrightarrow> rt_isValid it \<Longrightarrow> length (pending r) < length (pending it)"
  by (cases "pending it")
    (auto simp: rt_moveToNext_def rt_isValid_def rt_resume_def rbind_Inr_iff split: list.splits)

function iq_findNext ::
  "(blockId \<Rightarrow> 'm \<Rightarrow> (block \<times> 'm) result) \<Rightarrow> iqIterator \<Rightarrow> 'm \<Rightarrow> (iqIterator \<times> 'm) result" where
  "iq_findNext getBlk it m =
     (if iq_isValid it
      then rbind (iq_readCurrents it) (\<lambda>it1.
           rbind (iq_matches getBlk it1 m) (\<lambda>(yes, m1).
             if yes then Inr (it1, m1)
             else rbind (rt_moveToNext (iidxIter it1)) (\<lambda>r. iq_findNext getBlk (it1\<lparr>iidxIter := r\<rparr>) m1)))
      else Inr (it, m))"
  by pat_completeness auto
termination
  by (relation "measure (\<lambda>(_, it, _). length (pending (iidxIter it)))")
    (auto simp: iq_isValid_def iq_readCurrents_def rbind_Inr_iff rt_moveToNext_shorter)

definition iq_query ::
  "(region \<Rightarrow> 'rt \<Rightarrow> byte list list) \<Rightarrow> (blockId \<Rightarrow> 'm \<Rightarrow> (block \<times> 'm) result) \<Rightarrow> timestamp \<Rightarrow> timestamp
     \<Rightarrow> 'rt rtreeIndex \<Rightarrow> 'm \<Rightarrow> (iqIterator \<times> 'm) result" where
  "iq_query hits getBlk start end1 idx m =
     rbind (rt_getNewIterator hits start end1 idx) (\<lambda>r.
       iq_findNext getBlk \<lparr>iqStart = start, iqEnd = end1,
         iqCurrent = \<lparr>ivBlock = 0, ivVertex = 0, ivStart = 0, ivEnd = 0\<rparr>, iidxIter = r\<rparr> m)"

definition iq_next ::
  "(blockId \<Rightarrow> 'm \<Rightarrow> (block \<times> 'm) result) \<Rightarrow> iqIterator \<Rightarrow> 'm \<Rightarrow> (iqIterator \<times> 'm) result" where
  "iq_next getBlk it m =
     rbind (assert_that (iq_isValid it)) (\<lambda>_.
     rbind (rt_moveToNext (iidxIter it)) (\<lambda>r. iq_findNext getBlk (it\<lparr>iidxIter := r\<rparr>) m))"

lemma iq_findNext_shorter:
  "iq_findNext getBlk it m = Inr (it', m') \<Longrightarrow> length (pending (iidxIter it')) \<le> length (pending (iidxIter it))"
proof (induction getBlk it m rule: iq_findNext.induct)
  case (1 getBlk it m)
  show ?case
  proof (cases "iq_isValid it")
    case False
    with 1(2) show ?thesis by simp
  next
    case True
    let ?it1 = "it\<lparr>iqCurrent := loadedData (iidxIter it)\<rparr>"
    have rc: "iq_readCurrents it = Inr ?it1" using True by (simp add: iq_readCurrents_def iq_isValid_def)
    from 1(2) True rc obtain yes m1 where m: "iq_matches getBlk ?it1 m = Inr (yes, m1)"
      by (auto simp: rbind_Inr_iff simp del: iq_findNext.simps simp: iq_findNext.simps [of getBlk it m])
    show ?thesis
    proof (cases yes)
      case True
      with 1(2) \<open>iq_isValid it\<close> rc m show ?thesis by auto
    next
      case False
      with 1(2) True rc m obtain r where r: "rt_moveToNext (iidxIter it) = Inr r"
        "iq_findNext getBlk (?it1\<lparr>iidxIter := r\<rparr>) m1 = Inr (it', m')"
        by (auto simp: rbind_Inr_iff simp del: iq_findNext.simps simp: iq_findNext.simps [of getBlk it m])
      moreover have "length (pending r) < length (pending (iidxIter it))"
        using rt_moveToNext_shorter [OF r(1)] True by (simp add: iq_isValid_def)
      ultimately show ?thesis using 1(1) [OF True rc m refl False, of r] by simp
    qed
  qed
qed

lemma iq_next_shorter:
  "iq_next getBlk it m = Inr (it', m') \<Longrightarrow> length (pending (iidxIter it')) < length (pending (iidxIter it))"
proof -
  assume "iq_next getBlk it m = Inr (it', m')"
  then obtain r where v: "iq_isValid it" and r: "rt_moveToNext (iidxIter it) = Inr r"
    and f: "iq_findNext getBlk (it\<lparr>iidxIter := r\<rparr>) m = Inr (it', m')"
    unfolding iq_next_def by (auto simp: rbind_Inr_iff simp del: iq_findNext.simps)
  show ?thesis using rt_moveToNext_shorter [OF r] v iq_findNext_shorter [OF f] by (simp add: iq_isValid_def)
qed

text \<open>The loop of the clients.\<close>

function iq_collect ::
  "(blockId \<Rightarrow> 'm \<Rightarrow> (block \<times> 'm) result) \<Rightarrow> iqIterator \<Rightarrow> 'm \<Rightarrow> (intervalData list \<times> 'm) result" where
  "iq_collect getBlk it m =
     (if iq_isValid it
      then rbind (iq_next getBlk it m) (\<lambda>(it1, m1).
           rbind (iq_collect getBlk it1 m1) (\<lambda>(rest, m2). Inr (iqCurrent it # rest, m2)))
      else Inr ([], m))"
  by pat_completeness auto
termination
  by (relation "measure (\<lambda>(_, it, _). length (pending (iidxIter it)))")
    (auto intro: iq_next_shorter)

declare iq_findNext.simps [simp del] iq_collect.simps [simp del] fiq_collect.simps [simp del]

definition iq_queryBatch ::
  "(region \<Rightarrow> 'rt \<Rightarrow> byte list list) \<Rightarrow> timestamp \<Rightarrow> timestamp \<Rightarrow> 'rt rtreeIndex \<Rightarrow> vertexId list result" where
  "iq_queryBatch hits start end1 idx = rt_queryBatch hits start end1 idx"

fun iq_index_list ::
  "(byte list \<Rightarrow> region \<Rightarrow> size_t \<Rightarrow> 'rt \<Rightarrow> 'rt) \<Rightarrow> blockId \<Rightarrow> vertexId \<times> neighborList \<Rightarrow> 'rt rtreeIndex
     \<Rightarrow> 'rt rtreeIndex result" where
  "iq_index_list ins i (v, nlist) idx =
     rbind (assert_that (headVertex nlist = v)) (\<lambda>_.
     rbind (getOldestEdge nlist) (\<lambda>oldest.
     rbind (getNewestEdge nlist) (\<lambda>newest.
       addInterval ins i (headVertex nlist) (tm oldest) (tm newest) idx)))"

definition iq_indexBlock ::
  "(byte list \<Rightarrow> region \<Rightarrow> size_t \<Rightarrow> 'rt \<Rightarrow> 'rt) \<Rightarrow> block \<Rightarrow> 'rt rtreeIndex \<Rightarrow> 'rt rtreeIndex result" where
  "iq_indexBlock ins b = for_each (iq_index_list ins (bid b)) (neigs b)"

section \<open>The focused index finds the intervals of a vertex\<close>

text \<open>A row of the index: vertex, newest time, block, oldest time.\<close>

type_synonym fiqRow = "vertexId \<times> timestamp \<times> blockId \<times> timestamp"

definition time_ok :: "timestamp \<Rightarrow> bool" where
  "time_ok t \<longleftrightarrow> \<not> dneg t \<and> \<not> is_nan t"

fun row_entry :: "fiqRow \<Rightarrow> byte list \<times> byte list" where
  "row_entry (v, e, b, s) = (net_word 8 v @ net_word 8 e, net_word 8 b @ net_word 8 s)"

definition fiq_holds :: "leveldb \<Rightarrow> fiqRow list \<Rightarrow> bool" where
  "fiq_holds db rows \<longleftrightarrow> db_ok db \<and> failure db = None \<and> entries db = map row_entry rows
     \<and> (\<forall>(v, e, b, s) \<in> set rows. time_ok e \<and> \<not> is_nan s)"

lemmas double_eval = dlt_def dle_def deq_def time_ok_def is_nan_def dkey_def dneg_def dmag_def inf_mag_def
  d_one_def d_two_def d_nine_def d_ten_def

lemma dropWhile_sorted:
  "sorted_wrt (\<lambda>x y. P y \<longrightarrow> P x) xs \<Longrightarrow> dropWhile P xs = filter (\<lambda>x. \<not> P x) xs"
proof (induction xs)
  case (Cons x xs)
  then show ?case by (cases "P x") (auto intro: filter_True [symmetric])
qed simp

lemma takeWhile_sorted:
  "sorted_wrt (\<lambda>x y. P y \<longrightarrow> P x) xs \<Longrightarrow> takeWhile (\<lambda>x. P x \<and> Q x) xs = takeWhile Q (filter P xs)"
proof (induction xs)
  case (Cons x xs)
  then show ?case by (cases "P x") (auto simp: filter_empty_conv)
qed simp

lemma takeWhile_filter: "sorted_wrt (\<lambda>x y. P y \<longrightarrow> P x) xs \<Longrightarrow> takeWhile P xs = filter P xs"
  using takeWhile_sorted [of P xs "\<lambda>_. True"] by (simp add: takeWhile_eq_all_conv)

lemma row_key_less:
  assumes "time_ok t" and "time_ok e"
  shows "net_word 8 (v :: vertexId) @ net_word 8 e < net_word 8 w @ net_word 8 t \<longleftrightarrow> v < w \<or> v = w \<and> dlt e t"
  using assms by (simp add: time_ok_def lex_append net_word_less_iff net_word_eq_iff dlt_nonneg_iff)

lemma pair_reads:
  fixes a :: "64 word" and t :: double
  shows "\<exists>nb1 nb2. getUInt64 (NetworkByteBuffer_over (net_word 8 a @ net_word 8 t) 16) = Inr (a, nb1)
    \<and> getDouble nb1 = Inr (t, nb2)"
proof -
  let ?nb = "NetworkByteBuffer_over (net_word 8 a @ net_word 8 t) 16"
  have r: "reads ?nb (net_word 8 a @ net_word 8 t @ [])" by (simp add: reads_def NetworkByteBuffer_over_def)
  from scalar_reads(1) [OF r] scalar_reads(2) [OF reads_adv [OF r]] show ?thesis by blast
qed

lemma fiq_readCurrents_row:
  assumes "dbIter it = row_entry (v, e, b, s) # rest"
  shows "fiq_readCurrents it = Inr (it\<lparr>currentVertex := v, currentEnd := e, currentBlock := b, currentStart := s\<rparr>)"
proof -
  obtain k1 k2 where k: "getUInt64 (NetworkByteBuffer_over (net_word 8 v @ net_word 8 e) 16) = Inr (v, k1)"
    "getDouble k1 = Inr (e, k2)" using pair_reads by blast
  obtain v1 v2 where d: "getUInt64 (NetworkByteBuffer_over (net_word 8 b @ net_word 8 s) 16) = Inr (b, v1)"
    "getDouble v1 = Inr (s, v2)" using pair_reads by blast
  show ?thesis using assms k d by (simp add: fiq_readCurrents_def)
qed

text \<open>An iterator standing at the first of \<open>rows\<close> with its current values read.\<close>

definition fiq_at :: "fiqRow list \<Rightarrow> fiqIterator \<Rightarrow> bool" where
  "fiq_at rows it \<longleftrightarrow> dbIter it = map row_entry rows \<and>
     (case rows of [] \<Rightarrow> True | (v, e, b, s) # _ \<Rightarrow>
        currentVertex it = v \<and> currentEnd it = e \<and> currentBlock it = b \<and> currentStart it = s)"

lemma fiq_read_at:
  assumes "dbIter it = map row_entry rows"
  shows "\<exists>it1. fiq_read_if_valid it = Inr it1 \<and> fiq_at rows it1 \<and> fVertex it1 = fVertex it \<and> fEnd it1 = fEnd it \<and> fStart it1 = fStart it"
proof (cases rows)
  case Nil
  then show ?thesis using assms by (simp add: fiq_read_if_valid_def fiq_at_def)
next
  case (Cons r rs)
  obtain v e b s where r: "r = (v, e, b, s)" by (cases r) auto
  show ?thesis using fiq_readCurrents_row [of it v e b s "map row_entry rs"] assms
    unfolding Cons r by (simp add: fiq_read_if_valid_def fiq_at_def)
qed

lemma fiq_collect_rows:
  "fiq_at rows it \<Longrightarrow> fiq_collect it =
    Inr (map (\<lambda>(v, e, b, s). (b, s, e)) (takeWhile (\<lambda>(v, e, b, s). v = fVertex it \<and> dlt s (fEnd it)) rows))"
proof (induction rows arbitrary: it)
  case Nil
  then show ?case by (subst fiq_collect.simps) (simp add: fiq_at_def fiq_isValid_def)
next
  case (Cons r rows)
  obtain v e b s where r: "r = (v, e, b, s)" by (cases r) auto
  from Cons.prems have at: "dbIter it = row_entry r # map row_entry rows" "currentVertex it = v" "currentEnd it = e"
    "currentBlock it = b" "currentStart it = s" by (auto simp: fiq_at_def r)
  show ?case
  proof (cases "fiq_isValid it")
    case True
    obtain it1 where "fiq_next it = Inr it1" "fiq_at rows it1" "fVertex it1 = fVertex it" "fEnd it1 = fEnd it"
      using fiq_read_at [of "it\<lparr>dbIter := tl (dbIter it)\<rparr>" rows] at True by (auto simp: fiq_next_def)
    with Cons.IH [of it1] True at show ?thesis
      by (subst fiq_collect.simps) (simp add: r fiq_isValid_def del: fiq_collect.simps)
  next
    case False
    with at show ?thesis by (subst fiq_collect.simps) (auto simp: r fiq_isValid_def simp del: fiq_collect.simps)
  qed
qed

lemma appends_sized:
  assumes "appends f bs" and "length bs \<le> 2 ^ 32" and "n \<le> 2 ^ 32"
  shows "\<exists>nb. f (NetworkByteBuffer_sized n) = Inr nb \<and> content nb = bs"
proof -
  let ?nb = "NetworkByteBuffer_sized n"
  have "nb_ok ?nb" "autoDealloc ?nb" "content ?nb = []" "icursor ?nb = 0"
    using assms(3) by (simp_all add: nb_ok_def NetworkByteBuffer_sized_def content_def)
  then show ?thesis using appends_eqD [OF assms(1), of ?nb] assms(2) by auto
qed

lemma pair_appends: "appends (\<lambda>nb. rbind (addUInt64 v nb) (addDouble t)) (net_word 8 v @ net_word 8 t)"
  by (rule appends_seq [OF c_uint64.add_appends [OF TrueI] c_double.add_appends [OF TrueI]])

lemma fiq_query_at:
  assumes "entries db = map row_entry rows"
  shows "\<exists>it. fiq_query db v start end1 = Inr it \<and> fVertex it = v \<and> fEnd it = end1 \<and> fStart it = start
    \<and> fiq_at (dropWhile (\<lambda>r. fst (row_entry r) < net_word 8 v @ net_word 8 start) rows) it"
proof -
  obtain t where "rbind (addUInt64 v (NetworkByteBuffer_sized 16)) (addDouble start) = Inr t"
      and t: "content t = net_word 8 v @ net_word 8 start"
    using appends_sized [OF pair_appends [of v start], where n = 16] by auto
  then obtain t1 where "addUInt64 v (NetworkByteBuffer_sized 16) = Inr t1" "addDouble start t1 = Inr t"
    by (auto simp: rbind_Inr_iff)
  moreover have "db_Seek db (content t) = map row_entry (dropWhile (\<lambda>r. fst (row_entry r) < net_word 8 v @ net_word 8 start) rows)"
    by (simp add: db_Seek_def assms dropWhile_map t o_def)
  ultimately show ?thesis
    using fiq_read_at [of "\<lparr>fVertex = v, fStart = start, fEnd = end1, currentStart = 0, currentEnd = 0,
         currentVertex = 0, currentBlock = 0, dbIter = db_Seek db (content t)\<rparr>"]
    by (auto simp: fiq_query_def)
qed

lemma fiq_query_rows:
  fixes v :: vertexId
  assumes db: "fiq_holds db rows" and start: "time_ok start"
  defines "R \<equiv> filter (\<lambda>(v', e, b, s). v < v' \<or> v' = v \<and> dle start e) rows"
  shows "\<exists>it. fiq_query db v start end1 = Inr it \<and> fVertex it = v \<and> fEnd it = end1 \<and> fStart it = start \<and> fiq_at R it"
    and "sorted_wrt (\<lambda>(v, _) (v', _). v \<le> v') R"
proof -
  let ?lt = "\<lambda>r. fst (row_entry r) < net_word 8 v @ net_word 8 start"
  have es: "entries db = map row_entry rows" using db by (simp add: fiq_holds_def)
  have ok: "time_ok e" "\<not> is_nan s" if "(v', e, b, s) \<in> set rows" for v' e b s
    using db that by (auto simp: fiq_holds_def)
  have lt: "?lt r \<longleftrightarrow> (case r of (v', e, b, s) \<Rightarrow> v' < v \<or> v' = v \<and> dlt e start)" if "r \<in> set rows" for r
  proof -
    obtain v' e b s where r: "r = (v', e, b, s)" by (cases r)
    have "time_ok e" using ok(1) that by (simp add: r)
    from row_key_less [OF start this] show ?thesis by (simp add: r)
  qed
  have "sorted_wrt (\<lambda>r r'. fst (row_entry r) < fst (row_entry r')) rows"
    using db by (auto simp: fiq_holds_def db_ok_def sorted_wrt_map)
  then have sorted: "sorted_wrt (\<lambda>r r'. ?lt r' \<longrightarrow> ?lt r) rows" "sorted_wrt (\<lambda>(v, _) (v', _). v \<le> v') rows"
    by (auto elim!: sorted_wrt_mono_rel [rotated] simp: lex_append net_word_less_iff net_word_eq_iff dest: less_trans)
  have drop: "dropWhile ?lt rows = R"
    unfolding dropWhile_sorted [OF sorted(1)] R_def
    by (rule filter_cong [OF refl])
      (use lt ok start in \<open>auto simp: time_ok_def not_dlt split: prod.splits dest: dle_dlt_trans\<close>)
  show "sorted_wrt (\<lambda>(v, _) (v', _). v \<le> v') R" unfolding R_def using sorted(2) by (rule sorted_wrt_filter)
  show "\<exists>it. fiq_query db v start end1 = Inr it \<and> fVertex it = v \<and> fEnd it = end1 \<and> fStart it = start \<and> fiq_at R it"
    using fiq_query_at [OF es, of v start end1] unfolding drop .
qed

text \<open>In general the iteration shows the lists of the vertex up to the first that starts at or after the end
  of the range.\<close>

lemma fiq_query_prefix:
  assumes db: "fiq_holds db rows" and start: "time_ok start"
  shows "rbind (fiq_query db v start end1) fiq_collect =
      Inr (map (\<lambda>(v, e, b, s). (b, s, e)) (takeWhile (\<lambda>(v, e, b, s). dlt s end1)
        (filter (\<lambda>(v', e, b, s). v' = v \<and> dle start e) rows)))"
proof -
  let ?R = "filter (\<lambda>(v', e, b, s). v < v' \<or> v' = v \<and> dle start e) rows"
  note q = fiq_query_rows [OF db start, of v]
  have "sorted_wrt (\<lambda>x y. fst y = v \<longrightarrow> fst x = v) ?R"
    by (rule sorted_wrt_mono_rel [OF _ q(2)]) auto
  from takeWhile_sorted [OF this, of "\<lambda>(v, e, b, s). dlt s end1"]
  have take: "takeWhile (\<lambda>(v', e, b, s). v' = v \<and> dlt s end1) ?R = takeWhile (\<lambda>(v, e, b, s). dlt s end1)
        (filter (\<lambda>(v', e, b, s). v' = v \<and> dle start e) rows)"
    by (simp add: case_prod_unfold) (rule arg_cong [where f = "takeWhile _"], rule filter_cong, auto)
  obtain it where it: "fiq_query db v start end1 = Inr it" "fVertex it = v" "fEnd it = end1" "fiq_at ?R it"
    using q(1) [of end1] by blast
  show ?thesis using it fiq_collect_rows [OF it(4)] take by simp
qed

text \<open>C16: A query of the focused index is exact. Iterating over the index for a vertex and the range from
  \<open>start\<close> to \<open>end1\<close> (exclusive) returns, in time order, every indexed block whose neighbour list of the
  vertex spans a time in the range, and no other, provided the lists of the vertex in different blocks are
  ordered in time as the graph writes them. Without that order the iteration ends at the first list that
  starts at or after the end of the range.\<close>

theorem fiq_query_exact:
  assumes db: "fiq_holds db rows" and start: "time_ok start"
    and mono: "sorted_wrt (\<lambda>(_, _, _, s) (_, _, _, s'). dle s s') (filter (\<lambda>(v', e, b, s). v' = v \<and> dle start e) rows)"
  shows "rbind (fiq_query db v start end1) fiq_collect =
      Inr (map (\<lambda>(v, e, b, s). (b, s, e)) (filter (\<lambda>(v', e, b, s). v' = v \<and> dle start e \<and> dlt s end1) rows))"
proof -
  let ?P = "\<lambda>(v, e, b, s). dlt s end1" and ?mine = "filter (\<lambda>(v', e, b, s). v' = v \<and> dle start e) rows"
  have "sorted_wrt (\<lambda>x y. ?P y \<longrightarrow> ?P x) ?mine"
    using mono by (rule sorted_wrt_mono_rel [rotated]) (auto intro: dle_dlt_trans)
  from takeWhile_filter [OF this] show ?thesis
    unfolding fiq_query_prefix [OF db start] by (simp add: case_prod_unfold conj_assoc)
qed

theorem fiq_query_exact_witness:
  "rbind (fiq_query \<lparr>entries = [row_entry (1, d_one, 10, d_one), row_entry (1, d_nine, 11, d_two)], failure = None\<rparr>
     1 d_two d_ten) fiq_collect = Inr [(11, d_two, d_nine)]"
proof -
  let ?rows = "[(1, d_one, 10, d_one), (1, d_nine, 11, d_two)] :: fiqRow list"
  let ?db = "\<lparr>entries = map row_entry ?rows, failure = None\<rparr>"
  have lt: "dlt d_one d_two" "dlt d_two d_nine" "dlt d_two d_ten" "dle d_two d_nine" "\<not> dle d_two d_one" "dle d_two d_two"
    and ok: "time_ok d_one" "time_ok d_two" "time_ok d_nine" "\<not> is_nan d_one" "\<not> is_nan d_two"
    by (simp_all add: double_eval)
  have less: "dlt d_one d_nine" by (rule dlt_trans [OF lt(1,2)])
  have "fiq_holds ?db ?rows"
    using ok row_key_less [OF ok(3,1), of 1 1] less by (simp add: fiq_holds_def db_ok_def)
  from fiq_query_exact [OF this ok(2), of 1 d_ten] show ?thesis
    by (simp add: lt)
qed

text \<open>Indexing a block adds one row per neighbour list; a row of the same vertex and newest time is
  replaced.\<close>

definition block_row :: "blockId \<Rightarrow> neighborList \<Rightarrow> fiqRow" where
  "block_row i nl = (headVertex nl, tm (last (edges nl)), i, tm (hd (edges nl)))"

lemma fiq_put_row:
  assumes "edges nl \<noteq> []" and "failure db = None"
  shows "fiq_put i nl db = Inr (db\<lparr>entries := kv_put (fst (row_entry (block_row i nl))) (snd (row_entry (block_row i nl))) (entries db)\<rparr>)"
proof -
  obtain e es where e: "edges nl = e # es" using assms(1) by (cases "edges nl") auto
  obtain kb where "rbind (addUInt64 (headVertex nl) (NetworkByteBuffer_sized 16)) (addDouble (tm (last (edges nl)))) = Inr kb"
      "content kb = net_word 8 (headVertex nl) @ net_word 8 (tm (last (edges nl)))"
    using appends_sized [OF pair_appends [of "headVertex nl" "tm (last (edges nl))"], where n = 16] by auto
  moreover obtain db where "rbind (addUInt64 i (NetworkByteBuffer_sized 16)) (addDouble (tm e)) = Inr db"
      "content db = net_word 8 i @ net_word 8 (tm e)"
    using appends_sized [OF pair_appends [of i "tm e"], where n = 16] by auto
  ultimately show ?thesis using assms(2) e
    by (simp add: fiq_put_def getOldestEdge_def getNewestEdge_def addPair_def db_Put_def throw_unless_ok_def block_row_def
        del: last.simps)
qed

lemma kv_put_Cons:
  "kv_put k v (e # es) = (if k < fst e then (k, v) # e # es else if k = fst e then (k, v) # es else e # kv_put k v es)"
  by (cases e) simp

lemma kv_put_rows:
  "\<exists>rows'. kv_put (fst (row_entry r)) (snd (row_entry r)) (map row_entry rows) = map row_entry rows'
    \<and> set rows' = insert r {q \<in> set rows. fst (row_entry q) \<noteq> fst (row_entry r)}"
  if "sorted_wrt (<) (map (fst \<circ> row_entry) rows)"
  using that
proof (induction rows)
  case Nil
  show ?case by (intro exI [of _ "[r]"]) (simp add: prod_eq_iff)
next
  case (Cons q rows)
  let ?k = "\<lambda>r. fst (row_entry r)"
  consider "?k r < ?k q" | "?k r = ?k q" | "?k q < ?k r" by (meson not_less_iff_gr_or_eq)
  then show ?case
  proof cases
    case 1
    moreover have "?k r \<noteq> ?k x" if "x \<in> set rows" for x using Cons.prems that 1 by (force dest: less_trans)
    ultimately have "{x \<in> set (q # rows). ?k x \<noteq> ?k r} = set (q # rows)" by force
    then show ?thesis using 1
      by (intro exI [of _ "r # q # rows"] conjI) (simp_all add: kv_put_Cons del: row_entry.simps)
  next
    case 2
    moreover have "?k r \<noteq> ?k x" if "x \<in> set rows" for x using Cons.prems that 2 by force
    ultimately have "{x \<in> set (q # rows). ?k x \<noteq> ?k r} = set rows" by force
    then show ?thesis using 2
      by (intro exI [of _ "r # rows"] conjI) (simp_all add: kv_put_Cons prod_eq_iff del: row_entry.simps)
  next
    case 3
    from Cons obtain rows' where "kv_put (?k r) (snd (row_entry r)) (map row_entry rows) = map row_entry rows'"
      "set rows' = insert r {q \<in> set rows. ?k q \<noteq> ?k r}" by auto
    moreover have "{x \<in> set (q # rows). ?k x \<noteq> ?k r} = insert q {x \<in> set rows. ?k x \<noteq> ?k r}" using 3 by force
    ultimately show ?thesis using 3
      by (intro exI [of _ "q # rows'"] conjI) (auto simp: kv_put_Cons simp del: row_entry.simps)
  qed
qed

lemma fiq_holds_put:
  assumes "fiq_holds db rows" and "edges nl \<noteq> []" and "time_ok (tm (last (edges nl)))" and "\<not> is_nan (tm (hd (edges nl)))"
  shows "\<exists>db' rows'. fiq_put i nl db = Inr db' \<and> fiq_holds db' rows' \<and>
    set rows' = insert (block_row i nl) {q \<in> set rows. fst (row_entry q) \<noteq> fst (row_entry (block_row i nl))}"
proof -
  let ?r = "block_row i nl"
  have es: "entries db = map row_entry rows" and ok: "db_ok db" and f: "failure db = None"
    using assms(1) by (simp_all add: fiq_holds_def)
  have "sorted_wrt (<) (map (fst \<circ> row_entry) rows)" using ok by (simp add: db_ok_def es)
  from kv_put_rows [OF this, of ?r] obtain rows' where
    rows': "kv_put (fst (row_entry ?r)) (snd (row_entry ?r)) (map row_entry rows) = map row_entry rows'"
    "set rows' = insert ?r {q \<in> set rows. fst (row_entry q) \<noteq> fst (row_entry ?r)}" by blast
  have "(\<lambda>(v, e, b, s). time_ok e \<and> \<not> is_nan s) q" if "q \<in> set rows'" for q
    using that assms unfolding rows'(2) by (auto simp: block_row_def fiq_holds_def)
  moreover have "db_ok (db\<lparr>entries := map row_entry rows'\<rparr>)"
    using kv_put_sorted ok unfolding rows'(1) [symmetric] es [symmetric] by (simp add: db_ok_def)
  ultimately have "fiq_holds (db\<lparr>entries := map row_entry rows'\<rparr>) rows'" using f by (simp add: fiq_holds_def)
  then show ?thesis using fiq_put_row [OF assms(2) f, of i] rows' by (auto simp: es)
qed

lemma fiq_indexBlock_adds:
  assumes "fiq_holds db rows" and "\<forall>(v, nl) \<in> set (neigs b). edges nl \<noteq> [] \<and> time_ok (tm (last (edges nl))) \<and> \<not> is_nan (tm (hd (edges nl)))"
    and "um_ok (neigs b)" and "\<forall>(v, nl) \<in> set (neigs b). headVertex nl = v"
  shows "\<exists>db' rows'. fiq_indexBlock b db = Inr db' \<and> fiq_holds db' rows' \<and>
    set rows' = (\<lambda>(v, nl). block_row (bid b) nl) ` set (neigs b) \<union>
      {q \<in> set rows. \<forall>(v, nl) \<in> set (neigs b). fst (row_entry q) \<noteq> fst (row_entry (block_row (bid b) nl))}"
proof -
  let ?row = "\<lambda>(v, nl). block_row (bid b) nl" and ?k = "\<lambda>q. fst (row_entry q)"
  have "\<exists>db' rows'. for_each (\<lambda>(v, nl). fiq_put (bid b) nl) ls db = Inr db' \<and> fiq_holds db' rows' \<and>
      set rows' = ?row ` set ls \<union> {q \<in> set rows. \<forall>l \<in> set ls. ?k q \<noteq> ?k (?row l)}"
    if "set ls \<subseteq> set (neigs b)" "um_ok ls" "fiq_holds db rows" for ls db rows
    using that
  proof (induction ls arbitrary: db rows)
    case (Cons l ls)
    obtain v nl where l: "l = (v, nl)" by force
    have nl: "edges nl \<noteq> []" "time_ok (tm (last (edges nl)))" "\<not> is_nan (tm (hd (edges nl)))" "headVertex nl = v"
      using assms(2,4) Cons.prems(1) by (auto simp: l)
    obtain db1 rows1 where 1: "fiq_put (bid b) nl db = Inr db1" "fiq_holds db1 rows1"
        "set rows1 = insert (block_row (bid b) nl) {q \<in> set rows. ?k q \<noteq> ?k (block_row (bid b) nl)}"
      using fiq_holds_put [OF Cons.prems(3) nl(1-3)] by blast
    obtain db2 rows2 where 2: "for_each (\<lambda>(v, nl). fiq_put (bid b) nl) ls db1 = Inr db2" "fiq_holds db2 rows2"
        "set rows2 = ?row ` set ls \<union> {q \<in> set rows1. \<forall>l \<in> set ls. ?k q \<noteq> ?k (?row l)}"
      using Cons.IH [OF _ _ 1(2)] Cons.prems by auto
    have "?k (block_row (bid b) nl) \<noteq> ?k (?row l')" if "l' \<in> set ls" for l'
    proof -
      obtain v' nl' where l': "l' = (v', nl')" by force
      have "headVertex nl' = v'" using assms(4) Cons.prems(1) that by (auto simp: l')
      moreover have "v' \<noteq> v" using Cons.prems(2) that by (force simp: l l')
      ultimately show ?thesis using nl(4) by (auto simp: l' block_row_def net_word_eq_iff)
    qed
    then have "set rows2 = ?row ` set (l # ls) \<union> {q \<in> set rows. \<forall>l \<in> set (l # ls). ?k q \<noteq> ?k (?row l)}"
      unfolding 2(3) 1(3) by (auto simp: l simp del: row_entry.simps)
    with 1 2 show ?case by (auto simp: l)
  qed auto
  from this [OF subset_refl assms(3,1)] show ?thesis unfolding fiq_indexBlock_def by (auto simp: case_prod_unfold)
qed

text \<open>C35: Indexing a block succeeds on a working store, adds for each of its neighbour lists a row with the
  block id and the times of the oldest and newest edge, and keeps every other row whose vertex and newest
  time differ from those of the new rows.\<close>

theorem fiq_indexBlock_rows:
  assumes "fiq_holds db rows" and "\<forall>(v, nl) \<in> set (neigs b). edges nl \<noteq> [] \<and> time_ok (tm (last (edges nl))) \<and> \<not> is_nan (tm (hd (edges nl)))"
    and "um_ok (neigs b)" and "\<forall>(v, nl) \<in> set (neigs b). headVertex nl = v"
  shows "\<exists>db' rows'. fiq_indexBlock b db = Inr db' \<and> fiq_holds db' rows' \<and>
    set rows' = (\<lambda>(v, nl). block_row (bid b) nl) ` set (neigs b) \<union>
      {q \<in> set rows. \<forall>(v, nl) \<in> set (neigs b). fst (row_entry q) \<noteq> fst (row_entry (block_row (bid b) nl))}"
  by (rule fiq_indexBlock_adds [OF assms])

theorem fiq_indexBlock_rows_witness:
  "\<exists>db' rows'. fiq_indexBlock ex_sub_block ex_db = Inr db' \<and> fiq_holds db' rows'
    \<and> set rows' = {(1, d_one, 9, d_one), (2, d_one, 9, d_one)}"
proof -
  have "fiq_holds ex_db []" by (simp add: fiq_holds_def ex_db_def db_ok_def)
  from fiq_indexBlock_rows [OF this, of ex_sub_block] show ?thesis
    by (simp add: ex_sub_block_def ex_sub_edge_def Block_def double_eval block_row_def)
qed

section \<open>The interval index finds the lists with an edge in the range\<close>

text \<open>The contract of the R-tree: \<open>items\<close> are the regions and data inserted so far; a query visits data that
  was inserted, among it all data whose closed region meets the closed query region.\<close>

definition intersects :: "region \<Rightarrow> region \<Rightarrow> bool" where
  "intersects a b \<longleftrightarrow> dle (fst (fst a)) (fst (snd b)) \<and> dle (fst (fst b)) (fst (snd a))
     \<and> dle (snd (fst a)) (snd (snd b)) \<and> dle (snd (fst b)) (snd (snd a))"

definition spatial_index ::
  "(byte list \<Rightarrow> region \<Rightarrow> size_t \<Rightarrow> 'rt \<Rightarrow> 'rt) \<Rightarrow> (region \<Rightarrow> 'rt \<Rightarrow> byte list list) \<Rightarrow> ('rt \<Rightarrow> (region \<times> byte list) set) \<Rightarrow> bool" where
  "spatial_index ins hits items \<longleftrightarrow>
     (\<forall>bytes r i t. items (ins bytes r i t) = insert (r, bytes) (items t))
     \<and> (\<forall>q t r bytes. (r, bytes) \<in> items t \<and> intersects r q \<longrightarrow> bytes \<in> set (hits q t))
     \<and> (\<forall>q t. set (hits q t) \<subseteq> snd ` items t)"

text \<open>The contract of the block store towards its readers.\<close>

locale block_reader =
  fixes Q :: "'m \<Rightarrow> bool"
    and stored :: "blockId \<Rightarrow> block \<Rightarrow> bool"
    and getBlk :: "blockId \<Rightarrow> 'm \<Rightarrow> (block \<times> 'm) result"
  assumes read_stored: "Q m \<Longrightarrow> stored i b \<Longrightarrow> \<exists>b' m'. getBlk i m = Inr (b', m') \<and> same_block b' b \<and> Q m'"

interpretation bm_reader: block_reader
  "\<lambda>bm. bm_ok s getPart Q bm \<and> blockDb bm = db" "on_disk s getPart Q db" "bm_getBlock s getPart"
proof
  fix m i b
  assume "bm_ok s getPart Q m \<and> blockDb m = db" and "on_disk s getPart Q db i b"
  then show "\<exists>b' m'. bm_getBlock s getPart i m = Inr (b', m') \<and> same_block b' b \<and> bm_ok s getPart Q m' \<and> blockDb m' = db"
    using bm_getBlock_result [of s getPart Q m i b] by auto
qed

definition iv_enc :: "intervalData \<Rightarrow> byte list" where
  "iv_enc d = net_word 8 (ivBlock d) @ net_word 8 (ivVertex d) @ net_word 8 (ivStart d) @ net_word 8 (ivEnd d)"

lemma getBytes_enc: "getBytes d = Inr (iv_enc d)"
proof -
  have "appends (\<lambda>nb. rbind (addUInt64 (ivBlock d) nb) (\<lambda>nb1. rbind (addUInt64 (ivVertex d) nb1)
      (\<lambda>nb2. rbind (addDouble (ivStart d) nb2) (addDouble (ivEnd d))))) (iv_enc d)"
    unfolding iv_enc_def by (intro appends_seq c_uint64.add_appends c_double.add_appends TrueI)
  from appends_fresh [OF this] show ?thesis by (auto simp: getBytes_def iv_enc_def rbind_Inr_iff)
qed

lemma iv_load_enc: "iv_load (iv_enc d) = Inr d"
proof -
  let ?nb = "NetworkByteBuffer_over (iv_enc d) (length (iv_enc d))"
  have r0: "reads ?nb (net_word 8 (ivBlock d) @ net_word 8 (ivVertex d) @ net_word 8 (ivStart d) @ net_word 8 (ivEnd d) @ [])"
    by (simp add: reads_def NetworkByteBuffer_over_def iv_enc_def)
  note r1 = reads_adv [OF r0] note r2 = reads_adv [OF r1] note r3 = reads_adv [OF r2]
  note g = scalar_reads(1) [OF r0] scalar_reads(1) [OF r1] scalar_reads(2) [OF r2] scalar_reads(2) [OF r3]
  show ?thesis unfolding iv_load_def by (simp only: g rbind_simps prod.case) simp
qed

text \<open>\<open>hasEdgesInRange\<close> on a list ordered in time.\<close>

definition time_sorted :: "edge list \<Rightarrow> bool" where
  "time_sorted es \<longleftrightarrow> sorted_wrt (\<lambda>e e'. dle (tm e) (tm e')) es \<and> (\<forall>e \<in> set es. \<not> is_nan (tm e))"

definition in_range :: "timestamp \<Rightarrow> timestamp \<Rightarrow> edge \<Rightarrow> bool" where
  "in_range start end1 e \<longleftrightarrow> dle start (tm e) \<and> dlt (tm e) end1"

lemma hasEdgesInRange_iff:
  assumes "time_sorted (edges nl)" and "\<not> is_nan start" and "\<not> is_nan end1"
  shows "hasEdgesInRange nl start end1 \<longleftrightarrow> (\<exists>e \<in> set (edges nl). in_range start end1 e)"
proof -
  let ?es = "edges nl" and ?P = "\<lambda>e. dlt (tm e) start"
  have nan: "\<not> is_nan (tm e)" if "e \<in> set ?es" for e using assms(1) that by (simp add: time_sorted_def)
  have "sorted_wrt (\<lambda>e e'. ?P e' \<longrightarrow> ?P e) ?es"
    using assms(1) by (auto simp: time_sorted_def elim!: sorted_wrt_mono_rel [rotated] intro: dle_dlt_trans)
  from dropWhile_sorted [OF this] have drop: "dropWhile ?P ?es = filter (\<lambda>e. dle start (tm e)) ?es"
    using nan assms(2) by (simp add: not_dlt cong: filter_cong)
  have split: "?es = takeWhile ?P ?es @ dropWhile ?P ?es" by simp
  show ?thesis
  proof (cases "dropWhile ?P ?es")
    case Nil
    then have "\<forall>e \<in> set ?es. \<not> dle start (tm e)" using drop by (simp add: filter_empty_conv)
    moreover have "lower_bound ?es start = length ?es" using Nil split unfolding lower_bound_def by (metis append_Nil2)
    ultimately show ?thesis by (auto simp: hasEdgesInRange_def in_range_def)
  next
    case (Cons e es)
    let ?n = "lower_bound ?es start"
    have n: "?n < length ?es" "?es ! ?n = e"
      using split Cons unfolding lower_bound_def by (metis length_append add.right_neutral length_Cons less_add_same_cancel1 zero_less_Suc,
        metis nth_append_length)
    have e: "e \<in> set ?es" "dle start (tm e)" using drop Cons by (metis filter_eq_ConsD in_set_conv_decomp,
        metis (mono_tags, lifting) filter_eq_ConsD)
    have first: "dle (tm e) (tm x)" if "x \<in> set ?es" "dle start (tm x)" for x
    proof -
      have "sorted_wrt (\<lambda>e e'. dle (tm e) (tm e')) (e # es)"
        using assms(1) unfolding Cons [symmetric] drop by (simp add: time_sorted_def sorted_wrt_filter)
      moreover have "x \<in> set (e # es)" using that unfolding Cons [symmetric] drop by simp
      ultimately show ?thesis using dle_refl nan e(1) by auto
    qed
    have "hasEdgesInRange nl start end1 \<longleftrightarrow> dlt (tm e) end1"
      using n nan [OF e(1)] assms(3) not_dle [of end1 "tm e"] by (auto simp: hasEdgesInRange_def Let_def)
    also have "\<dots> \<longleftrightarrow> (\<exists>e \<in> set ?es. in_range start end1 e)"
      using e first by (auto simp: in_range_def intro: dle_dlt_trans)
    finally show ?thesis .
  qed
qed

text \<open>What an index entry has to do with the block it names.\<close>

definition describes :: "(blockId \<Rightarrow> block \<Rightarrow> bool) \<Rightarrow> intervalData \<Rightarrow> edge list \<Rightarrow> bool" where
  "describes stored d es \<longleftrightarrow> (\<exists>b nl. stored (ivBlock d) b \<and> um_find (neigs b) (ivVertex d) = Some nl \<and> edges nl = es)
     \<and> es \<noteq> [] \<and> time_sorted es \<and> ivStart d = tm (hd es) \<and> ivEnd d = tm (last es)"

lemma same_block_times:
  assumes "same_block b' b" and "um_find (neigs b) v = Some nl"
  shows "\<exists>nl'. um_find (neigs b') v = Some nl' \<and> map tm (edges nl') = map tm (edges nl)"
proof -
  have "map_option (\<lambda>nl. map strip (edges nl)) (um_find (neigs b') v) = map_option (\<lambda>nl. map strip (edges nl)) (um_find (neigs b) v)"
    using assms(1) um_find_map [of "\<lambda>nl. map strip (edges nl)" "neigs b'" v]
      um_find_map [of "\<lambda>nl. map strip (edges nl)" "neigs b" v] by (simp add: same_block_def view_def)
  with assms(2) obtain nl' where nl': "um_find (neigs b') v = Some nl'" "map strip (edges nl') = map strip (edges nl)"
    by (cases "um_find (neigs b') v") auto
  have "map tm es = map (fst \<circ> snd) (map strip es)" for es by (simp add: strip_def o_def)
  with nl' show ?thesis by metis
qed

lemma time_sorted_tms: "time_sorted es \<longleftrightarrow> sorted_wrt dle (map tm es) \<and> (\<forall>t \<in> set (map tm es). \<not> is_nan t)"
  by (simp add: time_sorted_def sorted_wrt_map)

lemma in_range_tms: "(\<exists>e \<in> set es. in_range a b e) \<longleftrightarrow> (\<exists>t \<in> set (map tm es). dle a t \<and> dlt t b)"
  by (simp add: in_range_def)

lemma time_sorted_bounds:
  assumes "time_sorted es" and "e \<in> set es"
  shows "dle (tm (hd es)) (tm e)" and "dle (tm e) (tm (last es))"
proof -
  obtain x xs where x: "es = x # xs" using assms(2) by (cases es) auto
  obtain y ys where y: "es = ys @ [y]" using assms(2) by (cases es rule: rev_cases) auto
  show "dle (tm (hd es)) (tm e)" using assms dle_refl by (auto simp: x time_sorted_def)
  show "dle (tm e) (tm (last es))" using assms dle_refl by (auto simp: y time_sorted_def sorted_wrt_append)
qed

context block_reader
begin

lemma iq_matches_correct:
  assumes d: "describes stored (iqCurrent it) es" and Q: "Q m"
    and nan: "\<not> is_nan (iqStart it)" "\<not> is_nan (iqEnd it)"
  shows "\<exists>m1. iq_matches getBlk it m = Inr ((\<exists>e \<in> set es. in_range (iqStart it) (iqEnd it) e), m1) \<and> Q m1"
proof -
  let ?d = "iqCurrent it" and ?s = "iqStart it" and ?t = "iqEnd it"
  from d obtain b nl where b: "stored (ivBlock ?d) b" "um_find (neigs b) (ivVertex ?d) = Some nl" "edges nl = es"
    and es: "es \<noteq> []" "time_sorted es" and iv: "ivStart ?d = tm (hd es)" "ivEnd ?d = tm (last es)"
    unfolding describes_def by blast
  have h: "hd es \<in> set es" "last es \<in> set es" using es by simp_all
  have n: "\<not> is_nan (tm e)" if "e \<in> set es" for e using es(2) that by (simp add: time_sorted_def)
  consider (out) "dlt (ivEnd ?d) ?s \<or> dge (ivStart ?d) ?t"
    | (inside) "\<not> (dlt (ivEnd ?d) ?s \<or> dge (ivStart ?d) ?t)" "dgt ?s (ivStart ?d) \<and> dle ?t (ivEnd ?d)"
    | (end1) "\<not> (dlt (ivEnd ?d) ?s \<or> dge (ivStart ?d) ?t)" "\<not> (dgt ?s (ivStart ?d) \<and> dle ?t (ivEnd ?d))" by blast
  then show ?thesis
  proof cases
    case out
    have "\<not> in_range ?s ?t e" if "e \<in> set es" for e
      using out time_sorted_bounds [OF es(2) that] unfolding in_range_def iv
      by (meson dle_dlt_trans dle_trans dlt_irrefl dlt_dle_trans)
    then show ?thesis using out Q by (auto simp: iq_matches_def)
  next
    case inside
    obtain b' m1 where b': "getBlk (ivBlock ?d) m = Inr (b', m1)" "same_block b' b" "Q m1"
      using read_stored [OF Q b(1)] by blast
    obtain nl' where nl': "um_find (neigs b') (ivVertex ?d) = Some nl'" "map tm (edges nl') = map tm es"
      using same_block_times [OF b'(2) b(2)] b(3) by blast
    have "time_sorted (edges nl')" using es(2) unfolding time_sorted_tms nl'(2) .
    from hasEdgesInRange_iff [OF this nan] have "hasEdgesInRange nl' ?s ?t \<longleftrightarrow> (\<exists>e \<in> set es. in_range ?s ?t e)"
      unfolding in_range_tms nl'(2) .
    then show ?thesis using inside b' nl' by (simp add: iq_matches_def um_count_def)
  next
    case end1
    have "in_range ?s ?t (hd es) \<or> in_range ?s ?t (last es)"
      using end1 nan n [OF h(1)] n [OF h(2)] unfolding in_range_def iv by (auto simp: not_dlt not_dle)
    then show ?thesis using end1 h Q by (auto simp: iq_matches_def)
  qed
qed

end

text \<open>The entries \<open>ds\<close> still to be visited.\<close>

definition iq_at :: "intervalData list \<Rightarrow> iqIterator \<Rightarrow> bool" where
  "iq_at ds it \<longleftrightarrow> pending (iidxIter it) = map iv_enc ds \<and> (ds \<noteq> [] \<longrightarrow> loadedData (iidxIter it) = hd ds)"

definition has_match :: "(intervalData \<Rightarrow> edge list) \<Rightarrow> timestamp \<Rightarrow> timestamp \<Rightarrow> intervalData \<Rightarrow> bool" where
  "has_match lst start end1 d \<longleftrightarrow> (\<exists>e \<in> set (lst d). in_range start end1 e)"

lemma rt_resume_at: "\<exists>r. rt_resume (map iv_enc ds) d0 = Inr r \<and> pending r = map iv_enc ds \<and> (ds \<noteq> [] \<longrightarrow> loadedData r = hd ds)"
  by (cases ds) (simp_all add: rt_resume_def iv_load_enc)

lemma iv_enc_inj: "iv_enc d = iv_enc d' \<Longrightarrow> d = d'"
  by (metis iv_load_enc sum.inject(2))

lemma list_of_image:
  assumes "set ys \<subseteq> f ` D"
  shows "\<exists>ds. ys = map f ds \<and> set ds \<subseteq> D"
proof (intro exI conjI)
  show "ys = map f (map (inv_into D f) ys)" using assms by (auto simp: f_inv_into_f intro!: map_idI [symmetric])
  show "set (map (inv_into D f) ys) \<subseteq> D" using assms by (auto intro: inv_into_into)
qed

lemma hits_encoded:
  assumes "spatial_index ins hits items" and "items t = (\<lambda>d. (data_region d, iv_enc d)) ` D"
  shows "\<exists>ds. hits q t = map iv_enc ds \<and> set ds \<subseteq> D \<and> (\<forall>d \<in> D. intersects (data_region d) q \<longrightarrow> d \<in> set ds)"
proof -
  have "set (hits q t) \<subseteq> snd ` items t" using assms(1) unfolding spatial_index_def by blast
  then have "set (hits q t) \<subseteq> iv_enc ` D" by (simp add: assms(2) image_image)
  from list_of_image [OF this] have "\<exists>ds. hits q t = map iv_enc ds \<and> set ds \<subseteq> D" .
  then obtain ds where ds: "hits q t = map iv_enc ds" "set ds \<subseteq> D" by blast
  have "d \<in> set ds" if "d \<in> D" "intersects (data_region d) q" for d
  proof -
    have "(data_region d, iv_enc d) \<in> items t" using assms(2) that(1) by simp
    then have "iv_enc d \<in> set (hits q t)" using assms(1) that(2) unfolding spatial_index_def by blast
    then obtain d' where "d' \<in> set ds" "iv_enc d = iv_enc d'" unfolding ds(1) set_map by blast
    then show ?thesis using iv_enc_inj by blast
  qed
  with ds show ?thesis by blast
qed

context block_reader
begin

lemma iq_findNext_run:
  assumes "iq_at ds it" and "Q m" and "\<forall>d \<in> set ds. describes stored d (lst d)"
    and "\<not> is_nan start" "\<not> is_nan end1" and "iqStart it = start" "iqEnd it = end1"
  defines "P \<equiv> has_match lst start end1"
  shows "\<exists>it' m'. iq_findNext getBlk it m = Inr (it', m') \<and> Q m' \<and> iq_at (dropWhile (\<lambda>d. \<not> P d) ds) it'
    \<and> (dropWhile (\<lambda>d. \<not> P d) ds \<noteq> [] \<longrightarrow> iqCurrent it' = hd (dropWhile (\<lambda>d. \<not> P d) ds))
    \<and> iqStart it' = start \<and> iqEnd it' = end1"
  using assms(1-7)
proof (induction ds arbitrary: it m)
  case Nil
  then show ?case by (subst iq_findNext.simps) (simp add: iq_at_def iq_isValid_def rt_isValid_def)
next
  case (Cons d ds)
  let ?it1 = "it\<lparr>iqCurrent := d\<rparr>"
  have v: "iq_isValid it" and rc: "iq_readCurrents it = Inr ?it1"
    using Cons.prems(1) by (simp_all add: iq_at_def iq_isValid_def rt_isValid_def iq_readCurrents_def)
  obtain m1 where m1: "iq_matches getBlk ?it1 m = Inr (P d, m1)" "Q m1"
    using iq_matches_correct [of ?it1 "lst d" m] Cons.prems by (auto simp: P_def has_match_def)
  show ?case
  proof (cases "P d")
    case True
    then show ?thesis using v rc m1 Cons.prems(1,6,7) by (subst iq_findNext.simps) (simp add: iq_at_def)
  next
    case False
    obtain r where r: "rt_moveToNext (iidxIter it) = Inr r" "pending r = map iv_enc ds" "ds \<noteq> [] \<longrightarrow> loadedData r = hd ds"
      using rt_resume_at [of ds "loadedData (iidxIter it)"] v Cons.prems(1)
      by (auto simp: rt_moveToNext_def iq_isValid_def iq_at_def)
    have "iq_findNext getBlk it m = iq_findNext getBlk (?it1\<lparr>iidxIter := r\<rparr>) m1"
      using False by (subst iq_findNext.simps) (simp add: v rc m1 r)
    moreover have "iq_at ds (?it1\<lparr>iidxIter := r\<rparr>)" using r by (simp add: iq_at_def)
    note Cons.IH [OF this m1(2)]
    ultimately show ?thesis using False Cons.prems by auto
  qed
qed

lemma iq_collect_run:
  assumes "\<forall>d \<in> set ds. describes stored d (lst d)" and "\<not> is_nan start" "\<not> is_nan end1"
  defines "P \<equiv> has_match lst start end1"
  assumes "iq_at ds it" and "Q m" and "ds \<noteq> [] \<longrightarrow> iqCurrent it = hd ds \<and> P (hd ds)"
    and "iqStart it = start" "iqEnd it = end1"
  shows "\<exists>m'. iq_collect getBlk it m = Inr (filter P ds, m') \<and> Q m'"
  using assms(1-3,5-)
proof (induction "length ds" arbitrary: ds it m rule: less_induct)
  case less
  show ?case
  proof (cases ds)
    case Nil
    then show ?thesis using less.prems
      by (subst iq_collect.simps) (simp add: iq_at_def iq_isValid_def rt_isValid_def)
  next
    case (Cons d ds')
    let ?rest = "dropWhile (\<lambda>d. \<not> P d) ds'"
    have v: "iq_isValid it" "iqCurrent it = d" "P d"
      using less.prems Cons by (auto simp: iq_at_def iq_isValid_def rt_isValid_def)
    obtain r where r: "rt_moveToNext (iidxIter it) = Inr r" "pending r = map iv_enc ds'" "ds' \<noteq> [] \<longrightarrow> loadedData r = hd ds'"
      using rt_resume_at [of ds' "loadedData (iidxIter it)"] v less.prems Cons
      by (auto simp: rt_moveToNext_def iq_isValid_def iq_at_def)
    have "iq_at ds' (it\<lparr>iidxIter := r\<rparr>)" using r by (simp add: iq_at_def)
    moreover have "\<forall>d \<in> set ds'. describes stored d (lst d)" using less.prems(1) Cons by simp
    ultimately obtain it' m' where
      n: "iq_findNext getBlk (it\<lparr>iidxIter := r\<rparr>) m = Inr (it', m')" "Q m'" "iq_at ?rest it'"
        "?rest \<noteq> [] \<longrightarrow> iqCurrent it' = hd ?rest" "iqStart it' = start" "iqEnd it' = end1"
      using iq_findNext_run [of ds' "it\<lparr>iidxIter := r\<rparr>" m lst start end1] less.prems unfolding P_def by auto
    have "length ?rest < length ds" using Cons length_dropWhile_le [of "\<lambda>d. \<not> P d" ds'] by simp
    moreover have "\<forall>d \<in> set ?rest. describes stored d (lst d)"
      using less.prems(1) Cons by (meson list.set_intros(2) set_dropWhileD)
    moreover have "?rest \<noteq> [] \<longrightarrow> iqCurrent it' = hd ?rest \<and> P (hd ?rest)" using n(4) hd_dropWhile by blast
    ultimately obtain m2 where "iq_collect getBlk it' m' = Inr (filter P ?rest, m2)" "Q m2"
      using less.hyps [OF _ _ less.prems(2,3) n(3,2) _ n(5,6)] by blast
    moreover have "filter P ?rest = filter P ds'" by (induction ds') auto
    ultimately show ?thesis using v n(1) r(1) Cons
      by (subst iq_collect.simps) (simp add: iq_next_def)
  qed
qed

lemma iq_query_run:
  assumes rt: "spatial_index ins hits items" and idx: "items (rtidx idx) = (\<lambda>d. (data_region d, iv_enc d)) ` D"
    and desc: "\<forall>d \<in> D. describes stored d (lst d)" and bm: "Q bm" and nan: "\<not> is_nan start" "\<not> is_nan end1"
  shows "\<exists>it bm1 ds bm'. iq_query hits getBlk start end1 idx bm = Inr (it, bm1) \<and> iq_collect getBlk it bm1 = Inr (ds, bm')
    \<and> set ds = {d \<in> D. \<exists>e \<in> set (lst d). in_range start end1 e} \<and> Q bm'"
proof -
  let ?q = "getRegion start end1 0 d_ten" and ?P = "has_match lst start end1"
  let ?d0 = "\<lparr>ivBlock = 0, ivVertex = 0, ivStart = 0, ivEnd = 0\<rparr>"
  obtain ds where ds: "hits ?q (rtidx idx) = map iv_enc ds" "set ds \<subseteq> D"
      "\<forall>d \<in> D. intersects (data_region d) ?q \<longrightarrow> d \<in> set ds" using hits_encoded [OF rt idx] by blast
  have d: "\<forall>d \<in> set ds. describes stored d (lst d)" using desc ds(2) by blast
  obtain r where r: "rt_resume (map iv_enc ds) ?d0 = Inr r" "pending r = map iv_enc ds" "ds \<noteq> [] \<longrightarrow> loadedData r = hd ds"
    using rt_resume_at by blast
  let ?it0 = "\<lparr>iqStart = start, iqEnd = end1, iqCurrent = ?d0, iidxIter = r\<rparr>"
  have "iq_at ds ?it0" using r by (simp add: iq_at_def)
  from iq_findNext_run [OF this bm d nan] obtain it bm1 where
    f: "iq_findNext getBlk ?it0 bm = Inr (it, bm1)" "Q bm1"
      "iq_at (dropWhile (\<lambda>d. \<not> ?P d) ds) it"
      "dropWhile (\<lambda>d. \<not> ?P d) ds \<noteq> [] \<longrightarrow> iqCurrent it = hd (dropWhile (\<lambda>d. \<not> ?P d) ds)" "iqStart it = start" "iqEnd it = end1"
    by auto
  have q: "iq_query hits getBlk start end1 idx bm = Inr (it, bm1)"
    using r f(1) by (simp add: iq_query_def rt_getNewIterator_def ds(1))
  have "\<forall>d \<in> set (dropWhile (\<lambda>d. \<not> ?P d) ds). describes stored d (lst d)"
    using d by (meson set_dropWhileD)
  from iq_collect_run [OF this nan f(3,2) _ f(5,6)] f(4) hd_dropWhile [of "\<lambda>d. \<not> ?P d" ds]
  obtain bm2 where c: "iq_collect getBlk it bm1 = Inr (filter ?P (dropWhile (\<lambda>d. \<not> ?P d) ds), bm2)"
      "Q bm2" by auto
  have filter: "filter ?P (dropWhile (\<lambda>d. \<not> ?P d) ds) = filter ?P ds" by (induction ds) auto
  have "d \<in> set ds" if D: "d \<in> D" and m: "?P d" for d
  proof -
    obtain e where e: "e \<in> set (lst d)" "dle start (tm e)" "dlt (tm e) end1" using m by (auto simp: has_match_def in_range_def)
    have l: "time_sorted (lst d)" "ivStart d = tm (hd (lst d))" "ivEnd d = tm (last (lst d))"
      using desc D by (auto simp: describes_def)
    note b = time_sorted_bounds [OF l(1) e(1)]
    have "dle (ivStart d) end1" unfolding l by (rule dlt_imp_dle [OF dle_dlt_trans [OF b(1) e(3)]])
    moreover have "dle start (ivEnd d)" unfolding l by (rule dle_trans [OF e(2) b(2)])
    moreover have "dle d_one d_ten" "dle 0 d_nine" by (simp_all add: double_eval)
    ultimately show ?thesis using ds(3) D by (simp add: intersects_def data_region_def getRegion_def)
  qed
  then have "set (filter ?P ds) = {d \<in> D. \<exists>e \<in> set (lst d). in_range start end1 e}"
    using ds(2) by (auto simp: has_match_def)
  then show ?thesis using q c unfolding filter by auto
qed

end

text \<open>C17: A query of the interval index is exact. When every index entry describes a neighbour list of a stored
  block, iterating over the index for a range visits exactly the entries whose list has an edge with a time
  in the range (end exclusive), reading a block only where the entry alone does not decide; the block
  manager stays coherent.\<close>

theorem iq_query_exact:
  assumes rt: "spatial_index ins hits items" and idx: "items (rtidx idx) = (\<lambda>d. (data_region d, iv_enc d)) ` D"
    and desc: "\<forall>d \<in> D. describes (on_disk s getPart Q (blockDb bm)) d (lst d)"
    and bm: "bm_ok s getPart Q bm" and nan: "\<not> is_nan start" "\<not> is_nan end1"
  shows "\<exists>ds bm'. rbind (iq_query hits (bm_getBlock s getPart) start end1 idx bm)
      (\<lambda>(it, bm1). iq_collect (bm_getBlock s getPart) it bm1) = Inr (ds, bm')
    \<and> set ds = {d \<in> D. \<exists>e \<in> set (lst d). in_range start end1 e} \<and> bm_ok s getPart Q bm' \<and> blockDb bm' = blockDb bm"
  using bm_reader.iq_query_run [OF rt idx desc conjI [OF bm refl] nan] by (auto simp: rbind_Inr_iff)

text \<open>A list in place of the R-tree.\<close>

definition ex_ins :: "byte list \<Rightarrow> region \<Rightarrow> size_t \<Rightarrow> (region \<times> byte list) list \<Rightarrow> (region \<times> byte list) list" where
  "ex_ins bytes r i t = t @ [(r, bytes)]"

definition ex_hits :: "region \<Rightarrow> (region \<times> byte list) list \<Rightarrow> byte list list" where
  "ex_hits q t = map snd (filter (\<lambda>(r, _). intersects r q) t)"

lemma ex_spatial: "spatial_index ex_ins ex_hits set"
  unfolding spatial_index_def ex_ins_def ex_hits_def by (intro conjI allI) (auto, force)

definition ex_iv :: intervalData where
  "ex_iv = \<lparr>ivBlock = bid ex_sub_block, ivVertex = 1, ivStart = d_one, ivEnd = d_one\<rparr>"

theorem iq_query_exact_witness:
  "\<exists>db ds bm'. rbind (iq_query ex_hits (bm_getBlock ex_schema ex_getPart) d_one d_two
        \<lparr>nextId = 1, rtidx = [(data_region ex_iv, iv_enc ex_iv)]\<rparr> (BlockManager 2 () db 10))
      (\<lambda>(it, bm1). iq_collect (bm_getBlock ex_schema ex_getPart) it bm1) = Inr (ds, bm') \<and> set ds = {ex_iv}"
proof -
  obtain db where db: "db_ok db" "failure db = None"
      "on_disk ex_schema ex_getPart (\<lambda>_. True) db (bid ex_sub_block) ex_sub_block" using ex_stored by blast
  let ?bm = "BlockManager 2 () db 10"
  have ok: "bm_ok ex_schema ex_getPart (\<lambda>_. True) ?bm" by (rule BlockManager_ok) (use db in simp_all)
  have num: "dle d_one d_one" "dlt d_one d_two" "\<not> is_nan d_one" "\<not> is_nan d_two" by (simp_all add: double_eval)
  have e: "tm (ex_sub_edge 2) = d_one" by (simp add: ex_sub_edge_def d_one_def)
  have n: "um_find (neigs ex_sub_block) 1 = Some \<lparr>headVertex = 1, edges = [ex_sub_edge 2]\<rparr>"
    by (simp add: ex_sub_block_def)
  have "blockDb ?bm = db" by (simp add: BlockManager_def)
  then have "describes (on_disk ex_schema ex_getPart (\<lambda>_. True) (blockDb ?bm)) ex_iv [ex_sub_edge 2]"
    using db(3) n num unfolding describes_def by (auto simp: ex_iv_def e time_sorted_def)
  then have "\<forall>d \<in> {ex_iv}. describes (on_disk ex_schema ex_getPart (\<lambda>_. True) (blockDb ?bm)) d ((\<lambda>_. [ex_sub_edge 2]) d)"
    by simp
  from iq_query_exact [OF ex_spatial _ this ok num(3,4), of "\<lparr>nextId = 1, rtidx = [(data_region ex_iv, iv_enc ex_iv)]\<rparr>"]
  show ?thesis using num by (auto simp: in_range_def e)
qed

lemma iq_indexBlock_adds:
  assumes rt: "spatial_index ins hits items" and heads: "heads_ok (neigs b)"
  shows "\<exists>idx'. iq_indexBlock ins b idx = Inr idx' \<and> nextId idx' = nextId idx + word_of_nat (length (neigs b))
    \<and> items (rtidx idx') = items (rtidx idx) \<union> (\<lambda>(v, nl).
        let d = \<lparr>ivBlock = bid b, ivVertex = v, ivStart = tm (hd (edges nl)), ivEnd = tm (last (edges nl))\<rparr>
        in (data_region d, iv_enc d)) ` set (neigs b)"
proof -
  let ?d = "\<lambda>(v, nl). \<lparr>ivBlock = bid b, ivVertex = v, ivStart = tm (hd (edges nl)), ivEnd = tm (last (edges nl))\<rparr>"
  have ins: "items (ins bytes r i t) = insert (r, bytes) (items t)" for bytes r i t
    using rt unfolding spatial_index_def by blast
  have step: "iq_index_list ins (bid b) (v, nl) idx = Inr (idx\<lparr>rtidx := ins (iv_enc (?d (v, nl))) (data_region (?d (v, nl))) (nextId idx) (rtidx idx),
      nextId := nextId idx + 1\<rparr>)" if "(v, nl) \<in> set (neigs b)" for v nl idx
    using that heads
    by (cases "edges nl") (auto simp: heads_ok_def getOldestEdge_def getNewestEdge_def addInterval_def getBytes_enc Let_def)
  have "\<exists>idx'. for_each (iq_index_list ins (bid b)) ls idx = Inr idx' \<and> nextId idx' = nextId idx + word_of_nat (length ls)
      \<and> items (rtidx idx') = items (rtidx idx) \<union> (\<lambda>l. (data_region (?d l), iv_enc (?d l))) ` set ls"
    if "set ls \<subseteq> set (neigs b)" for ls idx
    using that
  proof (induction ls arbitrary: idx)
    case (Cons l ls)
    obtain v nl where l: "l = (v, nl)" by force
    have sub: "(v, nl) \<in> set (neigs b)" "set ls \<subseteq> set (neigs b)" using Cons.prems by (simp_all add: l)
    obtain idx1 where 1: "iq_index_list ins (bid b) l idx = Inr idx1" "nextId idx1 = nextId idx + 1"
        "items (rtidx idx1) = insert (data_region (?d l), iv_enc (?d l)) (items (rtidx idx))"
      using step [OF sub(1)] by (simp add: l ins)
    from Cons.IH [OF sub(2), of idx1] 1 show ?case by (auto simp del: iq_index_list.simps)
  qed simp
  from this [OF subset_refl] show ?thesis
    unfolding iq_indexBlock_def by (simp add: Let_def case_prod_unfold)
qed



end
