(* ===== verification/PartitionIdx.thy ===== *)
theory PartitionIdx
  imports Indexes
begin

text \<open>
  The partition index (\<^verbatim>\<open>PartitionIndex.h/.cpp\<close>): which partitioning of the edge attributes is in force in which
  slice of time. Slices are stored under their end time and cached in an ordered map; the LRU list of the
  cache is a linked list whose nodes the cache entries point at. A node is a number with the time stored in
  it, so that an iterator to a node that is gone is visible; using it is undefined behaviour. Replacing
  slices repartitions the blocks of their time range through the block manager and the interval index.
\<close>

section \<open>Time slices\<close>

record timeSlicedPartitioning =
  tsStart :: timestamp
  tsEnd :: timestamp
  tsParts :: partitioning

definition TimeSlicedPartitioning :: timeSlicedPartitioning where
  "TimeSlicedPartitioning = \<lparr>tsStart = neg_inf, tsEnd = pos_inf, tsParts = []\<rparr>"

definition addAttributes :: "string list \<Rightarrow> nbuf \<Rightarrow> nbuf result" where
  "addAttributes attrs nb = rbind (addUInt32 (word_of_nat (length attrs)) nb) (for_each addSTLString attrs)"

definition addTimeSlice :: "timeSlicedPartitioning \<Rightarrow> nbuf \<Rightarrow> nbuf result" where
  "addTimeSlice ts nb =
     rbind (addDouble (tsStart ts) nb) (\<lambda>nb1.
     rbind (addDouble (tsEnd ts) nb1) (\<lambda>nb2.
     rbind (addUInt32 (word_of_nat (length (tsParts ts))) nb2) (for_each addAttributes (tsParts ts))))"

fun get_attributes :: "nat \<Rightarrow> string list \<Rightarrow> nbuf \<Rightarrow> (string list \<times> nbuf) result" where
  "get_attributes 0 attrs nb = Inr (attrs, nb)"
| "get_attributes (Suc n) attrs nb =
     rbind (getSTLString nb) (\<lambda>(a, nb1). get_attributes n (us_insert a attrs) nb1)"

definition getAttributes :: "nbuf \<Rightarrow> (string list \<times> nbuf) result" where
  "getAttributes nb = rbind (getUInt32 nb) (\<lambda>(n, nb1). get_attributes (unat n) [] nb1)"

text \<open>The reader assigns the times and appends to the partitioning the slice already has.\<close>

definition getTimeSlice :: "timeSlicedPartitioning \<Rightarrow> nbuf \<Rightarrow> (timeSlicedPartitioning \<times> nbuf) result" where
  "getTimeSlice ts nb =
     rbind (getDouble nb) (\<lambda>(s, nb1).
     rbind (getDouble nb1) (\<lambda>(e, nb2).
     rbind (getUInt32 nb2) (\<lambda>(n, nb3).
     rbind (get_items getAttributes (unat n) (tsParts ts) nb3) (\<lambda>(parts, nb4).
       Inr (\<lparr>tsStart = s, tsEnd = e, tsParts = parts\<rparr>, nb4)))))"

section \<open>The ordered map of the cache\<close>

type_synonym 'a omap = "(timestamp \<times> 'a) list"

definition om_lower_bound :: "'a omap \<Rightarrow> timestamp \<Rightarrow> (timestamp \<times> 'a) option" where
  "om_lower_bound m t = List.find (\<lambda>(k, _). \<not> dlt k t) m"

fun om_emplace :: "timestamp \<Rightarrow> 'a \<Rightarrow> 'a omap \<Rightarrow> 'a omap" where
  "om_emplace k v [] = [(k, v)]"
| "om_emplace k v ((k', v') # m) =
     (if dlt k k' then (k, v) # (k', v') # m
      else if dlt k' k then (k', v') # om_emplace k v m
      else (k', v') # m)"

definition om_find :: "'a omap \<Rightarrow> timestamp \<Rightarrow> 'a option" where
  "om_find m t = map_option snd (List.find (\<lambda>(k, _). \<not> dlt k t \<and> \<not> dlt t k) m)"

definition om_set :: "timestamp \<Rightarrow> 'a \<Rightarrow> 'a omap \<Rightarrow> 'a omap" where
  "om_set t v m = map (\<lambda>(k, w). (k, if \<not> dlt k t \<and> \<not> dlt t k then v else w)) m"

definition om_erase :: "timestamp \<Rightarrow> 'a omap \<Rightarrow> 'a omap" where
  "om_erase t m = filter (\<lambda>(k, _). dlt k t \<or> dlt t k) m"

section \<open>State and lookups\<close>

type_synonym partEntry = "timeSlicedPartitioning \<times> nat option"

record partitionIndex =
  partitioningBufferSize :: nat
  pLruList :: "(nat \<times> timestamp) list"
  pNextNode :: nat
  pCache :: "partEntry omap"
  pEdgeSchema :: schema
  removedPartitionings :: "timeSlicedPartitioning list"
  partDb :: leveldb

definition lru_push :: "timestamp \<Rightarrow> partitionIndex \<Rightarrow> partitionIndex" where
  "lru_push t p = p\<lparr>pLruList := (pNextNode p, t) # pLruList p, pNextNode := pNextNode p + 1\<rparr>"

definition lru_erase :: "nat option \<Rightarrow> partitionIndex \<Rightarrow> partitionIndex result" where
  "lru_erase it p =
     rbind (deref it) (\<lambda>n.
     if n \<in> fst ` set (pLruList p) then Inr (p\<lparr>pLruList := filter (\<lambda>(i, _). i \<noteq> n) (pLruList p)\<rparr>)
     else Inl UndefinedBehavior)"

definition addPartitioning :: "timeSlicedPartitioning \<Rightarrow> partitionIndex \<Rightarrow> partitionIndex result" where
  "addPartitioning ts p =
     rbind (addDouble (tsEnd ts) (NetworkByteBuffer_sized 8)) (\<lambda>keyBuf.
     rbind (addTimeSlice ts NetworkByteBuffer) (\<lambda>dataBuf.
       case db_Put (partDb p) (content keyBuf) (content dataBuf) of (st, db1) \<Rightarrow>
         rbind (throw_unless_ok st) (\<lambda>_. Inr (p\<lparr>partDb := db1\<rparr>))))"

text \<open>\<open>newDb\<close>: the database directory did not exist.\<close>

definition PartitionIndex :: "nat \<Rightarrow> schema \<Rightarrow> bool \<Rightarrow> status \<times> leveldb \<Rightarrow> partitionIndex result" where
  "PartitionIndex n s newDb opened =
     rbind (db_Open opened) (\<lambda>db.
       let p = \<lparr>partitioningBufferSize = n, pLruList = [], pNextNode = 0, pCache = [], pEdgeSchema = s,
                removedPartitionings = [], partDb = db\<rparr>
       in if newDb
          then addPartitioning
                 (TimeSlicedPartitioning\<lparr>tsParts := [fold us_insert (map attrName (attributes s)) []]\<rparr>) p
          else Inr p)"

definition initiatePartitioningRemoval :: "timeSlicedPartitioning \<Rightarrow> partitionIndex \<Rightarrow> partitionIndex result" where
  "initiatePartitioningRemoval ts p0 =
     (let p = p0\<lparr>removedPartitionings := removedPartitionings p0 @ [ts]\<rparr>
      in rbind (addDouble (tsEnd ts) (NetworkByteBuffer_sized 8)) (\<lambda>keyBuf.
         case db_Delete (partDb p) (content keyBuf) of (st, db1) \<Rightarrow>
           rbind (throw_unless_ok st) (\<lambda>_.
             let p1 = p\<lparr>partDb := db1\<rparr>
             in case om_find (pCache p1) (tsEnd ts) of
                  None \<Rightarrow> Inr p1
                | Some (_, it) \<Rightarrow>
                    rbind (lru_erase it p1) (\<lambda>p2. Inr (p2\<lparr>pCache := om_erase (tsEnd ts) (pCache p2)\<rparr>)))))"

definition completePartitioningRemovals :: "partitionIndex \<Rightarrow> partitionIndex" where
  "completePartitioningRemovals p = p\<lparr>removedPartitionings := []\<rparr>"

text \<open>A cache hit moves the node to the front unless it is there; the new node holds the time asked for.\<close>

definition pi_touch :: "timestamp \<Rightarrow> timestamp \<Rightarrow> partEntry \<Rightarrow> partitionIndex \<Rightarrow> partitionIndex result" where
  "pi_touch k time e p =
     rbind (deref (snd e)) (\<lambda>n.
       if n \<notin> fst ` set (pLruList p) then Inl UndefinedBehavior
       else if fst (hd (pLruList p)) = n then Inr p
       else rbind (lru_erase (Some n) p) (\<lambda>p1.
              Inr ((lru_push time p1)\<lparr>pCache := om_set k (fst e, Some (pNextNode p1)) (pCache p1)\<rparr>)))"

text \<open>The slice is read into the cache entry of the key found, which may exist; the entry is looked up again
  after the eviction, as the code returns through its reference to it.\<close>

definition pi_load :: "timestamp \<Rightarrow> byte list \<Rightarrow> partitionIndex \<Rightarrow> (timeSlicedPartitioning \<times> partitionIndex) result" where
  "pi_load endTime v p =
     (let cache1 = om_emplace endTime (TimeSlicedPartitioning, None) (pCache p)
      in rbind (deref (om_find cache1 endTime)) (\<lambda>(ts0, _).
         rbind (getTimeSlice ts0 (NetworkByteBuffer_over v (length v))) (\<lambda>(ts, _).
           let p1 = (lru_push endTime p)\<lparr>pCache := om_set endTime (ts, Some (pNextNode p)) cache1\<rparr>;
               p2 = (if partitioningBufferSize p1 < length (pLruList p1)
                     then p1\<lparr>pLruList := butlast (pLruList p1), pCache := om_erase (snd (last (pLruList p1))) (pCache p1)\<rparr>
                     else p1)
           in rbind (deref (om_find (pCache p2) endTime)) (\<lambda>(r, _). Inr (r, p2)))))"

definition pi_miss :: "timestamp \<Rightarrow> partitionIndex \<Rightarrow> (timeSlicedPartitioning \<times> partitionIndex) result" where
  "pi_miss time p =
     rbind (addDouble time (NetworkByteBuffer_sized 8)) (\<lambda>searchKeyBuf.
       case db_Seek (partDb p) (content searchKeyBuf) of
         [] \<Rightarrow> Inl (PartitionNotFound time)
       | (k, v) # rest \<Rightarrow>
           rbind (getDouble (NetworkByteBuffer_over k (length k))) (\<lambda>(endTime, _).
             if deq endTime time
             then (case rest of [] \<Rightarrow> Inl (PartitionNotFound time) | (k', v') # _ \<Rightarrow> pi_load endTime v' p)
             else pi_load endTime v p))"

definition getTimeSlicedPartitioning :: "timestamp \<Rightarrow> partitionIndex \<Rightarrow> (timeSlicedPartitioning \<times> partitionIndex) result" where
  "getTimeSlicedPartitioning time p =
     (case om_lower_bound (pCache p) time of
        Some (k, e) \<Rightarrow>
          if dge time (tsStart (fst e)) \<and> dlt time (tsEnd (fst e))
          then rbind (pi_touch k time e p) (\<lambda>p1. Inr (fst e, p1))
          else pi_miss time p
      | None \<Rightarrow> pi_miss time p)"

definition getTimeSlicedPartitioningForBlockDeserialization ::
  "timestamp \<Rightarrow> partitionIndex \<Rightarrow> (timeSlicedPartitioning \<times> partitionIndex) result" where
  "getTimeSlicedPartitioningForBlockDeserialization time p =
     (case List.find (\<lambda>ts. dle (tsStart ts) time \<and> dgt (tsEnd ts) time) (removedPartitionings p) of
        Some ts \<Rightarrow> Inr (ts, p)
      | None \<Rightarrow> getTimeSlicedPartitioning time p)"

text \<open>The loop over the slices of a range has no bound of its own, so not returning is the value \<open>None\<close>.\<close>

partial_function (option) slices_loop ::
  "timestamp \<Rightarrow> timestamp \<Rightarrow> timeSlicedPartitioning list \<Rightarrow> partitionIndex
     \<Rightarrow> (timeSlicedPartitioning list \<times> partitionIndex) result option" where
  "slices_loop time endTime results p =
     (case getTimeSlicedPartitioning time p of
        Inl e \<Rightarrow> Some (Inl e)
      | Inr (ts, p1) \<Rightarrow>
          (if dlt (tsEnd ts) endTime then slices_loop (tsEnd ts) endTime (results @ [ts]) p1
           else Some (Inr (results @ [ts], p1))))"

definition getTimeSlicedPartitionings ::
  "timestamp \<Rightarrow> timestamp \<Rightarrow> partitionIndex \<Rightarrow> (timeSlicedPartitioning list \<times> partitionIndex) result option" where
  "getTimeSlicedPartitionings startTime endTime p = slices_loop startTime endTime [] p"

text \<open>What blocks ask the index for.\<close>

definition getPart :: "timestamp \<Rightarrow> partitionIndex \<Rightarrow> (partitioning \<times> partitionIndex) result" where
  "getPart t p = rbind (getTimeSlicedPartitioning t p) (\<lambda>(ts, p1). Inr (tsParts ts, p1))"

definition getPart_deser :: "timestamp \<Rightarrow> partitionIndex \<Rightarrow> (partitioning \<times> partitionIndex) result" where
  "getPart_deser t p = rbind (getTimeSlicedPartitioningForBlockDeserialization t p) (\<lambda>(ts, p1). Inr (tsParts ts, p1))"

section \<open>Repartitioning\<close>

type_synonym blockStore = "partitionIndex blockManager"

definition bman_getBlock :: "blockId \<Rightarrow> blockStore \<Rightarrow> (block \<times> blockStore) result" where
  "bman_getBlock i bm = bm_getBlock (pEdgeSchema (pidx bm)) getPart_deser i bm"

definition bman_updateBlock :: "block \<Rightarrow> blockStore \<Rightarrow> blockStore result" where
  "bman_updateBlock b bm = bm_updateBlock (pEdgeSchema (pidx bm)) getPart_deser b bm"

definition replace_sub :: "blockId list \<Rightarrow> nat \<Rightarrow> block list \<times> blockStore \<Rightarrow> (block list \<times> blockStore) result" where
  "replace_sub subs i = (\<lambda>(newBlocks, bm).
     rbind (vec_index newBlocks (i + 1)) (\<lambda>b.
     rbind (vec_index subs i) (\<lambda>sub.
       let b1 = b\<lparr>bid := sub\<rparr>
       in rbind (bman_updateBlock b1 bm) (\<lambda>bm1. Inr (newBlocks[i + 1 := b1], bm1)))))"

definition add_sub :: "blockId list \<Rightarrow> nat \<Rightarrow> block list \<times> blockStore \<Rightarrow> (block list \<times> blockStore) result" where
  "add_sub subs i = (\<lambda>(newBlocks, bm).
     rbind (vec_index newBlocks (i + length subs + 1)) (\<lambda>b.
     rbind (bm_addBlock b True bm) (\<lambda>(b1, bm1). Inr (newBlocks[i + length subs + 1 := b1], bm1))))"

definition remove_sub :: "blockId list \<Rightarrow> nat \<Rightarrow> nat \<Rightarrow> blockStore \<Rightarrow> blockStore result" where
  "remove_sub subs n i bm = rbind (vec_index subs (i + n - 1)) (\<lambda>sub. bm_removeBlock sub bm)"

definition replaceBlocks :: "block \<Rightarrow> block list \<Rightarrow> blockStore \<Rightarrow> (block list \<times> blockStore) result" where
  "replaceBlocks masterBlock newBlocks bm =
     rbind (assert_that (0 < length newBlocks)) (\<lambda>_.
       let subs = subBlocks masterBlock;
           numReplace = min (length subs) (length newBlocks - 1);
           numAdd = length newBlocks - 1 - length subs;
           numRemove = 1 + length subs - length newBlocks
       in rbind (for_each (replace_sub subs) [0..<numReplace] (newBlocks, bm)) (\<lambda>st1.
          rbind (for_each (add_sub subs) [0..<numAdd] st1) (\<lambda>(nbs, bm2).
          rbind (for_each (remove_sub subs (length nbs)) [0..<numRemove] bm2) (\<lambda>bm3.
            let master = fold (\<lambda>b m. addSubBlockId (bid b) m) (tl nbs) ((hd nbs)\<lparr>bid := bid masterBlock\<rparr>)
            in rbind (bman_updateBlock master bm3) (\<lambda>bm4. Inr (nbs[0 := master], bm4))))))"

definition repartition_block ::
  "timestamp \<Rightarrow> timestamp \<Rightarrow> blockId \<Rightarrow> blockStore \<Rightarrow> blockStore result" where
  "repartition_block startTime endTime i bm =
     rbind (bman_getBlock i bm) (\<lambda>(masterBlock, bm1).
     rbind (getPartitioningTimestamp masterBlock) (\<lambda>t.
       if dlt t startTime \<or> dge t endTime then Inr bm1
       else rbind (recombineBlock (pEdgeSchema (pidx bm1)) bman_getBlock masterBlock bm1) (\<lambda>(recombMaster, bm2).
            rbind (partitionBlock (pEdgeSchema (pidx bm2)) getPart recombMaster (pidx bm2)) (\<lambda>(newBlocks, p).
            rbind (replaceBlocks masterBlock newBlocks (bm2\<lparr>pidx := p\<rparr>)) (\<lambda>(_, bm3). Inr bm3)))))"

function updateBlocks_loop ::
  "timestamp \<Rightarrow> timestamp \<Rightarrow> iqIterator \<Rightarrow> blockId list \<Rightarrow> blockStore \<Rightarrow> blockStore result" where
  "updateBlocks_loop startTime endTime it seenIds bm =
     (if iq_isValid it
      then let i = ivBlock (iqCurrent it)
           in rbind (iq_next bman_getBlock it bm) (\<lambda>(it1, bm1).
              if i \<in> set seenIds then updateBlocks_loop startTime endTime it1 seenIds bm1
              else rbind (repartition_block startTime endTime i bm1)
                     (updateBlocks_loop startTime endTime it1 (us_insert i seenIds)))
      else Inr bm)"
  by pat_completeness auto
termination
  by (relation "measure (\<lambda>(_, _, it, _, _). length (pending (iidxIter it)))") (auto intro: iq_next_shorter)

definition updateBlocks ::
  "(region \<Rightarrow> 'rt \<Rightarrow> byte list list) \<Rightarrow> 'rt rtreeIndex \<Rightarrow> timestamp \<Rightarrow> timestamp \<Rightarrow> blockStore \<Rightarrow> blockStore result" where
  "updateBlocks hits idx startTime endTime bm =
     rbind (iq_query hits bman_getBlock startTime endTime idx bm) (\<lambda>(it, bm1).
       updateBlocks_loop startTime endTime it [] bm1)"

definition getPartitioningAttributeCount :: "partitioning \<Rightarrow> nat" where
  "getPartitioningAttributeCount parting = length (fold us_insert (concat parting) [])"

fun contiguous :: "timeSlicedPartitioning list \<Rightarrow> bool" where
  "contiguous (a # b # rest) = (deq (tsStart b) (tsEnd a) \<and> contiguous (b # rest))"
| "contiguous _ = True"

definition on_pidx :: "(partitionIndex \<Rightarrow> partitionIndex result) \<Rightarrow> blockStore \<Rightarrow> blockStore result" where
  "on_pidx f bm = rbind (f (pidx bm)) (\<lambda>p. Inr (bm\<lparr>pidx := p\<rparr>))"

definition check_replacement :: "bool \<Rightarrow> string \<Rightarrow> unit result" where
  "check_replacement good msg = (if good then Inr () else Inl (PartitionReplacement msg))"

definition replaceTimeSlicedPartitioning ::
  "(region \<Rightarrow> 'rt \<Rightarrow> byte list list) \<Rightarrow> 'rt rtreeIndex \<Rightarrow> timeSlicedPartitioning \<Rightarrow> timeSlicedPartitioning list
     \<Rightarrow> blockStore \<Rightarrow> blockStore result" where
  "replaceTimeSlicedPartitioning hits idx toBeReplaced replacement bm =
     (let nattrs = length (attributes (pEdgeSchema (pidx bm)))
      in rbind (check_replacement (replacement \<noteq> []) ''replacement time slice sequence is empty'') (\<lambda>_.
         rbind (check_replacement (deq (tsStart toBeReplaced) (tsStart (hd replacement)))
           ''start time of the time slice to be replaced does not match that of the replacement time slice sequence'') (\<lambda>_.
         rbind (check_replacement (deq (tsEnd toBeReplaced) (tsEnd (last replacement)))
           ''end time of the time slice to be replaced does not match that of the replacement time slice sequence'') (\<lambda>_.
         rbind (check_replacement (contiguous replacement)
           ''replacement time slice sequence is not contigious in time'') (\<lambda>_.
         rbind (check_replacement (list_all (\<lambda>ts. getPartitioningAttributeCount (tsParts ts) = nattrs) replacement)
           ''replacement partitioning has missing attributes'') (\<lambda>_.
         rbind (on_pidx (initiatePartitioningRemoval toBeReplaced) bm) (\<lambda>bm1.
         rbind (for_each (\<lambda>ts. on_pidx (addPartitioning ts)) replacement bm1) (\<lambda>bm2.
         rbind (for_each (\<lambda>ts. updateBlocks hits idx (tsStart ts) (tsEnd ts)) replacement bm2) (\<lambda>bm3.
           Inr (bm3\<lparr>pidx := completePartitioningRemovals (pidx bm3)\<rparr>))))))))))"

definition replaceTimeSlicedPartitionings ::
  "(region \<Rightarrow> 'rt \<Rightarrow> byte list list) \<Rightarrow> 'rt rtreeIndex \<Rightarrow> timeSlicedPartitioning list \<Rightarrow> timeSlicedPartitioning
     \<Rightarrow> blockStore \<Rightarrow> blockStore result" where
  "replaceTimeSlicedPartitionings hits idx toBeReplaced replacement bm =
     (let nattrs = length (attributes (pEdgeSchema (pidx bm)))
      in rbind (check_replacement (toBeReplaced \<noteq> []) ''time slice sequence to be replaced is empty'') (\<lambda>_.
         rbind (check_replacement (deq (tsStart (hd toBeReplaced)) (tsStart replacement))
           ''start time of the time slice sequence to be replaced does not match that of the replacement time slice'') (\<lambda>_.
         rbind (check_replacement (deq (tsEnd (last toBeReplaced)) (tsEnd replacement))
           ''end time of the time slice sequence to be replaced does not match that of the replacement time slice'') (\<lambda>_.
         rbind (check_replacement (contiguous toBeReplaced)
           ''replacement time slice sequence is not contigious in time'') (\<lambda>_.
         rbind (check_replacement (getPartitioningAttributeCount (tsParts replacement) = nattrs)
           ''replacement partitioning has missing attributes'') (\<lambda>_.
         rbind (for_each (\<lambda>ts. on_pidx (initiatePartitioningRemoval ts)) toBeReplaced bm) (\<lambda>bm1.
         rbind (on_pidx (addPartitioning replacement) bm1) (\<lambda>bm2.
         rbind (for_each (\<lambda>ts. updateBlocks hits idx (tsStart ts) (tsEnd ts)) toBeReplaced bm2) (\<lambda>bm3.
           Inr (bm3\<lparr>pidx := completePartitioningRemovals (pidx bm3)\<rparr>))))))))))"

section \<open>The stored form of a slice\<close>

definition attrs_ok :: "string list \<Rightarrow> bool" where
  "attrs_ok attrs \<longleftrightarrow> distinct attrs \<and> length attrs < 2 ^ 32 \<and> (\<forall>a \<in> set attrs. length a < 2 ^ 32)"

definition attrs_enc :: "string list \<Rightarrow> byte list" where
  "attrs_enc attrs = net_word 4 (word_of_nat (length attrs) :: 32 word) @ concat (map string_enc attrs)"

definition slice_enc :: "timeSlicedPartitioning \<Rightarrow> byte list" where
  "slice_enc ts = net_word 8 (tsStart ts) @ net_word 8 (tsEnd ts)
     @ net_word 4 (word_of_nat (length (tsParts ts)) :: 32 word) @ concat (map attrs_enc (tsParts ts))"

definition slice_ok :: "timeSlicedPartitioning \<Rightarrow> bool" where
  "slice_ok ts \<longleftrightarrow> length (tsParts ts) < 2 ^ 32 \<and> (\<forall>attrs \<in> set (tsParts ts). attrs_ok attrs) \<and> length (slice_enc ts) \<le> 2 ^ 32
     \<and> time_ok (tsEnd ts)"

lemma addAttributes_appends: "attrs_ok attrs \<Longrightarrow> appends (addAttributes attrs) (attrs_enc attrs)"
  unfolding addAttributes_def [abs_def] attrs_enc_def attrs_ok_def
  by (intro appends_seq c_uint32.add_appends [OF TrueI] appends_for_each c_string.add_appends) auto

lemma addTimeSlice_appends:
  assumes "slice_ok ts"
  shows "appends (addTimeSlice ts) (slice_enc ts)"
  unfolding addTimeSlice_def [abs_def] slice_enc_def
  by (intro appends_seq c_uint32.add_appends [OF TrueI] c_double.add_appends [OF TrueI] appends_for_each addAttributes_appends)
    (use assms in \<open>auto simp: slice_ok_def\<close>)

lemma get_attributes_consumes:
  "distinct (acc @ attrs) \<Longrightarrow> \<forall>a \<in> set attrs. length a < 2 ^ 32 \<Longrightarrow>
    consumes (get_attributes (length attrs) acc) (concat (map string_enc attrs)) (acc @ attrs)"
proof (induction attrs arbitrary: acc)
  case Nil
  then show ?case by (simp add: consumes_def)
next
  case (Cons a attrs)
  have "us_insert a acc = acc @ [a]" using Cons.prems by (simp add: us_insert_def)
  moreover have "consumes (get_attributes (length attrs) (acc @ [a])) (concat (map string_enc attrs)) ((acc @ [a]) @ attrs)"
    using Cons.prems by (intro Cons.IH) simp_all
  ultimately have "consumes (\<lambda>nb. rbind (getSTLString nb) (\<lambda>(x, nb1). get_attributes (length attrs) (us_insert x acc) nb1))
      (string_enc a @ concat (map string_enc attrs)) (acc @ a # attrs)"
    using Cons.prems by (intro consumes_seq [OF c_string.get_consumes]) simp_all
  then show ?case by (simp add: consumes_def)
qed

lemma unat_count: "n < 2 ^ 32 \<Longrightarrow> unat (word_of_nat n :: 32 word) = n"
  by (simp add: unat_of_nat take_bit_nat_eq_self)

lemma getAttributes_consumes: "attrs_ok attrs \<Longrightarrow> consumes getAttributes (attrs_enc attrs) attrs"
  unfolding getAttributes_def [abs_def] attrs_enc_def
  by (intro consumes_seq [OF c_uint32.get_consumes [OF TrueI]])
    (use get_attributes_consumes [of "[]" attrs] in \<open>simp add: attrs_ok_def unat_count\<close>)

lemma getTimeSlice_consumes:
  assumes "slice_ok ts"
  shows "consumes (getTimeSlice ts0) (slice_enc ts) (ts\<lparr>tsParts := tsParts ts0 @ tsParts ts\<rparr>)"
proof -
  have "consumes (get_items getAttributes (unat (word_of_nat (length (tsParts ts)) :: 32 word)) (tsParts ts0))
      (concat (map attrs_enc (tsParts ts))) (tsParts ts0 @ tsParts ts)"
    using assms by (auto simp: slice_ok_def unat_count intro: get_items_consumes getAttributes_consumes)
  note items = consumes_map [OF this, of "\<lambda>parts. \<lparr>tsStart = tsStart ts, tsEnd = tsEnd ts, tsParts = parts\<rparr>"]
  have "ts\<lparr>tsParts := x\<rparr> = \<lparr>tsStart = tsStart ts, tsEnd = tsEnd ts, tsParts = x\<rparr>" for x
    by (cases ts) simp
  then have eq: "ts\<lparr>tsParts := tsParts ts0 @ tsParts ts\<rparr>
      = \<lparr>tsStart = tsStart ts, tsEnd = tsEnd ts, tsParts = tsParts ts0 @ tsParts ts\<rparr>" by blast
  from items show ?thesis
    unfolding eq getTimeSlice_def [abs_def] slice_enc_def
    by (intro consumes_seq [OF c_double.get_consumes [OF TrueI]] consumes_seq [OF c_uint32.get_consumes [OF TrueI]]) simp
qed

lemma getTimeSlice_over:
  assumes "slice_ok ts"
  shows "\<exists>nb. getTimeSlice ts0 (NetworkByteBuffer_over (slice_enc ts) (length (slice_enc ts)))
    = Inr (ts\<lparr>tsParts := tsParts ts0 @ tsParts ts\<rparr>, nb)"
  using getTimeSlice_consumes [OF assms, of ts0] unfolding consumes_def by (simp add: NetworkByteBuffer_over_def)

section \<open>Ordered maps keyed by valid times\<close>

definition om_ok :: "'a omap \<Rightarrow> bool" where
  "om_ok m \<longleftrightarrow> sorted_wrt dlt (map fst m) \<and> (\<forall>k \<in> fst ` set m. time_ok k)"

lemma time_equiv: "time_ok a \<Longrightarrow> time_ok b \<Longrightarrow> (\<not> dlt a b \<and> \<not> dlt b a) \<longleftrightarrow> a = b"
  by (auto simp: time_ok_def dlt_nonneg_iff)

lemma time_equivD: "\<not> dlt a b \<Longrightarrow> \<not> dlt b a \<Longrightarrow> time_ok a \<Longrightarrow> time_ok b \<Longrightarrow> a = b"
  using time_equiv by blast

lemma om_ok_distinct: "om_ok m \<Longrightarrow> distinct (map fst m)"
  unfolding om_ok_def by (induction m) (auto simp: image_iff)

lemma om_find_eq: "om_ok m \<Longrightarrow> time_ok t \<Longrightarrow> om_find m t = map_of m t"
  unfolding om_find_def om_ok_def by (induction m) (auto dest: time_equivD)

lemma om_set_map_of:
  "om_ok m \<Longrightarrow> time_ok t \<Longrightarrow> map_of (om_set t v m) = (if map_of m t = None then map_of m else (map_of m)(t \<mapsto> v))"
  unfolding om_set_def om_ok_def
  by (induction m) (auto simp: fun_eq_iff split: if_splits dest: time_equivD)

lemma om_set_keys: "map fst (om_set t v m) = map fst m"
  unfolding om_set_def by (induction m) auto

lemma om_set_ok: "om_ok m \<Longrightarrow> om_ok (om_set t v m)"
  unfolding om_ok_def using om_set_keys [of t v m] by (metis image_set)

lemma om_emplace_new:
  "om_ok m \<Longrightarrow> time_ok k \<Longrightarrow> map_of m k = None \<Longrightarrow>
    om_ok (om_emplace k v m) \<and> map_of (om_emplace k v m) = (map_of m)(k \<mapsto> v) \<and> length (om_emplace k v m) = Suc (length m)
      \<and> fst ` set (om_emplace k v m) = insert k (fst ` set m)"
proof (induction m)
  case Nil
  then show ?case by (simp add: om_ok_def)
next
  case (Cons e m)
  obtain k' v' where e: "e = (k', v')" by force
  have k': "time_ok k'" "k' \<noteq> k" "om_ok m" "map_of m k = None" "\<forall>x \<in> fst ` set m. dlt k' x"
    using Cons.prems by (auto simp: e om_ok_def split: if_splits)
  show ?case
  proof (cases "dlt k k'")
    case True
    then show ?thesis using Cons.prems k' by (auto simp: e om_ok_def intro: dlt_trans)
  next
    case False
    then have "dlt k' k" using time_equiv [OF Cons.prems(2) k'(1)] k'(2) by auto
    then show ?thesis using Cons.IH [OF k'(3) Cons.prems(2) k'(4)] Cons.prems(2) False k'
      by (auto simp: e om_ok_def fun_eq_iff)
  qed
qed

lemma om_emplace_old:
  "om_ok m \<Longrightarrow> time_ok k \<Longrightarrow> map_of m k \<noteq> None \<Longrightarrow> om_emplace k v m = m"
proof (induction m)
  case (Cons e m)
  obtain k' v' where e: "e = (k', v')" by (cases e)
  have k': "time_ok k'" "om_ok m" "\<forall>x \<in> fst ` set m. dlt k' x" using Cons.prems by (auto simp: e om_ok_def)
  show ?case
  proof (cases "k' = k")
    case True
    then show ?thesis by (simp add: e)
  next
    case False
    with Cons.prems have m: "map_of m k \<noteq> None" by (simp add: e)
    then have "k \<in> fst ` set m" by (simp add: map_of_eq_None_iff)
    then have "dlt k' k" using k'(3) by blast
    moreover from this have "\<not> dlt k k'" using dlt_trans dlt_irrefl by blast
    ultimately show ?thesis using Cons.IH [OF k'(2) Cons.prems(2) m] by (simp add: e)
  qed
qed simp

section \<open>Slices tiling the time line\<close>

fun tiles :: "timestamp \<Rightarrow> timeSlicedPartitioning list \<Rightarrow> timestamp \<Rightarrow> bool" where
  "tiles a [] b \<longleftrightarrow> a = b"
| "tiles a (ts # sl) b \<longleftrightarrow> tsStart ts = a \<and> dlt (tsStart ts) (tsEnd ts) \<and> tiles (tsEnd ts) sl b"

lemma tiles_append: "tiles a (sl @ sl') c \<longleftrightarrow> (\<exists>b. tiles a sl b \<and> tiles b sl' c)"
  by (induction sl arbitrary: a) auto

lemma tiles_after_end: "tiles a sl b \<Longrightarrow> ts \<in> set sl \<Longrightarrow> dlt a (tsEnd ts)"
proof (induction sl arbitrary: a)
  case (Cons t sl)
  then show ?case by (auto dest: dlt_trans)
qed simp

lemma tiles_sorted: "tiles a sl b \<Longrightarrow> sorted_wrt (\<lambda>s t. dlt (tsEnd s) (tsEnd t)) sl"
  by (induction sl arbitrary: a) (auto simp: tiles_after_end)

lemma tiles_start: "tiles a sl b \<Longrightarrow> \<not> is_nan a \<Longrightarrow> x \<in> set sl \<Longrightarrow> dle a (tsStart x)"
proof (induction sl arbitrary: a)
  case (Cons t sl)
  then have t: "dlt a (tsEnd t)" "tsStart t = a" "tiles (tsEnd t) sl b" by auto
  show ?case
  proof (cases "x = t")
    case True
    then show ?thesis using Cons.prems(2) t(2) dle_refl by simp
  next
    case False
    then have "dle (tsEnd t) (tsStart x)" using Cons.IH [OF t(3)] Cons.prems(3) dlt_not_nan [OF t(1)] by simp
    then show ?thesis by (rule dlt_imp_dle [OF dlt_dle_trans [OF t(1)]])
  qed
qed simp

lemma tiles_not_nan: "tiles a sl b \<Longrightarrow> ts \<in> set sl \<Longrightarrow> \<not> is_nan (tsStart ts) \<and> \<not> is_nan (tsEnd ts)"
  by (induction sl arbitrary: a) (auto dest: dlt_not_nan)

lemma tiles_disjoint:
  "tiles a sl b \<Longrightarrow> s \<in> set sl \<Longrightarrow> s' \<in> set sl \<Longrightarrow> dlt (tsEnd s) (tsEnd s') \<Longrightarrow> dle (tsEnd s) (tsStart s')"
proof (induction sl arbitrary: a)
  case (Cons t sl)
  have t: "tiles (tsEnd t) sl b" "\<not> is_nan (tsEnd t)" using Cons.prems(1) dlt_not_nan by auto
  have "\<not> dlt (tsEnd x) (tsEnd t)" if "x \<in> set sl" for x
    using tiles_after_end [OF t(1) that] dlt_trans dlt_irrefl by blast
  with Cons tiles_start [OF t] t(1) show ?case by auto
qed simp

text \<open>The slice in force at a time: the first that ends after it.\<close>

definition slice_at :: "timeSlicedPartitioning list \<Rightarrow> timestamp \<Rightarrow> timeSlicedPartitioning" where
  "slice_at sl t = hd (dropWhile (\<lambda>ts. \<not> dlt t (tsEnd ts)) sl)"

lemma slice_at_covers:
  assumes "tiles a sl b" and "dle a t" and "dlt t b"
  shows "slice_at sl t \<in> set sl" and "dle (tsStart (slice_at sl t)) t" and "dlt t (tsEnd (slice_at sl t))"
    and "\<And>ts. ts \<in> set sl \<Longrightarrow> dlt t (tsEnd ts) \<Longrightarrow> ts = slice_at sl t \<or> dlt (tsEnd (slice_at sl t)) (tsEnd ts)"
proof -
  have "slice_at sl t \<in> set sl \<and> dle (tsStart (slice_at sl t)) t \<and> dlt t (tsEnd (slice_at sl t))
    \<and> (\<forall>ts \<in> set sl. dlt t (tsEnd ts) \<longrightarrow> ts = slice_at sl t \<or> dlt (tsEnd (slice_at sl t)) (tsEnd ts))"
    using assms
  proof (induction sl arbitrary: a)
    case Nil
    then have "dlt t t" by (metis dlt_dle_trans tiles.simps(1))
    then show ?case by simp
  next
    case (Cons s sl)
    show ?case
    proof (cases "dlt t (tsEnd s)")
      case True
      then show ?thesis using Cons.prems by (auto simp: slice_at_def dest: tiles_after_end)
    next
      case False
      have "\<not> is_nan t" using Cons.prems dle_not_nan by blast
      moreover have "\<not> is_nan (tsEnd s)" using Cons.prems dlt_not_nan by auto
      ultimately have "dle (tsEnd s) t" using False not_dlt by blast
      with Cons.IH [of "tsEnd s"] Cons.prems False show ?thesis by (auto simp: slice_at_def)
    qed
  qed
  then show "slice_at sl t \<in> set sl" and "dle (tsStart (slice_at sl t)) t" and "dlt t (tsEnd (slice_at sl t))"
    and "\<And>ts. ts \<in> set sl \<Longrightarrow> dlt t (tsEnd ts) \<Longrightarrow> ts = slice_at sl t \<or> dlt (tsEnd (slice_at sl t)) (tsEnd ts)"
    by blast+
qed

section \<open>The index over a tiling\<close>

definition slice_entry :: "timeSlicedPartitioning \<Rightarrow> byte list \<times> byte list" where
  "slice_entry ts = (net_word 8 (tsEnd ts), slice_enc ts)"

definition holds_slices :: "leveldb \<Rightarrow> timeSlicedPartitioning list \<Rightarrow> bool" where
  "holds_slices db sl \<longleftrightarrow> failure db = None \<and> entries db = map slice_entry sl \<and> (\<forall>ts \<in> set sl. slice_ok ts)
     \<and> tiles neg_inf sl pos_inf"

definition is_boundary :: "timeSlicedPartitioning list \<Rightarrow> timestamp \<Rightarrow> bool" where
  "is_boundary sl t \<longleftrightarrow> t \<in> tsEnd ` set sl"

definition served_time :: "timeSlicedPartitioning list \<Rightarrow> timestamp \<Rightarrow> bool" where
  "served_time sl t \<longleftrightarrow> time_ok t \<and> dlt t pos_inf \<and> \<not> is_boundary sl t"

text \<open>The cache invariant: entries are stored slices under their end times, each with a node of its own in the
  LRU list, and the buffer is large enough for all slices, so that nothing is evicted.\<close>

definition entry_live :: "timeSlicedPartitioning list \<Rightarrow> (nat \<times> timestamp) list \<Rightarrow> timestamp \<Rightarrow> partEntry \<Rightarrow> bool" where
  "entry_live sl l k e \<longleftrightarrow> fst e \<in> set sl \<and> k = tsEnd (fst e) \<and> snd e \<in> Some ` fst ` set l"

definition cache_live :: "timeSlicedPartitioning list \<Rightarrow> partitionIndex \<Rightarrow> bool" where
  "cache_live sl p \<longleftrightarrow> (\<forall>k e. map_of (pCache p) k = Some e \<longrightarrow> entry_live sl (pLruList p) k e)"

definition nodes_own :: "partitionIndex \<Rightarrow> bool" where
  "nodes_own p \<longleftrightarrow> (\<forall>k k' e e'. map_of (pCache p) k = Some e \<longrightarrow> map_of (pCache p) k' = Some e' \<longrightarrow> snd e = snd e' \<longrightarrow> k = k')"

definition nodes_ok :: "partitionIndex \<Rightarrow> bool" where
  "nodes_ok p \<longleftrightarrow> distinct (map fst (pLruList p)) \<and> length (pLruList p) = length (pCache p)
     \<and> (\<forall>n \<in> fst ` set (pLruList p). n < pNextNode p)"

definition pidx_ok :: "timeSlicedPartitioning list \<Rightarrow> partitionIndex \<Rightarrow> bool" where
  "pidx_ok sl p \<longleftrightarrow> holds_slices (partDb p) sl \<and> removedPartitionings p = [] \<and> om_ok (pCache p)
     \<and> cache_live sl p \<and> nodes_own p \<and> nodes_ok p \<and> length sl \<le> partitioningBufferSize p"

lemma length_filter_distinct:
  "distinct (map fst l) \<Longrightarrow> n \<in> fst ` set l \<Longrightarrow> Suc (length (filter (\<lambda>(i, _). i \<noteq> n) l)) = length l"
proof (induction l)
  case (Cons e l)
  obtain i t where e: "e = (i, t)" by force
  show ?case
  proof (cases "i = n")
    case True
    then have "filter (\<lambda>(i, _). i \<noteq> n) l = l" using Cons.prems by (force simp: e filter_id_conv)
    with True show ?thesis by (simp add: e)
  next
    case False
    with Cons show ?thesis by (auto simp: e)
  qed
qed simp

lemma nodes_fresh: "nodes_ok p \<Longrightarrow> pNextNode p \<notin> fst ` set (pLruList p)"
  unfolding nodes_ok_def by blast

text \<open>Giving the entry of \<open>k\<close> a new node and removing its old one keeps the cache in order.\<close>

lemma pidx_ok_touch:
  assumes ok: "pidx_ok sl p" and e: "map_of (pCache p) k = Some e"
  shows "\<exists>p'. pi_touch k time e p = Inr p' \<and> pidx_ok sl p'"
proof -
  have inv: "holds_slices (partDb p) sl" "om_ok (pCache p)" "cache_live sl p" "nodes_own p" "nodes_ok p"
    using ok by (simp_all add: pidx_ok_def)
  from inv(3) e obtain n where n: "snd e = Some n" "n \<in> fst ` set (pLruList p)" "fst e \<in> set sl" "k = tsEnd (fst e)"
    unfolding cache_live_def entry_live_def by blast
  have k: "time_ok k" using n(3,4) inv(1) by (simp add: holds_slices_def slice_ok_def)
  show ?thesis
  proof (cases "fst (hd (pLruList p)) = n")
    case True
    then show ?thesis using ok n by (simp add: pi_touch_def)
  next
    case False
    let ?l = "filter (\<lambda>(i, _). i \<noteq> n) (pLruList p)" and ?c = "om_set k (fst e, Some (pNextNode p)) (pCache p)"
    define p' where "p' = (lru_push time (p\<lparr>pLruList := ?l\<rparr>))\<lparr>pCache := ?c\<rparr>"
    have sel: "pCache p' = ?c" "pLruList p' = (pNextNode p, time) # ?l" "pNextNode p' = Suc (pNextNode p)"
      "partDb p' = partDb p" "removedPartitionings p' = removedPartitionings p"
      "partitioningBufferSize p' = partitioningBufferSize p"
      by (simp_all add: p'_def lru_push_def)
    have run: "pi_touch k time e p = Inr p'"
      using n False by (simp add: pi_touch_def lru_erase_def p'_def)
    have c: "map_of ?c = (map_of (pCache p))(k \<mapsto> (fst e, Some (pNextNode p)))"
      using om_set_map_of [OF inv(2) k] e by simp
    note fresh = nodes_fresh [OF inv(5)]
    have keys: "fst ` set ?l = fst ` set (pLruList p) - {n}" by force
    have old: "snd e' \<in> Some ` fst ` set ?l \<and> snd e' \<noteq> Some (pNextNode p) \<and> entry_live sl (pLruList p) k' e'"
      if a: "map_of (pCache p) k' = Some e'" "k' \<noteq> k" for k' e'
    proof -
      have el: "entry_live sl (pLruList p) k' e'" using inv(3) a(1) unfolding cache_live_def by blast
      then obtain m where m: "snd e' = Some m" "m \<in> fst ` set (pLruList p)" unfolding entry_live_def by blast
      moreover have "snd e' \<noteq> Some n" using inv(4) a e n(1) unfolding nodes_own_def by metis
      ultimately have "m \<in> fst ` set ?l" "m \<noteq> pNextNode p" using fresh unfolding keys by (blast, metis)
      then show ?thesis using el m(1) by simp
    qed
    have "cache_live sl p'"
      unfolding cache_live_def sel c
    proof (intro allI impI)
      fix k' e' assume "((map_of (pCache p))(k \<mapsto> (fst e, Some (pNextNode p)))) k' = Some e'"
      then show "entry_live sl ((pNextNode p, time) # ?l) k' e'"
        using old [of k' e'] n(3,4) by (cases "k' = k") (auto simp: entry_live_def)
    qed
    moreover have "nodes_own p'"
      unfolding nodes_own_def sel c
    proof (intro allI impI)
      fix a b ea eb assume ab: "((map_of (pCache p))(k \<mapsto> (fst e, Some (pNextNode p)))) a = Some ea"
        "((map_of (pCache p))(k \<mapsto> (fst e, Some (pNextNode p)))) b = Some eb" "snd ea = snd eb"
      have "a = b" if "a \<noteq> k" "b \<noteq> k" using that ab inv(4) unfolding nodes_own_def by (metis fun_upd_apply)
      then show "a = b" using ab old [of a ea] old [of b eb] by (cases "a = k"; cases "b = k") auto
    qed
    moreover have "nodes_ok p'"
    proof -
      have d: "distinct (map fst (pLruList p))" using inv(5) by (simp add: nodes_ok_def)
      have len: "length ?c = length (pCache p)" using om_set_keys by (metis length_map)
      from d have "distinct (map fst ?l)" by (simp add: distinct_map_filter)
      moreover have "pNextNode p \<notin> fst ` set ?l" using fresh unfolding keys by blast
      ultimately show ?thesis
        using inv(5) length_filter_distinct [OF d n(2)] len keys
        unfolding nodes_ok_def sel by (auto simp: less_Suc_eq)
    qed
    ultimately have "pidx_ok sl p'" using ok om_set_ok [OF inv(2)] by (simp add: pidx_ok_def sel)
    with run show ?thesis by blast
  qed
qed

lemma om_lower_bound_Some: "om_lower_bound m t = Some (k, e) \<Longrightarrow> (k, e) \<in> set m \<and> \<not> dlt k t"
  unfolding om_lower_bound_def by (auto simp: find_Some_iff) (metis nth_mem)

lemma om_lower_bound_least:
  "om_ok m \<Longrightarrow> (k', e') \<in> set m \<Longrightarrow> \<not> dlt k' t \<Longrightarrow> \<exists>k e. om_lower_bound m t = Some (k, e) \<and> (k = k' \<or> dlt k k')"
  unfolding om_lower_bound_def om_ok_def by (induction m) auto

lemma om_entry: "om_ok m \<Longrightarrow> (k, e) \<in> set m \<Longrightarrow> map_of m k = Some e"
  by (simp add: map_of_is_SomeI om_ok_distinct)

lemma pos_inf_ok: "time_ok pos_inf" "dle neg_inf t \<longleftrightarrow> \<not> is_nan t"
proof -
  show "time_ok pos_inf" by (simp add: double_eval pos_inf_def)
  have "dkey neg_inf = - int inf_mag" "\<not> is_nan neg_inf" by (simp_all add: double_eval neg_inf_def)
  moreover have "- int (dmag t) \<le> dkey t" by (simp add: dkey_def)
  ultimately show "dle neg_inf t \<longleftrightarrow> \<not> is_nan t" by (auto simp: dle_def is_nan_def)
qed

lemma served_covers:
  assumes "holds_slices db sl" and "served_time sl t"
  shows "slice_at sl t \<in> set sl" and "dle (tsStart (slice_at sl t)) t" and "dlt t (tsEnd (slice_at sl t))"
    and "\<And>ts. ts \<in> set sl \<Longrightarrow> \<not> dlt (tsEnd ts) t \<Longrightarrow> ts = slice_at sl t \<or> dlt (tsEnd (slice_at sl t)) (tsEnd ts)"
    and "\<And>ts. ts \<in> set sl \<Longrightarrow> \<not> dlt (tsEnd ts) t \<longleftrightarrow> dlt t (tsEnd ts)"
proof -
  have t: "tiles neg_inf sl pos_inf" "dle neg_inf t" "dlt t pos_inf"
    using assms by (simp_all add: holds_slices_def served_time_def time_ok_def pos_inf_ok)
  show "slice_at sl t \<in> set sl" "dle (tsStart (slice_at sl t)) t" "dlt t (tsEnd (slice_at sl t))"
    by (rule slice_at_covers [OF t])+
  show iff: "\<not> dlt (tsEnd ts) t \<longleftrightarrow> dlt t (tsEnd ts)" if "ts \<in> set sl" for ts
  proof -
    have "time_ok (tsEnd ts)" "time_ok t" "tsEnd ts \<noteq> t"
      using assms that by (auto simp: holds_slices_def slice_ok_def served_time_def is_boundary_def)
    then show ?thesis using time_equivD dlt_trans dlt_irrefl by blast
  qed
  show "ts = slice_at sl t \<or> dlt (tsEnd (slice_at sl t)) (tsEnd ts)" if "ts \<in> set sl" "\<not> dlt (tsEnd ts) t" for ts
    using slice_at_covers(4) [OF t that(1)] iff [OF that(1)] that(2) by blast
qed

lemma pi_miss_seek:
  assumes db: "holds_slices (partDb p) sl" and t: "served_time sl t"
  shows "pi_miss t p = pi_load (tsEnd (slice_at sl t)) (slice_enc (slice_at sl t)) p"
proof -
  let ?s = "slice_at sl t"
  have "appends (addDouble t) (net_word 8 t)" by (rule c_double.add_appends [OF TrueI])
  then obtain kb where kb: "addDouble t (NetworkByteBuffer_sized 8) = Inr kb" "content kb = net_word 8 t"
    using appends_sized [of "addDouble t" "net_word 8 t" 8] by auto
  have less: "net_word 8 (tsEnd ts) < net_word 8 t \<longleftrightarrow> \<not> dlt t (tsEnd ts)" if "ts \<in> set sl" for ts
  proof -
    have "time_ok (tsEnd ts)" "time_ok t" using db t that by (auto simp: holds_slices_def slice_ok_def served_time_def)
    then have "net_word 8 (tsEnd ts) < net_word 8 t \<longleftrightarrow> dlt (tsEnd ts) t"
      by (simp add: net_word_less_iff dlt_nonneg_iff time_ok_def)
    with served_covers(5) [OF db t that] show ?thesis by blast
  qed
  have "dropWhile (\<lambda>ts. \<not> dlt t (tsEnd ts)) sl \<noteq> []"
    using served_covers(1,3) [OF db t] by (simp add: dropWhile_eq_Nil_conv) blast
  then obtain rest where r: "dropWhile (\<lambda>ts. \<not> dlt t (tsEnd ts)) sl = ?s # rest"
    unfolding slice_at_def by (metis list.collapse)
  have "dropWhile (\<lambda>ts. fst (slice_entry ts) < net_word 8 t) sl = dropWhile (\<lambda>ts. \<not> dlt t (tsEnd ts)) sl"
    by (rule dropWhile_cong) (simp_all add: slice_entry_def less)
  then have seek: "db_Seek (partDb p) (net_word 8 t) = (net_word 8 (tsEnd ?s), slice_enc ?s) # map slice_entry rest"
    using db r by (simp add: db_Seek_def holds_slices_def dropWhile_map o_def slice_entry_def)
  have "reads (NetworkByteBuffer_over (net_word 8 (tsEnd ?s)) 8) (net_word 8 (tsEnd ?s) @ [])"
    by (simp add: reads_def NetworkByteBuffer_over_def)
  from scalar_reads(2) [OF this] obtain nb where
    key: "getDouble (NetworkByteBuffer_over (net_word 8 (tsEnd ?s)) 8) = Inr (tsEnd ?s, nb)" by blast
  have "\<not> deq (tsEnd ?s) t"
    using served_covers(3) [OF db t] by (auto simp: deq_def dlt_def)
  then show ?thesis by (simp add: pi_miss_def kb seek key)
qed

lemma pi_load_fresh:
  assumes ok: "pidx_ok sl p" and ts: "ts \<in> set sl" and none: "map_of (pCache p) (tsEnd ts) = None"
  shows "\<exists>p'. pi_load (tsEnd ts) (slice_enc ts) p = Inr (ts, p') \<and> pidx_ok sl p'"
proof -
  have inv: "holds_slices (partDb p) sl" "om_ok (pCache p)" "cache_live sl p" "nodes_own p" "nodes_ok p"
      "length sl \<le> partitioningBufferSize p"
    using ok by (simp_all add: pidx_ok_def)
  have s: "slice_ok ts" and k: "time_ok (tsEnd ts)" using inv(1) ts by (auto simp: holds_slices_def slice_ok_def)
  let ?k = "tsEnd ts" and ?n = "pNextNode p"
  let ?c1 = "om_emplace ?k (TimeSlicedPartitioning, None) (pCache p)"
  let ?c = "om_set ?k (ts, Some ?n) ?c1"
  note emp = om_emplace_new [OF inv(2) k none, of "(TimeSlicedPartitioning, None)"]
  have find1: "om_find ?c1 ?k = Some (TimeSlicedPartitioning, None)" using emp om_find_eq k by fastforce
  have c: "map_of ?c = (map_of (pCache p))(?k \<mapsto> (ts, Some ?n))"
    using emp om_set_map_of [of ?c1 ?k "(ts, Some ?n)"] k by (auto simp: fun_eq_iff)
  have "ts\<lparr>tsParts := tsParts TimeSlicedPartitioning @ tsParts ts\<rparr> = ts" by (simp add: TimeSlicedPartitioning_def)
  then obtain nb where get: "getTimeSlice TimeSlicedPartitioning (NetworkByteBuffer_over (slice_enc ts) (length (slice_enc ts))) = Inr (ts, nb)"
    using getTimeSlice_over [OF s, of TimeSlicedPartitioning] by auto
  define p' where "p' = (lru_push ?k p)\<lparr>pCache := ?c\<rparr>"
  have sel: "pCache p' = ?c" "pLruList p' = (?n, ?k) # pLruList p" "pNextNode p' = Suc ?n"
      "partDb p' = partDb p" "removedPartitionings p' = removedPartitionings p"
      "partitioningBufferSize p' = partitioningBufferSize p"
    by (simp_all add: p'_def lru_push_def)
  have omc: "om_ok ?c" using emp by (intro om_set_ok) (elim conjE)
  have len: "length ?c = Suc (length (pCache p))"
    using emp arg_cong [OF om_set_keys [of ?k "(ts, Some ?n)" ?c1], of length] by simp
  have live: "cache_live sl p'"
    unfolding cache_live_def sel c
  proof (intro allI impI)
    fix k' e' assume "((map_of (pCache p))(?k \<mapsto> (ts, Some ?n))) k' = Some e'"
    then show "entry_live sl ((?n, ?k) # pLruList p) k' e'"
      using inv(3) [unfolded cache_live_def, THEN spec, THEN spec, of k' e'] ts
      by (cases "k' = ?k") (auto simp: entry_live_def)
  qed
  have "fst ` set ?c \<subseteq> tsEnd ` set sl"
  proof
    fix x assume "x \<in> fst ` set ?c"
    then obtain e where "map_of ?c x = Some e" by (metis map_of_eq_None_iff not_None_eq)
    then show "x \<in> tsEnd ` set sl" using live unfolding cache_live_def entry_live_def sel by blast
  qed
  then have "card (fst ` set ?c) \<le> length sl" by (meson card_image_le card_length card_mono finite_imageI finite_set le_trans)
  moreover have "card (fst ` set ?c) = length ?c" using om_ok_distinct [OF omc] by (metis distinct_card length_map set_map)
  ultimately have size: "length (pLruList p') \<le> partitioningBufferSize p'"
    using inv(5,6) len by (simp add: sel nodes_ok_def)
  have own: "nodes_own p'"
    unfolding nodes_own_def sel c
  proof (intro allI impI)
    fix a b ea eb assume ab: "((map_of (pCache p))(?k \<mapsto> (ts, Some ?n))) a = Some ea"
        "((map_of (pCache p))(?k \<mapsto> (ts, Some ?n))) b = Some eb" "snd ea = snd eb"
    have old: "snd e \<noteq> Some ?n" if e: "map_of (pCache p) x = Some e" for x e
    proof -
      obtain m where "snd e = Some m" "m \<in> fst ` set (pLruList p)"
        using inv(3) e unfolding cache_live_def entry_live_def by blast
      then show ?thesis using nodes_fresh [OF inv(5)] by (metis option.inject)
    qed
    have "a = b" if "a \<noteq> ?k" "b \<noteq> ?k" using that ab inv(4) unfolding nodes_own_def by (metis fun_upd_apply)
    then show "a = b" using ab old [of a ea] old [of b eb] by (cases "a = ?k"; cases "b = ?k") auto
  qed
  have "nodes_ok p'" using inv(5) len nodes_fresh [OF inv(5)] unfolding nodes_ok_def sel by (auto simp: less_Suc_eq)
  with live own omc have ok': "pidx_ok sl p'" using ok by (simp add: pidx_ok_def sel)
  have "om_find ?c ?k = Some (ts, Some ?n)" using om_find_eq [OF omc k] c by simp
  then have "pi_load ?k (slice_enc ts) p = Inr (ts, p')"
    using size sel(2,6) by (simp add: pi_load_def find1 get p'_def lru_push_def)
  with ok' show ?thesis by blast
qed

lemma getTimeSlicedPartitioning_served:
  assumes ok: "pidx_ok sl p" and t: "served_time sl t"
  shows "\<exists>p'. getTimeSlicedPartitioning t p = Inr (slice_at sl t, p') \<and> pidx_ok sl p'"
proof -
  have inv: "holds_slices (partDb p) sl" "om_ok (pCache p)" "cache_live sl p" using ok by (simp_all add: pidx_ok_def)
  note cov = served_covers [OF inv(1) t]
  show ?thesis
  proof (cases "map_of (pCache p) (tsEnd (slice_at sl t))")
    case (Some e)
    have "(tsEnd (slice_at sl t), e) \<in> set (pCache p)" using Some by (rule map_of_SomeD)
    moreover have "\<not> dlt (tsEnd (slice_at sl t)) t" using cov(1,3,5) by blast
    ultimately obtain k e' where k: "om_lower_bound (pCache p) t = Some (k, e')"
        "k = tsEnd (slice_at sl t) \<or> dlt k (tsEnd (slice_at sl t))"
      using om_lower_bound_least [OF inv(2)] by blast
    have e': "map_of (pCache p) k = Some e'" "\<not> dlt k t"
      using om_lower_bound_Some [OF k(1)] om_entry [OF inv(2)] by blast+
    then have l: "fst e' \<in> set sl" "k = tsEnd (fst e')" using inv(3) unfolding cache_live_def entry_live_def by blast+
    have same: "fst e' = slice_at sl t"
      using cov(4) [OF l(1)] e'(2) k(2) dlt_trans dlt_irrefl unfolding l(2) by metis
    obtain p' where "pi_touch k t e' p = Inr p'" "pidx_ok sl p'" using pidx_ok_touch [OF ok e'(1)] by blast
    then show ?thesis using k(1) cov(2,3) by (simp add: getTimeSlicedPartitioning_def same)
  next
    case None
    have "getTimeSlicedPartitioning t p = pi_miss t p"
    proof (cases "om_lower_bound (pCache p) t")
      case (Some ke)
      obtain k e where ke: "ke = (k, e)" by (cases ke)
      have e: "map_of (pCache p) k = Some e" "\<not> dlt k t"
        using om_lower_bound_Some [of "pCache p" t k e] om_entry [OF inv(2)] Some ke by blast+
      then have l: "fst e \<in> set sl" "k = tsEnd (fst e)" using inv(3) unfolding cache_live_def entry_live_def by blast+
      have "fst e \<noteq> slice_at sl t" using None e(1) l(2) by auto
      then have "dlt (tsEnd (slice_at sl t)) (tsEnd (fst e))" using cov(4) [OF l(1)] e(2) l(2) by blast
      have "\<not> dle (tsStart (fst e)) t"
      proof
        assume "dle (tsStart (fst e)) t"
        moreover have "dle (tsEnd (slice_at sl t)) (tsStart (fst e))"
          using tiles_disjoint [OF _ cov(1) l(1) \<open>dlt (tsEnd (slice_at sl t)) (tsEnd (fst e))\<close>] inv(1)
          unfolding holds_slices_def by blast
        ultimately have "dle (tsEnd (slice_at sl t)) t" by (rule dle_trans [rotated])
        then show False using cov(3) dle_dlt_trans dlt_irrefl by blast
      qed
      then show ?thesis by (simp add: getTimeSlicedPartitioning_def Some ke)
    qed (simp add: getTimeSlicedPartitioning_def)
    with pi_miss_seek [OF inv(1) t] pi_load_fresh [OF ok cov(1) None] show ?thesis by simp
  qed
qed

interpretation pidx_source: partition_source "pidx_ok sl" getPart_deser "\<lambda>t. tsParts (slice_at sl t)" "served_time sl"
proof
  fix p t assume "pidx_ok sl p" and "served_time sl t"
  moreover from this have "removedPartitionings p = []" by (simp add: pidx_ok_def)
  ultimately show "\<exists>p'. getPart_deser t p = Inr (tsParts (slice_at sl t), p') \<and> pidx_ok sl p'"
    using getTimeSlicedPartitioning_served
    by (fastforce simp: getPart_deser_def getTimeSlicedPartitioningForBlockDeserialization_def)
qed

section \<open>Properties of the partition index\<close>

lemma slice_at_unique:
  assumes db: "holds_slices db sl" and t: "served_time sl t" and ts: "ts \<in> set sl" "dle (tsStart ts) t" "dlt t (tsEnd ts)"
  shows "ts = slice_at sl t"
proof (rule ccontr)
  note cov = served_covers [OF db t]
  assume "ts \<noteq> slice_at sl t"
  then have "dlt (tsEnd (slice_at sl t)) (tsEnd ts)" using cov(4) [OF ts(1)] cov(5) [OF ts(1)] ts(3) by blast
  then have "dle (tsEnd (slice_at sl t)) (tsStart ts)"
    using tiles_disjoint [OF _ cov(1) ts(1)] db unfolding holds_slices_def by blast
  then have "dlt t t" using cov(3) ts(2) dle_trans dlt_dle_trans by blast
  then show False by simp
qed


text \<open>The slices of the witnesses: everything before time 2 as one partition, from 2 on by attribute.\<close>

definition ex_slice1 :: timeSlicedPartitioning where
  "ex_slice1 = \<lparr>tsStart = neg_inf, tsEnd = d_two, tsParts = [[''age'', ''nick'']]\<rparr>"

definition ex_slice2 :: timeSlicedPartitioning where
  "ex_slice2 = \<lparr>tsStart = d_two, tsEnd = pos_inf, tsParts = [[''age''], [''nick'']]\<rparr>"

definition ex_pidx :: partitionIndex where
  "ex_pidx = \<lparr>partitioningBufferSize = 4, pLruList = [], pNextNode = 0, pCache = [], pEdgeSchema = ex_schema,
     removedPartitionings = [], partDb = \<lparr>entries = [slice_entry ex_slice1, slice_entry ex_slice2], failure = None\<rparr>\<rparr>"

lemma ex_slices: "holds_slices (partDb ex_pidx) [ex_slice1, ex_slice2]"
proof -
  have "slice_ok ex_slice1" "slice_ok ex_slice2"
    by (simp_all add: slice_ok_def slice_enc_def attrs_enc_def string_enc_def attrs_ok_def ex_slice1_def ex_slice2_def
        str_bytes_def double_eval pos_inf_def)
  moreover have "dlt neg_inf d_two" "dlt d_two pos_inf" by (simp_all add: double_eval neg_inf_def pos_inf_def)
  ultimately show ?thesis by (simp add: holds_slices_def ex_pidx_def ex_slice1_def ex_slice2_def)
qed

lemma ex_pidx_ok: "pidx_ok [ex_slice1, ex_slice2] ex_pidx"
  using ex_slices by (simp add: pidx_ok_def ex_pidx_def om_ok_def cache_live_def nodes_own_def nodes_ok_def)

lemma ex_served: "served_time [ex_slice1, ex_slice2] d_one" "served_time [ex_slice1, ex_slice2] d_nine"
  by (simp_all add: served_time_def is_boundary_def ex_slice1_def ex_slice2_def double_eval pos_inf_def)


text \<open>A lookup at the end time of a slice that is cached reads the next slice into the entry of the old one:
  the partitions of both end up in one partitioning.\<close>

lemma boundary_lookup:
  assumes db: "holds_slices (partDb p) (pre @ a # b # post)" and om: "om_ok (pCache p)"
    and hit: "map_of (pCache p) (tsEnd a) = Some (a, it)" and room: "length (pLruList p) < partitioningBufferSize p"
  shows "\<exists>p'. getTimeSlicedPartitioning (tsEnd a) p = Inr (b\<lparr>tsParts := tsParts a @ tsParts b\<rparr>, p')"
proof -
  let ?t = "tsEnd a"
  have ok: "slice_ok a" "slice_ok b" and t: "time_ok ?t" and es: "entries (partDb p) = map slice_entry (pre @ a # b # post)"
    using db by (auto simp: holds_slices_def slice_ok_def)
  have sorted: "sorted_wrt (\<lambda>s t. dlt (tsEnd s) (tsEnd t)) (pre @ a # b # post)"
    using db tiles_sorted unfolding holds_slices_def by blast
  have "time_ok k" if "(k, e) \<in> set (pCache p)" for k e using om that by (force simp: om_ok_def)
  moreover obtain k e where ke: "om_lower_bound (pCache p) ?t = Some (k, e)" "k = ?t \<or> dlt k ?t"
    using om_lower_bound_least [OF om map_of_SomeD [OF hit], of ?t] dlt_irrefl by blast
  ultimately have "k = ?t" "e = (a, it)"
    using om_lower_bound_Some [OF ke(1)] om_entry [OF om] hit by (metis, metis option.inject)
  then have miss: "getTimeSlicedPartitioning ?t p = pi_miss ?t p" using ke(1) by (simp add: getTimeSlicedPartitioning_def)
  have "appends (addDouble ?t) (net_word 8 ?t)" by (rule c_double.add_appends [OF TrueI])
  then obtain kb where kb: "addDouble ?t (NetworkByteBuffer_sized 8) = Inr kb" "content kb = net_word 8 ?t"
    using appends_sized [of "addDouble ?t" "net_word 8 ?t" 8] by auto
  have pre: "net_word 8 (tsEnd s) < net_word 8 ?t" if "s \<in> set pre" for s
  proof -
    have "dlt (tsEnd s) ?t" using sorted that by (auto simp: sorted_wrt_append)
    moreover have "time_ok (tsEnd s)" using db that by (auto simp: holds_slices_def slice_ok_def)
    ultimately show ?thesis using t by (simp add: net_word_less_iff dlt_nonneg_iff time_ok_def)
  qed
  have seek: "db_Seek (partDb p) (net_word 8 ?t) = slice_entry a # slice_entry b # map slice_entry post"
    unfolding db_Seek_def es using pre by (simp add: dropWhile_append slice_entry_def)
  have "reads (NetworkByteBuffer_over (net_word 8 ?t) 8) (net_word 8 ?t @ [])"
    by (simp add: reads_def NetworkByteBuffer_over_def)
  from scalar_reads(2) [OF this] obtain nb where key: "getDouble (NetworkByteBuffer_over (net_word 8 ?t) 8) = Inr (?t, nb)" by blast
  have "deq ?t ?t" using t by (simp add: deq_def time_ok_def)
  then have load: "pi_miss ?t p = pi_load ?t (slice_enc b) p" by (simp add: pi_miss_def kb seek key slice_entry_def)
  let ?m = "b\<lparr>tsParts := tsParts a @ tsParts b\<rparr>" and ?c = "pCache p"
  have emp: "om_emplace ?t (TimeSlicedPartitioning, None) ?c = ?c" by (rule om_emplace_old [OF om t]) (use hit in simp)
  obtain nb' where get: "getTimeSlice a (NetworkByteBuffer_over (slice_enc b) (length (slice_enc b))) = Inr (?m, nb')"
    using getTimeSlice_over [OF ok(2), of a] by blast
  have "om_find (om_set ?t (?m, Some (pNextNode p)) ?c) ?t = Some (?m, Some (pNextNode p))"
    using om_find_eq [OF om_set_ok [OF om] t] om_set_map_of [OF om t] hit by simp
  then show ?thesis using room om_find_eq [OF om t] hit get
    by (simp add: miss load pi_load_def emp lru_push_def)
qed

text \<open>C38: Reading the slices of a range that spans two slices from a cold cache returns the first slice and then
  the second with the partitions of the first in front of its own, instead of the two stored slices.\<close>

theorem getTimeSlicedPartitionings_merges:
  assumes db: "holds_slices (partDb p) (pre @ a # b # post)" and cold: "pCache p = []" "pLruList p = []"
    and removed: "removedPartitionings p = []" and size: "length (pre @ a # b # post) \<le> partitioningBufferSize p"
    and t: "served_time (pre @ a # b # post) t" "dle (tsStart a) t" "dlt t (tsEnd a)"
    and endTime: "dlt (tsEnd a) endTime" "\<not> dlt (tsEnd b) endTime"
  shows "\<exists>p'. getTimeSlicedPartitionings t endTime p = Some (Inr ([a, b\<lparr>tsParts := tsParts a @ tsParts b\<rparr>], p'))"
proof -
  let ?sl = "pre @ a # b # post"
  have ok: "pidx_ok ?sl p"
    using db cold removed size by (simp add: pidx_ok_def om_ok_def cache_live_def nodes_own_def nodes_ok_def)
  have a: "slice_at ?sl t = a"
  proof -
    note cov = served_covers [OF db t(1)]
    have "a = slice_at ?sl t \<or> dlt (tsEnd (slice_at ?sl t)) (tsEnd a)" using cov(4) [of a] cov(5) [of a] t(3) by simp
    moreover have "\<not> dlt (tsEnd (slice_at ?sl t)) (tsEnd a)"
    proof
      assume "dlt (tsEnd (slice_at ?sl t)) (tsEnd a)"
      then have "dle (tsEnd (slice_at ?sl t)) (tsStart a)"
        using tiles_disjoint [OF _ cov(1)] db unfolding holds_slices_def by auto
      then have "dlt t t" using cov(3) t(2) dle_trans dlt_dle_trans by blast
      then show False by simp
    qed
    ultimately show ?thesis by simp
  qed
  have none: "map_of (pCache p) (tsEnd a) = None" by (simp add: cold)
  have first: "getTimeSlicedPartitioning t p = pi_load (tsEnd a) (slice_enc a) p"
    using pi_miss_seek [OF db t(1)] by (simp add: getTimeSlicedPartitioning_def cold om_lower_bound_def a)
  obtain p1 where p1: "pi_load (tsEnd a) (slice_enc a) p = Inr (a, p1)" "pidx_ok ?sl p1"
    using pi_load_fresh [OF ok _ none] by auto
  have s: "slice_ok a" and k: "time_ok (tsEnd a)" using db by (auto simp: holds_slices_def slice_ok_def)
  have c1: "map_of (pCache p1) (tsEnd a) = Some (a, Some (pNextNode p))" "length (pLruList p1) = 1"
      "partitioningBufferSize p1 = partitioningBufferSize p" "partDb p1 = partDb p"
    using p1(1) getTimeSlice_over [OF s, of TimeSlicedPartitioning] size time_equiv [OF k k]
    by (auto simp: pi_load_def cold om_find_def om_set_def lru_push_def TimeSlicedPartitioning_def)
  have om1: "om_ok (pCache p1)" using p1(2) by (simp add: pidx_ok_def)
  obtain p2 where p2: "getTimeSlicedPartitioning (tsEnd a) p1 = Inr (b\<lparr>tsParts := tsParts a @ tsParts b\<rparr>, p2)"
    using boundary_lookup [of p1 pre a b post "Some (pNextNode p)"] db om1 c1 size by auto
  have "slices_loop t endTime [] p = slices_loop (tsEnd a) endTime [a] p1"
    using first p1(1) endTime(1) by (subst slices_loop.simps) simp
  also have "\<dots> = Some (Inr ([a, b\<lparr>tsParts := tsParts a @ tsParts b\<rparr>], p2))"
    using p2 endTime(2) by (subst slices_loop.simps) simp
  finally show ?thesis by (simp add: getTimeSlicedPartitionings_def)
qed

theorem getTimeSlicedPartitionings_merges_witness:
  "\<exists>p'. getTimeSlicedPartitionings d_one d_nine ex_pidx
    = Some (Inr ([ex_slice1, ex_slice2\<lparr>tsParts := [[''age'', ''nick''], [''age''], [''nick'']]\<rparr>], p'))"
proof -
  have "\<exists>p'. getTimeSlicedPartitionings d_one d_nine ex_pidx
    = Some (Inr ([ex_slice1, ex_slice2\<lparr>tsParts := tsParts ex_slice1 @ tsParts ex_slice2\<rparr>], p'))"
    by (rule getTimeSlicedPartitionings_merges [where pre = "[]" and post = "[]"])
      (use ex_slices ex_served(1) in \<open>simp_all add: ex_pidx_def\<close>,
        simp_all add: ex_slice1_def ex_slice2_def double_eval neg_inf_def pos_inf_def)
  then show ?thesis by (simp add: ex_slice1_def ex_slice2_def)
qed

end
