(* ===== verification/Workload.thy ===== *)
theory Workload
  imports MetaData "HOL-Library.List_Lexorder" "HOL-Library.Char_ord" "HOL-Library.Multiset"
begin

text \<open>
  Queries, query workloads and partitionings of the shared library: \<^verbatim>\<open>Query.h\<close>, \<^verbatim>\<open>QuerySummary.h\<close>,
  \<^verbatim>\<open>QueryWorkload.h/.cpp\<close>, \<^verbatim>\<open>Partition.h\<close>, \<^verbatim>\<open>Partitioning.h/.cpp\<close>.

  An \<^verbatim>\<open>Attribute const *\<close> is the address of the attribute together with the attribute, which is never
  changed; the addresses of the elements of a vector are consecutive. \<^verbatim>\<open>std::hash\<close> on strings and
  pointers is a parameter, since the standard does not fix its values. A hash map keyed by queries
  compares and hashes the attribute names only, so the names are its key here; a map keyed by
  summaries finds an entry when hash code and attributes agree, which is equality of the records.
\<close>

section \<open>Queries and summaries\<close>

type_synonym attrPtr = "nat \<times> attribute"

record query =
  qStart :: timestamp
  qEnd :: timestamp
  attributeNames :: "string list"
  qHash :: size_t

definition hash_names :: "(string \<Rightarrow> size_t) \<Rightarrow> string list \<Rightarrow> size_t" where
  "hash_names hs names = foldl (\<lambda>hval attr. hval * 37 + hs attr) 17 names"

definition Query :: "(string \<Rightarrow> size_t) \<Rightarrow> timestamp \<Rightarrow> timestamp \<Rightarrow> string list \<Rightarrow> query" where
  "Query hs start end1 names =
     (let sorted_names = sort names
      in \<lparr>qStart = start, qEnd = end1, attributeNames = sorted_names, qHash = hash_names hs sorted_names\<rparr>)"

definition query_eq :: "query \<Rightarrow> query \<Rightarrow> bool" where
  "query_eq q other \<longleftrightarrow>
     (if length (attributeNames q) \<noteq> length (attributeNames other) then False
      else list_all2 (=) (attributeNames q) (attributeNames other))"

record querySummary =
  sumAttributes :: "attrPtr list"
  sumHash :: size_t

definition hash_ptrs :: "(nat \<Rightarrow> size_t) \<Rightarrow> attrPtr list \<Rightarrow> size_t" where
  "hash_ptrs hp as = foldl (\<lambda>hval attr. hval * 37 + hp (fst attr)) 17 as"

definition QuerySummary :: "(nat \<Rightarrow> size_t) \<Rightarrow> attrPtr list \<Rightarrow> querySummary" where
  "QuerySummary hp as = (let s = sort_key fst as in \<lparr>sumAttributes = s, sumHash = hash_ptrs hp s\<rparr>)"

definition querySummary_eq :: "querySummary \<Rightarrow> querySummary \<Rightarrow> bool" where
  "querySummary_eq s other \<longleftrightarrow>
     (if length (sumAttributes s) \<noteq> length (sumAttributes other) then False
      else list_all2 (\<lambda>a b. fst a = fst b) (sumAttributes s) (sumAttributes other))"

text \<open>Neither of the two updates the hash code.\<close>

definition sum_addAttribute :: "attrPtr \<Rightarrow> querySummary \<Rightarrow> querySummary" where
  "sum_addAttribute a s = s\<lparr>sumAttributes := sumAttributes s @ [a]\<rparr>"

definition sum_setAttributes :: "attrPtr list \<Rightarrow> querySummary \<Rightarrow> querySummary" where
  "sum_setAttributes as s = s\<lparr>sumAttributes := as\<rparr>"

section \<open>Workloads\<close>

record queryWorkload =
  wlAttributes :: "attrPtr list"
  wlQueries :: "querySummary list"
  summaries :: "(string list, querySummary) umap"
  counts :: "(querySummary, double) umap"
  nameToAttribute :: "(string, attrPtr) umap"
  totalQueries :: double

definition QueryWorkload :: "nat \<Rightarrow> attribute list \<Rightarrow> queryWorkload" where
  "QueryWorkload base as =
     \<lparr>wlAttributes = List.enumerate base as, wlQueries = [], summaries = [], counts = [],
      nameToAttribute = fold (\<lambda>p. um_put (attrName (snd p)) p) (List.enumerate base as) [], totalQueries = 0\<rparr>"

definition QueryWorkload_of :: "nat \<Rightarrow> attribute list \<Rightarrow> querySummary list \<Rightarrow> queryWorkload" where
  "QueryWorkload_of base as qs = (QueryWorkload base as)\<lparr>wlQueries := qs\<rparr>"

definition wl_addAttribute :: "attrPtr \<Rightarrow> queryWorkload \<Rightarrow> queryWorkload" where
  "wl_addAttribute a w = w\<lparr>wlAttributes := wlAttributes w @ [a]\<rparr>"

definition wl_getAttribute :: "queryWorkload \<Rightarrow> nat \<Rightarrow> attrPtr result" where
  "wl_getAttribute w i = vec_at (wlAttributes w) i"

definition addQuerySummary :: "querySummary \<Rightarrow> queryWorkload \<Rightarrow> queryWorkload" where
  "addQuerySummary s w = w\<lparr>wlQueries := wlQueries w @ [s]\<rparr>"

definition getFrequency :: "queryWorkload \<Rightarrow> querySummary \<Rightarrow> double result" where
  "getFrequency w s =
     (case um_find (counts w) s of
        None \<Rightarrow> Inl AssertionFailed
      | Some n \<Rightarrow> Inr (ddiv n (totalQueries w)))"

definition setFrequency :: "querySummary \<Rightarrow> double \<Rightarrow> queryWorkload \<Rightarrow> queryWorkload" where
  "setFrequency s f w = w\<lparr>totalQueries := d_one, counts := um_emplace s f (counts w)\<rparr>"

definition find_attribute :: "queryWorkload \<Rightarrow> string \<Rightarrow> attrPtr result" where
  "find_attribute w name = (case um_find (nameToAttribute w) name of None \<Rightarrow> Inl AssertionFailed | Some p \<Rightarrow> Inr p)"

definition addQuery :: "(nat \<Rightarrow> size_t) \<Rightarrow> query \<Rightarrow> queryWorkload \<Rightarrow> queryWorkload result" where
  "addQuery hp q w0 =
     (let w = w0\<lparr>totalQueries := dadd (totalQueries w0) d_one\<rparr>
      in case um_find (summaries w) (attributeNames q) of
           Some s \<Rightarrow>
             rbind (deref (um_find (counts w) s)) (\<lambda>n.
               let n1 = dadd n d_one in Inr (w\<lparr>counts := um_emplace s n1 (um_put s n1 (counts w))\<rparr>))
         | None \<Rightarrow>
             rbind (for_each (\<lambda>name as. rbind (find_attribute w name) (\<lambda>p. Inr (as @ [p]))) (attributeNames q) []) (\<lambda>as.
               let s = QuerySummary hp as
               in Inr (w\<lparr>wlQueries := wlQueries w @ [s], summaries := um_emplace (attributeNames q) s (summaries w),
                        counts := um_emplace s d_one (counts w)\<rparr>)))"

section \<open>Partitions and partitionings\<close>

type_synonym partition = "attrPtr list"

abbreviation clearAttributes :: "partition \<Rightarrow> partition" where
  "clearAttributes p \<equiv> []"

definition addAttribute :: "attrPtr \<Rightarrow> partition \<Rightarrow> partition" where
  "addAttribute a p = us_insert a p"

definition removeAttribute :: "attrPtr \<Rightarrow> partition \<Rightarrow> partition" where
  "removeAttribute a p = us_erase a p"

definition numAttributes :: "partition \<Rightarrow> nat" where
  "numAttributes p = length p"

definition partition_eq :: "partition \<Rightarrow> partition \<Rightarrow> bool" where
  "partition_eq p other \<longleftrightarrow> (if length other \<noteq> length p then False else list_all (\<lambda>a. a \<in> set other) p)"

definition partitioning_eq :: "partition list \<Rightarrow> partition list \<Rightarrow> bool" where
  "partitioning_eq ps other \<longleftrightarrow> (if length other \<noteq> length ps then False else list_all2 partition_eq ps other)"

definition addPartition :: "partition \<Rightarrow> partition list \<Rightarrow> partition list" where
  "addPartition p ps = ps @ [p]"

definition toStringSet :: "partition list \<Rightarrow> string list list" where
  "toStringSet ps = map (\<lambda>p. fold (\<lambda>a s. us_insert (attrName (snd a)) s) p []) ps"

text \<open>\<^verbatim>\<open>std::swap(partitions_[j], *partitions_.rbegin())\<close> unless \<open>j\<close> is the last position.\<close>

definition swap_last :: "nat \<Rightarrow> 'a list \<Rightarrow> 'a list" where
  "swap_last j ps = (if j \<noteq> length ps - 1 then ps[j := last ps, length ps - 1 := ps ! j] else ps)"

definition merge_ordered :: "nat \<Rightarrow> nat \<Rightarrow> partition list \<Rightarrow> partition list result" where
  "merge_ordered i j ps =
     rbind (vec_index ps j) (\<lambda>pj.
     rbind (vec_index ps i) (\<lambda>pi.
       Inr (butlast (swap_last j (ps[i := fold addAttribute pj pi])))))"

definition mergePartitions :: "nat \<Rightarrow> nat \<Rightarrow> partition list \<Rightarrow> partition list result" where
  "mergePartitions i j ps = (if j < i then merge_ordered j i ps else merge_ordered i j ps)"

definition split_ordered :: "nat \<Rightarrow> nat \<Rightarrow> partition \<Rightarrow> partition \<Rightarrow> partition list \<Rightarrow> partition list result" where
  "split_ordered i j lhs rhs ps =
     rbind (vec_index ps i) (\<lambda>part.
       let ps1 = addPartition rhs (ps[i := fold addAttribute lhs (clearAttributes part)])
       in rbind (vec_index ps1 j) (\<lambda>_. Inr (swap_last j ps1)))"

definition splitPartition :: "nat \<Rightarrow> nat \<Rightarrow> partition \<Rightarrow> partition \<Rightarrow> partition list \<Rightarrow> partition list result" where
  "splitPartition i j lhs rhs ps =
     (if j < i then split_ordered j i rhs lhs ps else split_ordered i j lhs rhs ps)"

section \<open>Merging and splitting\<close>

lemma fold_addAttribute: "fold addAttribute = fold us_insert"
  by (simp add: addAttribute_def [abs_def] fun_eq_iff)

lemma fold_us_insert_self: "distinct (acc @ xs) \<Longrightarrow> fold us_insert xs acc = acc @ xs"
  by (induction xs arbitrary: acc) (auto simp: us_insert_def)

lemma merge_result:
  assumes "i < j" "j < length ps"
  shows "\<exists>ps1. mergePartitions i j ps = Inr ps1 \<and> length ps1 = length ps - 1
    \<and> ps1 = butlast (swap_last j (ps[i := fold us_insert (ps ! j) (ps ! i)]))"
  using assms by (simp add: mergePartitions_def merge_ordered_def fold_addAttribute vec_index_def swap_last_def)

lemma swap_last_involution:
  assumes "j < length xs"
  shows "swap_last j (butlast (swap_last j xs) @ [xs ! j]) = xs"
proof (cases "j = length xs - 1")
  case True
  moreover have "xs \<noteq> []" using assms by auto
  ultimately have "xs \<noteq> []" "xs ! j = last xs" by (simp_all add: last_conv_nth)
  with True show ?thesis by (simp add: swap_last_def)
next
  case False
  then obtain ys z where xs: "xs = ys @ [z]" using assms by (cases xs rule: rev_cases) auto
  with False assms have "j < length ys" by simp
  then show ?thesis by (simp add: swap_last_def xs nth_append list_update_append)
qed

lemma nth_swapped: "i < j \<Longrightarrow> j < length xs \<Longrightarrow> butlast (swap_last j xs) ! i = xs ! i"
  by (simp add: swap_last_def nth_butlast)

lemma butlast_swap_update:
  assumes "i < j" "j < length xs"
  shows "(butlast (swap_last j xs))[i := v] = butlast (swap_last j (xs[i := v]))"
proof -
  have "xs \<noteq> []" using assms by auto
  then have last: "last (xs[i := v]) = last xs" using assms by (simp add: last_conv_nth)
  show ?thesis using assms
    by (auto simp: swap_last_def last butlast_list_update list_update_swap)
qed

lemma split_merge:
  assumes ij: "i < j" "j < length ps" and dist: "\<forall>p \<in> set ps. distinct p"
  shows "\<exists>ps1. mergePartitions i j ps = Inr ps1 \<and> length ps1 = length ps - 1 \<and> splitPartition i j (ps ! i) (ps ! j) ps1 = Inr ps"
proof -
  let ?m = "ps[i := fold us_insert (ps ! j) (ps ! i)]"
  from merge_result [OF ij] obtain ps1 where m: "mergePartitions i j ps = Inr ps1" "length ps1 = length ps - 1"
      "ps1 = butlast (swap_last j ?m)" by blast
  have "distinct (ps ! i)" using dist ij by simp
  then have lhs: "fold us_insert (ps ! i) [] = ps ! i" using fold_us_insert_self [of "[]"] by simp
  have "ps1[i := ps ! i] = butlast (swap_last j ps)"
    using ij by (simp add: m(3) butlast_swap_update)
  then have "swap_last j (ps1[i := ps ! i] @ [ps ! j]) = ps" using swap_last_involution ij by simp
  then have "splitPartition i j (ps ! i) (ps ! j) ps1 = Inr ps"
    using ij m(2) by (simp add: splitPartition_def split_ordered_def fold_addAttribute lhs addPartition_def vec_index_def)
  then show ?thesis using m by blast
qed

text \<open>What all partitions together hold.\<close>

definition covered :: "partition list \<Rightarrow> attrPtr set" where
  "covered ps = \<Union> (set ` set ps)"

lemma set_butlast_swap:
  assumes "j < length xs"
  shows "set xs = insert (xs ! j) (set (butlast (swap_last j xs)))"
proof -
  have "set xs = set (swap_last j (butlast (swap_last j xs) @ [xs ! j]))" using swap_last_involution [OF assms] by simp
  moreover have "set (swap_last j (ys @ [y])) = insert y (set ys)" if "j \<le> length ys" for ys and y :: 'a
  proof (cases "j = length ys")
    case False
    then have "j < length ys" using that by simp
    then have "mset (swap_last j (ys @ [y])) = mset (ys @ [y])"
      using mset_swap [of j "ys @ [y]" "length ys"] by (simp add: swap_last_def nth_append list_update_append)
    from arg_cong [OF this, of set_mset] show ?thesis by simp
  qed (simp add: swap_last_def)
  moreover have "j \<le> length (butlast (swap_last j xs))" using assms by (auto simp: swap_last_def)
  ultimately show ?thesis by simp
qed

lemma covered_iff: "a \<in> covered ps \<longleftrightarrow> (\<exists>k < length ps. a \<in> set (ps ! k))"
  unfolding covered_def by (auto simp: set_conv_nth [of ps])

lemma covered_update:
  assumes "i < length ps" "j < length ps" "set p = set (ps ! i) \<union> set (ps ! j)" "j \<noteq> i"
  shows "covered (ps[i := p]) = covered ps"
proof (rule set_eqI)
  fix a
  show "a \<in> covered (ps[i := p]) \<longleftrightarrow> a \<in> covered ps"
    using assms by (auto simp: covered_iff nth_list_update split: if_splits)
qed

lemma covered_merge_ordered:
  assumes "i < j" "j < length ps"
  shows "covered (butlast (swap_last j (ps[i := fold us_insert (ps ! j) (ps ! i)]))) = covered ps"
proof -
  let ?p = "fold us_insert (ps ! j) (ps ! i)"
  let ?m = "ps[i := ?p]" and ?r = "butlast (swap_last j (ps[i := ?p]))"
  have "set ?m = insert (ps ! j) (set ?r)" using set_butlast_swap [of j ?m] assms by simp
  then have "covered ?m = set (ps ! j) \<union> covered ?r" by (simp add: covered_def)
  moreover have "?p \<in> set ?r"
  proof -
    have "?r ! i = ?p" using assms nth_swapped [of i j ?m] by simp
    moreover have "i < length ?r" using assms by (auto simp: swap_last_def)
    ultimately show ?thesis by (metis nth_mem)
  qed
  then have "set (ps ! j) \<subseteq> covered ?r" unfolding covered_def by (auto simp: fold_us_insert_set)
  moreover have "covered ?m = covered ps" using assms by (intro covered_update) (auto simp: fold_us_insert_set)
  ultimately show ?thesis by auto
qed

lemma covered_merge:
  assumes "mergePartitions i j ps = Inr ps1" "i \<noteq> j"
  shows "covered ps1 = covered ps \<and> length ps = Suc (length ps1)"
proof -
  consider "i < j" | "j < i" using assms(2) by linarith
  then show ?thesis using assms covered_merge_ordered [of i j ps] covered_merge_ordered [of j i ps]
    by cases (auto simp: mergePartitions_def merge_ordered_def fold_addAttribute rbind_Inr_iff swap_last_def)
qed

section \<open>What a workload records\<close>

text \<open>\<open>records w hist\<close>: the workload stands for the queries of the list, each given by its sorted attribute
  names. There is one summary for each list of names that occurs, in order of first occurrence; its
  count is the number of queries with these names.\<close>

definition names_known :: "queryWorkload \<Rightarrow> bool" where
  "names_known w \<longleftrightarrow> (\<forall>n p. um_find (nameToAttribute w) n = Some p \<longrightarrow> attrName (snd p) = n)"

definition summary_for :: "(nat \<Rightarrow> size_t) \<Rightarrow> queryWorkload \<Rightarrow> string list \<Rightarrow> querySummary" where
  "summary_for hp w names = QuerySummary hp (map (\<lambda>n. the (um_find (nameToAttribute w) n)) names)"

definition known :: "queryWorkload \<Rightarrow> string list \<Rightarrow> bool" where
  "known w names \<longleftrightarrow> (\<forall>n \<in> set names. um_find (nameToAttribute w) n \<noteq> None)"

definition records :: "(nat \<Rightarrow> size_t) \<Rightarrow> queryWorkload \<Rightarrow> string list list \<Rightarrow> bool" where
  "records hp w hist \<longleftrightarrow> names_known w \<and> (\<forall>ns \<in> set hist. sorted ns \<and> known w ns)
     \<and> um_ok (summaries w) \<and> um_keys (summaries w) = rev (remdups (rev hist))
     \<and> (\<forall>(ns, s) \<in> set (summaries w). s = summary_for hp w ns)
     \<and> wlQueries w = map snd (summaries w)
     \<and> (\<forall>ns \<in> set hist. um_find (counts w) (summary_for hp w ns) = Some (dof_nat (count_list hist ns)))
     \<and> fst ` set (counts w) = snd ` set (summaries w)
     \<and> totalQueries w = dof_nat (length hist)"

lemma QuerySummary_attrs: "mset (sumAttributes (QuerySummary hp as)) = mset as"
  by (simp add: QuerySummary_def Let_def)

lemma summary_for_names:
  assumes "names_known w" "known w names"
  shows "mset (map (\<lambda>p. attrName (snd p)) (sumAttributes (summary_for hp w names))) = mset names"
proof -
  have "map (\<lambda>p. attrName (snd p)) (map (\<lambda>n. the (um_find (nameToAttribute w) n)) names) = names"
    using assms by (induction names) (auto simp: names_known_def known_def)
  moreover have "mset (map g (sumAttributes (QuerySummary hp as))) = mset (map g as)" for g :: "attrPtr \<Rightarrow> string" and as
    by (simp only: mset_map QuerySummary_attrs)
  ultimately show ?thesis unfolding summary_for_def by metis
qed

lemma summary_for_inject:
  assumes "names_known w" "known w a" "known w b" "sorted a" "sorted b" "summary_for hp w a = summary_for hp w b"
  shows "a = b"
proof -
  have "mset a = mset b" using summary_for_names [OF assms(1,2), of hp] summary_for_names [OF assms(1,3), of hp] assms(6) by metis
  then show ?thesis using assms(4,5) properties_for_sort [of a b] by (simp add: sort_key_id_if_sorted)
qed

lemma find_all:
  assumes "known w names"
  shows "for_each (\<lambda>name as. rbind (find_attribute w name) (\<lambda>p. Inr (as @ [p]))) names acc
    = Inr (acc @ map (\<lambda>n. the (um_find (nameToAttribute w) n)) names)"
  using assms by (induction names arbitrary: acc) (auto simp: known_def find_attribute_def)

lemma summary_for_update [simp]:
  "summary_for hp (w\<lparr>totalQueries := t\<rparr>) = summary_for hp w"
  "summary_for hp (w\<lparr>counts := c\<rparr>) = summary_for hp w"
  "summary_for hp (w\<lparr>wlQueries := qs\<rparr>) = summary_for hp w"
  "summary_for hp (w\<lparr>summaries := ss\<rparr>) = summary_for hp w"
  by (simp_all add: summary_for_def fun_eq_iff)

lemma remdups_rev_snoc: "rev (remdups (rev (hist @ [x]))) = (if x \<in> set hist then rev (remdups (rev hist)) else rev (remdups (rev hist)) @ [x])"
  by simp

lemma QueryWorkload_records: "records hp (QueryWorkload base as) []"
proof -
  have "attrName (snd p) = n" if "um_find (fold (\<lambda>p. um_put (attrName (snd p)) p) ps m) n = Some p"
    "\<And>n p. um_find m n = Some p \<Longrightarrow> attrName (snd p) = n" for ps m n p
    using that
  proof (induction ps arbitrary: m)
    case (Cons p' ps)
    show ?case
      by (rule Cons.IH [of "um_put (attrName (snd p')) p' m"]) (use Cons.prems in \<open>auto split: if_splits\<close>)
  qed simp
  from this [of _ "[]"] have "names_known (QueryWorkload base as)" by (auto simp: names_known_def QueryWorkload_def)
  then show ?thesis by (simp add: records_def QueryWorkload_def dof_nat_def dround_def)
qed

lemma addQuery_old:
  assumes r: "records hp w hist" and old: "attributeNames q \<in> set hist" and len: "Suc (length hist) < 2 ^ 53"
  shows "\<exists>w'. addQuery hp q w = Inr w' \<and> records hp w' (hist @ [attributeNames q]) \<and> nameToAttribute w' = nameToAttribute w"
proof -
  let ?ns = "attributeNames q"
  have "?ns \<in> fst ` set (summaries w)"
    using old r by (metis (no_types) records_def image_set set_remdups set_rev)
  then obtain s where s: "um_find (summaries w) ?ns = Some s" by (cases "um_find (summaries w) ?ns") (auto simp: map_of_eq_None_iff)
  then have "(?ns, s) \<in> set (summaries w)" by (rule map_of_SomeD)
  then have sf: "s = summary_for hp w ?ns" using r unfolding records_def by blast
  let ?k = "count_list hist ?ns"
  have cnt: "um_find (counts w) s = Some (dof_nat ?k)" using r old sf unfolding records_def by blast
  have k: "?k < 2 ^ 53" using count_le_length [of hist ?ns] len by simp
  have up: "dadd (dof_nat ?k) d_one = dof_nat (Suc ?k)" "dadd (totalQueries w) d_one = dof_nat (Suc (length hist))"
    using dadd_dof_nat [OF k, of 1] dadd_dof_nat [of "length hist" 1] len r unfolding dof_nat_1 records_def by simp_all
  let ?w = "w\<lparr>totalQueries := dof_nat (Suc (length hist)), counts := um_put s (dof_nat (Suc ?k)) (counts w)\<rparr>"
  have "um_emplace s v (um_put s v (counts w)) = um_put s v (counts w)" for v by (simp add: um_emplace_def um_count_def)
  then have add: "addQuery hp q w = Inr ?w" using s cnt by (simp add: addQuery_def Let_def up)
  have dom: "fst ` set (um_put s v (counts w)) = fst ` set (counts w)" for v
  proof -
    have "s \<in> set (um_keys (counts w))" using cnt by (metis domI dom_map_of_conv_image_fst list.set_map)
    then show ?thesis using um_put_keys [of s v "counts w"] by (metis list.set_map)
  qed
  have cnts: "um_find (counts ?w) (summary_for hp ?w ns) = Some (dof_nat (count_list (hist @ [?ns]) ns))" if "ns \<in> set (hist @ [?ns])" for ns
  proof -
    have ns: "ns \<in> set hist" using that old by auto
    show ?thesis
    proof (cases "ns = ?ns")
      case False
      then have "summary_for hp w ns \<noteq> s" using summary_for_inject [of w ns ?ns hp] r ns old unfolding records_def sf by blast
      then show ?thesis using r ns False unfolding records_def by simp
    qed (simp add: sf)
  qed
  have "records hp ?w (hist @ [?ns])"
    using r old dom cnts unfolding records_def remdups_rev_snoc by (auto simp: names_known_def known_def)
  with add show ?thesis by auto
qed

lemma addQuery_new:
  assumes r: "records hp w hist" and new: "attributeNames q \<notin> set hist" and len: "Suc (length hist) < 2 ^ 53"
    and k: "known w (attributeNames q)" and srt: "sorted (attributeNames q)"
  shows "\<exists>w'. addQuery hp q w = Inr w' \<and> records hp w' (hist @ [attributeNames q]) \<and> nameToAttribute w' = nameToAttribute w"
proof -
  let ?ns = "attributeNames q" and ?s = "summary_for hp w (attributeNames q)"
  have "um_keys (summaries w) = rev (remdups (rev hist))" using r unfolding records_def by blast
  then have keys: "set (um_keys (summaries w)) = set hist" by (metis set_remdups set_rev)
  then have none: "um_find (summaries w) ?ns = None" using new by (simp add: map_of_eq_None_iff)
  have fresh: "summary_for hp w ns \<noteq> ?s" if "ns \<in> set hist" for ns
    using summary_for_inject [of w ns ?ns hp] that r new k srt unfolding records_def by blast
  have notin: "?s \<notin> snd ` set (summaries w)"
  proof
    assume "?s \<in> snd ` set (summaries w)"
    then obtain ns where ns: "(ns, ?s) \<in> set (summaries w)" by force
    then have "?s = summary_for hp w ns" using r unfolding records_def by blast
    moreover have "ns \<in> set hist" using ns keys by force
    ultimately show False using fresh by metis
  qed
  then have noc: "um_find (counts w) ?s = None" using r unfolding records_def by (metis map_of_eq_None_iff)
  have up: "dadd (totalQueries w) d_one = dof_nat (Suc (length hist))"
    using dadd_dof_nat [of "length hist" 1] len r unfolding dof_nat_1 records_def by simp
  let ?w = "w\<lparr>totalQueries := dof_nat (Suc (length hist)), wlQueries := wlQueries w @ [?s],
     summaries := summaries w @ [(?ns, ?s)], counts := counts w @ [(?s, d_one)]\<rparr>"
  have "find_attribute (w\<lparr>totalQueries := t\<rparr>) = find_attribute w" for t by (simp add: find_attribute_def fun_eq_iff)
  then have add: "addQuery hp q w = Inr ?w"
    using none noc find_all [OF k, of "[]"]
    by (simp add: addQuery_def Let_def up um_emplace_def um_count_def summary_for_def)
  have cnts: "um_find (counts ?w) (summary_for hp ?w ns) = Some (dof_nat (count_list (hist @ [?ns]) ns))" if "ns \<in> set (hist @ [?ns])" for ns
  proof (cases "ns = ?ns")
    case True
    then show ?thesis using noc new count_notin [of ?ns hist] by (simp add: map_add_def dof_nat_1 [simplified])
  next
    case False
    then have ns: "ns \<in> set hist" using that by auto
    then have "um_find (counts w) (summary_for hp w ns) = Some (dof_nat (count_list hist ns))" using r unfolding records_def by blast
    then show ?thesis using False fresh [OF ns] by (simp add: map_add_def)
  qed
  have "records hp ?w (hist @ [?ns])"
    using r new k srt none cnts unfolding records_def remdups_rev_snoc
    by (auto simp: names_known_def known_def map_of_eq_None_iff)
  with add show ?thesis by auto
qed

lemma getFrequency_recorded:
  assumes "records hp w hist" and "s \<in> set (wlQueries w)"
  shows "\<exists>ns \<in> set hist. s = summary_for hp w ns \<and> getFrequency w s = Inr (ddiv (dof_nat (count_list hist ns)) (dof_nat (length hist)))"
proof -
  from assms obtain ns where ns: "(ns, s) \<in> set (summaries w)" by (auto simp: records_def)
  then have s: "s = summary_for hp w ns" using assms(1) unfolding records_def by blast
  have "um_keys (summaries w) = rev (remdups (rev hist))" using assms(1) unfolding records_def by blast
  moreover have "ns \<in> set (um_keys (summaries w))" using ns by force
  ultimately have "ns \<in> set hist" by (metis set_remdups set_rev)
  then show ?thesis using s assms(1) unfolding records_def getFrequency_def by (intro bexI [of _ ns]) auto
qed

lemma known_names: "set names \<subseteq> attrName ` set as \<Longrightarrow> known (QueryWorkload base as) names"
proof -
  assume sub: "set names \<subseteq> attrName ` set as"
  have "um_find (fold (\<lambda>p. um_put (attrName (snd p)) p) ps m) n \<noteq> None"
    if "n \<in> (\<lambda>p. attrName (snd p)) ` set ps \<or> um_find m n \<noteq> None" for ps n and m :: "(string, attrPtr) umap"
    using that
  proof (induction ps arbitrary: m)
    case (Cons p ps)
    then have "n \<in> (\<lambda>p. attrName (snd p)) ` set ps \<or> um_find (um_put (attrName (snd p)) p m) n \<noteq> None" by auto
    from Cons.IH [OF this] show ?case by simp
  qed simp
  moreover have "(\<lambda>p. attrName (snd p)) ` set (List.enumerate base as) = attrName ` set (map snd (List.enumerate base as))"
    by (simp only: list.set_map image_image)
  then have "(\<lambda>p. attrName (snd p)) ` set (List.enumerate base as) = attrName ` set as"
    unfolding map_snd_enumerate .
  ultimately show ?thesis using sub unfolding known_def QueryWorkload_def by auto
qed

lemma addQuery_all:
  assumes "records hp w hist" and "\<forall>q \<in> set qs. sorted (attributeNames q) \<and> known w (attributeNames q)"
    and "length hist + length qs < 2 ^ 53"
  shows "\<exists>w'. for_each (addQuery hp) qs w = Inr w' \<and> records hp w' (hist @ map attributeNames qs) \<and> nameToAttribute w' = nameToAttribute w"
  using assms
proof (induction qs arbitrary: w hist)
  case (Cons q qs)
  have "\<exists>w1. addQuery hp q w = Inr w1 \<and> records hp w1 (hist @ [attributeNames q]) \<and> nameToAttribute w1 = nameToAttribute w"
    using addQuery_old [OF Cons.prems(1), of q] addQuery_new [OF Cons.prems(1), of q] Cons.prems(2,3) by (cases "attributeNames q \<in> set hist") auto
  then obtain w1 where w1: "addQuery hp q w = Inr w1" "records hp w1 (hist @ [attributeNames q])" "nameToAttribute w1 = nameToAttribute w" by blast
  have "\<forall>q \<in> set qs. sorted (attributeNames q) \<and> known w1 (attributeNames q)" using Cons.prems(2) w1(3) by (simp add: known_def)
  from Cons.IH [OF w1(2) this] Cons.prems(3) w1 show ?case by simp
qed simp

section \<open>Properties\<close>

text \<open>C34: splitting undoes merging. Merging the partitions at two positions and then splitting the result
  into the two partitions that were merged gives back the partitioning, every partition at its old
  position. The overlapping heuristic tries out merges this way.\<close>

theorem merge_split_inverse:
  assumes "i < j" and "j < length ps" and "\<forall>p \<in> set ps. distinct p"
  shows "\<exists>ps1. mergePartitions i j ps = Inr ps1 \<and> length ps1 = length ps - 1 \<and> covered ps1 = covered ps
    \<and> splitPartition i j (ps ! i) (ps ! j) ps1 = Inr ps \<and> splitPartition j i (ps ! j) (ps ! i) ps1 = Inr ps"
proof -
  from split_merge [OF assms] obtain ps1 where ps1: "mergePartitions i j ps = Inr ps1" "length ps1 = length ps - 1"
    "splitPartition i j (ps ! i) (ps ! j) ps1 = Inr ps" by blast
  moreover have "splitPartition j i (ps ! j) (ps ! i) ps1 = splitPartition i j (ps ! i) (ps ! j) ps1"
    using assms(1) by (simp add: splitPartition_def)
  ultimately show ?thesis using covered_merge [OF ps1(1)] assms(1) by simp
qed

definition ex_ptr :: "nat \<Rightarrow> attrPtr" where
  "ex_ptr i = (100 + i, \<lparr>attrIndex = i, attrName = [char_of (97 + i)], attrType = INT64\<rparr>)"

theorem merge_split_inverse_witness:
  "\<exists>ps1. mergePartitions 0 1 [[ex_ptr 0, ex_ptr 1], [ex_ptr 1], [ex_ptr 2]] = Inr ps1
    \<and> splitPartition 0 1 [ex_ptr 0, ex_ptr 1] [ex_ptr 1] ps1 = Inr [[ex_ptr 0, ex_ptr 1], [ex_ptr 1], [ex_ptr 2]]"
  using merge_split_inverse [of 0 1 "[[ex_ptr 0, ex_ptr 1], [ex_ptr 1], [ex_ptr 2]]"] by (auto simp: ex_ptr_def)

text \<open>C23: a workload is the frequency table of the queries added to it. From the empty workload over some
  attributes, queries over these attributes are all accepted; there is then one summary for each list
  of attribute names asked for, in the order of first use, with the attributes of these names, and its
  frequency is the number of queries with these names divided by the number of all queries. Fewer than
  \<open>2 ^ 53\<close> queries keep the counters exact.\<close>

theorem workload_frequencies:
  assumes "\<forall>q \<in> set qs. sorted (attributeNames q) \<and> set (attributeNames q) \<subseteq> attrName ` set as" and "length qs < 2 ^ 53"
  shows "\<exists>w. for_each (addQuery hp) qs (QueryWorkload base as) = Inr w
    \<and> map (\<lambda>s. sort (map (\<lambda>p. attrName (snd p)) (sumAttributes s))) (wlQueries w) = rev (remdups (rev (map attributeNames qs)))
    \<and> (\<forall>s \<in> set (wlQueries w). \<forall>ns. mset (map (\<lambda>p. attrName (snd p)) (sumAttributes s)) = mset ns \<and> sorted ns \<longrightarrow>
        getFrequency w s = Inr (ddiv (dof_nat (count_list (map attributeNames qs) ns)) (dof_nat (length qs))))"
proof -
  let ?log = "map attributeNames qs"
  obtain w where w: "for_each (addQuery hp) qs (QueryWorkload base as) = Inr w" "records hp w ?log"
    using addQuery_all [OF QueryWorkload_records, of qs base as hp] assms known_names by auto
  have keys: "um_keys (summaries w) = rev (remdups (rev ?log))" and qs: "wlQueries w = map snd (summaries w)"
    and sums: "\<forall>(ns, s) \<in> set (summaries w). s = summary_for hp w ns" and nk: "names_known w"
    and lg: "\<forall>ns \<in> set ?log. sorted ns \<and> known w ns"
    using w(2) unfolding records_def by blast+
  have name: "sort (map (\<lambda>p. attrName (snd p)) (sumAttributes (summary_for hp w ns))) = ns" if "ns \<in> set ?log" for ns
    using summary_for_names [OF nk, of ns hp] lg that properties_for_sort by metis
  have mem: "ns \<in> set ?log" if "(ns, s) \<in> set (summaries w)" for ns s
  proof -
    have "ns \<in> set (um_keys (summaries w))" using that by force
    then show ?thesis unfolding keys by simp
  qed
  have "map (\<lambda>s. sort (map (\<lambda>p. attrName (snd p)) (sumAttributes s))) (wlQueries w) = um_keys (summaries w)"
    unfolding qs map_map using sums mem name by (intro map_cong) fastforce+
  moreover have "getFrequency w s = Inr (ddiv (dof_nat (count_list ?log ns)) (dof_nat (length qs)))"
    if s: "s \<in> set (wlQueries w)" "mset (map (\<lambda>p. attrName (snd p)) (sumAttributes s)) = mset ns" "sorted ns" for s ns
  proof -
    from getFrequency_recorded [OF w(2) s(1)] obtain ns' where ns': "ns' \<in> set ?log" "s = summary_for hp w ns'"
      "getFrequency w s = Inr (ddiv (dof_nat (count_list ?log ns')) (dof_nat (length ?log)))" by blast
    have "ns' = ns" using name [OF ns'(1)] s(2,3) ns'(2) properties_for_sort by metis
    with ns'(3) show ?thesis by simp
  qed
  ultimately show ?thesis using w(1) keys by auto
qed

theorem workload_frequencies_witness:
  "\<exists>w. for_each (addQuery of_nat) [Query (\<lambda>_. 3) 0 d_one [''b'', ''a''], Query (\<lambda>_. 3) 0 d_one [''c''], Query (\<lambda>_. 3) d_one d_one [''a'', ''b'']]
      (QueryWorkload 100 (map (snd \<circ> ex_ptr) [0, 1, 2])) = Inr w
    \<and> map (\<lambda>s. sort (map (\<lambda>p. attrName (snd p)) (sumAttributes s))) (wlQueries w) = [[''a'', ''b''], [''c'']]"
proof -
  let ?qs = "[Query (\<lambda>_. 3) 0 d_one [''b'', ''a''], Query (\<lambda>_. 3) 0 d_one [''c''], Query (\<lambda>_. 3) d_one d_one [''a'', ''b'']]"
  have n: "map attributeNames ?qs = [[''a'', ''b''], [''c''], [''a'', ''b'']]" by (simp add: Query_def Let_def)
  have "map (attrName \<circ> snd \<circ> ex_ptr) [0, 1, 2] = [''a'', ''b'', ''c'']" by (simp add: ex_ptr_def) code_simp
  then have as: "attrName ` set (map (snd \<circ> ex_ptr) [0, 1, 2]) = {''a'', ''b'', ''c''}" by (simp add: comp_def image_image)
  have "\<forall>ns \<in> set (map attributeNames ?qs). sorted ns \<and> set ns \<subseteq> attrName ` set (map (snd \<circ> ex_ptr) [0, 1, 2])"
    unfolding n as by simp
  then have "\<forall>q \<in> set ?qs. sorted (attributeNames q) \<and> set (attributeNames q) \<subseteq> attrName ` set (map (snd \<circ> ex_ptr) [0, 1, 2])"
    by (simp only: list.set_map ball_simps)
  from workload_frequencies [OF this, of of_nat 100] show ?thesis unfolding n by fastforce
qed

end
