(* ===== verification/Historical.thy ===== *)
theory Historical
  imports PartitionIdx Config Workload
begin

text \<open>
  The historical graph (\<^verbatim>\<open>HistoricalGraph.h/.cpp\<close>): writing a block under a partitioning into the block
  store and both indexes, and the two iterators that answer queries. The partition index is part of
  the state of the block manager, which holds a reference to it in the code; the R-tree is the pair of
  parameters \<open>ins\<close> and \<open>hits\<close> of the interval index. The statistics an edge iterator reads are the
  argument \<open>st\<close>.
\<close>

section \<open>State and queries\<close>

record 'rt historicalGraph =
  hgConf :: conf
  bman :: blockStore
  iqIndex :: "'rt rtreeIndex"
  fiqIndex :: leveldb

record focusedIntervalQuery = query +
  qHead :: vertexId

definition IntervalQuery :: "(string \<Rightarrow> size_t) \<Rightarrow> timestamp \<Rightarrow> timestamp \<Rightarrow> query" where
  "IntervalQuery hs start end1 = Query hs start end1 []"

definition FocusedIntervalQuery ::
  "(string \<Rightarrow> size_t) \<Rightarrow> vertexId \<Rightarrow> timestamp \<Rightarrow> timestamp \<Rightarrow> string list \<Rightarrow> focusedIntervalQuery" where
  "FocusedIntervalQuery hs head start end1 names =
     query.extend (Query hs start end1 names) \<lparr>qHead = head\<rparr>"

text \<open>\<open>newDb\<close> and the \<open>opened\<close> arguments are what the file system and the opened databases give; \<open>next\<close> is the
  next block id of the meta data.\<close>

definition HistoricalGraph ::
  "conf \<Rightarrow> blockId \<Rightarrow> bool \<times> (status \<times> leveldb) \<Rightarrow> status \<times> leveldb \<Rightarrow> bool \<times> ('rt \<times> nat) \<times> ('rt \<times> size_t)
     \<Rightarrow> status \<times> leveldb \<Rightarrow> 'rt historicalGraph result" where
  "HistoricalGraph c next openedPart openedBlocks openedTree openedFiq =
     rbind (PartitionIndex (unat (conf.partitioningBufferSize c)) (edgeSchema c) (fst openedPart) (snd openedPart)) (\<lambda>p.
     rbind (BlockManager_open (unat (conf.blockBufferSize c)) p openedBlocks next) (\<lambda>bm.
     rbind (rt_openOrCreate (fst openedTree) (fst (snd openedTree)) (snd (snd openedTree))) (\<lambda>idx.
     rbind (FocusedIntervalQueryIndex openedFiq) (\<lambda>db.
       Inr \<lparr>hgConf = c, bman = bm, iqIndex = idx, fiqIndex = db\<rparr>))))"

section \<open>Writing a block\<close>

definition store_sub :: "block \<Rightarrow> block \<times> blockStore \<Rightarrow> (block \<times> blockStore) result" where
  "store_sub sub = (\<lambda>(master, bm).
     rbind (bm_addBlock sub True bm) (\<lambda>(sub1, bm1). Inr (addSubBlockId (bid sub1) master, bm1)))"

definition hg_addBlock ::
  "(byte list \<Rightarrow> region \<Rightarrow> size_t \<Rightarrow> 'rt \<Rightarrow> 'rt) \<Rightarrow> block \<Rightarrow> 'rt historicalGraph \<Rightarrow> 'rt historicalGraph result" where
  "hg_addBlock ins b hg =
     rbind (partitionBlock (edgeSchema (hgConf hg)) getPart b (pidx (bman hg))) (\<lambda>(newBlocks, p).
     rbind (assert_that (1 < length newBlocks)) (\<lambda>_.
     rbind (for_each store_sub (tl newBlocks) (hd newBlocks, (bman hg)\<lparr>pidx := p\<rparr>)) (\<lambda>(master, bm1).
     rbind (bm_addBlock master True bm1) (\<lambda>(master1, bm2).
     rbind (iq_indexBlock ins master1 (iqIndex hg)) (\<lambda>idx.
     rbind (fiq_indexBlock master1 (fiqIndex hg)) (\<lambda>db.
       Inr (hg\<lparr>bman := bm2, iqIndex := idx, fiqIndex := db\<rparr>)))))))"

section \<open>The vertex iterator\<close>

record vertexIterator =
  viLast :: "vertexId option"
  viVertices :: "vertexId list"
  viIter :: iqIterator

definition vi_record :: "vertexIterator \<Rightarrow> vertexIterator" where
  "vi_record vi =
     (if iq_isValid (viIter vi)
      then let v = ivVertex (iqCurrent (viIter vi)) in vi\<lparr>viLast := Some v, viVertices := us_insert v (viVertices vi)\<rparr>
      else vi)"

definition VertexIterator :: "iqIterator \<Rightarrow> vertexIterator" where
  "VertexIterator it = vi_record \<lparr>viLast = None, viVertices = [], viIter = it\<rparr>"

definition vi_isValid :: "vertexIterator \<Rightarrow> bool" where
  "vi_isValid vi = iq_isValid (viIter vi)"

text \<open>The \<^verbatim>\<open>do\<close>-\<^verbatim>\<open>while\<close> loop of \<open>next\<close>: past all entries of vertices already seen.\<close>

function vi_skip ::
  "(blockId \<Rightarrow> 'm \<Rightarrow> (block \<times> 'm) result) \<Rightarrow> vertexId list \<Rightarrow> iqIterator \<Rightarrow> 'm \<Rightarrow> (iqIterator \<times> 'm) result" where
  "vi_skip getBlk seen it m =
     rbind (iq_next getBlk it m) (\<lambda>(it1, m1).
       if iq_isValid it1 \<and> ivVertex (iqCurrent it1) \<in> set seen then vi_skip getBlk seen it1 m1 else Inr (it1, m1))"
  by pat_completeness auto
termination
  by (relation "measure (\<lambda>(_, _, it, _). length (pending (iidxIter it)))")
    (auto simp: iq_next_def rbind_Inr_iff intro: iq_next_shorter)

declare vi_skip.simps [simp del]

definition vi_next ::
  "(blockId \<Rightarrow> 'm \<Rightarrow> (block \<times> 'm) result) \<Rightarrow> vertexIterator \<Rightarrow> 'm \<Rightarrow> (vertexIterator \<times> 'm) result" where
  "vi_next getBlk vi m =
     rbind (assert_that (vi_isValid vi)) (\<lambda>_.
     rbind (vi_skip getBlk (viVertices vi) (viIter vi) m) (\<lambda>(it, m1). Inr (vi_record (vi\<lparr>viIter := it\<rparr>), m1)))"

definition vi_getVertexId :: "vertexIterator \<Rightarrow> vertexId result" where
  "vi_getVertexId vi = deref (viLast vi)"

section \<open>Choosing the partitions to read\<close>

definition numberOfEdgesInABlock :: size_t where
  "numberOfEdgesInABlock = 24"

definition ei_getAttributeSize :: "schema \<Rightarrow> schemaStats \<Rightarrow> string \<Rightarrow> size_t result" where
  "ei_getAttributeSize s st attr =
     rbind (getIndex s attr) (\<lambda>i. rbind (stats_getAvgSize (word_of_nat i) st) d_to_size)"

definition ei_getPartitionSize :: "schema \<Rightarrow> schemaStats \<Rightarrow> string list \<Rightarrow> size_t result" where
  "ei_getPartitionSize s st attrs =
     for_each (\<lambda>attr totalSize. rbind (ei_getAttributeSize s st attr) (\<lambda>n. Inr (totalSize + n))) attrs 0"

definition score_attr ::
  "schema \<Rightarrow> schemaStats \<Rightarrow> string list \<Rightarrow> string list \<Rightarrow> double \<Rightarrow> string \<Rightarrow> double \<Rightarrow> double result" where
  "score_attr s st query selected partitionSize attr sc =
     (if attr \<in> set selected then Inr sc
      else if attr \<notin> set query then Inr sc
      else rbind (ei_getAttributeSize s st attr) (\<lambda>n.
             Inr (dadd sc (ddiv (dof_nat (unat (n * numberOfEdgesInABlock))) partitionSize))))"

definition partition_score ::
  "schema \<Rightarrow> schemaStats \<Rightarrow> string list \<Rightarrow> string list \<Rightarrow> string list \<Rightarrow> double result" where
  "partition_score s st query selected attrs =
     rbind (ei_getPartitionSize s st attrs) (\<lambda>n.
       for_each (score_attr s st query selected (dof_nat (unat n))) attrs 0)"

text \<open>The best score so far and the index it belongs to; the index starts one past the end.\<close>

definition better_partition ::
  "schema \<Rightarrow> schemaStats \<Rightarrow> string list \<Rightarrow> string list \<Rightarrow> partitioning \<Rightarrow> nat \<Rightarrow> double \<times> nat \<Rightarrow> (double \<times> nat) result" where
  "better_partition s st query selected parting i best =
     rbind (vec_index parting i) (\<lambda>attrs.
     rbind (partition_score s st query selected attrs) (\<lambda>sc.
       Inr (if dgt sc (fst best) then (sc, i) else best)))"

definition best_partition ::
  "schema \<Rightarrow> schemaStats \<Rightarrow> string list \<Rightarrow> string list \<Rightarrow> partitioning \<Rightarrow> nat list \<Rightarrow> nat result" where
  "best_partition s st query selected parting unused =
     rbind (for_each (better_partition s st query selected parting) unused (dminus d_one, length parting))
       (\<lambda>(_, i). Inr i)"

definition select_attrs :: "string list \<Rightarrow> string list \<Rightarrow> string list \<Rightarrow> string list" where
  "select_attrs query attrs selected =
     fold (\<lambda>attr sel. if attr \<in> set query then us_insert attr sel else sel) attrs selected"

lemma best_partition_mem:
  assumes "best_partition s st query selected parting unused = Inr i" "i < length parting"
  shows "i \<in> set unused"
proof -
  let ?P = "\<lambda>b. snd b \<in> set unused \<or> snd b = length parting"
  from assms(1) obtain sc where run: "for_each (better_partition s st query selected parting) unused (dminus d_one, length parting) = Inr (sc, i)"
    by (auto simp: best_partition_def rbind_Inr_iff)
  have "?P (sc, i)"
    by (rule for_each_invariant [where P = ?P, OF run]) (auto simp: better_partition_def rbind_Inr_iff split: if_splits)
  with assms(2) show ?thesis by simp
qed

function choose_partitions ::
  "schema \<Rightarrow> schemaStats \<Rightarrow> string list \<Rightarrow> partitioning \<Rightarrow> string list \<Rightarrow> nat list \<Rightarrow> nat list \<Rightarrow> nat list result" where
  "choose_partitions s st query parting selected unused chosen =
     (if length selected \<noteq> length query
      then rbind (best_partition s st query selected parting unused) (\<lambda>i.
           rbind (vec_index parting i) (\<lambda>attrs.
             choose_partitions s st query parting (select_attrs query attrs selected) (us_erase i unused) (chosen @ [i])))
      else Inr chosen)"
  by pat_completeness auto
termination
  by (relation "measure (\<lambda>(_, _, _, _, _, unused, _). length unused)")
    (auto dest: best_partition_mem intro: us_erase_length)

declare choose_partitions.simps [simp del]

definition recomputePartitionIndices :: "schema \<Rightarrow> schemaStats \<Rightarrow> string list \<Rightarrow> partitioning \<Rightarrow> nat list result" where
  "recomputePartitionIndices s st query parting = choose_partitions s st query parting [] [0..<length parting] []"

section \<open>The edge iterator\<close>

record edgeIterator =
  eiDone :: bool
  currentEdgeIndex :: nat
  currentNumEdges :: nat
  eiPartitioning :: timeSlicedPartitioning
  partitionIndices :: "nat list"
  eiIter :: fiqIterator
  queryAttributes :: "string list"

definition find_partitioning ::
  "schemaStats \<Rightarrow> timestamp \<Rightarrow> edgeIterator \<Rightarrow> blockStore \<Rightarrow> (edgeIterator \<times> blockStore) result" where
  "find_partitioning st t ei bm =
     rbind (getTimeSlicedPartitioning t (pidx bm)) (\<lambda>(ts, p).
     rbind (recomputePartitionIndices (pEdgeSchema p) st (queryAttributes ei) (tsParts ts)) (\<lambda>is.
       Inr (ei\<lparr>eiPartitioning := ts, partitionIndices := is\<rparr>, bm\<lparr>pidx := p\<rparr>)))"

definition initFromBlock :: "schemaStats \<Rightarrow> edgeIterator \<Rightarrow> blockStore \<Rightarrow> (edgeIterator \<times> blockStore) result" where
  "initFromBlock st ei bm =
     rbind (bman_getBlock (currentBlock (eiIter ei)) bm) (\<lambda>(blk, bm1).
     rbind (getPartitioningTimestamp blk) (\<lambda>t.
     rbind (if partitionIndices ei = [] then find_partitioning st t ei bm1
            else if dlt t (tsStart (eiPartitioning ei)) \<or> dge t (tsEnd (eiPartitioning ei))
                 then find_partitioning st t ei bm1
                 else Inr (ei, bm1)) (\<lambda>(ei1, bm2).
     rbind (deref (um_find (neigs blk) (currentVertex (eiIter ei)))) (\<lambda>nlist.
       let k = length (takeWhile (\<lambda>e. \<not> dge (tm e) (fStart (eiIter ei))) (edges nlist))
       in rbind (assert_that (k < length (edges nlist))) (\<lambda>_.
          rbind (getNthOldestEdge nlist k) (\<lambda>e.
            Inr (ei1\<lparr>currentNumEdges := length (edges nlist), currentEdgeIndex := k,
                     eiDone := eiDone ei1 \<or> dge (tm e) (fEnd (eiIter ei))\<rparr>, bm2)))))))"

definition EdgeIterator ::
  "schemaStats \<Rightarrow> fiqIterator \<Rightarrow> string list \<Rightarrow> blockStore \<Rightarrow> (edgeIterator \<times> blockStore) result" where
  "EdgeIterator st it names bm =
     (let ei = \<lparr>eiDone = False, currentEdgeIndex = 0, currentNumEdges = 0, eiPartitioning = TimeSlicedPartitioning,
                partitionIndices = [], eiIter = it, queryAttributes = fold us_insert names []\<rparr>
      in if fiq_isValid it then initFromBlock st ei bm else Inr (ei, bm))"

definition ei_isValid :: "edgeIterator \<Rightarrow> bool" where
  "ei_isValid ei \<longleftrightarrow> fiq_isValid (eiIter ei) \<and> \<not> eiDone ei"

definition ei_getEdge :: "edgeIterator \<Rightarrow> blockStore \<Rightarrow> (edge \<times> blockStore) result" where
  "ei_getEdge ei bm =
     rbind (bman_getBlock (currentBlock (eiIter ei)) bm) (\<lambda>(blk, bm1).
     rbind (deref (um_find (neigs blk) (currentVertex (eiIter ei)))) (\<lambda>nlist.
     rbind (getNthOldestEdge nlist (currentEdgeIndex ei)) (\<lambda>e. Inr (e, bm1))))"

definition ei_next :: "schemaStats \<Rightarrow> edgeIterator \<Rightarrow> blockStore \<Rightarrow> (edgeIterator \<times> blockStore) result" where
  "ei_next st ei bm =
     rbind (assert_that (ei_isValid ei)) (\<lambda>_.
       let ei1 = ei\<lparr>currentEdgeIndex := currentEdgeIndex ei + 1\<rparr>
       in if currentEdgeIndex ei1 < currentNumEdges ei1
          then rbind (ei_getEdge ei1 bm) (\<lambda>(e, bm1).
                 Inr (ei1\<lparr>eiDone := eiDone ei1 \<or> dge (tm e) (fEnd (eiIter ei1))\<rparr>, bm1))
          else rbind (fiq_next (eiIter ei1)) (\<lambda>it.
                 let ei2 = ei1\<lparr>eiIter := it\<rparr>
                 in if fiq_isValid it then initFromBlock st ei2 bm else Inr (ei2, bm)))"

definition merge_sub ::
  "blockId list \<Rightarrow> edgeIterator \<Rightarrow> nat \<Rightarrow> attributeData \<times> blockStore \<Rightarrow> (attributeData \<times> blockStore) result" where
  "merge_sub subs ei index = (\<lambda>(data, bm).
     rbind (assert_that (index < length subs)) (\<lambda>_.
     rbind (vec_index subs index) (\<lambda>i.
     rbind (bman_getBlock i bm) (\<lambda>(sub, bm1).
     rbind (deref (um_find (neigs sub) (currentVertex (eiIter ei)))) (\<lambda>nlist.
     rbind (getNthOldestEdge nlist (currentEdgeIndex ei)) (\<lambda>e.
     rbind (deref (edata e)) (\<lambda>p. Inr (setAttributes (snd p) data, bm1))))))))"

definition ei_getEdgeData :: "edgeIterator \<Rightarrow> blockStore \<Rightarrow> (attributeData \<times> blockStore) result" where
  "ei_getEdgeData ei bm =
     rbind (newAttributeData_of (pEdgeSchema (pidx bm)) (queryAttributes ei)) (\<lambda>data.
     rbind (bman_getBlock (currentBlock (eiIter ei)) bm) (\<lambda>(masterBlock, bm1).
     rbind (deref (partitionNo masterBlock)) (\<lambda>p.
     rbind (assert_that (p = no_partition)) (\<lambda>_.
     rbind (assert_that (0 < length (subBlocks masterBlock))) (\<lambda>_.
       for_each (merge_sub (subBlocks masterBlock) ei) (partitionIndices ei) (data, bm1))))))"

section \<open>Queries and counters\<close>

definition intervalQuery ::
  "(region \<Rightarrow> 'rt \<Rightarrow> byte list list) \<Rightarrow> timestamp \<Rightarrow> timestamp \<Rightarrow> 'rt historicalGraph
     \<Rightarrow> (vertexIterator \<times> 'rt historicalGraph) result" where
  "intervalQuery hits start end1 hg =
     rbind (iq_query hits bman_getBlock start end1 (iqIndex hg) (bman hg)) (\<lambda>(it, bm).
       Inr (VertexIterator it, hg\<lparr>bman := bm\<rparr>))"

definition intervalQueryBatch ::
  "(region \<Rightarrow> 'rt \<Rightarrow> byte list list) \<Rightarrow> timestamp \<Rightarrow> timestamp \<Rightarrow> 'rt historicalGraph \<Rightarrow> vertexId list result" where
  "intervalQueryBatch hits start end1 hg = iq_queryBatch hits start end1 (iqIndex hg)"

definition hg_focusedIntervalQuery ::
  "schemaStats \<Rightarrow> focusedIntervalQuery \<Rightarrow> 'rt historicalGraph \<Rightarrow> (edgeIterator \<times> 'rt historicalGraph) result" where
  "hg_focusedIntervalQuery st q hg =
     rbind (fiq_query (fiqIndex hg) (qHead q) (qStart q) (qEnd q)) (\<lambda>it.
     rbind (EdgeIterator st it (attributeNames q) (bman hg)) (\<lambda>(ei, bm). Inr (ei, hg\<lparr>bman := bm\<rparr>)))"

definition clearBlockBuffer :: "'rt historicalGraph \<Rightarrow> 'rt historicalGraph" where
  "clearBlockBuffer hg = hg\<lparr>bman := bm_clear (bman hg)\<rparr>"

definition getEdgeReadIOCount :: "'rt historicalGraph \<Rightarrow> nat" where
  "getEdgeReadIOCount hg = nIOReads (bman hg)"

definition getEdgeWriteIOCount :: "'rt historicalGraph \<Rightarrow> nat" where
  "getEdgeWriteIOCount hg = nIOWrites (bman hg)"

definition getEdgeIOCount :: "'rt historicalGraph \<Rightarrow> nat" where
  "getEdgeIOCount hg = nIOReads (bman hg) + nIOWrites (bman hg)"

end
