(* ===== verification/VertexScan.thy ===== *)
theory VertexScan
  imports Historical
begin

text \<open>
  Interval queries on the historical graph. The vertex iterator passes over entries of vertices it has
  shown before, so iterating over it shows each vertex of the interval index's answer once; with the
  exactness of that index, an interval query shows exactly the vertices with an edge in the range.
\<close>

section \<open>The loop of the clients\<close>

lemma vi_skip_shorter:
  "vi_skip getBlk seen it m = Inr (it', m') \<Longrightarrow> length (pending (iidxIter it')) < length (pending (iidxIter it))"
proof (induction getBlk seen it m rule: vi_skip.induct)
  case (1 getBlk seen it m)
  from 1(2) obtain it1 m1 where n: "iq_next getBlk it m = Inr (it1, m1)" and
    r: "(if iq_isValid it1 \<and> ivVertex (iqCurrent it1) \<in> set seen then vi_skip getBlk seen it1 m1 else Inr (it1, m1)) = Inr (it', m')"
    by (subst (asm) vi_skip.simps) (auto simp: rbind_Inr_iff)
  have "length (pending (iidxIter it1)) < length (pending (iidxIter it))" using n by (rule iq_next_shorter)
  moreover have "length (pending (iidxIter it')) \<le> length (pending (iidxIter it1))"
    using r 1(1) [OF n refl] by (auto split: if_splits intro: less_imp_le)
  ultimately show ?case by simp
qed

lemma vi_record_iter [simp]: "viIter (vi_record vi) = viIter vi"
  by (simp add: vi_record_def Let_def)

lemma vi_next_shorter:
  "vi_next getBlk vi m = Inr (vi', m') \<Longrightarrow> length (pending (iidxIter (viIter vi'))) < length (pending (iidxIter (viIter vi)))"
  by (auto simp: vi_next_def rbind_Inr_iff vi_isValid_def dest: vi_skip_shorter)

function vi_collect ::
  "(blockId \<Rightarrow> 'm \<Rightarrow> (block \<times> 'm) result) \<Rightarrow> vertexIterator \<Rightarrow> 'm \<Rightarrow> (vertexId list \<times> 'm) result" where
  "vi_collect getBlk vi m =
     (if vi_isValid vi
      then rbind (vi_getVertexId vi) (\<lambda>v.
           rbind (vi_next getBlk vi m) (\<lambda>(vi1, m1).
           rbind (vi_collect getBlk vi1 m1) (\<lambda>(rest, m2). Inr (v # rest, m2))))
      else Inr ([], m))"
  by pat_completeness auto
termination
  by (relation "measure (\<lambda>(_, vi, _). length (pending (iidxIter (viIter vi))))") (auto intro: vi_next_shorter)

declare vi_collect.simps [simp del]

section \<open>Every vertex once\<close>

lemma iq_collect_valid:
  "iq_collect getBlk it m = Inr (ds, m') \<Longrightarrow> iq_isValid it \<longleftrightarrow> ds \<noteq> []"
  by (subst (asm) iq_collect.simps) (auto simp: rbind_Inr_iff split: if_splits)

lemma iq_collect_Cons:
  assumes "iq_collect getBlk it m = Inr (d # ds, m')"
  shows "iqCurrent it = d \<and> (\<exists>it1 m1. iq_next getBlk it m = Inr (it1, m1) \<and> iq_collect getBlk it1 m1 = Inr (ds, m'))"
  using assms by (subst (asm) iq_collect.simps) (auto simp: rbind_Inr_iff split: if_splits)

lemma vi_skip_collect:
  assumes "iq_collect getBlk it m = Inr (d # ds, m')"
  shows "\<exists>it1 m1. vi_skip getBlk seen it m = Inr (it1, m1)
    \<and> iq_collect getBlk it1 m1 = Inr (dropWhile (\<lambda>d. ivVertex d \<in> set seen) ds, m')"
  using assms
proof (induction ds arbitrary: d it m)
  case Nil
  from iq_collect_Cons [OF Nil] obtain it1 m1 where
    n: "iq_next getBlk it m = Inr (it1, m1)" "iq_collect getBlk it1 m1 = Inr ([], m')" by blast
  then show ?case using iq_collect_valid [OF n(2)] by (subst vi_skip.simps) simp
next
  case (Cons d' ds)
  from iq_collect_Cons [OF Cons.prems] obtain it1 m1 where
    n: "iq_next getBlk it m = Inr (it1, m1)" "iq_collect getBlk it1 m1 = Inr (d' # ds, m')" by blast
  have "iq_isValid it1" "iqCurrent it1 = d'" using iq_collect_valid [OF n(2)] iq_collect_Cons [OF n(2)] by auto
  then show ?case using n Cons.IH [OF n(2)] by (subst vi_skip.simps) simp
qed

fun first_uses :: "'a set \<Rightarrow> 'a list \<Rightarrow> 'a list" where
  "first_uses S [] = []"
| "first_uses S (x # xs) = (if x \<in> S then first_uses S xs else x # first_uses (insert x S) xs)"

lemma first_uses_props: "set (first_uses S xs) = set xs - S \<and> distinct (first_uses S xs)"
  by (induction S xs rule: first_uses.induct) auto

lemma first_uses_dropWhile:
  "first_uses S (map f xs) = (case dropWhile (\<lambda>x. f x \<in> S) xs of [] \<Rightarrow> [] | y # ys \<Rightarrow> f y # first_uses (insert (f y) S) (map f ys))"
  by (induction xs) auto

definition vi_fresh :: "vertexIterator \<Rightarrow> vertexId list \<Rightarrow> bool" where
  "vi_fresh vi old \<longleftrightarrow> (iq_isValid (viIter vi) \<longrightarrow> viLast vi = Some (ivVertex (iqCurrent (viIter vi)))
     \<and> set (viVertices vi) = insert (ivVertex (iqCurrent (viIter vi))) (set old))"

lemma vi_collect_first_uses:
  assumes "iq_collect getBlk (viIter vi) m = Inr (ds, m')" and "vi_fresh vi old" and "ds \<noteq> [] \<longrightarrow> ivVertex (hd ds) \<notin> set old"
  shows "vi_collect getBlk vi m = Inr (first_uses (set old) (map ivVertex ds), m')"
  using assms
proof (induction "length (pending (iidxIter (viIter vi)))" arbitrary: vi m ds old rule: less_induct)
  case less
  show ?case
  proof (cases ds)
    case Nil
    then show ?thesis using less.prems(1) iq_collect_valid [OF less.prems(1)]
      by (subst vi_collect.simps, subst (asm) iq_collect.simps) (simp add: vi_isValid_def)
  next
    case (Cons d ds')
    note c = less.prems(1) [unfolded Cons]
    have v: "iq_isValid (viIter vi)" "iqCurrent (viIter vi) = d" using iq_collect_valid [OF c] iq_collect_Cons [OF c] by auto
    then have f: "viLast vi = Some (ivVertex d)" "set (viVertices vi) = insert (ivVertex d) (set old)"
      using less.prems(2) by (auto simp: vi_fresh_def)
    let ?rest = "dropWhile (\<lambda>d. ivVertex d \<in> set (viVertices vi)) ds'"
    obtain it1 m1 where sk: "vi_skip getBlk (viVertices vi) (viIter vi) m = Inr (it1, m1)" "iq_collect getBlk it1 m1 = Inr (?rest, m')"
      using vi_skip_collect [OF c] by blast
    let ?vi = "vi_record (vi\<lparr>viIter := it1\<rparr>)"
    have nx: "vi_next getBlk vi m = Inr (?vi, m1)" using v sk(1) by (simp add: vi_next_def vi_isValid_def)
    have "vi_fresh ?vi (viVertices vi)" by (simp add: vi_fresh_def vi_record_def Let_def)
    moreover have "?rest \<noteq> [] \<longrightarrow> ivVertex (hd ?rest) \<notin> set (viVertices vi)"
      using hd_dropWhile [of "\<lambda>d. ivVertex d \<in> set (viVertices vi)" ds'] by blast
    ultimately have "vi_collect getBlk ?vi m1 = Inr (first_uses (set (viVertices vi)) (map ivVertex ?rest), m')"
      using less.hyps [OF vi_next_shorter [OF nx]] sk(2) by simp
    moreover have "first_uses (set (viVertices vi)) (map ivVertex ?rest) = first_uses (set (viVertices vi)) (map ivVertex ds')"
      by (simp add: first_uses_dropWhile)
    moreover have "ivVertex d \<notin> set old" using less.prems(3) Cons by simp
    ultimately show ?thesis using v nx f Cons
      by (subst vi_collect.simps) (simp add: vi_isValid_def vi_getVertexId_def)
  qed
qed

lemma VertexIterator_collect:
  assumes "iq_collect getBlk it m = Inr (ds, m')"
  shows "vi_collect getBlk (VertexIterator it) m = Inr (first_uses {} (map ivVertex ds), m')"
proof -
  have "vi_fresh (VertexIterator it) []" by (simp add: vi_fresh_def VertexIterator_def vi_record_def Let_def)
  then show ?thesis using vi_collect_first_uses [of getBlk "VertexIterator it" m ds m' "[]"] assms by (simp add: VertexIterator_def)
qed

section \<open>The block store behind the queries\<close>

definition slices_served :: "timeSlicedPartitioning list \<Rightarrow> schema \<Rightarrow> partitionIndex \<Rightarrow> bool" where
  "slices_served sl s p \<longleftrightarrow> pidx_ok sl p \<and> pEdgeSchema p = s"

lemma lru_erase_schema: "lru_erase it p = Inr p' \<Longrightarrow> pEdgeSchema p' = pEdgeSchema p"
  by (auto simp: lru_erase_def rbind_Inr_iff split: if_splits)

lemma lru_push_schema [simp]: "pEdgeSchema (lru_push t p) = pEdgeSchema p"
  by (simp add: lru_push_def)

lemma pi_load_schema: "pi_load e v p = Inr (ts, p') \<Longrightarrow> pEdgeSchema p' = pEdgeSchema p"
  by (auto simp: pi_load_def rbind_Inr_iff Let_def split: if_splits)

lemma getTimeSlicedPartitioning_schema:
  assumes "getTimeSlicedPartitioning t p = Inr (ts, p')"
  shows "pEdgeSchema p' = pEdgeSchema p"
proof -
  have "pEdgeSchema p' = pEdgeSchema p" if "pi_miss t p = Inr (ts, p')"
  proof -
    from that obtain kb where "(case db_Seek (partDb p) (content kb) of [] \<Rightarrow> Inl (PartitionNotFound t)
       | (k, v) # rest \<Rightarrow> rbind (getDouble (NetworkByteBuffer_over k (length k))) (\<lambda>(endTime, _).
             if deq endTime t
             then (case rest of [] \<Rightarrow> Inl (PartitionNotFound t) | (k', v') # _ \<Rightarrow> pi_load endTime v' p)
             else pi_load endTime v p)) = Inr (ts, p')" (is "(case ?es of [] \<Rightarrow> _ | _ \<Rightarrow> _) = _")
      by (auto simp: pi_miss_def rbind_Inr_iff)
    then obtain k v rest where "?es = (k, v) # rest"
      and r: "rbind (getDouble (NetworkByteBuffer_over k (length k))) (\<lambda>(endTime, _).
             if deq endTime t
             then (case rest of [] \<Rightarrow> Inl (PartitionNotFound t) | (k', v') # _ \<Rightarrow> pi_load endTime v' p)
             else pi_load endTime v p) = Inr (ts, p')"
      by (cases ?es) auto
    show ?thesis using r by (cases rest) (auto simp: rbind_Inr_iff split: if_splits dest: pi_load_schema)
  qed
  moreover have "pEdgeSchema p1 = pEdgeSchema p" if "pi_touch k t e p = Inr p1" for k e p1
    using that by (auto simp: pi_touch_def rbind_Inr_iff split: if_splits dest: lru_erase_schema)
  ultimately show ?thesis
    using assms by (auto simp: getTimeSlicedPartitioning_def rbind_Inr_iff split: option.splits if_splits)
qed

lemma slices_served_lookup:
  assumes "slices_served sl s p" "served_time sl t"
  shows "\<exists>p'. getTimeSlicedPartitioning t p = Inr (slice_at sl t, p') \<and> slices_served sl s p'"
  using getTimeSlicedPartitioning_served getTimeSlicedPartitioning_schema assms unfolding slices_served_def by metis

interpretation hist_source: partition_source "slices_served sl s" getPart_deser "\<lambda>t. tsParts (slice_at sl t)" "served_time sl"
proof
  fix p t assume a: "slices_served sl s p" "served_time sl t"
  then have "removedPartitionings p = []" by (simp add: slices_served_def pidx_ok_def)
  with slices_served_lookup [OF a]
  show "\<exists>p'. getPart_deser t p = Inr (tsParts (slice_at sl t), p') \<and> slices_served sl s p'"
    by (auto simp: getPart_deser_def getTimeSlicedPartitioningForBlockDeserialization_def)
qed

abbreviation store_ok :: "timeSlicedPartitioning list \<Rightarrow> schema \<Rightarrow> blockStore \<Rightarrow> bool" where
  "store_ok sl s \<equiv> bm_ok s getPart_deser (slices_served sl s)"

abbreviation in_store :: "timeSlicedPartitioning list \<Rightarrow> schema \<Rightarrow> leveldb \<Rightarrow> blockId \<Rightarrow> block \<Rightarrow> bool" where
  "in_store sl s \<equiv> on_disk s getPart_deser (slices_served sl s)"

lemma store_ok_schema: "store_ok sl s bm \<Longrightarrow> pEdgeSchema (pidx bm) = s"
  by (simp add: bm_ok_def slices_served_def)

interpretation hist_reader: block_reader "\<lambda>bm. store_ok sl s bm \<and> blockDb bm = db" "in_store sl s db" bman_getBlock
proof
  fix m i b
  assume "store_ok sl s m \<and> blockDb m = db" and "in_store sl s db i b"
  then show "\<exists>b' m'. bman_getBlock i m = Inr (b', m') \<and> same_block b' b \<and> store_ok sl s m' \<and> blockDb m' = db"
    using bm_getBlock_result [of s getPart_deser "slices_served sl s" m i b] store_ok_schema [of s sl m]
    by (auto simp: bman_getBlock_def)
qed

section \<open>Property\<close>

lemma interval_query_result:
  assumes "spatial_index ins hits items" and "items (rtidx (iqIndex hg)) = (\<lambda>d. (data_region d, iv_enc d)) ` D"
    and "\<forall>d \<in> D. describes (in_store sl s (blockDb (bman hg))) d (lst d)"
    and "store_ok sl s (bman hg)" and "\<not> is_nan start" "\<not> is_nan end1"
  shows "\<exists>vi hg1 vs bm'. intervalQuery hits start end1 hg = Inr (vi, hg1) \<and> vi_collect bman_getBlock vi (bman hg1) = Inr (vs, bm')
    \<and> distinct vs \<and> set vs = {ivVertex d |d. d \<in> D \<and> (\<exists>e \<in> set (lst d). in_range start end1 e)}
    \<and> store_ok sl s bm' \<and> blockDb bm' = blockDb (bman hg)"
proof -
  obtain it bm1 ds bm' where
    r: "iq_query hits bman_getBlock start end1 (iqIndex hg) (bman hg) = Inr (it, bm1)" "iq_collect bman_getBlock it bm1 = Inr (ds, bm')"
      "set ds = {d \<in> D. \<exists>e \<in> set (lst d). in_range start end1 e}" "store_ok sl s bm'" "blockDb bm' = blockDb (bman hg)"
    using hist_reader.iq_query_run [OF assms(1-3) conjI [OF assms(4) refl] assms(5,6)] by blast
  have "intervalQuery hits start end1 hg = Inr (VertexIterator it, hg\<lparr>bman := bm1\<rparr>)" using r(1) by (simp add: intervalQuery_def)
  moreover have "vi_collect bman_getBlock (VertexIterator it) bm1 = Inr (first_uses {} (map ivVertex ds), bm')"
    by (rule VertexIterator_collect [OF r(2)])
  moreover have "set (first_uses {} (map ivVertex ds)) = {ivVertex d |d. d \<in> D \<and> (\<exists>e \<in> set (lst d). in_range start end1 e)}"
    "distinct (first_uses {} (map ivVertex ds))"
    using first_uses_props [of "{}" "map ivVertex ds"] r(3) by auto
  ultimately show ?thesis using r(4,5) by auto
qed

text \<open>C11: an interval query shows every vertex with an edge in the range, and no other, exactly once. When every
  entry of the interval index describes a neighbour list of a stored block, iterating over the answer
  ends, and shows the vertices of the lists with an edge whose time is in the range (end exclusive),
  without repetition although a vertex may have entries for many blocks.\<close>

theorem intervalQuery_exact:
  assumes "spatial_index ins hits items" and "items (rtidx (iqIndex hg)) = (\<lambda>d. (data_region d, iv_enc d)) ` D"
    and "\<forall>d \<in> D. describes (in_store sl s (blockDb (bman hg))) d (lst d)"
    and "store_ok sl s (bman hg)" and "\<not> is_nan start" "\<not> is_nan end1"
  shows "\<exists>vi hg1 vs bm'. intervalQuery hits start end1 hg = Inr (vi, hg1) \<and> vi_collect bman_getBlock vi (bman hg1) = Inr (vs, bm')
    \<and> distinct vs \<and> set vs = {ivVertex d |d. d \<in> D \<and> (\<exists>e \<in> set (lst d). in_range start end1 e)}
    \<and> store_ok sl s bm' \<and> blockDb bm' = blockDb (bman hg)"
  by (rule interval_query_result [OF assms])

text \<open>The store of the witnesses: one slice with one partition per attribute, in force at all times.\<close>

definition ex_slice :: timeSlicedPartitioning where
  "ex_slice = \<lparr>tsStart = neg_inf, tsEnd = pos_inf, tsParts = ex_part\<rparr>"

definition ex_pidx_one :: partitionIndex where
  "ex_pidx_one = ex_pidx\<lparr>partDb := \<lparr>entries = [slice_entry ex_slice], failure = None\<rparr>\<rparr>"

lemma ex_slice_served: "slices_served [ex_slice] ex_schema ex_pidx_one"
proof -
  have "slice_ok ex_slice"
    by (simp add: slice_ok_def slice_enc_def attrs_enc_def string_enc_def attrs_ok_def ex_slice_def ex_part_def
        str_bytes_def double_eval pos_inf_def)
  moreover have "dlt neg_inf pos_inf" by (simp add: double_eval neg_inf_def pos_inf_def)
  ultimately show ?thesis
    by (simp add: slices_served_def pidx_ok_def holds_slices_def ex_pidx_one_def ex_pidx_def om_ok_def cache_live_def nodes_own_def nodes_ok_def
        ex_slice_def)
qed

lemma ex_slice_at: "served_time [ex_slice] d_one" "tsParts (slice_at [ex_slice] d_one) = ex_part"
  by (simp_all add: served_time_def is_boundary_def slice_at_def ex_slice_def double_eval pos_inf_def)

lemma dof_nat_2: "dof_nat 2 = d_two"
proof (rule dval_inject)
  have "unat d_two = 1024 * 2 ^ 52" by (simp add: d_two_def)
  then have "dval d_two = 2" by (simp add: dval_def dneg_def dmag_def dval_mag_def)
  then show "dval (dof_nat 2) = dval d_two" using dof_nat_exact(1) [of 2] by simp
  show "\<not> dneg (dof_nat 2)" using dof_nat_exact(4) [of 2] by simp
  show "\<not> dneg d_two" by (simp add: dneg_def d_two_def)
qed

lemma ex_midpoint: "ddiv (dadd d_one d_one) d_two = d_one"
  using dadd_dof_nat [of 1 1] ddiv_dof_nat [of 2 2] by (simp add: dof_nat_1 dof_nat_2 flip: One_nat_def)

lemma ex_in_store: "\<exists>db. db_ok db \<and> failure db = None \<and> in_store [ex_slice] ex_schema db (bid ex_sub_block) ex_sub_block"
proof -
  have "findMinMaxTimestamps ex_sub_block = Inr (d_one, d_one)" "length (block_enc ex_sub_block 1 d_one d_one) \<le> 2 ^ 32"
    using ex_sub_minmax ex_sub_enc_length by (simp_all add: d_one_def)
  then have "bm_storable ex_schema (\<lambda>t. tsParts (slice_at [ex_slice] t)) (served_time [ex_slice]) ex_sub_block"
    unfolding bm_storable_def using ex_sub_storable ex_slice_at ex_midpoint by metis
  from hist_source.stored_on_disk [OF this, of ex_db ex_schema] obtain nb where
    "in_store [ex_slice] ex_schema (ex_db\<lparr>entries := kv_put (net_word 8 (bid ex_sub_block)) (content nb) (entries ex_db)\<rparr>)
       (bid ex_sub_block) ex_sub_block" by (auto simp: ex_db_def db_ok_def)
  then show ?thesis by (intro exI conjI) (auto simp: ex_db_def db_ok_def)
qed

theorem intervalQuery_exact_witness:
  "\<exists>db vi hg1 vs bm'. let hg = \<lparr>hgConf = Conf ''g'' ''/tmp'' [] [], bman = BlockManager 2 ex_pidx_one db 10,
        iqIndex = \<lparr>nextId = 1, rtidx = [(data_region ex_iv, iv_enc ex_iv)]\<rparr>, fiqIndex = ex_db\<rparr>
     in intervalQuery ex_hits d_one d_two hg = Inr (vi, hg1) \<and> vi_collect bman_getBlock vi (bman hg1) = Inr (vs, bm') \<and> vs = [1]"
proof -
  obtain db where db: "db_ok db" "failure db = None" "in_store [ex_slice] ex_schema db (bid ex_sub_block) ex_sub_block"
    using ex_in_store by blast
  let ?bm = "BlockManager 2 ex_pidx_one db 10"
  define hg where "hg = \<lparr>hgConf = Conf ''g'' ''/tmp'' [] [], bman = ?bm,
     iqIndex = \<lparr>nextId = 1, rtidx = [(data_region ex_iv, iv_enc ex_iv)]\<rparr>, fiqIndex = ex_db\<rparr>"
  have hg: "store_ok [ex_slice] ex_schema (bman hg)" "blockDb (bman hg) = db" "set (rtidx (iqIndex hg)) = {(data_region ex_iv, iv_enc ex_iv)}"
    using BlockManager_ok [of 2 db "slices_served [ex_slice] ex_schema" ex_pidx_one] db ex_slice_served
    by (simp_all add: hg_def BlockManager_def)
  have num: "dle d_one d_one" "dlt d_one d_two" "\<not> is_nan d_one" "\<not> is_nan d_two" by (simp_all add: double_eval)
  have e: "tm (ex_sub_edge 2) = d_one" by (simp add: ex_sub_edge_def d_one_def)
  have n: "um_find (neigs ex_sub_block) 1 = Some \<lparr>headVertex = 1, edges = [ex_sub_edge 2]\<rparr>" by (simp add: ex_sub_block_def)
  have "describes (in_store [ex_slice] ex_schema (blockDb (bman hg))) ex_iv [ex_sub_edge 2]"
    using db(3) n num unfolding describes_def hg by (auto simp: ex_iv_def e time_sorted_def)
  then have "\<forall>d \<in> {ex_iv}. describes (in_store [ex_slice] ex_schema (blockDb (bman hg))) d ((\<lambda>_. [ex_sub_edge 2]) d)" by simp
  from intervalQuery_exact [OF ex_spatial _ this hg(1) num(3,4)] hg(3) obtain vi hg1 vs bm' where
    r: "intervalQuery ex_hits d_one d_two hg = Inr (vi, hg1)" "vi_collect bman_getBlock vi (bman hg1) = Inr (vs, bm')"
      "distinct vs" "set vs = {1}" using num by (auto simp: in_range_def e ex_iv_def)
  have "vs = [1]" using r(3,4) distinct_card [OF r(3)] by (cases vs) (auto simp: subset_singleton_iff insert_eq_iff)
  with r show ?thesis unfolding hg_def [symmetric] by (metis (no_types) hg_def)
qed

end
