(* ===== verification/PartitionChoice.thy ===== *)
theory PartitionChoice
  imports Historical
begin

text \<open>
  The greedy choice of the partitions an edge iterator reads (\<open>recomputePartitionIndices\<close>): it ends with
  distinct partitions of the partitioning that together hold every attribute asked for.
\<close>

section \<open>Attribute sizes\<close>

text \<open>\<open>sized s st sz attrs\<close>: the statistics give every attribute a positive size \<open>sz\<close>, and all together are small
  enough to be added exactly.\<close>

definition sized :: "schema \<Rightarrow> schemaStats \<Rightarrow> (string \<Rightarrow> size_t) \<Rightarrow> string list \<Rightarrow> bool" where
  "sized s st sz attrs \<longleftrightarrow> (\<forall>a \<in> set attrs. ei_getAttributeSize s st a = Inr (sz a) \<and> 0 < sz a)
     \<and> sum_list (map (unat \<circ> sz) attrs) < 2 ^ 53"

lemma partition_size_sum:
  assumes "\<forall>a \<in> set attrs. ei_getAttributeSize s st a = Inr (sz a)" and "unat acc + sum_list (map (unat \<circ> sz) attrs) < 2 ^ 53"
  shows "\<exists>w. for_each (\<lambda>attr totalSize. rbind (ei_getAttributeSize s st attr) (\<lambda>n. Inr (totalSize + n))) attrs acc = Inr w
    \<and> unat w = unat acc + sum_list (map (unat \<circ> sz) attrs)"
  using assms
proof (induction attrs arbitrary: acc)
  case (Cons a attrs)
  have "unat (acc + sz a) = unat acc + unat (sz a)" using Cons.prems(2) by (simp add: unat_word_ariths(1))
  then show ?case using Cons.IH [of "acc + sz a"] Cons.prems by (simp add: add.assoc)
qed simp

lemma sized_partition:
  assumes "sized s st sz attrs"
  shows "\<exists>w. ei_getPartitionSize s st attrs = Inr w \<and> unat w < 2 ^ 53 \<and> (attrs \<noteq> [] \<longrightarrow> 0 < unat w)"
proof -
  obtain w where w: "ei_getPartitionSize s st attrs = Inr w" "unat w = sum_list (map (unat \<circ> sz) attrs)"
    using partition_size_sum [of attrs s st sz 0] assms unfolding sized_def ei_getPartitionSize_def by auto
  moreover have "0 < sum_list (map (unat \<circ> sz) attrs)" if "attrs \<noteq> []"
    using that assms by (cases attrs) (auto simp: sized_def unat_gt_0)
  ultimately show ?thesis using assms by (auto simp: sized_def)
qed

lemma partition_score_nonneg:
  assumes "sized s st sz attrs"
  shows "\<exists>sc. partition_score s st query selected attrs = Inr sc \<and> nonneg sc"
proof -
  obtain w where w: "ei_getPartitionSize s st attrs = Inr w" "unat w < 2 ^ 53" "attrs \<noteq> [] \<longrightarrow> 0 < unat w"
    using sized_partition [OF assms] by blast
  have "\<exists>sc. for_each (score_attr s st query selected (dof_nat (unat w))) as acc = Inr sc \<and> nonneg sc"
    if "set as \<subseteq> set attrs" "nonneg acc" for as acc
    using that
  proof (induction as arbitrary: acc)
    case (Cons a as)
    have "attrs \<noteq> []" using Cons.prems(1) by auto
    then have "dval (dof_nat (unat w)) \<noteq> 0" unfolding dof_nat_exact(1) [OF w(2)] of_nat_eq_0_iff using w(3) by blast
    then have "dmag (dof_nat (unat w)) \<noteq> 0" unfolding dval_def by (metis dval_mag_0 neg_equal_0_iff_equal)
    then have "nonneg (ddiv (dof_nat k) (dof_nat (unat w)))" for k
      using ddiv_nonneg dof_nat_nonneg dof_nat_exact(3) [OF w(2)] by blast
    moreover have "ei_getAttributeSize s st a = Inr (sz a)" using assms Cons.prems(1) by (auto simp: sized_def)
    ultimately show ?case using Cons.IH Cons.prems dadd_nonneg by (auto simp: score_attr_def)
  qed simp
  from this [of attrs 0] w(1) show ?thesis by (simp add: partition_score_def zero_nonneg)
qed

section \<open>The greedy loop\<close>

lemma best_partition_found:
  assumes "\<forall>i \<in> set unused. i < length parting \<and> sized s st sz (parting ! i)" and "unused \<noteq> []"
  shows "\<exists>i. best_partition s st query selected parting unused = Inr i \<and> i \<in> set unused"
proof -
  have run: "\<exists>sc i. for_each (better_partition s st query selected parting) us (sc0, i0) = Inr (sc, i) \<and> (nonneg sc0 \<longrightarrow> nonneg sc)
     \<and> (us \<noteq> [] \<and> sc0 = dminus d_one \<or> nonneg sc0 \<and> i0 < length parting \<longrightarrow> i < length parting)"
    if "\<forall>i \<in> set us. i < length parting \<and> sized s st sz (parting ! i)" for us sc0 i0
    using that
  proof (induction us arbitrary: sc0 i0)
    case (Cons u us)
    obtain sc where sc: "partition_score s st query selected (parting ! u) = Inr sc" "nonneg sc"
      using partition_score_nonneg [of s st sz "parting ! u" query selected] Cons.prems by auto
    let ?b = "if dgt sc sc0 then (sc, u) else (sc0, i0)"
    have "better_partition s st query selected parting u (sc0, i0) = Inr ?b"
      using sc(1) Cons.prems by (simp add: better_partition_def vec_index_def)
    then show ?case using Cons.IH [of "fst ?b" "snd ?b"] Cons.prems sc(2) above_minus_one [OF sc(2)] by (auto split: if_splits)
  qed simp
  from run [OF assms(1)] obtain sc i where i: "for_each (better_partition s st query selected parting) unused (dminus d_one, length parting) = Inr (sc, i)"
    "i < length parting" using assms(2) by blast
  then have "best_partition s st query selected parting unused = Inr i" by (simp add: best_partition_def)
  with best_partition_mem [OF this i(2)] show ?thesis by blast
qed

lemma select_attrs_set: "set (select_attrs query attrs sel) = set sel \<union> (set attrs \<inter> set query)"
  unfolding select_attrs_def by (induction attrs arbitrary: sel) auto

lemma select_attrs_distinct: "distinct sel \<Longrightarrow> distinct (select_attrs query attrs sel)"
  unfolding select_attrs_def by (induction attrs arbitrary: sel) auto

definition held :: "partitioning \<Rightarrow> nat list \<Rightarrow> string set" where
  "held parting is = (\<Union>i \<in> set is. set (parting ! i))"

lemma choose_partitions_cover:
  assumes "distinct query" and "set query \<subseteq> set (concat parting)" and "\<forall>attrs \<in> set parting. sized s st sz attrs"
    and "distinct selected" "set selected = set query \<inter> held parting chosen"
    and "set unused = {..<length parting} - set chosen" "distinct chosen" "set chosen \<subseteq> {..<length parting}"
  shows "\<exists>is. choose_partitions s st query parting selected unused chosen = Inr is \<and> distinct is
    \<and> set is \<subseteq> {..<length parting} \<and> set query \<subseteq> held parting is"
  using assms(4-8)
proof (induction "length unused" arbitrary: selected unused chosen rule: less_induct)
  case less
  have sub: "set selected \<subseteq> set query" using less.prems(2) by auto
  show ?case
  proof (cases "length selected = length query")
    case True
    then have "set selected = set query"
      using sub less.prems(1) assms(1) by (metis List.finite_set card_subset_eq distinct_card)
    then show ?thesis using True less.prems by (subst choose_partitions.simps) auto
  next
    case False
    then have "set selected \<noteq> set query" using less.prems(1) assms(1) by (metis distinct_card)
    then obtain a where a: "a \<in> set query" "a \<notin> held parting chosen" using sub less.prems(2) by blast
    obtain p where p: "p \<in> set parting" "a \<in> set p" using a(1) assms(2) by auto
    then obtain j where j: "j < length parting" "a \<in> set (parting ! j)" by (metis in_set_conv_nth)
    then have "j \<in> set unused" using a(2) less.prems(3) by (auto simp: held_def)
    then have "unused \<noteq> []" by auto
    moreover have "\<forall>i \<in> set unused. i < length parting \<and> sized s st sz (parting ! i)" using assms(3) less.prems(3) by auto
    ultimately obtain i where i: "best_partition s st query selected parting unused = Inr i" "i \<in> set unused"
      using best_partition_found by blast
    then have il: "i < length parting" "i \<notin> set chosen" using less.prems(3) by auto
    let ?sel = "select_attrs query (parting ! i) selected"
    have "\<exists>is. choose_partitions s st query parting ?sel (us_erase i unused) (chosen @ [i]) = Inr is \<and> distinct is
        \<and> set is \<subseteq> {..<length parting} \<and> set query \<subseteq> held parting is"
    proof (rule less.hyps)
      show "length (us_erase i unused) < length unused" using i(2) by (rule us_erase_length)
      show "distinct ?sel" using less.prems(1) by (rule select_attrs_distinct)
      show "set ?sel = set query \<inter> held parting (chosen @ [i])"
        using less.prems(2) by (auto simp: select_attrs_set held_def)
    qed (use less.prems il in auto)
    then show ?thesis using False i(1) il(1) by (subst choose_partitions.simps) (simp add: vec_index_def)
  qed
qed

lemma recompute_cover:
  assumes "distinct query" and "set query \<subseteq> set (concat parting)" and "\<forall>attrs \<in> set parting. sized s st sz attrs"
  shows "\<exists>is. recomputePartitionIndices s st query parting = Inr is \<and> distinct is
    \<and> set is \<subseteq> {..<length parting} \<and> set query \<subseteq> held parting is"
  unfolding recomputePartitionIndices_def
  using assms by (intro choose_partitions_cover) (auto simp: held_def atLeast0LessThan)

section \<open>Property\<close>

text \<open>C12: the partitions an edge iterator reads hold every attribute the query asks for. When the partitioning
  holds these attributes and the statistics know a positive size for every attribute, the greedy choice
  ends, with distinct partitions of the partitioning, never looks beyond its end, and leaves no
  attribute of the query out.\<close>

theorem recomputePartitionIndices_covers:
  assumes "distinct query" and "set query \<subseteq> set (concat parting)" and "\<forall>attrs \<in> set parting. sized s st sz attrs"
  shows "\<exists>is. recomputePartitionIndices s st query parting = Inr is \<and> distinct is
    \<and> set is \<subseteq> {..<length parting} \<and> set query \<subseteq> held parting is"
  by (rule recompute_cover [OF assms])

definition ex_stats :: schemaStats where
  "ex_stats = [(0, 3, dof_nat 24), (1, 3, dof_nat 60)]"

definition ex_sizes :: "string \<Rightarrow> size_t" where
  "ex_sizes n = (if n = ''age'' then 8 else 20)"

lemma ex_sized:
  assumes "set attrs \<subseteq> {''age'', ''nick''}" "distinct attrs"
  shows "sized ex_schema ex_stats ex_sizes attrs"
proof -
  have ix: "getIndex ex_schema ''age'' = Inr 0" "getIndex ex_schema ''nick'' = Inr 1"
    by (simp_all add: getIndex_def ex_schema_def Schema_def add_name_type_def um_emplace_def um_count_def)
  have "ei_getAttributeSize ex_schema ex_stats ''age'' = Inr 8" "ei_getAttributeSize ex_schema ex_stats ''nick'' = Inr 20"
    using ddiv_dof_nat [of 24 3] ddiv_dof_nat [of 60 3] d_to_size_dof_nat [of 8] d_to_size_dof_nat [of 20]
    by (simp_all add: ei_getAttributeSize_def ix stats_getAvgSize_def ex_stats_def)
  moreover have "sum_list (map (unat \<circ> ex_sizes) attrs) \<le> 28"
  proof -
    have "sum_list (map (unat \<circ> ex_sizes) attrs) = (\<Sum>a \<in> set attrs. unat (ex_sizes a))"
      using assms(2) by (simp add: sum_list_distinct_conv_sum_set)
    also have "\<dots> \<le> (\<Sum>a \<in> {''age'', ''nick''}. unat (ex_sizes a))" using assms(1) by (intro sum_mono2) auto
    finally show ?thesis by (simp add: ex_sizes_def)
  qed
  ultimately show ?thesis using assms(1) by (auto simp: sized_def ex_sizes_def)
qed

theorem recomputePartitionIndices_covers_witness:
  "\<exists>is. recomputePartitionIndices ex_schema ex_stats [''nick''] [[''age''], [''nick'']] = Inr is \<and> distinct is
    \<and> set is \<subseteq> {..<2} \<and> ''nick'' \<in> held [[''age''], [''nick'']] is"
  using recomputePartitionIndices_covers [of "[''nick'']" "[[''age''], [''nick'']]" ex_schema ex_stats ex_sizes] ex_sized
  by (simp add: numeral_2_eq_2)

end
