(* ===== verification/EdgeScan.thy ===== *)
theory EdgeScan
  imports VertexScan PartitionChoice
begin

text \<open>
  Focused interval queries on the historical graph. For blocks stored as \<open>addBlock\<close> writes them, iterating
  over the answer to a focused query shows the edges of the vertex in the range, in time order, each
  with the attributes asked for.
\<close>

section \<open>The record put together from the partitions read\<close>

lemma setAttributes_part:
  assumes "schema_ok s" "names_in s attrs" "full_data s d"
  shows "um_keys (fieldsOf (setAttributes (proj_data s attrs d) d0)) = um_keys (fieldsOf d0)"
    and "um_find (fieldsOf (setAttributes (proj_data s attrs d) d0)) i =
      (if i \<in> attr_index s ` set attrs \<and> um_find (fieldsOf d0) i \<noteq> None then um_find (fieldsOf d) i else um_find (fieldsOf d0) i)"
proof -
  let ?p = "proj_data s attrs d"
  have ok: "um_ok (fieldsOf ?p)" using proj_data_ok [OF assms] by (simp add: data_ok_def)
  show "um_keys (fieldsOf (setAttributes ?p d0)) = um_keys (fieldsOf d0)" by simp
  have "um_find (fieldsOf ?p) i = (if i \<in> attr_index s ` set attrs then um_find (fieldsOf d) i else None)"
  proof (cases "i \<in> attr_index s ` set attrs")
    case True
    then obtain n where n: "n \<in> set attrs" "i = attr_index s n" by auto
    then have "(i, the (um_find (fieldsOf d) i)) \<in> set (fieldsOf ?p)" by (auto simp: proj_data_def)
    then have "um_find (fieldsOf ?p) i = Some (the (um_find (fieldsOf d) i))" using ok by simp
    then show ?thesis using names_in_find [OF assms(1,2) n(1) assms(3)] n True by auto
  next
    case False
    then have "i \<notin> fst ` set (fieldsOf ?p)" by (auto simp: proj_data_def)
    with False show ?thesis using um_find_absent by simp
  qed
  moreover have "um_find (fieldsOf d) i \<noteq> None" if "i \<in> attr_index s ` set attrs"
    using that names_in_find [OF assms(1,2) _ assms(3)] by auto
  ultimately show "um_find (fieldsOf (setAttributes ?p d0)) i =
      (if i \<in> attr_index s ` set attrs \<and> um_find (fieldsOf d0) i \<noteq> None then um_find (fieldsOf d) i else um_find (fieldsOf d0) i)"
    by (auto simp: setAttributes_find [OF ok] split: option.splits)
qed

lemma setAttributes_parts:
  assumes "schema_ok s" "\<forall>i \<in> set is. names_in s (part ! i)" "full_data s d"
  shows "um_keys (fieldsOf (fold (\<lambda>i. setAttributes (proj_data s (part ! i) d)) is d0)) = um_keys (fieldsOf d0)
    \<and> schemaOf (fold (\<lambda>i. setAttributes (proj_data s (part ! i) d)) is d0) = schemaOf d0
    \<and> um_find (fieldsOf (fold (\<lambda>i. setAttributes (proj_data s (part ! i) d)) is d0)) k =
      (if k \<in> attr_index s ` held part is \<and> um_find (fieldsOf d0) k \<noteq> None then um_find (fieldsOf d) k else um_find (fieldsOf d0) k)"
  using assms(2)
proof (induction "is" arbitrary: d0)
  case Nil
  then show ?case by (simp add: held_def)
next
  case (Cons i "is")
  let ?d1 = "setAttributes (proj_data s (part ! i) d) d0"
  have n: "names_in s (part ! i)" using Cons.prems by simp
  note st = setAttributes_part [OF assms(1) n assms(3), of d0]
  have "um_find (fieldsOf ?d1) k = None \<longleftrightarrow> um_find (fieldsOf d0) k = None"
    using st(1) by (metis list.set_map map_of_eq_None_iff)
  moreover have "attr_index s ` held part (i # is) = attr_index s ` set (part ! i) \<union> attr_index s ` held part is"
    by (auto simp: held_def)
  ultimately show ?case using Cons.IH [of ?d1] Cons.prems st(1) st(2) [of k] by simp
qed

lemma query_record:
  assumes "schema_ok s" "\<forall>i \<in> set is. names_in s (part ! i)" "full_data s d" "names_in s query" "set query \<subseteq> held part is"
  shows "\<exists>d0. newAttributeData_of s query = Inr d0
    \<and> fold (\<lambda>i. setAttributes (proj_data s (part ! i) d)) is d0 = proj_data s query d"
proof -
  obtain d0 where d0: "newAttributeData_of s query = Inr d0" "um_keys (fieldsOf d0) = map (attr_index s) query" "schemaOf d0 = s"
    using newAttributeData_of_fields [OF assms(1,4)] by (simp add: comp_def)
  let ?r = "fold (\<lambda>i. setAttributes (proj_data s (part ! i) d)) is d0"
  note r = setAttributes_parts [OF assms(1-3), of d0]
  have pk: "um_keys (fieldsOf (proj_data s query d)) = map (attr_index s) query" by (simp add: proj_data_def comp_def)
  have ok: "um_ok (fieldsOf (proj_data s query d))" using attr_index_inj [OF assms(1,4)] pk by simp
  have "fieldsOf ?r = fieldsOf (proj_data s query d)"
  proof (rule um_eqI)
    show "um_keys (fieldsOf ?r) = um_keys (fieldsOf (proj_data s query d))" using r d0(2) pk by simp
    show "um_ok (fieldsOf (proj_data s query d))" by (rule ok)
    fix k
    show "um_find (fieldsOf ?r) k = um_find (fieldsOf (proj_data s query d)) k"
    proof (cases "k \<in> attr_index s ` set query")
      case True
      then have "um_find (fieldsOf d0) k \<noteq> None" using d0(2) by (metis list.set_map map_of_eq_None_iff)
      moreover have "k \<in> attr_index s ` held part is" using True assms(5) by auto
      ultimately have "um_find (fieldsOf ?r) k = um_find (fieldsOf d) k" using r by simp
      moreover obtain n where n: "n \<in> set query" "k = attr_index s n" using True by auto
      then have "(k, the (um_find (fieldsOf d) k)) \<in> set (fieldsOf (proj_data s query d))" by (auto simp: proj_data_def)
      then have "um_find (fieldsOf (proj_data s query d)) k = Some (the (um_find (fieldsOf d) k))" using ok by simp
      ultimately show ?thesis using names_in_find [OF assms(1,4) n(1) assms(3)] n by auto
    next
      case False
      then have "k \<notin> set (um_keys (fieldsOf ?r))" "k \<notin> set (um_keys (fieldsOf (proj_data s query d)))" using r d0(2) pk by auto
      then show ?thesis by (metis list.set_map map_of_eq_None_iff)
    qed
  qed
  moreover have "schemaOf ?r = s" using r d0(3) by simp
  ultimately show ?thesis using d0(1) by (simp add: proj_data_def)
qed

section \<open>Blocks as \<open>addBlock\<close> stores them\<close>

definition stored_as :: "timeSlicedPartitioning list \<Rightarrow> schema \<Rightarrow> leveldb \<Rightarrow> blockId \<Rightarrow> block \<Rightarrow> bool" where
  "stored_as sl s db i b \<longleftrightarrow> block_ok s b \<and> (\<exists>t master subs. getPartitioningTimestamp b = Inr t \<and> served_time sl t
     \<and> in_store sl s db i master \<and> partitionNo master = Some no_partition \<and> splits (\<lambda>e. empty_data s) b master
     \<and> subBlocks master \<noteq> []
     \<and> list_all2 (in_store sl s db) (subBlocks master) subs
     \<and> list_all2 (\<lambda>attrs sub. splits (proj_data s attrs \<circ> the_data) b sub) (tsParts (slice_at sl t)) subs)"

lemma same_block_splits: "same_block b' b \<Longrightarrow> splits g c b \<Longrightarrow> splits g c b'"
  by (simp add: same_block_def splits_def)

lemma findMinMax_view:
  assumes "map (\<lambda>(h, nl). (h, map tm (edges nl))) m = map (\<lambda>(h, nl). (h, map tm (edges nl))) m'"
  shows "for_each minmax_step m acc = for_each minmax_step m' acc"
  using assms
proof (induction m m' arbitrary: acc rule: list_induct2')
  case (4 x xs y ys)
  obtain h nl where x: "x = (h, nl)" by force
  obtain h' nl' where y: "y = (h', nl')" by force
  have t: "map tm (edges nl) = map tm (edges nl')" using 4(2) by (simp add: x y)
  have "minmax_step x acc = minmax_step y acc"
  proof (cases "edges nl = []")
    case True
    then have "edges nl' = []" using t by simp
    with True show ?thesis by (cases acc) (simp add: x y getOldestEdge_def)
  next
    case False
    then have ne: "edges nl' \<noteq> []" using t by auto
    have "tm (hd (edges nl)) = tm (hd (edges nl'))" "tm (last (edges nl)) = tm (last (edges nl'))"
      using t False ne by (metis hd_map, metis last_map)
    then show ?thesis using False ne
      by (cases acc; cases "edges nl"; cases "edges nl'") (simp_all add: x y getOldestEdge_def getNewestEdge_def)
  qed
  then show ?case using 4 by (simp cong: rbind_cong)
qed auto

lemma splits_times:
  assumes "splits g b c"
  shows "map (\<lambda>(h, nl). (h, map tm (edges nl))) (neigs c) = map (\<lambda>(h, nl). (h, map tm (edges nl))) (neigs b)"
proof -
  have "map (\<lambda>(h, xs). (h, map (\<lambda>(to, t, d). t) xs)) (view (neigs c)) =
      map (\<lambda>(h, xs). (h, map (\<lambda>(to, t, d). t) xs)) (map (\<lambda>(h, nl). (h, map (\<lambda>e. (toVertex e, tm e, Some (g e))) (edges nl))) (neigs b))"
    using assms by (simp add: splits_def)
  then show ?thesis by (simp add: view_def strip_def comp_def case_prod_beta')
qed

lemma splits_timestamp:
  assumes "splits g b c"
  shows "findMinMaxTimestamps c = findMinMaxTimestamps b" and "getPartitioningTimestamp c = getPartitioningTimestamp b"
  using findMinMax_view [OF splits_times [OF assms]] by (simp_all add: getPartitioningTimestamp_def findMinMaxTimestamps_def)

text \<open>The list of a vertex in a block that looks like \<open>b\<close>.\<close>

lemma splits_list:
  assumes "splits g b c" "um_ok (neigs b)" "um_find (neigs b) v = Some nl"
  shows "\<exists>nl'. um_find (neigs c) v = Some nl' \<and> length (edges nl') = length (edges nl)
    \<and> (\<forall>k < length (edges nl). toVertex (edges nl' ! k) = toVertex (edges nl ! k) \<and> tm (edges nl' ! k) = tm (edges nl ! k)
        \<and> (\<exists>a. edata (edges nl' ! k) = Some (a, g (edges nl ! k))))"
proof -
  let ?row = "map (\<lambda>e. (toVertex e, tm e, Some (g e))) (edges nl)"
  have "um_find (view (neigs c)) v = Some ?row" using assms by (simp add: splits_def um_find_map)
  then obtain nl' where nl': "um_find (neigs c) v = Some nl'" "map strip (edges nl') = ?row"
    unfolding view_def um_find_map by auto
  have len: "length (edges nl') = length (edges nl)" using arg_cong [OF nl'(2), of length] by simp
  have "strip (edges nl' ! k) = (toVertex (edges nl ! k), tm (edges nl ! k), Some (g (edges nl ! k)))" if "k < length (edges nl)" for k
    using arg_cong [OF nl'(2), of "\<lambda>xs. xs ! k"] that len by simp
  then show ?thesis using nl'(1) len by (fastforce simp: strip_def)
qed

section \<open>Reading the list of a vertex in a stored block\<close>

type_synonym chunk = "blockId \<times> block \<times> neighborList"

abbreviation edges_of :: "chunk \<Rightarrow> edge list" where
  "edges_of c \<equiv> edges (snd (snd c))"

abbreviation reading :: "timeSlicedPartitioning list \<Rightarrow> schema \<Rightarrow> leveldb \<Rightarrow> blockStore \<Rightarrow> bool" where
  "reading sl s db bm \<equiv> store_ok sl s bm \<and> blockDb bm = db"

definition chunk_ok :: "timeSlicedPartitioning list \<Rightarrow> schema \<Rightarrow> leveldb \<Rightarrow> vertexId \<Rightarrow> chunk \<Rightarrow> bool" where
  "chunk_ok sl s db v = (\<lambda>(i, b, nl). stored_as sl s db i b \<and> um_find (neigs b) v = Some nl)"

definition chunk_slice :: "timeSlicedPartitioning list \<Rightarrow> chunk \<Rightarrow> timeSlicedPartitioning" where
  "chunk_slice sl = (\<lambda>(i, b, nl). slice_at sl (projr (getPartitioningTimestamp b)))"

text \<open>What a reader finds in the master block of a chunk.\<close>

definition master_of :: "timeSlicedPartitioning list \<Rightarrow> schema \<Rightarrow> leveldb \<Rightarrow> vertexId \<Rightarrow> chunk \<Rightarrow> block \<Rightarrow> bool" where
  "master_of sl s db v = (\<lambda>(i, b, nl) m. partitionNo m = Some no_partition \<and> subBlocks m \<noteq> []
     \<and> (\<exists>nl'. um_find (neigs m) v = Some nl' \<and> map toVertex (edges nl') = map toVertex (edges nl) \<and> map tm (edges nl') = map tm (edges nl))
     \<and> (\<exists>t. getPartitioningTimestamp m = Inr t \<and> served_time sl t \<and> chunk_slice sl (i, b, nl) = slice_at sl t)
     \<and> (\<exists>subs. list_all2 (in_store sl s db) (subBlocks m) subs
          \<and> list_all2 (\<lambda>attrs sub. splits (proj_data s attrs \<circ> the_data) b sub) (tsParts (chunk_slice sl (i, b, nl))) subs))"

lemma chunk_facts:
  assumes "chunk_ok sl s db v c"
  shows "block_ok s (fst (snd c))" "um_ok (neigs (fst (snd c)))" "headVertex (snd (snd c)) = v" "edges_of c \<noteq> []"
    "\<And>e. e \<in> set (edges_of c) \<Longrightarrow> full_data s (the_data e)"
proof -
  obtain i b nl where c: "c = (i, b, nl)" by (cases c) auto
  show ok: "block_ok s (fst (snd c))" using assms by (simp add: c chunk_ok_def stored_as_def)
  then show "um_ok (neigs (fst (snd c)))" by (simp add: block_ok_def heads_ok_def)
  have mem: "(v, nl) \<in> set (neigs b)" using assms by (auto simp: c chunk_ok_def dest: map_of_SomeD)
  then show "headVertex (snd (snd c)) = v" "edges_of c \<noteq> []" using ok by (auto simp: c block_ok_def heads_ok_def)
  show "full_data s (the_data e)" if "e \<in> set (edges_of c)" for e
  proof -
    have "(v, e) \<in> set (all_edges (neigs b))" using mem that by (auto simp: c all_edges_mem)
    then show ?thesis using block_okD(2) [of s b v e] ok by (simp add: c)
  qed
qed

lemma read_master:
  assumes "chunk_ok sl s db v c" and "reading sl s db bm"
  shows "\<exists>m bm'. bman_getBlock (fst c) bm = Inr (m, bm') \<and> reading sl s db bm' \<and> master_of sl s db v c m"
proof -
  obtain i b nl where c: "c = (i, b, nl)" by (cases c) auto
  note f = chunk_facts [OF assms(1), unfolded c snd_conv fst_conv]
  from assms(1) obtain t master subs where
    m: "getPartitioningTimestamp b = Inr t" "served_time sl t" "in_store sl s db i master" "partitionNo master = Some no_partition"
      "splits (\<lambda>e. empty_data s) b master" "subBlocks master \<noteq> []" "list_all2 (in_store sl s db) (subBlocks master) subs"
      "list_all2 (\<lambda>attrs sub. splits (proj_data s attrs \<circ> the_data) b sub) (tsParts (slice_at sl t)) subs"
    by (auto simp: c chunk_ok_def stored_as_def)
  obtain m' bm' where r: "bman_getBlock i bm = Inr (m', bm')" "same_block m' master" "reading sl s db bm'"
    using hist_reader.read_stored [OF assms(2) m(3)] by blast
  have sp: "splits (\<lambda>e. empty_data s) b m'" by (rule same_block_splits [OF r(2) m(5)])
  have same: "partitionNo m' = partitionNo master" "subBlocks m' = subBlocks master" using r(2) by (simp_all add: same_block_def)
  have nl: "um_find (neigs b) v = Some nl" using assms(1) by (simp add: c chunk_ok_def)
  from splits_list [OF sp f(2) nl] obtain nl' where "um_find (neigs m') v = Some nl'" "length (edges nl') = length (edges nl)"
      "\<forall>k < length (edges nl). toVertex (edges nl' ! k) = toVertex (edges nl ! k) \<and> tm (edges nl' ! k) = tm (edges nl ! k)" by blast
  then have "um_find (neigs m') v = Some nl' \<and> map toVertex (edges nl') = map toVertex (edges nl) \<and> map tm (edges nl') = map tm (edges nl)"
    by (simp add: list_eq_iff_nth_eq)
  moreover have "getPartitioningTimestamp m' = Inr t" using splits_timestamp(2) [OF sp] m(1) by simp
  moreover have "chunk_slice sl c = slice_at sl t" using m(1) by (simp add: c chunk_slice_def)
  ultimately have "master_of sl s db v c m'"
    unfolding master_of_def c prod.case same using m(2,4,6-8) by auto
  with r(1,3) show ?thesis by (auto simp: c)
qed

section \<open>The partitions read for a chunk\<close>

definition scan_ok :: "timeSlicedPartitioning list \<Rightarrow> schema \<Rightarrow> schemaStats \<Rightarrow> string list \<Rightarrow> bool" where
  "scan_ok sl s st query \<longleftrightarrow> schema_ok s \<and> names_in s query
     \<and> (\<forall>ts \<in> set sl. covers s (tsParts ts) \<and> (\<exists>sz. \<forall>attrs \<in> set (tsParts ts). sized s st sz attrs))"

definition chosen_for :: "schema \<Rightarrow> schemaStats \<Rightarrow> string list \<Rightarrow> timeSlicedPartitioning \<Rightarrow> nat list" where
  "chosen_for s st query ts = projr (recomputePartitionIndices s st query (tsParts ts))"

lemma covers_query: "schema_ok s \<Longrightarrow> names_in s query \<Longrightarrow> covers s part \<Longrightarrow> set query \<subseteq> set (concat part)"
proof
  fix n assume a: "schema_ok s" "names_in s query" "covers s part" "n \<in> set query"
  have n: "n \<in> fst ` set (nameToIndex s)" using a(2,4) by (auto simp: names_in_def)
  then have "attr_index s n \<in> attr_index s ` set (concat part)" using attr_index_find(2) [OF a(1)] a(3) by (simp add: covers_def)
  then obtain n' where n': "n' \<in> set (concat part)" "attr_index s n' = attr_index s n" by (metis imageE)
  then have "n' \<in> fst ` set (nameToIndex s)" using a(3) by (auto simp: covers_def names_in_def)
  then show "n \<in> set (concat part)" using attr_index_find(3) [OF a(1)] n n' by metis
qed

lemma chosen_for_covers:
  assumes "scan_ok sl s st query" "ts \<in> set sl"
  shows "recomputePartitionIndices s st query (tsParts ts) = Inr (chosen_for s st query ts)"
    and "set (chosen_for s st query ts) \<subseteq> {..<length (tsParts ts)}"
    and "set query \<subseteq> held (tsParts ts) (chosen_for s st query ts)"
    and "\<forall>i \<in> set (chosen_for s st query ts). names_in s (tsParts ts ! i)"
proof -
  have c: "schema_ok s" "names_in s query" "covers s (tsParts ts)" and "\<exists>sz. \<forall>attrs \<in> set (tsParts ts). sized s st sz attrs"
    using assms by (auto simp: scan_ok_def)
  then obtain "is" where r: "recomputePartitionIndices s st query (tsParts ts) = Inr is"
      "set is \<subseteq> {..<length (tsParts ts)}" "set query \<subseteq> held (tsParts ts) is"
    using recompute_cover [OF _ covers_query [OF c]] by (force simp: names_in_def)
  then show "recomputePartitionIndices s st query (tsParts ts) = Inr (chosen_for s st query ts)"
    and sub: "set (chosen_for s st query ts) \<subseteq> {..<length (tsParts ts)}"
    and "set query \<subseteq> held (tsParts ts) (chosen_for s st query ts)" by (simp_all add: chosen_for_def)
  show "\<forall>i \<in> set (chosen_for s st query ts). names_in s (tsParts ts ! i)"
    using sub c(3) by (auto simp: covers_def)
qed

section \<open>The iterator at an edge\<close>

text \<open>The partitioning the iterator remembers, if it remembers one, is a slice with the partitions chosen for it.\<close>

definition part_known :: "timeSlicedPartitioning list \<Rightarrow> schema \<Rightarrow> schemaStats \<Rightarrow> edgeIterator \<Rightarrow> bool" where
  "part_known sl s st ei \<longleftrightarrow> partitionIndices ei = []
     \<or> eiPartitioning ei \<in> set sl \<and> partitionIndices ei = chosen_for s st (queryAttributes ei) (eiPartitioning ei)"

definition ei_at :: "timeSlicedPartitioning list \<Rightarrow> schema \<Rightarrow> schemaStats \<Rightarrow> vertexId \<Rightarrow> chunk \<Rightarrow> nat \<Rightarrow> edgeIterator \<Rightarrow> bool" where
  "ei_at sl s st v c k ei \<longleftrightarrow> currentBlock (eiIter ei) = fst c \<and> currentVertex (eiIter ei) = v
     \<and> currentEdgeIndex ei = k \<and> currentNumEdges ei = length (edges_of c) \<and> k < length (edges_of c)
     \<and> chunk_slice sl c \<in> set sl \<and> eiPartitioning ei = chunk_slice sl c
     \<and> partitionIndices ei = chosen_for s st (queryAttributes ei) (chunk_slice sl c)"

lemma find_partitioning_result:
  assumes "scan_ok sl s st (queryAttributes ei)" "reading sl s db bm" "served_time sl t"
  shows "\<exists>bm'. find_partitioning st t ei bm = Inr (ei\<lparr>eiPartitioning := slice_at sl t,
      partitionIndices := chosen_for s st (queryAttributes ei) (slice_at sl t)\<rparr>, bm') \<and> reading sl s db bm'"
    and "slice_at sl t \<in> set sl"
proof -
  have p: "slices_served sl s (pidx bm)" using assms(2) by (simp add: bm_ok_def)
  then show mem: "slice_at sl t \<in> set sl"
    using served_covers(1) assms(3) by (auto simp: slices_served_def pidx_ok_def)
  obtain p' where p': "getTimeSlicedPartitioning t (pidx bm) = Inr (slice_at sl t, p')" "slices_served sl s p'"
    using slices_served_lookup [OF p assms(3)] by blast
  then have "pEdgeSchema p' = s" by (simp add: slices_served_def)
  moreover have "reading sl s db (bm\<lparr>pidx := p'\<rparr>)" using assms(2) p'(2) by (auto simp: bm_ok_def)
  ultimately show "\<exists>bm'. find_partitioning st t ei bm = Inr (ei\<lparr>eiPartitioning := slice_at sl t,
      partitionIndices := chosen_for s st (queryAttributes ei) (slice_at sl t)\<rparr>, bm') \<and> reading sl s db bm'"
    using p'(1) chosen_for_covers(1) [OF assms(1) mem] by (simp add: find_partitioning_def)
qed

text \<open>The partitioning in use after \<open>initFromBlock\<close> is the slice of the block, looked up or remembered.\<close>

lemma refresh_partitioning:
  assumes "scan_ok sl s st (queryAttributes ei)" "reading sl s db bm" "served_time sl t" "part_known sl s st ei"
  shows "\<exists>bm'. (if partitionIndices ei = [] then find_partitioning st t ei bm
            else if dlt t (tsStart (eiPartitioning ei)) \<or> dge t (tsEnd (eiPartitioning ei))
                 then find_partitioning st t ei bm
                 else Inr (ei, bm)) = Inr (ei\<lparr>eiPartitioning := slice_at sl t,
      partitionIndices := chosen_for s st (queryAttributes ei) (slice_at sl t)\<rparr>, bm') \<and> reading sl s db bm'"
proof -
  note f = find_partitioning_result [OF assms(1-3)]
  let ?ts = "eiPartitioning ei"
  show ?thesis
  proof (cases "partitionIndices ei = [] \<or> dlt t (tsStart ?ts) \<or> dge t (tsEnd ?ts)")
    case True
    then show ?thesis using f(1) by auto
  next
    case False
    then have k: "?ts \<in> set sl" "partitionIndices ei = chosen_for s st (queryAttributes ei) ?ts"
      using assms(4) by (auto simp: part_known_def)
    have h: "holds_slices (partDb (pidx bm)) sl" using assms(2) by (simp add: bm_ok_def slices_served_def pidx_ok_def)
    have nan: "\<not> is_nan (tsStart ?ts)" "\<not> is_nan (tsEnd ?ts)" "\<not> is_nan t"
      using tiles_not_nan [of neg_inf sl pos_inf ?ts] h k(1) assms(3) by (auto simp: holds_slices_def served_time_def time_ok_def)
    have "?ts = slice_at sl t"
      using slice_at_unique [OF h assms(3) k(1)] False nan by (simp add: not_dlt not_dle)
    then have "ei = ei\<lparr>eiPartitioning := slice_at sl t, partitionIndices := chosen_for s st (queryAttributes ei) (slice_at sl t)\<rparr>"
      using k(2) by simp
    then show ?thesis using False assms(2) by auto
  qed
qed

lemma initFromBlock_result:
  assumes "scan_ok sl s st (queryAttributes ei)" "reading sl s db bm" "part_known sl s st ei" "chunk_ok sl s db v c"
    and "currentBlock (eiIter ei) = fst c" "currentVertex (eiIter ei) = v"
    and "k = length (takeWhile (\<lambda>e. \<not> dge (tm e) (fStart (eiIter ei))) (edges_of c))" "k < length (edges_of c)"
  shows "\<exists>ei' bm'. initFromBlock st ei bm = Inr (ei', bm') \<and> reading sl s db bm' \<and> ei_at sl s st v c k ei'
    \<and> eiIter ei' = eiIter ei \<and> queryAttributes ei' = queryAttributes ei
    \<and> (eiDone ei' \<longleftrightarrow> eiDone ei \<or> dge (tm (edges_of c ! k)) (fEnd (eiIter ei)))"
proof -
  obtain m bm1 where m: "bman_getBlock (fst c) bm = Inr (m, bm1)" "reading sl s db bm1" "master_of sl s db v c m"
    using read_master [OF assms(4,2)] by blast
  obtain nl' t where n: "um_find (neigs m) v = Some nl'" "map tm (edges nl') = map tm (edges_of c)"
      and t: "getPartitioningTimestamp m = Inr t" "served_time sl t" "chunk_slice sl c = slice_at sl t"
    using m(3) by (cases c) (auto simp: master_of_def)
  have len: "length (edges nl') = length (edges_of c)" using arg_cong [OF n(2), of length] by simp
  have tmk: "tm (edges nl' ! k) = tm (edges_of c ! k)" using arg_cong [OF n(2), of "\<lambda>xs. xs ! k"] len assms(8) by simp
  have tw: "length (takeWhile (\<lambda>e. P (tm e)) es) = length (takeWhile P (map tm es))" for P es by (simp add: takeWhile_map comp_def)
  have k: "length (takeWhile (\<lambda>e. \<not> dge (tm e) (fStart (eiIter ei))) (edges nl')) = k"
    unfolding assms(7) tw [of "\<lambda>t. \<not> dge t (fStart (eiIter ei))"] n(2) ..
  let ?ei = "ei\<lparr>eiPartitioning := slice_at sl t, partitionIndices := chosen_for s st (queryAttributes ei) (slice_at sl t)\<rparr>"
  obtain bm2 where r: "(if partitionIndices ei = [] then find_partitioning st t ei bm1
            else if dlt t (tsStart (eiPartitioning ei)) \<or> dge t (tsEnd (eiPartitioning ei))
                 then find_partitioning st t ei bm1
                 else Inr (ei, bm1)) = Inr (?ei, bm2)" "reading sl s db bm2"
    using refresh_partitioning [OF assms(1) m(2) t(2) assms(3)] by blast
  let ?ei' = "?ei\<lparr>currentNumEdges := length (edges nl'), currentEdgeIndex := k,
     eiDone := eiDone ei \<or> dge (tm (edges nl' ! k)) (fEnd (eiIter ei))\<rparr>"
  have "initFromBlock st ei bm = Inr (?ei', bm2)"
    unfolding initFromBlock_def assms(5,6) m(1) t(1) rbind_simps prod.case r(1) n(1) deref_simps Let_def k
    using assms(8) len by (simp add: getNthOldestEdge_def vec_index_def)
  moreover have "chunk_slice sl c \<in> set sl" using find_partitioning_result(2) [OF assms(1) m(2) t(2)] t(3) by simp
  then have "ei_at sl s st v c k ?ei'" using assms(5,6,8) t(3) len by (simp add: ei_at_def)
  ultimately show ?thesis using r(2) tmk by auto
qed

lemma ei_getEdge_at:
  assumes "ei_at sl s st v c k ei" "chunk_ok sl s db v c" "reading sl s db bm"
  shows "\<exists>e bm'. ei_getEdge ei bm = Inr (e, bm') \<and> reading sl s db bm' \<and> toVertex e = toVertex (edges_of c ! k) \<and> tm e = tm (edges_of c ! k)"
proof -
  obtain m bm1 where m: "bman_getBlock (fst c) bm = Inr (m, bm1)" "reading sl s db bm1" "master_of sl s db v c m"
    using read_master [OF assms(2,3)] by blast
  obtain nl' where n: "um_find (neigs m) v = Some nl'" "map tm (edges nl') = map tm (edges_of c)" "map toVertex (edges nl') = map toVertex (edges_of c)"
    using m(3) by (cases c) (auto simp: master_of_def)
  have k: "k < length (edges_of c)" using assms(1) by (simp add: ei_at_def)
  have len: "length (edges nl') = length (edges_of c)" using arg_cong [OF n(2), of length] by simp
  have "tm (edges nl' ! k) = tm (edges_of c ! k)" "toVertex (edges nl' ! k) = toVertex (edges_of c ! k)"
    using arg_cong [OF n(2), of "\<lambda>xs. xs ! k"] arg_cong [OF n(3), of "\<lambda>xs. xs ! k"] len k by simp_all
  then show ?thesis using m(1,2) n(1) assms(1) len k by (simp add: ei_getEdge_def ei_at_def getNthOldestEdge_def vec_index_def)
qed

lemma merge_subs:
  assumes "ei_at sl s st v c k ei" "chunk_ok sl s db v c" "c = (i, b, nl)"
    and "list_all2 (in_store sl s db) subs blks" "list_all2 (\<lambda>attrs sub. splits (proj_data s attrs \<circ> the_data) b sub) part blks"
    and "set is \<subseteq> {..<length part}" "reading sl s db bm"
  shows "\<exists>bm'. for_each (merge_sub subs ei) is (d, bm) =
     Inr (fold (\<lambda>j. setAttributes (proj_data s (part ! j) (the_data (edges_of c ! k)))) is d, bm') \<and> reading sl s db bm'"
  using assms(6,7)
proof (induction "is" arbitrary: d bm)
  case (Cons j "is")
  have at: "currentVertex (eiIter ei) = v" "currentEdgeIndex ei = k" "k < length (edges nl)"
    using assms(1,3) by (simp_all add: ei_at_def)
  have nl: "um_find (neigs b) v = Some nl" "um_ok (neigs b)" using assms(2,3) chunk_facts(2) [OF assms(2)] by (simp_all add: chunk_ok_def)
  have j: "j < length part" "length subs = length blks" "length part = length blks"
    using Cons.prems(1) assms(4,5) by (auto dest: list_all2_lengthD)
  then have bj: "in_store sl s db (subs ! j) (blks ! j)" "splits (proj_data s (part ! j) \<circ> the_data) b (blks ! j)"
    using assms(4,5) by (auto simp: list_all2_conv_all_nth)
  obtain sub bm1 where sub: "bman_getBlock (subs ! j) bm = Inr (sub, bm1)" "reading sl s db bm1" "same_block sub (blks ! j)"
    using hist_reader.read_stored [OF Cons.prems(2) bj(1)] by blast
  note sp = same_block_splits [OF sub(3) bj(2)]
  from splits_list [OF sp nl(2,1)] at(3) obtain nl' a where
    "um_find (neigs sub) v = Some nl'" "length (edges nl') = length (edges nl)"
    "edata (edges nl' ! k) = Some (a, proj_data s (part ! j) (the_data (edges nl ! k)))" by auto
  then have "merge_sub subs ei j (d, bm) = Inr (setAttributes (proj_data s (part ! j) (the_data (edges_of c ! k))) d, bm1)"
    using sub(1) j at by (simp add: merge_sub_def vec_index_def getNthOldestEdge_def assms(3))
  with Cons.IH [OF _ sub(2)] Cons.prems(1) show ?case by simp
qed simp

lemma ei_getEdgeData_at:
  assumes "ei_at sl s st v c k ei" "chunk_ok sl s db v c" "reading sl s db bm" "scan_ok sl s st (queryAttributes ei)"
  shows "\<exists>bm'. ei_getEdgeData ei bm = Inr (proj_data s (queryAttributes ei) (the_data (edges_of c ! k)), bm') \<and> reading sl s db bm'"
proof -
  obtain i b nl where c: "c = (i, b, nl)" by (cases c) auto
  let ?part = "tsParts (chunk_slice sl c)" and ?is = "chosen_for s st (queryAttributes ei) (chunk_slice sl c)"
  let ?d = "the_data (edges_of c ! k)"
  have at: "partitionIndices ei = ?is" "currentBlock (eiIter ei) = fst c" "k < length (edges_of c)" "chunk_slice sl c \<in> set sl"
    using assms(1) by (simp_all add: ei_at_def)
  note ch = chosen_for_covers [OF assms(4) at(4)]
  obtain m bm1 where m: "bman_getBlock (fst c) bm = Inr (m, bm1)" "reading sl s db bm1" "master_of sl s db v c m"
    using read_master [OF assms(2,3)] by blast
  obtain blks where bl: "partitionNo m = Some no_partition" "subBlocks m \<noteq> []" "list_all2 (in_store sl s db) (subBlocks m) blks"
      "list_all2 (\<lambda>attrs sub. splits (proj_data s attrs \<circ> the_data) b sub) ?part blks"
    using m(3) by (auto simp: master_of_def c)
  have "full_data s ?d" using chunk_facts(5) [OF assms(2)] at(3) by simp
  moreover have q: "schema_ok s" "names_in s (queryAttributes ei)" using assms(4) by (simp_all add: scan_ok_def)
  ultimately obtain d0 where d0: "newAttributeData_of s (queryAttributes ei) = Inr d0"
      "fold (\<lambda>i. setAttributes (proj_data s (?part ! i) ?d)) ?is d0 = proj_data s (queryAttributes ei) ?d"
    using query_record [OF q(1) ch(4) _ q(2) ch(3)] by blast
  have "pEdgeSchema (pidx bm) = s" using store_ok_schema assms(3) by blast
  moreover obtain bm2 where "for_each (merge_sub (subBlocks m) ei) ?is (d0, bm1) = Inr (proj_data s (queryAttributes ei) ?d, bm2)"
      "reading sl s db bm2"
    using merge_subs [OF assms(1,2) c bl(3,4) ch(2) m(2), of d0] d0(2) by auto
  ultimately show ?thesis using m(1) bl(1,2) d0(1) at(1,2) by (simp add: ei_getEdgeData_def)
qed

section \<open>The loop of the clients\<close>

lemma find_partitioning_iter: "find_partitioning st t ei bm = Inr (ei', bm') \<Longrightarrow> eiIter ei' = eiIter ei"
  by (auto simp: find_partitioning_def rbind_Inr_iff)

lemma initFromBlock_iter:
  assumes "initFromBlock st ei bm = Inr (ei', bm')"
  shows "eiIter ei' = eiIter ei"
proof -
  from assms obtain t bm1 ei1 bm2 nlist where
    f: "(if partitionIndices ei = [] then find_partitioning st t ei bm1
            else if dlt t (tsStart (eiPartitioning ei)) \<or> dge t (tsEnd (eiPartitioning ei))
                 then find_partitioning st t ei bm1
                 else Inr (ei, bm1)) = Inr (ei1, bm2)"
    and r: "(let k = length (takeWhile (\<lambda>e. \<not> dge (tm e) (fStart (eiIter ei))) (edges nlist))
       in rbind (assert_that (k < length (edges nlist))) (\<lambda>_.
          rbind (getNthOldestEdge nlist k) (\<lambda>e.
            Inr (ei1\<lparr>currentNumEdges := length (edges nlist), currentEdgeIndex := k,
                     eiDone := eiDone ei1 \<or> dge (tm e) (fEnd (eiIter ei))\<rparr>, bm2)))) = Inr (ei', bm')"
    unfolding initFromBlock_def by - (erule rbind_pairE, erule rbindE, erule rbind_pairE, erule rbindE, blast)
  have "eiIter ei1 = eiIter ei" using f find_partitioning_iter by (metis Pair_inject Inr_inject)
  moreover have "eiIter ei' = eiIter ei1" using r by (auto simp: Let_def rbind_Inr_iff)
  ultimately show ?thesis by simp
qed

lemma ei_next_progress:
  assumes "ei_next st ei bm = Inr (ei', bm')"
  shows "length (dbIter (eiIter ei')) < length (dbIter (eiIter ei))
    \<or> length (dbIter (eiIter ei')) = length (dbIter (eiIter ei))
      \<and> currentNumEdges ei' - currentEdgeIndex ei' < currentNumEdges ei - currentEdgeIndex ei"
proof (cases "currentEdgeIndex ei + 1 < currentNumEdges ei")
  case True
  then show ?thesis using assms by (auto simp: ei_next_def rbind_Inr_iff Let_def)
next
  case False
  with assms obtain it where it: "fiq_next (eiIter ei) = Inr it" "eiIter ei' = it"
    by (auto simp: ei_next_def rbind_Inr_iff Let_def split: if_splits dest: initFromBlock_iter)
  then show ?thesis using fiq_next_shorter by blast
qed

function ei_collect ::
  "schemaStats \<Rightarrow> edgeIterator \<Rightarrow> blockStore \<Rightarrow> ((vertexId \<times> timestamp \<times> attributeData) list \<times> blockStore) result" where
  "ei_collect st ei bm =
     (if ei_isValid ei
      then rbind (ei_getEdge ei bm) (\<lambda>(e, bm1).
           rbind (ei_getEdgeData ei bm1) (\<lambda>(d, bm2).
           rbind (ei_next st ei bm2) (\<lambda>(ei1, bm3).
           rbind (ei_collect st ei1 bm3) (\<lambda>(rest, bm4). Inr ((toVertex e, tm e, d) # rest, bm4)))))
      else Inr ([], bm))"
  by pat_completeness auto
termination
  by (relation "(\<lambda>(_, ei, _). length (dbIter (eiIter ei))) <*mlex*> measure (\<lambda>(_, ei, _). currentNumEdges ei - currentEdgeIndex ei)")
    (auto simp: mlex_iff wf_mlex dest: ei_next_progress)

declare ei_collect.simps [simp del]

definition out_edge :: "schema \<Rightarrow> string list \<Rightarrow> edge \<Rightarrow> vertexId \<times> timestamp \<times> attributeData" where
  "out_edge s query e = (toVertex e, tm e, proj_data s query (the_data e))"

definition chunk_rows :: "chunk list \<Rightarrow> fiqRow list" where
  "chunk_rows cs = map (\<lambda>(i, b, nl). block_row i nl) cs"

text \<open>The iterator at edge \<open>k\<close> of the first of the chunks left, in step with the index.\<close>

definition ei_scans ::
  "timeSlicedPartitioning list \<Rightarrow> schema \<Rightarrow> schemaStats \<Rightarrow> vertexId \<Rightarrow> chunk list \<Rightarrow> fiqRow list \<Rightarrow> nat \<Rightarrow> edgeIterator \<Rightarrow> bool" where
  "ei_scans sl s st v cs others k ei \<longleftrightarrow> cs \<noteq> [] \<and> ei_at sl s st v (hd cs) k ei \<and> fVertex (eiIter ei) = v
     \<and> fiq_at (chunk_rows cs @ others) (eiIter ei)
     \<and> (eiDone ei \<longleftrightarrow> dge (tm (edges_of (hd cs) ! k)) (fEnd (eiIter ei)))"

lemma ei_at_known: "ei_at sl s st v c k ei \<Longrightarrow> part_known sl s st ei"
  by (simp add: ei_at_def part_known_def)

lemma ei_at_step: "ei_at sl s st v c k ei \<Longrightarrow> k + 1 < length (edges_of c) \<Longrightarrow> ei_at sl s st v c (k + 1) (ei\<lparr>currentEdgeIndex := k + 1, eiDone := d\<rparr>)"
  by (simp add: ei_at_def)

lemma fiq_valid_at:
  assumes "fiq_at (chunk_rows cs @ others) it" "\<forall>c \<in> set cs. chunk_ok sl s db v c" "\<forall>r \<in> set others. fst r \<noteq> v" "fVertex it = v"
  shows "fiq_isValid it \<longleftrightarrow> cs \<noteq> [] \<and> dlt (tm (hd (edges_of (hd cs)))) (fEnd it)"
    and "cs \<noteq> [] \<Longrightarrow> currentBlock it = fst (hd cs) \<and> currentVertex it = v"
proof -
  have "headVertex (snd (snd (hd cs))) = v" if "cs \<noteq> []" using chunk_facts(3) assms(2) that by (metis hd_in_set)
  then show "fiq_isValid it \<longleftrightarrow> cs \<noteq> [] \<and> dlt (tm (hd (edges_of (hd cs)))) (fEnd it)"
    and "cs \<noteq> [] \<Longrightarrow> currentBlock it = fst (hd cs) \<and> currentVertex it = v"
    using assms(1,3,4)
    by (cases cs; cases others; auto simp: fiq_at_def fiq_isValid_def chunk_rows_def block_row_def split: prod.splits)+
qed

definition remaining :: "chunk list \<Rightarrow> nat \<Rightarrow> edge list" where
  "remaining cs k = drop k (edges_of (hd cs)) @ concat (map edges_of (tl cs))"

text \<open>What a scan relies on: chunks stored as written, each ordered in time, rows of other vertices after them.\<close>

definition scan_env ::
  "timeSlicedPartitioning list \<Rightarrow> schema \<Rightarrow> leveldb \<Rightarrow> vertexId \<Rightarrow> chunk list \<Rightarrow> fiqRow list \<Rightarrow> bool" where
  "scan_env sl s db v cs others \<longleftrightarrow> (\<forall>c \<in> set cs. chunk_ok sl s db v c \<and> time_sorted (edges_of c)) \<and> (\<forall>r \<in> set others. fst r \<noteq> v)"

lemma scan_env_Cons: "scan_env sl s db v (c # cs) others \<Longrightarrow> scan_env sl s db v cs others"
  by (simp add: scan_env_def)

lemma remaining_Cons:
  "k < length (edges_of (hd cs)) \<Longrightarrow> remaining cs k = edges_of (hd cs) ! k # remaining cs (k + 1)"
  by (simp add: remaining_def Cons_nth_drop_Suc [symmetric])

lemma ei_scans_valid:
  assumes "ei_scans sl s st v cs others k ei" "scan_env sl s db v cs others" "\<not> is_nan (fEnd (eiIter ei))"
  shows "ei_isValid ei \<longleftrightarrow> dlt (tm (edges_of (hd cs) ! k)) (fEnd (eiIter ei))"
proof -
  have cs: "cs \<noteq> []" "hd cs \<in> set cs" and at: "k < length (edges_of (hd cs))" "fiq_at (chunk_rows cs @ others) (eiIter ei)"
      "fVertex (eiIter ei) = v" "eiDone ei \<longleftrightarrow> dge (tm (edges_of (hd cs) ! k)) (fEnd (eiIter ei))"
    using assms(1) by (auto simp: ei_scans_def ei_at_def)
  have ts: "time_sorted (edges_of (hd cs))" using assms(2) cs(2) by (auto simp: scan_env_def)
  have mem: "edges_of (hd cs) ! k \<in> set (edges_of (hd cs))" using at(1) by simp
  have nan: "\<not> is_nan (tm (edges_of (hd cs) ! k))" using ts mem by (simp add: time_sorted_def)
  have "fiq_isValid (eiIter ei) \<longleftrightarrow> dlt (tm (hd (edges_of (hd cs)))) (fEnd (eiIter ei))"
    using fiq_valid_at(1) [OF at(2) _ _ at(3)] assms(2) cs(1) by (auto simp: scan_env_def)
  moreover have "dle (tm (hd (edges_of (hd cs)))) (tm (edges_of (hd cs) ! k))" by (rule time_sorted_bounds(1) [OF ts mem])
  ultimately show ?thesis
    using at(4) not_dle [OF assms(3) nan] dle_dlt_trans by (auto simp: ei_isValid_def)
qed

lemma ei_next_scans:
  assumes "ei_scans sl s st v cs others k ei" "scan_env sl s db v cs others" "reading sl s db bm"
    and "scan_ok sl s st (queryAttributes ei)" "ei_isValid ei" "\<forall>e \<in> set (remaining cs k). dle (fStart (eiIter ei)) (tm e)"
  shows "\<exists>ei' bm'. ei_next st ei bm = Inr (ei', bm') \<and> reading sl s db bm' \<and> queryAttributes ei' = queryAttributes ei
    \<and> fStart (eiIter ei') = fStart (eiIter ei) \<and> fEnd (eiIter ei') = fEnd (eiIter ei)
    \<and> ((\<exists>cs' k'. ei_scans sl s st v cs' others k' ei' \<and> scan_env sl s db v cs' others \<and> remaining cs' k' = remaining cs (k + 1))
       \<or> \<not> ei_isValid ei' \<and> (\<forall>e es. remaining cs (k + 1) = e # es \<longrightarrow> \<not> dlt (tm e) (fEnd (eiIter ei))))"
proof -
  obtain c cs' where cs: "cs = c # cs'" using assms(1) by (cases cs) (auto simp: ei_scans_def)
  have at: "ei_at sl s st v c k ei" "fVertex (eiIter ei) = v" "fiq_at (chunk_rows cs @ others) (eiIter ei)"
    using assms(1) by (simp_all add: ei_scans_def cs)
  have k: "currentEdgeIndex ei = k" "currentNumEdges ei = length (edges_of c)" "k < length (edges_of c)"
    using at(1) by (simp_all add: ei_at_def)
  have c: "chunk_ok sl s db v c" using assms(2) by (simp add: scan_env_def cs)
  show ?thesis
  proof (cases "k + 1 < length (edges_of c)")
    case True
    let ?ei = "ei\<lparr>currentEdgeIndex := k + 1\<rparr>"
    have "ei_at sl s st v c (k + 1) ?ei" using at(1) True by (simp add: ei_at_def)
    from ei_getEdge_at [OF this c assms(3)] obtain e bm1 where
      e: "ei_getEdge ?ei bm = Inr (e, bm1)" "reading sl s db bm1" "tm e = tm (edges_of c ! (k + 1))" by blast
    have nd: "\<not> eiDone ei" using assms(5) by (simp add: ei_isValid_def)
    let ?ei' = "ei\<lparr>currentEdgeIndex := k + 1, eiDone := dge (tm e) (fEnd (eiIter ei))\<rparr>"
    have "ei_next st ei bm = Inr (?ei', bm1)" using e(1) True nd k(1,2) assms(5) by (simp add: ei_next_def)
    moreover have "ei_scans sl s st v cs others (k + 1) ?ei'"
      using ei_at_step [OF at(1) True] at(2,3) e(3) by (simp add: ei_scans_def cs)
    ultimately show ?thesis using e(2) assms(2) by auto
  next
    case False
    have rest: "remaining cs (k + 1) = concat (map edges_of cs')" using False by (simp add: remaining_def cs)
    have "dbIter (eiIter ei\<lparr>dbIter := tl (dbIter (eiIter ei))\<rparr>) = map row_entry (chunk_rows cs' @ others)"
      using at(3) by (simp add: fiq_at_def cs chunk_rows_def)
    from fiq_read_at [OF this] obtain it where it: "fiq_next (eiIter ei) = Inr it" "fiq_at (chunk_rows cs' @ others) it"
        "fVertex it = v" "fEnd it = fEnd (eiIter ei)" "fStart it = fStart (eiIter ei)"
      using assms(5) at(2) by (auto simp: fiq_next_def ei_isValid_def)
    have env: "scan_env sl s db v cs' others" using assms(2) scan_env_Cons by (simp add: cs)
    then have ok: "\<forall>c \<in> set cs'. chunk_ok sl s db v c" "\<forall>r \<in> set others. fst r \<noteq> v" by (auto simp: scan_env_def)
    note valid = fiq_valid_at [OF it(2) ok it(3)]
    let ?ei = "ei\<lparr>currentEdgeIndex := k + 1, eiIter := it\<rparr>"
    have nx: "ei_next st ei bm = (if fiq_isValid it then initFromBlock st ?ei bm else Inr (?ei, bm))"
      using False it(1) k(1,2) assms(5) by (simp add: ei_next_def)
    show ?thesis
    proof (cases "fiq_isValid it")
      case invalid: False
      have "\<not> dlt (tm e) (fEnd (eiIter ei))" if first: "concat (map edges_of cs') = e # es" for e es
      proof -
        obtain c' cs'' where c': "cs' = c' # cs''" using first by (cases cs') auto
        have "edges_of c' \<noteq> []" using chunk_facts(4) [of sl s db v c'] ok(1) c' by simp
        then have "e = hd (edges_of c')" using first by (simp add: c') (metis append_Cons list.collapse list.inject)
        then show ?thesis using invalid valid(1) it(4) by (simp add: c')
      qed
      then show ?thesis using nx invalid it(4,5) rest assms(3) by (simp add: ei_isValid_def)
    next
      case True
      then have "cs' \<noteq> []" using valid(1) by blast
      then obtain c' cs'' where c': "cs' = c' # cs''" unfolding neq_Nil_conv by blast
      have ne: "edges_of c' \<noteq> []" using chunk_facts(4) [of sl s db v c'] ok(1) c' by simp
      have "dle (fStart it) (tm e)" if "e \<in> set (edges_of c')" for e
        using assms(6) that it(5) k(3) by (simp add: remaining_def cs c')
      then have "takeWhile (\<lambda>e. \<not> dge (tm e) (fStart it)) (edges_of c') = []" using ne by (cases "edges_of c'") auto
      then have z: "0 = length (takeWhile (\<lambda>e. \<not> dge (tm e) (fStart (eiIter ?ei))) (edges_of c'))" by simp
      have "part_known sl s st ?ei" using ei_at_known [OF at(1)] by (simp add: part_known_def)
      moreover have "chunk_ok sl s db v c'" using ok(1) c' by simp
      moreover have "currentBlock it = fst c'" "currentVertex it = v" using valid(2) c' by auto
      ultimately obtain ei' bm' where r: "initFromBlock st ?ei bm = Inr (ei', bm')" "reading sl s db bm'" "ei_at sl s st v c' 0 ei'"
          "eiIter ei' = it" "queryAttributes ei' = queryAttributes ei" "eiDone ei' \<longleftrightarrow> eiDone ei \<or> dge (tm (edges_of c' ! 0)) (fEnd it)"
        using initFromBlock_result [of sl s st ?ei bm db v c' 0] assms(3,4) z ne by auto
      have "\<not> eiDone ei" using assms(5) by (simp add: ei_isValid_def)
      then have "ei_scans sl s st v cs' others 0 ei'" using r(3,4,6) it(2,3) by (simp add: ei_scans_def c')
      moreover have "remaining cs' 0 = concat (map edges_of cs')" by (simp add: remaining_def c')
      ultimately show ?thesis using nx True r it(4,5) rest env by auto
    qed
  qed
qed

lemma ei_collect_remaining:
  assumes "ei_scans sl s st v cs others k ei" "scan_env sl s db v cs others" "reading sl s db bm"
    and "scan_ok sl s st (queryAttributes ei)" "\<forall>e \<in> set (remaining cs k). dle (fStart (eiIter ei)) (tm e)" "\<not> is_nan (fEnd (eiIter ei))"
  shows "\<exists>bm'. ei_collect st ei bm = Inr (map (out_edge s (queryAttributes ei)) (takeWhile (\<lambda>e. dlt (tm e) (fEnd (eiIter ei))) (remaining cs k)), bm')
    \<and> reading sl s db bm'"
  using assms
proof (induction "length (remaining cs k)" arbitrary: cs k ei bm rule: less_induct)
  case less
  note p = less.prems
  let ?e = "edges_of (hd cs) ! k"
  have at: "ei_at sl s st v (hd cs) k ei" "chunk_ok sl s db v (hd cs)" and k: "k < length (edges_of (hd cs))"
    using p(1,2) by (auto simp: ei_scans_def ei_at_def scan_env_def)
  note rem = remaining_Cons [OF k]
  show ?case
  proof (cases "dlt (tm ?e) (fEnd (eiIter ei))")
    case False
    then have "\<not> ei_isValid ei" using ei_scans_valid [OF p(1,2,6)] by simp
    then show ?thesis using False p(3) rem by (subst ei_collect.simps) simp
  next
    case True
    then have v: "ei_isValid ei" using ei_scans_valid [OF p(1,2,6)] by simp
    obtain e bm1 where e: "ei_getEdge ei bm = Inr (e, bm1)" "reading sl s db bm1" "toVertex e = toVertex ?e" "tm e = tm ?e"
      using ei_getEdge_at [OF at p(3)] by blast
    obtain bm2 where d: "ei_getEdgeData ei bm1 = Inr (proj_data s (queryAttributes ei) (the_data ?e), bm2)" "reading sl s db bm2"
      using ei_getEdgeData_at [OF at e(2) p(4)] by blast
    obtain ei' bm3 where n: "ei_next st ei bm2 = Inr (ei', bm3)" "reading sl s db bm3" "queryAttributes ei' = queryAttributes ei"
        "fStart (eiIter ei') = fStart (eiIter ei)" "fEnd (eiIter ei') = fEnd (eiIter ei)"
      and more: "(\<exists>cs' k'. ei_scans sl s st v cs' others k' ei' \<and> scan_env sl s db v cs' others \<and> remaining cs' k' = remaining cs (k + 1))
       \<or> \<not> ei_isValid ei' \<and> (\<forall>e es. remaining cs (k + 1) = e # es \<longrightarrow> \<not> dlt (tm e) (fEnd (eiIter ei)))"
      using ei_next_scans [OF p(1,2) d(2) p(4) v p(5)] by blast
    have "\<exists>bm'. ei_collect st ei' bm3 = Inr (map (out_edge s (queryAttributes ei)) (takeWhile (\<lambda>e. dlt (tm e) (fEnd (eiIter ei))) (remaining cs (k + 1))), bm')
        \<and> reading sl s db bm'"
      using more
    proof (elim disjE exE conjE)
      fix cs' k' assume a: "ei_scans sl s st v cs' others k' ei'" "scan_env sl s db v cs' others" "remaining cs' k' = remaining cs (k + 1)"
      have "length (remaining cs' k') < length (remaining cs k)" unfolding a(3) rem by simp
      from less.hyps [OF this a(1,2) n(2)] show ?thesis using p(4-6) n(3-5) a(3) rem by simp
    next
      assume a: "\<not> ei_isValid ei'" "\<forall>e es. remaining cs (k + 1) = e # es \<longrightarrow> \<not> dlt (tm e) (fEnd (eiIter ei))"
      then have "takeWhile (\<lambda>e. dlt (tm e) (fEnd (eiIter ei))) (remaining cs (k + 1)) = []" by (cases "remaining cs (k + 1)") auto
      then show ?thesis using a(1) n(2) by (subst ei_collect.simps) simp
    qed
    then show ?thesis using v e d n(1) True rem by (subst ei_collect.simps) (auto simp: out_edge_def)
  qed
qed

section \<open>The rows of the vertex\<close>

lemma query_chunks:
  assumes "fiq_holds fdb rows" "filter (\<lambda>r. fst r = v) rows = chunk_rows cs" "time_ok start"
  shows "\<exists>it others. fiq_query fdb v start end1 = Inr it \<and> fVertex it = v \<and> fEnd it = end1 \<and> fStart it = start
    \<and> fiq_at (chunk_rows (filter (\<lambda>c. dle start (tm (last (edges_of c)))) cs) @ others) it \<and> (\<forall>r \<in> set others. fst r \<noteq> v)"
proof -
  let ?R = "filter (\<lambda>(v', e, b, s). v < v' \<or> v' = v \<and> dle start e) rows" and ?P = "\<lambda>r :: fiqRow. fst r = v"
  note q = fiq_query_rows [OF assms(1,3), of v]
  have "sorted_wrt (\<lambda>x y. ?P y \<longrightarrow> ?P x) ?R"
    by (rule sorted_wrt_mono_rel [OF _ q(2)]) auto
  note own_first = takeWhile_filter [OF this] dropWhile_sorted [OF this]
  have split: "?R = filter ?P ?R @ filter (\<lambda>r. \<not> ?P r) ?R"
    unfolding own_first [symmetric] by (simp only: takeWhile_dropWhile_id)
  have "filter ?P ?R = filter (\<lambda>r. dle start (fst (snd r))) (filter ?P rows)"
    unfolding filter_filter by (rule filter_cong) auto
  also have "\<dots> = chunk_rows (filter (\<lambda>c. dle start (tm (last (edges_of c)))) cs)"
    unfolding assms(2) chunk_rows_def filter_map
    by (rule arg_cong [where f = "map _"], rule filter_cong) (auto simp: block_row_def)
  finally have own: "filter ?P ?R = chunk_rows (filter (\<lambda>c. dle start (tm (last (edges_of c)))) cs)" .
  obtain it where it: "fiq_query fdb v start end1 = Inr it" "fVertex it = v" "fEnd it = end1" "fStart it = start" "fiq_at ?R it"
    using q(1) [of end1] by blast
  have "fiq_at (filter ?P ?R @ filter (\<lambda>r. \<not> ?P r) ?R) it" using it(5) unfolding split [symmetric] .
  moreover have "\<forall>r \<in> set (filter (\<lambda>r. \<not> ?P r) ?R). fst r \<noteq> v" by simp
  ultimately show ?thesis using it(1-4) unfolding own by blast
qed

lemma time_sorted_append:
  "time_sorted (xs @ ys) \<longleftrightarrow> time_sorted xs \<and> time_sorted ys \<and> (\<forall>x \<in> set xs. \<forall>y \<in> set ys. dle (tm x) (tm y))"
  by (auto simp: time_sorted_def sorted_wrt_append)

lemma time_sorted_concat: "time_sorted (concat (map edges_of cs)) \<Longrightarrow> c \<in> set cs \<Longrightarrow> time_sorted (edges_of c)"
  by (induction cs) (auto simp: time_sorted_append)

lemma time_sorted_filter: "time_sorted (concat (map edges_of cs)) \<Longrightarrow> time_sorted (concat (map edges_of (filter P cs)))"
  by (induction cs) (auto simp: time_sorted_append)

lemma in_range_recent:
  assumes "\<forall>c \<in> set cs. time_sorted (edges_of c)"
  shows "filter (in_range start end1) (concat (map edges_of (filter (\<lambda>c. dle start (tm (last (edges_of c)))) cs)))
    = filter (in_range start end1) (concat (map edges_of cs))"
  using assms
proof (induction cs)
  case (Cons c cs)
  have "filter (in_range start end1) (edges_of c) = []" if "\<not> dle start (tm (last (edges_of c)))"
    using time_sorted_bounds(2) [of "edges_of c"] that Cons.prems dle_trans by (fastforce simp: filter_empty_conv in_range_def)
  then show ?case using Cons by simp
qed simp

lemma in_range_window:
  assumes "time_sorted es" "\<not> is_nan start"
  shows "takeWhile (\<lambda>e. dlt (tm e) end1) (dropWhile (\<lambda>e. \<not> dge (tm e) start) es) = filter (in_range start end1) es"
proof -
  have "sorted_wrt (\<lambda>x y. \<not> dge (tm y) start \<longrightarrow> \<not> dge (tm x) start) es"
    using assms by (auto simp: time_sorted_def elim!: sorted_wrt_mono_rel [rotated] dest: dle_trans)
  from dropWhile_sorted [OF this] have d: "dropWhile (\<lambda>e. \<not> dge (tm e) start) es = filter (\<lambda>e. dge (tm e) start) es" by simp
  have "sorted_wrt (\<lambda>x y. dlt (tm y) end1 \<longrightarrow> dlt (tm x) end1) (filter (\<lambda>e. dge (tm e) start) es)"
    by (rule sorted_wrt_filter) (use assms in \<open>auto simp: time_sorted_def elim!: sorted_wrt_mono_rel [rotated] dest: dle_dlt_trans\<close>)
  from takeWhile_filter [OF this] show ?thesis unfolding d by (simp add: in_range_def conj_commute cong: filter_cong)
qed

lemma EdgeIterator_starts:
  assumes "fiq_at (chunk_rows (c # cs) @ others) it" "scan_env sl s db v (c # cs) others" "fVertex it = v" "fiq_isValid it"
    and "reading sl s db bm" "scan_ok sl s st (fold us_insert names [])" "dle (fStart it) (tm (last (edges_of c)))"
    and "time_sorted (concat (map edges_of (c # cs)))"
  shows "\<exists>ei bm' k. EdgeIterator st it names bm = Inr (ei, bm') \<and> reading sl s db bm' \<and> ei_scans sl s st v (c # cs) others k ei
    \<and> eiIter ei = it \<and> queryAttributes ei = fold us_insert names []
    \<and> remaining (c # cs) k = dropWhile (\<lambda>e. \<not> dge (tm e) (fStart it)) (concat (map edges_of (c # cs)))"
proof -
  let ?P = "\<lambda>e. \<not> dge (tm e) (fStart it)"
  have ok: "\<forall>c \<in> set (c # cs). chunk_ok sl s db v c" "\<forall>r \<in> set others. fst r \<noteq> v" using assms(2) by (auto simp: scan_env_def)
  then have c: "chunk_ok sl s db v c" by simp
  note cur = fiq_valid_at(2) [OF assms(1) ok assms(3)]
  have last: "last (edges_of c) \<in> set (edges_of c)" "\<not> ?P (last (edges_of c))" using chunk_facts(4) [OF c] assms(7) by simp_all
  define k where "k = length (takeWhile ?P (edges_of c))"
  have k: "k < length (edges_of c)"
  proof -
    have "takeWhile ?P (edges_of c) \<noteq> edges_of c" using last by (metis (mono_tags, lifting) set_takeWhileD)
    then show ?thesis unfolding k_def by (metis length_takeWhile_le le_neq_implies_less takeWhile_eq_take take_all_iff order_refl)
  qed
  have "remaining (c # cs) k = dropWhile ?P (concat (map edges_of (c # cs)))"
    using last by (simp add: remaining_def k_def dropWhile_append1 flip: dropWhile_eq_drop)
  moreover let ?ei0 = "\<lparr>eiDone = False, currentEdgeIndex = 0, currentNumEdges = 0, eiPartitioning = TimeSlicedPartitioning,
                partitionIndices = [], eiIter = it, queryAttributes = fold us_insert names []\<rparr>"
  obtain ei bm1 where r: "initFromBlock st ?ei0 bm = Inr (ei, bm1)" "reading sl s db bm1" "ei_at sl s st v c k ei"
      "eiIter ei = it" "queryAttributes ei = fold us_insert names []" "eiDone ei \<longleftrightarrow> dge (tm (edges_of c ! k)) (fEnd it)"
    using initFromBlock_result [of sl s st ?ei0 bm db v c k] assms(5,6) c cur k k_def by (auto simp: part_known_def)
  moreover have "ei_scans sl s st v (c # cs) others k ei" using r(3-6) assms(1,3) by (simp add: ei_scans_def)
  ultimately show ?thesis using assms(4) by (auto simp: EdgeIterator_def)
qed

lemma EdgeIterator_collect:
  assumes "fiq_at (chunk_rows cs @ others) it" "scan_env sl s db v cs others" "fVertex it = v" "reading sl s db bm"
    and "scan_ok sl s st (fold us_insert names [])" "\<forall>c \<in> set cs. dle (fStart it) (tm (last (edges_of c)))"
    and "time_sorted (concat (map edges_of cs))" "\<not> is_nan (fStart it)" "\<not> is_nan (fEnd it)"
  shows "\<exists>ei bm1 bm'. EdgeIterator st it names bm = Inr (ei, bm1)
    \<and> ei_collect st ei bm1 = Inr (map (out_edge s (fold us_insert names [])) (filter (in_range (fStart it) (fEnd it)) (concat (map edges_of cs))), bm')
    \<and> reading sl s db bm'"
proof -
  let ?P = "\<lambda>e. \<not> dge (tm e) (fStart it)" and ?es = "concat (map edges_of cs)"
  have ok: "\<forall>c \<in> set cs. chunk_ok sl s db v c" "\<forall>r \<in> set others. fst r \<noteq> v" using assms(2) by (auto simp: scan_env_def)
  note valid = fiq_valid_at [OF assms(1) ok assms(3)]
  show ?thesis
  proof (cases "fiq_isValid it")
    case False
    have "filter (in_range (fStart it) (fEnd it)) ?es = []"
    proof (cases cs)
      case (Cons c cs')
      have "edges_of c \<noteq> []" using chunk_facts(4) [of sl s db v c] ok(1) by (simp add: Cons)
      then have "hd ?es = hd (edges_of c)" "\<not> dlt (tm (hd (edges_of c))) (fEnd it)" using False valid(1) by (simp_all add: Cons)
      then show ?thesis using time_sorted_bounds(1) [OF assms(7)] dle_dlt_trans by (fastforce simp: filter_empty_conv in_range_def)
    qed simp
    then show ?thesis using False assms(4) by (subst ei_collect.simps) (simp add: EdgeIterator_def Let_def ei_isValid_def)
  next
    case True
    then have "cs \<noteq> []" using valid(1) by blast
    then obtain c cs' where cs: "cs = c # cs'" unfolding neq_Nil_conv by blast
    have last: "dle (fStart it) (tm (last (edges_of c)))" using assms(6) by (simp add: cs)
    obtain ei bm1 k where r: "EdgeIterator st it names bm = Inr (ei, bm1)" "reading sl s db bm1" "ei_scans sl s st v cs others k ei"
        "eiIter ei = it" "queryAttributes ei = fold us_insert names []" "remaining cs k = dropWhile ?P ?es"
      using EdgeIterator_starts [OF assms(1) [unfolded cs] assms(2) [unfolded cs] assms(3) True assms(4,5) last assms(7) [unfolded cs]]
      unfolding cs by blast
    have "sorted_wrt (\<lambda>x y. ?P y \<longrightarrow> ?P x) ?es"
      using assms(7) by (auto simp: time_sorted_def elim!: sorted_wrt_mono_rel [rotated] dest: dle_trans)
    from dropWhile_sorted [OF this] have later: "\<forall>e \<in> set (remaining cs k). dle (fStart (eiIter ei)) (tm e)" unfolding r(4,6) by simp
    obtain bm' where "ei_collect st ei bm1 = Inr (map (out_edge s (fold us_insert names [])) (takeWhile (\<lambda>e. dlt (tm e) (fEnd it)) (dropWhile ?P ?es)), bm')"
        "reading sl s db bm'"
      using ei_collect_remaining [OF r(3) assms(2) r(2) _ later, unfolded r(4-6), OF assms(5,9)] by blast
    then show ?thesis using r(1) unfolding in_range_window [OF assms(7,8)] by blast
  qed
qed

section \<open>The whole query\<close>

lemma focused_query_result:
  assumes "fiq_holds (fiqIndex hg) rows" "filter (\<lambda>r. fst r = qHead q) rows = chunk_rows cs"
    and "\<forall>c \<in> set cs. chunk_ok sl s (blockDb (bman hg)) (qHead q) c" "time_sorted (concat (map edges_of cs))"
    and "store_ok sl s (bman hg)" "scan_ok sl s st (fold us_insert (attributeNames q) [])"
    and "time_ok (qStart q)" "\<not> is_nan (qEnd q)"
  shows "\<exists>ei hg1 bm'. hg_focusedIntervalQuery st q hg = Inr (ei, hg1)
    \<and> ei_collect st ei (bman hg1) = Inr (map (out_edge s (fold us_insert (attributeNames q) []))
        (filter (in_range (qStart q) (qEnd q)) (concat (map edges_of cs))), bm')
    \<and> store_ok sl s bm' \<and> blockDb bm' = blockDb (bman hg)"
proof -
  let ?v = "qHead q" and ?a = "qStart q" and ?db = "blockDb (bman hg)"
  define cs1 where "cs1 = filter (\<lambda>c. dle ?a (tm (last (edges_of c)))) cs"
  have sorted: "time_sorted (concat (map edges_of cs1))" unfolding cs1_def using assms(4) by (rule time_sorted_filter)
  have each: "\<forall>c \<in> set cs. time_sorted (edges_of c)" using time_sorted_concat [OF assms(4)] by blast
  have nan: "\<not> is_nan ?a" using assms(7) by (simp add: time_ok_def)
  obtain it others where it: "fiq_query (fiqIndex hg) ?v ?a (qEnd q) = Inr it" "fVertex it = ?v" "fEnd it = qEnd q" "fStart it = ?a"
      "fiq_at (chunk_rows cs1 @ others) it" "\<forall>r \<in> set others. fst r \<noteq> ?v"
    using query_chunks [OF assms(1,2,7), of "qEnd q"] unfolding cs1_def by blast
  have env: "scan_env sl s ?db ?v cs1 others" using assms(3) each it(6) by (simp add: scan_env_def cs1_def)
  have "\<forall>c \<in> set cs1. dle (fStart it) (tm (last (edges_of c)))" using it(4) by (simp add: cs1_def)
  from EdgeIterator_collect [OF it(5) env it(2) _ assms(6) this sorted, of "bman hg"] assms(5,8) nan it(3,4)
  obtain ei bm1 bm' where r: "EdgeIterator st it (attributeNames q) (bman hg) = Inr (ei, bm1)" "reading sl s ?db bm'"
      "ei_collect st ei bm1 = Inr (map (out_edge s (fold us_insert (attributeNames q) []))
        (filter (in_range ?a (qEnd q)) (concat (map edges_of cs1))), bm')" by auto
  have "hg_focusedIntervalQuery st q hg = Inr (ei, hg\<lparr>bman := bm1\<rparr>)" using it(1) r(1) by (simp add: hg_focusedIntervalQuery_def)
  then show ?thesis using r(2,3) unfolding cs1_def in_range_recent [OF each] by auto
qed

end
