(* ===== verification/HistoricalWrite.thy ===== *)
theory HistoricalWrite
  imports EdgeScan
begin

text \<open>
  Writing blocks to the historical graph (\<open>addBlock\<close>): the block is split under the partitioning of its
  time, the parts and the master block are stored under fresh ids and the master is indexed. The
  invariant relates the store and both indexes to the blocks written so far; over it, the queries
  answer from these blocks.
\<close>

section \<open>The size of a stored block\<close>

definition split_bytes :: "(edge \<Rightarrow> attributeData) \<Rightarrow> block \<Rightarrow> nat" where
  "split_bytes g b = sum_list (map (\<lambda>(h, nl). 12 + sum_list (map (\<lambda>e. 16 + data_size (g e)) (edges nl))) (neigs b))"

lemma edges_enc_length: "length (edges_enc p h es w) \<le> sum_list (map (\<lambda>e. 16 + data_size (the_data e)) es)"
proof (induction es arbitrary: w)
  case (Cons e es)
  from Cons [of "edge_written p h e w"] show ?case by (simp add: edge_enc_def)
qed simp

lemma lists_enc_length: "length (lists_enc p m w) \<le> sum_list (map (\<lambda>(h, nl). 12 + sum_list (map (\<lambda>e. 16 + data_size (the_data e)) (edges nl))) m)"
proof (induction m arbitrary: w)
  case (Cons x m)
  obtain h nl where x: "x = (h, nl)" by force
  from Cons [of "edges_written p h (edges nl) w"] edges_enc_length [of p h "edges nl" w]
  show ?case by (simp add: x list_head_enc_def)
qed simp

lemma block_enc_length: "length (block_enc b p mn mx) \<le> 32 + 8 * length (subBlocks b) + split_bytes the_data b"
  using lists_enc_length [of p "neigs b" "[]"]
  by (simp add: block_enc_def vec_enc_def split_bytes_def length_concat comp_def sum_list_triv)

section \<open>Parts of a block are storable\<close>

lemma splits_edge:
  assumes "splits g b c" "(h, e') \<in> set (all_edges (neigs c))"
  shows "\<exists>e a. (h, e) \<in> set (all_edges (neigs b)) \<and> toVertex e' = toVertex e \<and> tm e' = tm e \<and> edata e' = Some (a, g e)"
proof -
  from assms(2) obtain nl' where nl': "(h, nl') \<in> set (neigs c)" "e' \<in> set (edges nl')" by (auto simp: all_edges_mem)
  then have "(h, map strip (edges nl')) \<in> set (view (neigs c))" by (force simp: view_def)
  then obtain nl where nl: "(h, nl) \<in> set (neigs b)" "map strip (edges nl') = map (\<lambda>e. (toVertex e, tm e, Some (g e))) (edges nl)"
    using assms(1) by (auto simp: splits_def)
  have "strip e' \<in> set (map strip (edges nl'))" using nl'(2) by simp
  then obtain e where "e \<in> set (edges nl)" "strip e' = (toVertex e, tm e, Some (g e))" unfolding nl(2) by auto
  then show ?thesis using nl(1) by (force simp: strip_def all_edges_mem)
qed

lemma splits_bytes: "splits g b c \<Longrightarrow> split_bytes the_data c = split_bytes g b"
proof -
  assume s: "splits g b c"
  let ?sz = "\<lambda>m. sum_list (map (\<lambda>(h, xs). 12 + sum_list (map (\<lambda>(to, t, d). 16 + data_size (the d)) xs)) m)"
  have "the (map_option snd (edata e)) = snd (the (edata e))" if "(h, nl) \<in> set (neigs c)" "e \<in> set (edges nl)" for h nl e
  proof -
    have "(h, e) \<in> set (all_edges (neigs c))" using that by (auto simp: all_edges_mem)
    from splits_edge [OF s this] show ?thesis by auto
  qed
  then have "split_bytes the_data c = ?sz (view (neigs c))"
    unfolding split_bytes_def view_def map_map
    by (intro arg_cong [where f = sum_list] map_cong refl)
      (auto simp: strip_def the_data_def comp_def intro!: arg_cong [where f = sum_list] map_cong)
  also have "\<dots> = split_bytes g b"
    using s unfolding splits_def split_bytes_def by (simp add: comp_def case_prod_beta')
  finally show ?thesis .
qed

lemma splits_lengths:
  assumes "splits g b c" "(h, nl') \<in> set (neigs c)"
  shows "16 * length (edges nl') \<le> split_bytes g b"
proof -
  have "12 + sum_list (map (\<lambda>e. 16 + data_size (the_data e)) (edges nl')) \<le> split_bytes the_data c"
    unfolding split_bytes_def using assms(2) by (intro member_le_sum_list) (force, simp)
  moreover have "16 * length (edges nl') \<le> sum_list (map (\<lambda>e. 16 + data_size (the_data e)) (edges nl'))"
    by (induction "edges nl'") (simp_all add: sum_list_addf sum_list_triv)
  ultimately show ?thesis using splits_bytes [OF assms(1)] by simp
qed

lemma part_storable:
  assumes "schema_ok s" "names_in s (part ! i)" "block_ok s b" "splits (proj_data s (part ! i) \<circ> the_data) b sub"
    and "partitionNo sub = Some (word_of_nat i)" "i < length part" "length part < 2 ^ 32 - 1" "heads_ok (neigs sub)" "subBlocks sub = []"
    and "split_bytes (proj_data s (part ! i) \<circ> the_data) b \<le> 2 ^ 30"
  shows "storable s part (word_of_nat i) sub" and "length (block_enc sub (word_of_nat i) mn mx) \<le> 2 ^ 32"
proof -
  have i: "unat (word_of_nat i :: 32 word) = i" using assms(6,7) by (simp add: unat_of_nat)
  have np: "(word_of_nat i :: 32 word) \<noteq> no_partition"
  proof
    assume "(word_of_nat i :: 32 word) = no_partition"
    then have "word_of_nat (Suc i) = (0 :: 32 word)" by (simp add: no_partition_def)
    then show False using assms(6,7) by (simp add: word_of_nat_eq_0_iff nat_dvd_not_less del: of_nat_Suc)
  qed
  have e: "\<not> is_nan (tm e') \<and> edata e' \<noteq> None \<and> part_data s (part ! i) (the_data e')"
    if e: "(h, e') \<in> set (all_edges (neigs sub))" for h e'
  proof -
    obtain x a where x: "(h, x) \<in> set (all_edges (neigs b))" "tm e' = tm x" "edata e' = Some (a, proj_data s (part ! i) (the_data x))"
      using splits_edge [OF assms(4) e] by auto
    then show ?thesis using block_okD [OF assms(3) x(1)] proj_data_ok [OF assms(1,2)]
      by (simp add: part_data_def the_data_def proj_data_def comp_def)
  qed
  have same: "the_data e2 = the_data e1" if e: "(h1, e1) \<in> set (all_edges (neigs sub))" "(h2, e2) \<in> set (all_edges (neigs sub))"
      "EdgeTriplet_eq (trip h2 e2) (trip h1 e1)" for h1 e1 h2 e2
  proof -
    obtain x1 a1 where 1: "(h1, x1) \<in> set (all_edges (neigs b))" "trip h1 e1 = trip h1 x1" "the_data e1 = proj_data s (part ! i) (the_data x1)"
      using splits_edge [OF assms(4) e(1)] by (auto simp: trip_def the_data_def)
    obtain x2 a2 where 2: "(h2, x2) \<in> set (all_edges (neigs b))" "trip h2 e2 = trip h2 x2" "the_data e2 = proj_data s (part ! i) (the_data x2)"
      using splits_edge [OF assms(4) e(2)] by (auto simp: trip_def the_data_def)
    show ?thesis using block_ok_same [OF assms(3) 1(1) 2(1)] 1 2 e(3) by simp
  qed
  have "length (edges nl) < 2 ^ 32" if "(h, nl) \<in> set (neigs sub)" for h nl
    using splits_lengths [OF assms(4) that] assms(10) by simp
  then have "\<forall>(h, nl) \<in> set (neigs sub). length (edges nl) < 2 ^ 32" by blast
  moreover have "\<forall>(h, e) \<in> set (all_edges (neigs sub)). \<not> is_nan (tm e) \<and> edata e \<noteq> None"
    "\<forall>(h, e) \<in> set (all_edges (neigs sub)). part_data s (part ! i) (the_data e)" using e by (blast, blast)
  moreover have "\<forall>(h, e) \<in> set (all_edges (neigs sub)). \<forall>(h', e') \<in> set (all_edges (neigs sub)).
      EdgeTriplet_eq (trip h' e') (trip h e) \<longrightarrow> the_data e' = the_data e" using same by blast
  ultimately show "storable s part (word_of_nat i) sub"
    unfolding storable_def i if_not_P [OF np] using assms(1,2,5,6,8,9) by (intro conjI) simp_all
  show "length (block_enc sub (word_of_nat i) mn mx) \<le> 2 ^ 32"
    using block_enc_length [of sub "word_of_nat i" mn mx] splits_bytes [OF assms(4)] assms(9,10) by simp
qed

lemma master_storable:
  assumes "block_ok s b" "splits (\<lambda>e. empty_data s) b m" "partitionNo m = Some no_partition" "heads_ok (neigs m)"
    and "subBlocks m \<noteq> []" "length (subBlocks m) < 2 ^ 28" "split_bytes (\<lambda>e. empty_data s) b \<le> 2 ^ 30"
  shows "storable s part no_partition m" and "length (block_enc m no_partition mn mx) \<le> 2 ^ 32"
proof -
  have e: "\<not> is_nan (tm e') \<and> edata e' \<noteq> None \<and> the_data e' = empty_data s" if e: "(h, e') \<in> set (all_edges (neigs m))" for h e'
    using splits_edge [OF assms(2) e] block_okD(1) [OF assms(1)] by (auto simp: the_data_def)
  have "length (edges nl) < 2 ^ 32" if "(h, nl) \<in> set (neigs m)" for h nl
    using splits_lengths [OF assms(2) that] assms(7) by simp
  then have "\<forall>(h, nl) \<in> set (neigs m). length (edges nl) < 2 ^ 32" by blast
  moreover have "\<forall>(h, e) \<in> set (all_edges (neigs m)). \<not> is_nan (tm e) \<and> edata e \<noteq> None"
    "\<forall>(h, e) \<in> set (all_edges (neigs m)). the_data e = empty_data s" using e by (blast, blast)
  ultimately show "storable s part no_partition m"
    unfolding storable_def if_P [OF refl] using assms(3-6) by (intro conjI) simp_all
  show "length (block_enc m no_partition mn mx) \<le> 2 ^ 32"
    using block_enc_length [of m no_partition mn mx] splits_bytes [OF assms(2)] assms(6,7) by simp
qed

section \<open>Storing the parts\<close>

abbreviation part_at :: "timeSlicedPartitioning list \<Rightarrow> timestamp \<Rightarrow> partitioning" where
  "part_at sl t \<equiv> tsParts (slice_at sl t)"

definition can_store :: "timeSlicedPartitioning list \<Rightarrow> schema \<Rightarrow> block \<Rightarrow> bool" where
  "can_store sl s b \<longleftrightarrow> (\<forall>i. bm_storable s (part_at sl) (served_time sl) (b\<lparr>bid := i\<rparr>))"

lemma can_storeI:
  assumes "getPartitioningTimestamp b = Inr t" "served_time sl t" "storable s (part_at sl t) p b"
    and "\<And>mn mx. length (block_enc b p mn mx) \<le> 2 ^ 32"
  shows "can_store sl s b"
proof -
  obtain mn mx where m: "findMinMaxTimestamps b = Inr (mn, mx)" "ddiv (dadd mn mx) d_two = t"
    using assms(1) by (auto simp: getPartitioningTimestamp_def rbind_Inr_iff)
  have "findMinMaxTimestamps (b\<lparr>bid := i\<rparr>) = Inr (mn, mx)" for i using m(1) by (simp add: findMinMaxTimestamps_def)
  moreover have "storable s (part_at sl t) p (b\<lparr>bid := i\<rparr>)" for i using assms(3) by (simp add: storable_def)
  moreover have "length (block_enc (b\<lparr>bid := i\<rparr>) p mn mx) \<le> 2 ^ 32" for i using assms(4) [of mn mx] by (simp add: block_enc_def)
  ultimately show ?thesis unfolding can_store_def bm_storable_def using m(2) assms(2) by blast
qed

text \<open>What the store keeps when blocks are added.\<close>

definition keeps :: "timeSlicedPartitioning list \<Rightarrow> schema \<Rightarrow> leveldb \<Rightarrow> leveldb \<Rightarrow> bool" where
  "keeps sl s db db' \<longleftrightarrow> (\<forall>j blk. in_store sl s db j blk \<longrightarrow> in_store sl s db' j blk)"

lemma keeps_refl [simp]: "keeps sl s db db"
  by (simp add: keeps_def)

lemma keeps_trans: "keeps sl s db db1 \<Longrightarrow> keeps sl s db1 db2 \<Longrightarrow> keeps sl s db db2"
  by (simp add: keeps_def)

lemma keeps_all: "keeps sl s db db' \<Longrightarrow> list_all2 (in_store sl s db) ids blks \<Longrightarrow> list_all2 (in_store sl s db') ids blks"
  by (erule list_all2_mono) (simp add: keeps_def)

lemma stored_as_keeps:
  assumes "keeps sl s db db'" "stored_as sl s db i b"
  shows "stored_as sl s db' i b"
proof -
  from assms(2) obtain t master subs where
    m: "block_ok s b" "getPartitioningTimestamp b = Inr t" "served_time sl t" "in_store sl s db i master" "partitionNo master = Some no_partition"
      "splits (\<lambda>e. empty_data s) b master" "subBlocks master \<noteq> []" "list_all2 (in_store sl s db) (subBlocks master) subs"
      "list_all2 (\<lambda>attrs sub. splits (proj_data s attrs \<circ> the_data) b sub) (part_at sl t) subs"
    unfolding stored_as_def by blast
  have "in_store sl s db' i master" using assms(1) m(4) by (simp add: keeps_def)
  then show ?thesis unfolding stored_as_def using m keeps_all [OF assms(1) m(8)] by blast
qed

text \<open>A sound block store with room for \<open>n\<close> more ids.\<close>

definition room :: "timeSlicedPartitioning list \<Rightarrow> schema \<Rightarrow> nat \<Rightarrow> blockStore \<Rightarrow> bool" where
  "room sl s n bm \<longleftrightarrow> store_ok sl s bm \<and> ids_below bm \<and> unat (nextBlockId bm) + n < 2 ^ 64"

lemma store_one:
  assumes "can_store sl s b" "room sl s (Suc n) bm"
  shows "\<exists>b' bm'. bm_addBlock b True bm = Inr (b', bm') \<and> room sl s n bm' \<and> keeps sl s (blockDb bm) (blockDb bm')
    \<and> in_store sl s (blockDb bm') (bid b') b' \<and> b' = b\<lparr>bid := nextBlockId bm\<rparr>"
proof -
  have r: "store_ok sl s bm" "ids_below bm" "unat (nextBlockId bm) + Suc n < 2 ^ 64" using assms(2) by (auto simp: room_def)
  have suc: "unat (nextBlockId bm + 1) = Suc (unat (nextBlockId bm))" using r(3) by (simp add: unat_word_ariths(1))
  then have nw: "nextBlockId bm \<noteq> - 1" by auto
  have "bm_storable s (part_at sl) (served_time sl) (b\<lparr>bid := nextBlockId bm\<rparr>)" using assms(1) by (simp add: can_store_def)
  from bm_addBlock_new [OF hist_source.partition_source_axioms r(1,2) this nw] obtain bm1 where
    b1: "bm_addBlock b True bm = Inr (b\<lparr>bid := nextBlockId bm\<rparr>, bm1)" "store_ok sl s bm1" "ids_below bm1"
      "keeps sl s (blockDb bm) (blockDb bm1)" "in_store sl s (blockDb bm1) (nextBlockId bm) (b\<lparr>bid := nextBlockId bm\<rparr>)"
      "nextBlockId bm1 = nextBlockId bm + 1" unfolding keeps_def by blast
  moreover have "room sl s n bm1" using b1(2,3,6) r(3) suc by (simp add: room_def)
  ultimately show ?thesis by auto
qed

lemma store_subs:
  assumes "\<forall>sub \<in> set subs. can_store sl s sub" "room sl s (length subs + n) bm"
  shows "\<exists>ids blks bm'. for_each store_sub subs (master, bm) = Inr (master\<lparr>subBlocks := subBlocks master @ ids\<rparr>, bm')
    \<and> room sl s n bm' \<and> keeps sl s (blockDb bm) (blockDb bm') \<and> list_all2 (in_store sl s (blockDb bm')) ids blks
    \<and> map neigs blks = map neigs subs"
  using assms
proof (induction subs arbitrary: master bm)
  case Nil
  then show ?case by (auto intro!: exI [of _ "[]"])
next
  case (Cons sub subs)
  obtain b1 bm1 where b1: "bm_addBlock sub True bm = Inr (b1, bm1)" "room sl s (length subs + n) bm1"
      "keeps sl s (blockDb bm) (blockDb bm1)" "in_store sl s (blockDb bm1) (bid b1) b1" "b1 = sub\<lparr>bid := nextBlockId bm\<rparr>"
    using store_one [of sl s sub "length subs + n" bm] Cons.prems by auto
  let ?m = "addSubBlockId (bid b1) master"
  obtain ids blks bm' where r: "for_each store_sub subs (?m, bm1) = Inr (?m\<lparr>subBlocks := subBlocks ?m @ ids\<rparr>, bm')" "room sl s n bm'"
      "keeps sl s (blockDb bm1) (blockDb bm')" "list_all2 (in_store sl s (blockDb bm')) ids blks" "map neigs blks = map neigs subs"
    using Cons.IH [OF _ b1(2), of ?m] Cons.prems(1) by auto
  have "in_store sl s (blockDb bm') (bid b1) b1" using r(3) b1(4) by (simp add: keeps_def)
  moreover have "store_sub sub (master, bm) = Inr (?m, bm1)" using b1(1) by (simp add: store_sub_def)
  moreover have "neigs b1 = neigs sub" using b1(5) by simp
  ultimately show ?case using r keeps_trans [OF b1(3) r(3)]
    by (intro exI [of _ "bid b1 # ids"] exI [of _ "b1 # blks"] exI [of _ bm']) (simp add: addSubBlockId_def)
qed

section \<open>Splitting and storing a block\<close>

definition slices_ok :: "timeSlicedPartitioning list \<Rightarrow> schema \<Rightarrow> bool" where
  "slices_ok sl s \<longleftrightarrow> schema_ok s \<and> (\<forall>ts \<in> set sl. covers s (tsParts ts) \<and> tsParts ts \<noteq> [] \<and> length (tsParts ts) < 2 ^ 28)"

text \<open>A block that can be written: well formed, with a midpoint time that is not the end of a slice, and no
  part of it near the limits of the buffer.\<close>

definition fits :: "timeSlicedPartitioning list \<Rightarrow> schema \<Rightarrow> block \<Rightarrow> bool" where
  "fits sl s b \<longleftrightarrow> block_ok s b \<and> split_bytes (\<lambda>e. empty_data s) b \<le> 2 ^ 30
     \<and> (\<exists>t. getPartitioningTimestamp b = Inr t \<and> served_time sl t
          \<and> (\<forall>attrs \<in> set (part_at sl t). split_bytes (proj_data s attrs \<circ> the_data) b \<le> 2 ^ 30))"

lemma room_mono: "room sl s m bm \<Longrightarrow> n \<le> m \<Longrightarrow> room sl s n bm"
  by (simp add: room_def)

lemma room_pidx: "room sl s n bm \<Longrightarrow> slices_served sl s p \<Longrightarrow> room sl s n (bm\<lparr>pidx := p\<rparr>)"
  by (simp add: room_def bm_ok_def ids_below_def)

lemma split_block:
  assumes "slices_ok sl s" "fits sl s b" "room sl s n bm"
  shows "\<exists>t master subs p. partitionBlock s getPart b (pidx bm) = Inr (master # subs, p) \<and> room sl s n (bm\<lparr>pidx := p\<rparr>)
    \<and> getPartitioningTimestamp b = Inr t \<and> served_time sl t \<and> length (part_at sl t) < 2 ^ 28 \<and> part_at sl t \<noteq> []
    \<and> partitionNo master = Some no_partition \<and> subBlocks master = [] \<and> heads_ok (neigs master) \<and> splits (\<lambda>e. empty_data s) b master
    \<and> list_all2 (\<lambda>attrs sub. splits (proj_data s attrs \<circ> the_data) b sub) (part_at sl t) subs \<and> (\<forall>sub \<in> set subs. can_store sl s sub)"
proof -
  obtain t where b: "block_ok s b" and t: "getPartitioningTimestamp b = Inr t" "served_time sl t"
      and small: "\<forall>attrs \<in> set (part_at sl t). split_bytes (proj_data s attrs \<circ> the_data) b \<le> 2 ^ 30"
    using assms(2) by (auto simp: fits_def)
  have served: "slices_served sl s (pidx bm)" using assms(3) by (simp add: room_def bm_ok_def)
  then have sl: "slice_at sl t \<in> set sl" using served_covers(1) t(2) by (auto simp: slices_served_def pidx_ok_def)
  then have part: "schema_ok s" "covers s (part_at sl t)" "part_at sl t \<noteq> []" "length (part_at sl t) < 2 ^ 28"
    using assms(1) by (auto simp: slices_ok_def)
  then have names: "\<forall>attrs \<in> set (part_at sl t). names_in s attrs" by (simp add: covers_def)
  obtain p where p: "getPart t (pidx bm) = Inr (part_at sl t, p)" "slices_served sl s p"
    using slices_served_lookup [OF served t(2)] by (auto simp: getPart_def)
  obtain master where m: "master_block s b = Inr master" "partitionNo master = Some no_partition" "subBlocks master = []"
      "heads_ok (neigs master)" "splits (\<lambda>e. empty_data s) b master"
    using master_block_result [OF b] by (auto simp: splits_def)
  obtain subs where s: "map_result (\<lambda>(i, attrs). sub_block s b i attrs) (List.enumerate 0 (part_at sl t)) = Inr subs"
      "list_all2 (\<lambda>attrs sub. splits (proj_data s attrs \<circ> the_data) b sub) (part_at sl t) subs"
      "map partitionNo subs = map (Some \<circ> word_of_nat) [0..<length (part_at sl t)]" "\<forall>sub \<in> set subs. heads_ok (neigs sub) \<and> subBlocks sub = []"
    using map_result_subs [OF part(1) names b, of 0] by auto
  have len: "length subs = length (part_at sl t)" using s(2) by (simp add: list_all2_lengthD)
  have "can_store sl s (subs ! i)" if i: "i < length subs" for i
  proof -
    have il: "i < length (part_at sl t)" and si: "splits (proj_data s (part_at sl t ! i) \<circ> the_data) b (subs ! i)"
      using s(2) i by (auto simp: list_all2_conv_all_nth)
    have pn: "partitionNo (subs ! i) = Some (word_of_nat i)" using arg_cong [OF s(3), of "\<lambda>xs. xs ! i"] i il by simp
    have hs: "heads_ok (neigs (subs ! i))" "subBlocks (subs ! i) = []" using s(4) i by auto
    have ni: "names_in s (part_at sl t ! i)" and sm: "split_bytes (proj_data s (part_at sl t ! i) \<circ> the_data) b \<le> 2 ^ 30"
      using names small il by auto
    have "length (part_at sl t) < 2 ^ 32 - 1" using part(4) by simp
    note st = part_storable [OF part(1) ni b si pn il this hs sm]
    have "getPartitioningTimestamp (subs ! i) = Inr t" using splits_timestamp(2) [OF si] t(1) by simp
    then show ?thesis by (rule can_storeI [OF _ t(2) st])
  qed
  then have "\<forall>sub \<in> set subs. can_store sl s sub" by (metis in_set_conv_nth)
  moreover have "partitionBlock s getPart b (pidx bm) = Inr (master # subs, p)"
    using t(1) p(1) m(1) s(1) by (simp add: partitionBlock_def)
  ultimately show ?thesis using room_pidx [OF assms(3) p(2)] t part(3,4) m(2-5) s(2) by blast
qed

lemma list_all2_neigs:
  assumes "list_all2 (\<lambda>attrs sub. splits (g attrs) b sub) part subs" "map neigs blks = map neigs subs"
  shows "list_all2 (\<lambda>attrs sub. splits (g attrs) b sub) part blks"
  using assms
proof (induction part subs arbitrary: blks rule: list_all2_induct)
  case (Cons attrs part sub subs)
  then obtain c cs where "blks = c # cs" "neigs c = neigs sub" "map neigs cs = map neigs subs" by (cases blks) auto
  then show ?case using Cons by (simp add: splits_def)
qed simp

text \<open>The store half of \<open>addBlock\<close>.\<close>

lemma write_block:
  assumes "slices_ok sl s" "fits sl s b" "room sl s (2 ^ 28 + n) bm"
  shows "\<exists>new p master bm1 m bm2. partitionBlock s getPart b (pidx bm) = Inr (new, p) \<and> 1 < length new
    \<and> for_each store_sub (tl new) (hd new, bm\<lparr>pidx := p\<rparr>) = Inr (master, bm1) \<and> bm_addBlock master True bm1 = Inr (m, bm2)
    \<and> room sl s n bm2 \<and> keeps sl s (blockDb bm) (blockDb bm2) \<and> stored_as sl s (blockDb bm2) (bid m) b
    \<and> splits (\<lambda>e. empty_data s) b m \<and> heads_ok (neigs m)"
proof -
  from split_block [OF assms] obtain t master subs p where
    sp: "partitionBlock s getPart b (pidx bm) = Inr (master # subs, p)" "room sl s (2 ^ 28 + n) (bm\<lparr>pidx := p\<rparr>)"
      "getPartitioningTimestamp b = Inr t" "served_time sl t" "length (part_at sl t) < 2 ^ 28" "part_at sl t \<noteq> []"
      "partitionNo master = Some no_partition" "subBlocks master = []" "heads_ok (neigs master)" "splits (\<lambda>e. empty_data s) b master"
      "list_all2 (\<lambda>attrs sub. splits (proj_data s attrs \<circ> the_data) b sub) (part_at sl t) subs" "\<forall>sub \<in> set subs. can_store sl s sub"
    by blast
  have b: "block_ok s b" "split_bytes (\<lambda>e. empty_data s) b \<le> 2 ^ 30" using assms(2) by (auto simp: fits_def)
  have len: "length subs = length (part_at sl t)" using sp(11) by (simp add: list_all2_lengthD)
  have "room sl s (length subs + Suc n) (bm\<lparr>pidx := p\<rparr>)" by (rule room_mono [OF sp(2)]) (use len sp(5) in simp)
  from store_subs [OF sp(12) this, of master] sp(8) obtain ids blks bm1 where
    st: "for_each store_sub subs (master, bm\<lparr>pidx := p\<rparr>) = Inr (master\<lparr>subBlocks := ids\<rparr>, bm1)" "room sl s (Suc n) bm1"
      "keeps sl s (blockDb bm) (blockDb bm1)" "list_all2 (in_store sl s (blockDb bm1)) ids blks" "map neigs blks = map neigs subs" by auto
  let ?m = "master\<lparr>subBlocks := ids\<rparr>"
  have spm: "splits (\<lambda>e. empty_data s) b ?m" using sp(10) by (simp add: splits_def)
  have ids: "length ids = length subs" using st(4,5) by (metis length_map list_all2_lengthD)
  then have mid: "ids \<noteq> []" "length ids < 2 ^ 28" using len sp(5,6) by auto
  note ms = master_storable [OF b(1) spm _ _ _ _ b(2)]
  have "can_store sl s ?m"
    by (rule can_storeI [OF _ sp(4) ms(1) ms(2)])
      (use splits_timestamp(2) [OF spm] sp(3,7,9) mid in simp_all)
  from store_one [OF this st(2)] obtain m bm2 where m: "bm_addBlock ?m True bm1 = Inr (m, bm2)" "room sl s n bm2"
      "keeps sl s (blockDb bm1) (blockDb bm2)" "in_store sl s (blockDb bm2) (bid m) m" "m = ?m\<lparr>bid := nextBlockId bm1\<rparr>" by auto
  have spm': "splits (\<lambda>e. empty_data s) b m" using spm m(5) by (simp add: splits_def)
  have "list_all2 (\<lambda>attrs sub. splits (proj_data s attrs \<circ> the_data) b sub) (part_at sl t) blks"
    using list_all2_neigs [OF sp(11) st(5)] by blast
  moreover have "list_all2 (in_store sl s (blockDb bm2)) (subBlocks m) blks" using keeps_all [OF m(3) st(4)] m(5) by simp
  moreover have "partitionNo m = Some no_partition" "subBlocks m \<noteq> []" using m(5) sp(7) mid by simp_all
  ultimately have "stored_as sl s (blockDb bm2) (bid m) b" unfolding stored_as_def using b(1) sp(3,4) m(4) spm' by blast
  moreover have "1 < length (master # subs)" using len sp(6) by simp
  moreover have "heads_ok (neigs m)" using m(5) sp(9) by simp
  ultimately show ?thesis using sp(1) st(1) m(1,2) keeps_trans [OF st(3) m(3)] spm'
    by (intro exI [of _ "master # subs"] exI [of _ p] exI [of _ ?m] exI [of _ bm1] exI [of _ m] exI [of _ bm2]) simp
qed

section \<open>The invariant of the historical graph\<close>

text \<open>The abstract state is the list of the blocks written; the stored_history of a vertex is its lists in these blocks,
  one after the other.\<close>

definition list_of :: "vertexId \<Rightarrow> block \<Rightarrow> edge list" where
  "list_of v b = (case um_find (neigs b) v of None \<Rightarrow> [] | Some nl \<Rightarrow> edges nl)"

definition stored_history :: "vertexId \<Rightarrow> block list \<Rightarrow> edge list" where
  "stored_history v bs = concat (map (list_of v) bs)"

text \<open>The edges of a vertex are written in the order of their times.\<close>

definition in_order :: "block list \<Rightarrow> bool" where
  "in_order bs \<longleftrightarrow> (\<forall>v. sorted_wrt (\<lambda>e e'. dlt (tm e) (tm e')) (stored_history v bs) \<and> (\<forall>e \<in> set (stored_history v bs). time_ok (tm e)))"

fun row_from :: "blockId \<Rightarrow> vertexId \<times> timestamp list \<Rightarrow> fiqRow" where
  "row_from i (v, ts) = (v, last ts, i, hd ts)"

fun iv_from :: "blockId \<Rightarrow> vertexId \<times> timestamp list \<Rightarrow> intervalData" where
  "iv_from i (v, ts) = \<lparr>ivBlock = i, ivVertex = v, ivStart = hd ts, ivEnd = last ts\<rparr>"

definition times_of :: "block \<Rightarrow> (vertexId \<times> timestamp list) set" where
  "times_of b = (\<lambda>(v, nl). (v, map tm (edges nl))) ` set (neigs b)"

definition hist_ok ::
  "('rt \<Rightarrow> (region \<times> byte list) set) \<Rightarrow> timeSlicedPartitioning list \<Rightarrow> schema \<Rightarrow> (blockId \<times> block) list \<Rightarrow> 'rt historicalGraph \<Rightarrow> bool" where
  "hist_ok items sl s bs hg \<longleftrightarrow> edgeSchema (hgConf hg) = s \<and> store_ok sl s (bman hg) \<and> ids_below (bman hg)
     \<and> (\<forall>(i, b) \<in> set bs. stored_as sl s (blockDb (bman hg)) i b)
     \<and> (\<exists>rows. fiq_holds (fiqIndex hg) rows \<and> set rows = (\<Union>(i, b) \<in> set bs. row_from i ` times_of b))
     \<and> items (rtidx (iqIndex hg)) = (\<Union>(i, b) \<in> set bs. (\<lambda>l. (data_region (iv_from i l), iv_enc (iv_from i l))) ` times_of b)"

lemma heads_row:
  assumes "heads_ok m" "(v, nl) \<in> set m"
  shows "block_row i nl = row_from i (v, map tm (edges nl))"
    and "\<lparr>ivBlock = i, ivVertex = v, ivStart = tm (hd (edges nl)), ivEnd = tm (last (edges nl))\<rparr> = iv_from i (v, map tm (edges nl))"
  using assms by (auto simp: heads_ok_def block_row_def hd_map last_map)

lemma splits_times_of: "splits g b c \<Longrightarrow> times_of c = times_of b"
  using arg_cong [OF splits_times, of g b c set] by (simp add: times_of_def)

lemma times_in_history:
  assumes "(i, b) \<in> set bs" "(v, ts) \<in> times_of b" "heads_ok (neigs b)"
  shows "set ts \<subseteq> tm ` set (stored_history v (map snd bs))" "ts \<noteq> []"
proof -
  from assms(2) obtain nl where nl: "(v, nl) \<in> set (neigs b)" "ts = map tm (edges nl)" by (auto simp: times_of_def)
  then have "list_of v b = edges nl" "edges nl \<noteq> []" using assms(3) by (auto simp: list_of_def heads_ok_def)
  then show "set ts \<subseteq> tm ` set (stored_history v (map snd bs))" "ts \<noteq> []"
    using assms(1) nl(2) by (force simp: stored_history_def, simp)
qed

lemma in_order_new:
  assumes "in_order (map snd bs @ [b])" "(i', b') \<in> set bs" "(v, ts') \<in> times_of b'" "(v, ts) \<in> times_of b"
    and "heads_ok (neigs b)" "heads_ok (neigs b')"
  shows "dlt (last ts') (last ts)"
proof -
  have new: "last ts \<in> tm ` set (list_of v b)"
    using times_in_history [of 0 b "[(0, b)]" v ts] assms(4,5) by (auto simp: stored_history_def)
  have old: "last ts' \<in> tm ` set (stored_history v (map snd bs))"
    using times_in_history [OF assms(2,3,6)] by auto
  have "sorted_wrt (\<lambda>e e'. dlt (tm e) (tm e')) (stored_history v (map snd bs) @ list_of v b)"
    using assms(1) by (simp add: in_order_def stored_history_def)
  with new old show ?thesis by (auto simp: sorted_wrt_append)
qed

lemma index_block_fiq:
  assumes "fiq_holds db rows" "set rows = (\<Union>(i, b) \<in> set bs. row_from i ` times_of b)" "in_order (map snd bs @ [b])"
    and "splits g b m" "heads_ok (neigs m)" "heads_ok (neigs b)" "\<forall>(i, b) \<in> set bs. heads_ok (neigs b)"
  shows "\<exists>db' rows'. fiq_indexBlock m db = Inr db' \<and> fiq_holds db' rows'
    \<and> set rows' = (\<Union>(i, b) \<in> set (bs @ [(bid m, b)]). row_from i ` times_of b)"
proof -
  have tl: "(v, map tm (edges nl)) \<in> times_of b" if "(v, nl) \<in> set (neigs m)" for v nl
  proof -
    have "(v, map tm (edges nl)) \<in> times_of m" using that by (force simp: times_of_def)
    then show ?thesis using splits_times_of [OF assms(4)] by simp
  qed
  have ok: "time_ok t" if "(v, ts) \<in> times_of b" "t \<in> set ts" for v ts t
    using times_in_history(1) [of "bid m" b "bs @ [(bid m, b)]" v ts] that assms(3,6) by (auto simp: in_order_def)
  have times: "edges nl \<noteq> [] \<and> time_ok (tm (last (edges nl))) \<and> \<not> is_nan (tm (hd (edges nl)))" if "(v, nl) \<in> set (neigs m)" for v nl
  proof -
    have "edges nl \<noteq> []" using assms(5) that by (auto simp: heads_ok_def)
    moreover from this have "tm (last (edges nl)) \<in> set (map tm (edges nl))" "tm (hd (edges nl)) \<in> set (map tm (edges nl))" by auto
    ultimately show ?thesis using ok [OF tl [OF that]] by (auto simp: time_ok_def)
  qed
  have um: "um_ok (neigs m)" "\<forall>(v, nl) \<in> set (neigs m). headVertex nl = v" using assms(5) by (auto simp: heads_ok_def)
  obtain db' rows' where r: "fiq_indexBlock m db = Inr db'" "fiq_holds db' rows'"
      "set rows' = (\<lambda>(v, nl). block_row (bid m) nl) ` set (neigs m) \<union>
        {q \<in> set rows. \<forall>(v, nl) \<in> set (neigs m). fst (row_entry q) \<noteq> fst (row_entry (block_row (bid m) nl))}"
    using fiq_indexBlock_adds [OF assms(1) _ um] times by blast
  have "(\<lambda>(v, nl). block_row (bid m) nl) ` set (neigs m) = row_from (bid m) ` times_of m"
    unfolding times_of_def image_image by (rule image_cong) (auto simp: heads_row(1) [OF assms(5)])
  then have new: "(\<lambda>(v, nl). block_row (bid m) nl) ` set (neigs m) = row_from (bid m) ` times_of b"
    using splits_times_of [OF assms(4)] by simp
  have "fst (row_entry q) \<noteq> fst (row_entry (block_row (bid m) nl))" if q: "q \<in> set rows" and nl: "(v, nl) \<in> set (neigs m)" for q v nl
  proof
    assume eq: "fst (row_entry q) = fst (row_entry (block_row (bid m) nl))"
    from q assms(2) obtain i' b' v' ts' where o: "(i', b') \<in> set bs" "(v', ts') \<in> times_of b'" "q = (v', last ts', i', hd ts')" by auto
    have "v' = v" "last ts' = last (map tm (edges nl))"
      using eq unfolding o(3) heads_row(1) [OF assms(5) nl] by (simp_all add: net_word_eq_iff)
    moreover have "heads_ok (neigs b')" using assms(7) o(1) by auto
    ultimately have "dlt (last (map tm (edges nl))) (last (map tm (edges nl)))"
      using in_order_new [OF assms(3) o(1) _ tl [OF nl] assms(6)] o(2) by metis
    then show False by simp
  qed
  then have "set rows' = row_from (bid m) ` times_of b \<union> set rows" unfolding r(3) new by blast
  then show ?thesis using r(1,2) assms(2) by auto
qed

lemma stored_heads: "\<forall>(i, b) \<in> set bs. stored_as sl s db i b \<Longrightarrow> \<forall>(i, b) \<in> set bs. heads_ok (neigs b)"
  by (auto simp: stored_as_def block_ok_def)

lemma addBlock_result:
  assumes "spatial_index ins hits items" "slices_ok sl s" "hist_ok items sl s bs hg" "room sl s (2 ^ 28 + n) (bman hg)"
    and "fits sl s b" "in_order (map snd bs @ [b])"
  shows "\<exists>i hg'. hg_addBlock ins b hg = Inr hg' \<and> hist_ok items sl s (bs @ [(i, b)]) hg' \<and> room sl s n (bman hg')"
proof -
  obtain rows where h: "edgeSchema (hgConf hg) = s" "\<forall>(i, b) \<in> set bs. stored_as sl s (blockDb (bman hg)) i b" "fiq_holds (fiqIndex hg) rows"
      "set rows = (\<Union>(i, b) \<in> set bs. row_from i ` times_of b)"
      "items (rtidx (iqIndex hg)) = (\<Union>(i, b) \<in> set bs. (\<lambda>l. (data_region (iv_from i l), iv_enc (iv_from i l))) ` times_of b)"
    using assms(3) unfolding hist_ok_def by (elim conjE exE) (rule that)
  obtain new p master bm1 m bm2 where
    w: "partitionBlock s getPart b (pidx (bman hg)) = Inr (new, p)" "1 < length new"
      "for_each store_sub (tl new) (hd new, (bman hg)\<lparr>pidx := p\<rparr>) = Inr (master, bm1)" "bm_addBlock master True bm1 = Inr (m, bm2)"
      "room sl s n bm2" "keeps sl s (blockDb (bman hg)) (blockDb bm2)" "stored_as sl s (blockDb bm2) (bid m) b"
      "splits (\<lambda>e. empty_data s) b m" "heads_ok (neigs m)"
    using write_block [OF assms(2,5,4)] by blast
  have hb: "heads_ok (neigs b)" using assms(5) by (simp add: fits_def block_ok_def)
  obtain db' rows' where f: "fiq_indexBlock m (fiqIndex hg) = Inr db'" "fiq_holds db' rows'"
      "set rows' = (\<Union>(i, b) \<in> set (bs @ [(bid m, b)]). row_from i ` times_of b)"
    using index_block_fiq [OF h(3,4) assms(6) w(8,9) hb stored_heads [OF h(2)]] by blast
  obtain idx' where x: "iq_indexBlock ins m (iqIndex hg) = Inr idx'" "items (rtidx idx') = items (rtidx (iqIndex hg)) \<union> (\<lambda>(v, nl).
        let d = \<lparr>ivBlock = bid m, ivVertex = v, ivStart = tm (hd (edges nl)), ivEnd = tm (last (edges nl))\<rparr>
        in (data_region d, iv_enc d)) ` set (neigs m)"
    using iq_indexBlock_adds [OF assms(1) w(9), of "iqIndex hg"] by blast
  have "(\<lambda>(v, nl). let d = \<lparr>ivBlock = bid m, ivVertex = v, ivStart = tm (hd (edges nl)), ivEnd = tm (last (edges nl))\<rparr>
        in (data_region d, iv_enc d)) ` set (neigs m) = (\<lambda>l. (data_region (iv_from (bid m) l), iv_enc (iv_from (bid m) l))) ` times_of m"
    unfolding times_of_def image_image by (rule image_cong) (auto simp: heads_row(2) [OF w(9)] Let_def simp del: iv_from.simps)
  then have items: "items (rtidx idx') = (\<Union>(i, b) \<in> set (bs @ [(bid m, b)]). (\<lambda>l. (data_region (iv_from i l), iv_enc (iv_from i l))) ` times_of b)"
    unfolding x(2) h(5) splits_times_of [OF w(8)] by auto
  let ?hg = "hg\<lparr>bman := bm2, iqIndex := idx', fiqIndex := db'\<rparr>"
  have "hg_addBlock ins b hg = Inr ?hg"
    unfolding hg_addBlock_def h(1) w(1) using w(2-4) x(1) f(1) by simp
  moreover have "\<forall>(i, b) \<in> set (bs @ [(bid m, b)]). stored_as sl s (blockDb bm2) i b"
    using h(2) stored_as_keeps [OF w(6)] w(7) by auto
  then have "hist_ok items sl s (bs @ [(bid m, b)]) ?hg"
    unfolding hist_ok_def using h(1) w(5) f(2,3) items by (auto simp: room_def)
  ultimately show ?thesis using w(5) by auto
qed

lemma stored_history_append: "stored_history v (bs @ cs) = stored_history v bs @ stored_history v cs"
  by (simp add: stored_history_def)

lemma in_order_prefix: "in_order (bs @ cs) \<Longrightarrow> in_order bs"
  by (simp add: in_order_def stored_history_append sorted_wrt_append ball_Un)

lemma addBlocks_result:
  assumes "spatial_index ins hits items" "slices_ok sl s" "hist_ok items sl s bs hg" "room sl s (length new * 2 ^ 28) (bman hg)"
    and "\<forall>b \<in> set new. fits sl s b" "in_order (map snd bs @ new)"
  shows "\<exists>bs' hg'. for_each (hg_addBlock ins) new hg = Inr hg' \<and> hist_ok items sl s (bs @ bs') hg' \<and> map snd bs' = new"
  using assms(3-6)
proof (induction new arbitrary: bs hg)
  case Nil
  then show ?case by auto
next
  case (Cons b new)
  have "in_order (map snd bs @ [b])" by (rule in_order_prefix [of _ new]) (use Cons.prems(4) in simp)
  moreover have "room sl s (2 ^ 28 + length new * 2 ^ 28) (bman hg)" using Cons.prems(2) by simp
  ultimately obtain i hg1 where h: "hg_addBlock ins b hg = Inr hg1" "hist_ok items sl s (bs @ [(i, b)]) hg1" "room sl s (length new * 2 ^ 28) (bman hg1)"
    using addBlock_result [OF assms(1,2) Cons.prems(1)] Cons.prems(3) by fastforce
  obtain bs' hg' where "for_each (hg_addBlock ins) new hg1 = Inr hg'" "hist_ok items sl s ((bs @ [(i, b)]) @ bs') hg'" "map snd bs' = new"
    using Cons.IH [OF h(2,3)] Cons.prems(3,4) by auto
  then show ?case using h(1) by (intro exI [of _ "(i, b) # bs'"] exI [of _ hg']) simp
qed

section \<open>Queries over the blocks written\<close>

definition chunks :: "vertexId \<Rightarrow> (blockId \<times> block) list \<Rightarrow> chunk list" where
  "chunks v bs = concat (map (\<lambda>(i, b). case um_find (neigs b) v of None \<Rightarrow> [] | Some nl \<Rightarrow> [(i, b, nl)]) bs)"

lemma chunks_history: "concat (map edges_of (chunks v bs)) = stored_history v (map snd bs)"
  by (induction bs) (auto simp: chunks_def stored_history_def list_of_def split: option.splits)

lemma chunks_mem: "(i, b, nl) \<in> set (chunks v bs) \<longleftrightarrow> (i, b) \<in> set bs \<and> um_find (neigs b) v = Some nl"
  by (auto simp: chunks_def split: option.splits)

lemma sorted_unique:
  assumes "sorted_wrt R xs" "sorted_wrt R ys" "set xs = set ys" "\<And>x y. R x y \<Longrightarrow> \<not> R y x"
  shows "xs = ys"
  using assms(1-3)
proof (induction xs arbitrary: ys)
  case (Cons x xs)
  obtain y ys' where y: "ys = y # ys'" using Cons.prems(3) by (cases ys) auto
  have "x = y" using Cons.prems assms(4) unfolding y by (metis list.set_intros(1) set_ConsD sorted_wrt.simps(2))
  moreover have "\<not> R z z" for z using assms(4) by blast
  then have "x \<notin> set xs" "y \<notin> set ys'" using Cons.prems(1,2) by (auto simp: y)
  ultimately have "set xs = set ys'" using Cons.prems(3) by (simp add: y) (metis insert_ident)
  then show ?case using Cons.IH [of ys'] Cons.prems \<open>x = y\<close> by (simp add: y)
qed simp

lemma concat_lasts:
  assumes "sorted_wrt (\<lambda>e e'. R (tm e) (tm e')) (concat (map edges_of cs))" "\<And>i b nl. (i, b, nl) \<in> set cs \<Longrightarrow> edges nl \<noteq> []"
  shows "sorted_wrt (\<lambda>c c'. R (tm (last (edges_of c))) (tm (last (edges_of c')))) cs"
  using assms
proof (induction cs)
  case (Cons c cs)
  have "last (edges_of c') \<in> set (edges_of c')" if "c' \<in> set (c # cs)" for c' using Cons.prems(2) that by (cases c') auto
  moreover have "sorted_wrt (\<lambda>c c'. R (tm (last (edges_of c))) (tm (last (edges_of c')))) cs"
    by (rule Cons.IH) (use Cons.prems in \<open>auto simp: sorted_wrt_append\<close>)
  ultimately show ?case using Cons.prems(1) by (auto simp: sorted_wrt_append)
qed simp

lemma row_keys_sorted: "fiq_holds db rows \<Longrightarrow> sorted_wrt (\<lambda>r r'. fst (row_entry r) < fst (row_entry r')) rows"
  by (auto simp: fiq_holds_def db_ok_def sorted_wrt_map)

lemma rows_of_vertex:
  assumes "fiq_holds db rows" "set rows = (\<Union>(i, b) \<in> set bs. row_from i ` times_of b)"
    and "in_order (map snd bs)" "\<forall>(i, b) \<in> set bs. heads_ok (neigs b)"
  shows "filter (\<lambda>r. fst r = v) rows = chunk_rows (chunks v bs)"
proof (rule sorted_unique [where R = "\<lambda>r r'. fst (row_entry r) < fst (row_entry r')"])
  show "sorted_wrt (\<lambda>r r'. fst (row_entry r) < fst (row_entry r')) (filter (\<lambda>r. fst r = v) rows)"
    using row_keys_sorted [OF assms(1)] by (rule sorted_wrt_filter)
  have c: "headVertex nl = v" "edges nl \<noteq> []" "time_ok (tm (last (edges nl)))" if m: "(i, b, nl) \<in> set (chunks v bs)" for i b nl
  proof -
    have "(i, b) \<in> set bs" "um_find (neigs b) v = Some nl" using m by (simp_all add: chunks_mem)
    then have "(i, b) \<in> set bs" "(v, nl) \<in> set (neigs b)" by (auto dest: map_of_SomeD)
    then show h: "headVertex nl = v" "edges nl \<noteq> []" using assms(4) by (auto simp: heads_ok_def)
    have "last (edges nl) \<in> set (concat (map edges_of (chunks v bs)))" using m h(2) by force
    then show "time_ok (tm (last (edges nl)))" using assms(3) by (auto simp: chunks_history in_order_def)
  qed
  have "sorted_wrt (\<lambda>e e'. dlt (tm e) (tm e')) (concat (map edges_of (chunks v bs)))"
    using assms(3) by (simp add: chunks_history in_order_def)
  then have "sorted_wrt (\<lambda>c c'. dlt (tm (last (edges_of c))) (tm (last (edges_of c')))) (chunks v bs)"
    using c(2) by (rule concat_lasts)
  then show "sorted_wrt (\<lambda>r r'. fst (row_entry r) < fst (row_entry r')) (chunk_rows (chunks v bs))"
    unfolding chunk_rows_def sorted_wrt_map
    by (rule sorted_wrt_mono_rel [rotated]) (auto simp: block_row_def c(1) row_key_less c(3))
  show "set (filter (\<lambda>r. fst r = v) rows) = set (chunk_rows (chunks v bs))"
  proof -
    have um: "um_ok (neigs b)" if "(i, b) \<in> set bs" for i b using assms(4) that by (auto simp: heads_ok_def)
    have "r \<in> set (filter (\<lambda>r. fst r = v) rows) \<longleftrightarrow> (\<exists>i b nl. (i, b) \<in> set bs \<and> (v, nl) \<in> set (neigs b) \<and> r = row_from i (v, map tm (edges nl)))" for r
      unfolding set_filter assms(2) times_of_def by force
    moreover have "r \<in> set (chunk_rows (chunks v bs)) \<longleftrightarrow> (\<exists>i b nl. (i, b) \<in> set bs \<and> (v, nl) \<in> set (neigs b) \<and> r = block_row i nl)" for r
    proof -
      have "(i, b, nl) \<in> set (chunks v bs) \<longleftrightarrow> (i, b) \<in> set bs \<and> (v, nl) \<in> set (neigs b)" for i b nl
        using um [of i b] by (auto simp: chunks_mem dest: map_of_SomeD)
      then show ?thesis by (auto simp: chunk_rows_def image_iff Bex_def)
    qed
    ultimately show ?thesis using heads_row(1) assms(4) by (intro set_eqI) (metis (no_types, lifting) case_prodD)
  qed
qed auto

lemma stored_history_sorted: "in_order bs \<Longrightarrow> time_sorted (stored_history v bs)"
  unfolding in_order_def time_sorted_def time_ok_def
  by (meson dlt_imp_dle sorted_wrt_mono_rel)

text \<open>What the entries of the interval index describe.\<close>

lemma iv_described:
  assumes "(i, b) \<in> set bs" "l \<in> times_of b" "stored_as sl s db i b" "in_order (map snd bs)"
  shows "\<exists>es. describes (in_store sl s db) (iv_from i l) es \<and> map tm es = map tm (list_of (fst l) b)"
proof -
  from assms(3) obtain master where b: "block_ok s b" "in_store sl s db i master" "splits (\<lambda>e. empty_data s) b master"
    unfolding stored_as_def by blast
  from assms(2) obtain v nl where l: "l = (v, map tm (edges nl))" "(v, nl) \<in> set (neigs b)" by (auto simp: times_of_def)
  have h: "um_ok (neigs b)" "edges nl \<noteq> []" using b(1) l(2) by (auto simp: block_ok_def heads_ok_def)
  then have f: "um_find (neigs b) v = Some nl" using l(2) by simp
  obtain nl' where n: "um_find (neigs master) v = Some nl'" "map tm (edges nl') = map tm (edges nl)"
    using splits_list [OF b(3) h(1) f] by (auto simp: list_eq_iff_nth_eq)
  have "set (edges nl) \<subseteq> set (stored_history v (map snd bs))" "list_of v b = edges nl"
    using assms(1) f by (force simp: stored_history_def list_of_def, simp add: list_of_def)
  moreover have "time_sorted (list_of v b)"
  proof -
    obtain pre post where "map snd bs = pre @ b # post" using assms(1) by (metis in_set_conv_decomp list.set_map image_eqI snd_conv)
    then show ?thesis using stored_history_sorted [OF assms(4), of v] by (simp add: stored_history_def time_sorted_append)
  qed
  ultimately have ts: "time_sorted (edges nl')" "list_of v b = edges nl" using n(2) by (simp_all add: time_sorted_tms)
  have "edges nl' \<noteq> []" using h(2) n(2) by auto
  then have "describes (in_store sl s db) (iv_from i l) (edges nl')"
    unfolding describes_def l(1) using b(2) n ts(1) by (auto simp: hd_map last_map simp flip: n(2))
  then show ?thesis using n(2) ts(2) l(1) by auto
qed

text \<open>A block id names one block, up to what readers see of times.\<close>

lemma stored_unique:
  assumes "slices_served sl s p" "stored_as sl s db i b" "stored_as sl s db i b'"
  shows "map tm (list_of v b) = map tm (list_of v b')"
proof -
  have lt: "map tm (list_of v b) = (case um_find (map (\<lambda>(h, nl). (h, map tm (edges nl))) (neigs b)) v of None \<Rightarrow> [] | Some ts \<Rightarrow> ts)" for b
    by (simp add: list_of_def um_find_map split: option.splits)
  obtain m m' where m: "in_store sl s db i m" "splits (\<lambda>e. empty_data s) b m" "in_store sl s db i m'" "splits (\<lambda>e. empty_data s) b' m'"
    using assms(2,3) unfolding stored_as_def by blast
  have "same_block m m'" by (rule on_disk_unique [OF assms(1) m(1,3)])
  then have "splits (\<lambda>e. empty_data s) b' m" by (rule same_block_splits [OF _ m(4)])
  then have "map (\<lambda>(h, nl). (h, map tm (edges nl))) (neigs b) = map (\<lambda>(h, nl). (h, map tm (edges nl))) (neigs b')"
    using splits_times [OF m(2)] splits_times by metis
  then show ?thesis unfolding lt by simp
qed

definition ivs_of :: "(blockId \<times> block) list \<Rightarrow> intervalData set" where
  "ivs_of bs = (\<Union>(i, b) \<in> set bs. iv_from i ` times_of b)"

lemma lists_described:
  assumes "slices_served sl s p" "\<forall>(i, b) \<in> set bs. stored_as sl s db i b" "in_order (map snd bs)"
  shows "\<exists>lst. (\<forall>d \<in> ivs_of bs. describes (in_store sl s db) d (lst d))
    \<and> (\<forall>(i, b) \<in> set bs. \<forall>l \<in> times_of b. map tm (lst (iv_from i l)) = map tm (list_of (fst l) b))"
proof -
  let ?P = "\<lambda>d es. describes (in_store sl s db) d es
     \<and> (\<forall>i b l. (i, b) \<in> set bs \<longrightarrow> l \<in> times_of b \<longrightarrow> d = iv_from i l \<longrightarrow> map tm es = map tm (list_of (fst l) b))"
  have "\<exists>es. ?P d es" if "d \<in> ivs_of bs" for d
  proof -
    from that obtain i b l where d: "(i, b) \<in> set bs" "l \<in> times_of b" "d = iv_from i l" by (auto simp: ivs_of_def)
    have st: "stored_as sl s db i b" using assms(2) d(1) by blast
    obtain es where es: "describes (in_store sl s db) d es" "map tm es = map tm (list_of (fst l) b)"
      using iv_described [OF d(1,2) st assms(3)] d(3) by blast
    have "map tm es = map tm (list_of (fst l') b')" if "(i', b') \<in> set bs" "l' \<in> times_of b'" "d = iv_from i' l'" for i' b' l'
    proof -
      have "i' = i" "fst l' = fst l" using that(3) d(3) by (cases l; cases l'; simp)+
      moreover have "stored_as sl s db i' b'" using assms(2) that(1) by blast
      ultimately show ?thesis using stored_unique [OF assms(1) st] es(2) by metis
    qed
    with es(1) show ?thesis by blast
  qed
  then obtain lst where "\<forall>d \<in> ivs_of bs. ?P d (lst d)" using bchoice [of "ivs_of bs" ?P] by blast
  then show ?thesis by (intro exI [of _ lst]) (auto simp: ivs_of_def)
qed

lemma interval_vertices:
  assumes "\<forall>(i, b) \<in> set bs. \<forall>l \<in> times_of b. map tm (lst (iv_from i l)) = map tm (list_of (fst l) b)"
  shows "{ivVertex d |d. d \<in> ivs_of bs \<and> (\<exists>e \<in> set (lst d). in_range start end1 e)} = {v. \<exists>e \<in> set (stored_history v (map snd bs)). in_range start end1 e}"
    (is "?L = ?R")
proof (intro set_eqI iffI)
  fix v assume "v \<in> ?L"
  then obtain i b l where d: "(i, b) \<in> set bs" "l \<in> times_of b" "v = fst l" "\<exists>e \<in> set (lst (iv_from i l)). in_range start end1 e"
    unfolding ivs_of_def by (auto) (metis fst_conv)
  have "map tm (lst (iv_from i l)) = map tm (list_of v b)" using assms d(1-3) by blast
  then have "\<exists>e \<in> set (list_of v b). in_range start end1 e" using d(4) unfolding in_range_tms by simp
  then show "v \<in> ?R" using d(1) by (force simp: stored_history_def)
next
  fix v assume "v \<in> ?R"
  then obtain i b where b: "(i, b) \<in> set bs" "\<exists>e \<in> set (list_of v b). in_range start end1 e" by (fastforce simp: stored_history_def)
  then obtain nl where nl: "um_find (neigs b) v = Some nl" by (cases "um_find (neigs b) v") (auto simp: list_of_def)
  let ?l = "(v, map tm (edges nl))"
  have l: "?l \<in> times_of b" using nl by (force simp: times_of_def dest: map_of_SomeD)
  then have "map tm (lst (iv_from i ?l)) = map tm (list_of v b)" using assms b(1) by fastforce
  then have "\<exists>e \<in> set (lst (iv_from i ?l)). in_range start end1 e" using b(2) unfolding in_range_tms by simp
  moreover have "iv_from i ?l \<in> ivs_of bs" using b(1) l by (force simp: ivs_of_def)
  moreover have "v = ivVertex (iv_from i ?l)" by simp
  ultimately show "v \<in> ?L" by (intro CollectI exI [of _ "iv_from i ?l"] conjI)
qed

lemma hist_ok_facts:
  assumes "hist_ok items sl s bs hg"
  shows "store_ok sl s (bman hg)" "\<forall>(i, b) \<in> set bs. stored_as sl s (blockDb (bman hg)) i b"
    "items (rtidx (iqIndex hg)) = (\<lambda>d. (data_region d, iv_enc d)) ` ivs_of bs"
proof -
  show "store_ok sl s (bman hg)" "\<forall>(i, b) \<in> set bs. stored_as sl s (blockDb (bman hg)) i b"
    using assms by (simp_all add: hist_ok_def)
  have "items (rtidx (iqIndex hg)) = (\<Union>(i, b) \<in> set bs. (\<lambda>l. (data_region (iv_from i l), iv_enc (iv_from i l))) ` times_of b)"
    using assms unfolding hist_ok_def by blast
  then show "items (rtidx (iqIndex hg)) = (\<lambda>d. (data_region d, iv_enc d)) ` ivs_of bs"
    by (simp add: ivs_of_def image_UN image_image case_prod_unfold)
qed

lemma written_edges_run:
  assumes "spatial_index ins hits items" "slices_ok sl s" "hist_ok items sl s [] hg" "room sl s (length bs * 2 ^ 28) (bman hg)"
    and "\<forall>b \<in> set bs. fits sl s b" "in_order bs"
    and "scan_ok sl s st (fold us_insert (attributeNames q) [])" "time_ok (qStart q)" "\<not> is_nan (qEnd q)"
  shows "\<exists>hg1 ei hg2 bm'. for_each (hg_addBlock ins) bs hg = Inr hg1 \<and> hg_focusedIntervalQuery st q hg1 = Inr (ei, hg2)
    \<and> ei_collect st ei (bman hg2) = Inr (map (out_edge s (fold us_insert (attributeNames q) []))
        (filter (in_range (qStart q) (qEnd q)) (stored_history (qHead q) bs)), bm')"
proof -
  obtain ibs hg1 where w: "for_each (hg_addBlock ins) bs hg = Inr hg1" "hist_ok items sl s ibs hg1" "map snd ibs = bs"
    using addBlocks_result [OF assms(1-5)] assms(6) by auto
  obtain rows where h: "store_ok sl s (bman hg1)" "\<forall>(i, b) \<in> set ibs. stored_as sl s (blockDb (bman hg1)) i b"
      "fiq_holds (fiqIndex hg1) rows" "set rows = (\<Union>(i, b) \<in> set ibs. row_from i ` times_of b)"
    using w(2) unfolding hist_ok_def by (elim conjE exE) (rule that)
  have rows: "filter (\<lambda>r. fst r = qHead q) rows = chunk_rows (chunks (qHead q) ibs)"
    using rows_of_vertex [OF h(3,4) _ stored_heads [OF h(2)]] assms(6) w(3) by simp
  have "\<forall>c \<in> set (chunks (qHead q) ibs). chunk_ok sl s (blockDb (bman hg1)) (qHead q) c"
    using h(2) by (auto simp: chunk_ok_def chunks_mem)
  moreover have "time_sorted (concat (map edges_of (chunks (qHead q) ibs)))"
    using stored_history_sorted [OF assms(6)] w(3) by (simp add: chunks_history)
  ultimately show ?thesis
    using focused_query_result [OF h(3) rows _ _ h(1) assms(7-9)] w(1,3) by (auto simp: chunks_history)
qed

section \<open>Properties\<close>

text \<open>C2: what is written to the historical graph is found by focused queries. Starting from a sound graph
  without blocks, writing any sequence of well-formed blocks in which the edges of a vertex come in the
  order of their times succeeds; a focused interval query afterwards returns exactly the edges of the
  vertex with a time in the range (end exclusive), in time order, each once, from whichever blocks and
  under whatever partitionings they were stored, each with the values of the attributes asked for.\<close>

theorem written_edges_are_found:
  assumes "spatial_index ins hits items" "slices_ok sl s" "hist_ok items sl s [] hg" "room sl s (length bs * 2 ^ 28) (bman hg)"
    and "\<forall>b \<in> set bs. fits sl s b" "in_order bs"
    and "scan_ok sl s st (fold us_insert (attributeNames q) [])" "time_ok (qStart q)" "\<not> is_nan (qEnd q)"
  shows "\<exists>hg1 ei hg2 bm'. for_each (hg_addBlock ins) bs hg = Inr hg1 \<and> hg_focusedIntervalQuery st q hg1 = Inr (ei, hg2)
    \<and> ei_collect st ei (bman hg2) = Inr (map (out_edge s (fold us_insert (attributeNames q) []))
        (filter (in_range (qStart q) (qEnd q)) (stored_history (qHead q) bs)), bm')"
  using assms by (rule written_edges_run)

text \<open>C10: what is written to the historical graph is found by interval queries: after the same writes, an
  interval query shows every vertex that has an edge with a time in the range, and no other, once.\<close>

theorem written_vertices_are_found:
  assumes "spatial_index ins hits items" "slices_ok sl s" "hist_ok items sl s [] hg" "room sl s (length bs * 2 ^ 28) (bman hg)"
    and "\<forall>b \<in> set bs. fits sl s b" "in_order bs" "\<not> is_nan start" "\<not> is_nan end1"
  shows "\<exists>hg1 vi hg2 vs bm'. for_each (hg_addBlock ins) bs hg = Inr hg1 \<and> intervalQuery hits start end1 hg1 = Inr (vi, hg2)
    \<and> vi_collect bman_getBlock vi (bman hg2) = Inr (vs, bm') \<and> distinct vs
    \<and> set vs = {v. \<exists>e \<in> set (stored_history v bs). in_range start end1 e}"
proof -
  obtain ibs hg1 where w: "for_each (hg_addBlock ins) bs hg = Inr hg1" "hist_ok items sl s ibs hg1" "map snd ibs = bs"
    using addBlocks_result [OF assms(1-5)] assms(6) by auto
  note h = hist_ok_facts [OF w(2)]
  have served: "slices_served sl s (pidx (bman hg1))" using h(1) by (simp add: bm_ok_def)
  obtain lst where l: "\<forall>d \<in> ivs_of ibs. describes (in_store sl s (blockDb (bman hg1))) d (lst d)"
      "\<forall>(i, b) \<in> set ibs. \<forall>l \<in> times_of b. map tm (lst (iv_from i l)) = map tm (list_of (fst l) b)"
    using lists_described [OF served h(2)] assms(6) w(3) by blast
  from interval_query_result [OF assms(1) h(3) l(1) h(1) assms(7,8)] obtain vi hg2 vs bm' where
    r: "intervalQuery hits start end1 hg1 = Inr (vi, hg2)" "vi_collect bman_getBlock vi (bman hg2) = Inr (vs, bm')" "distinct vs"
      "set vs = {ivVertex d |d. d \<in> ivs_of ibs \<and> (\<exists>e \<in> set (lst d). in_range start end1 e)}" by blast
  moreover have "{ivVertex d |d. d \<in> ivs_of ibs \<and> (\<exists>e \<in> set (lst d). in_range start end1 e)} = {v. \<exists>e \<in> set (stored_history v bs). in_range start end1 e}"
    using interval_vertices [OF l(2)] w(3) by simp
  ultimately have "set vs = {v. \<exists>e \<in> set (stored_history v bs). in_range start end1 e}" by simp
  then show ?thesis using w(1) r(1-3) by blast
qed

text \<open>The witnesses: an empty graph over the slice with one partition per attribute, and the block with one edge
  in both directions.\<close>

definition ex_hist :: "(region \<times> byte list) list historicalGraph" where
  "ex_hist = \<lparr>hgConf = (Conf ''g'' ''/tmp'' [] [])\<lparr>edgeSchema := ex_schema\<rparr>, bman = BlockManager 2 ex_pidx_one ex_db 1,
     iqIndex = \<lparr>nextId = 1, rtidx = []\<rparr>, fiqIndex = ex_db\<rparr>"

lemma ex_hist_ok: "hist_ok set [ex_slice] ex_schema [] ex_hist" "room [ex_slice] ex_schema (1 * 2 ^ 28) (bman ex_hist)"
  "slices_ok [ex_slice] ex_schema"
proof -
  have bm: "store_ok [ex_slice] ex_schema (bman ex_hist)" "ids_below (bman ex_hist)" "nextBlockId (bman ex_hist) = 1"
    using BlockManager_ok [of 2 ex_db "slices_served [ex_slice] ex_schema" ex_pidx_one] ex_slice_served
    by (simp_all add: ex_hist_def BlockManager_def ids_below_def ex_db_def db_ok_def)
  then show "room [ex_slice] ex_schema (1 * 2 ^ 28) (bman ex_hist)" by (simp add: room_def)
  have "fiq_holds ex_db []" by (simp add: fiq_holds_def ex_db_def db_ok_def)
  then show "hist_ok set [ex_slice] ex_schema [] ex_hist"
    unfolding hist_ok_def using bm by (auto simp: ex_hist_def)
  show "slices_ok [ex_slice] ex_schema"
    using ex_schema_ok ex_covers by (simp add: slices_ok_def ex_slice_def ex_part_def)
qed

lemma ex_block_fits: "fits [ex_slice] ex_schema ex_block" "in_order [ex_block]"
  "stored_history 1 [ex_block] = [ex_edge 2]"
proof -
  have "findMinMaxTimestamps ex_block = Inr (d_one, d_one)"
    by (simp add: findMinMaxTimestamps_def ex_block_def ex_edge_def getOldestEdge_def getNewestEdge_def d_max_def double_eval)
  then have t: "getPartitioningTimestamp ex_block = Inr d_one" by (simp add: getPartitioningTimestamp_def ex_midpoint)
  have small: "data_size (proj_data ex_schema attrs ex_data) \<le> 100" if "attrs \<in> {[''age''], [''nick'']}" for attrs
  proof -
    have "nameToIndex ex_schema = [(''age'', 0), (''nick'', 1)]" by code_simp
    then show ?thesis using that by (auto simp: proj_data_def data_size_def attr_index_def ex_data_fields)
  qed
  have bytes: "split_bytes g ex_block = 56 + data_size (g (ex_edge 2)) + data_size (g (ex_edge 1))" for g
    by (simp add: split_bytes_def ex_block_def)
  have "the_data (ex_edge v) = ex_data" for v by (simp add: ex_edge_def the_data_def)
  then have "split_bytes (proj_data ex_schema attrs \<circ> the_data) ex_block \<le> 2 ^ 30" if "attrs \<in> set ex_part" for attrs
    using small [of attrs] that by (simp add: bytes ex_part_def)
  then show "fits [ex_slice] ex_schema ex_block"
    unfolding fits_def using ex_block_ok t ex_slice_at bytes by auto
  have "time_ok d_one" by (simp add: double_eval)
  then show "in_order [ex_block]"
    by (simp add: in_order_def stored_history_def list_of_def ex_block_def ex_edge_def d_one_def)
  show "stored_history 1 [ex_block] = [ex_edge 2]" by (simp add: stored_history_def list_of_def ex_block_def)
qed

lemma ex_scan_ok: "scan_ok [ex_slice] ex_schema ex_stats [''nick'']"
proof -
  have "nameToIndex ex_schema = [(''age'', 0), (''nick'', 1)]" by code_simp
  then have "names_in ex_schema [''nick'']" by (simp add: names_in_def)
  moreover have "\<exists>sz. sized ex_schema ex_stats sz [''age''] \<and> sized ex_schema ex_stats sz [''nick'']"
    using ex_sized [of "[''age'']"] ex_sized [of "[''nick'']"] by auto
  ultimately show ?thesis using ex_schema_ok ex_covers by (auto simp: scan_ok_def ex_slice_def ex_part_def)
qed

theorem written_edges_are_found_witness:
  "\<exists>hg1 ei hg2 bm'. for_each (hg_addBlock ex_ins) [ex_block] ex_hist = Inr hg1
    \<and> hg_focusedIntervalQuery ex_stats (FocusedIntervalQuery (\<lambda>_. 0) 1 d_one d_two [''nick'']) hg1 = Inr (ei, hg2)
    \<and> ei_collect ex_stats ei (bman hg2) = Inr ([(2, d_one, proj_data ex_schema [''nick''] ex_data)], bm')"
proof -
  let ?q = "FocusedIntervalQuery (\<lambda>_. 0) 1 d_one d_two [''nick'']"
  have q: "fold us_insert (attributeNames ?q) [] = [''nick'']" "qHead ?q = 1" "qStart ?q = d_one" "qEnd ?q = d_two"
    by (simp_all add: FocusedIntervalQuery_def query.extend_def Query_def us_insert_def Let_def)
  have num: "dle d_one d_one" "dlt d_one d_two" "time_ok d_one" "\<not> is_nan d_two" by (simp_all add: double_eval)
  have e: "filter (in_range d_one d_two) [ex_edge 2] = [ex_edge 2]"
    "out_edge ex_schema [''nick''] (ex_edge 2) = (2, d_one, proj_data ex_schema [''nick''] ex_data)"
    using num by (simp_all add: in_range_def ex_edge_def d_one_def out_edge_def the_data_def)
  have b: "room [ex_slice] ex_schema (length [ex_block] * 2 ^ 28) (bman ex_hist)" "\<forall>b \<in> set [ex_block]. fits [ex_slice] ex_schema b"
    using ex_hist_ok(2) ex_block_fits(1) by simp_all
  from written_edges_are_found [OF ex_spatial ex_hist_ok(3,1) b ex_block_fits(2), of ex_stats ?q, unfolded q, OF ex_scan_ok num(3,4)]
  show ?thesis unfolding ex_block_fits(3) e(1) list.map e(2) .
qed

theorem written_vertices_are_found_witness:
  "\<exists>hg1 vi hg2 vs bm'. for_each (hg_addBlock ex_ins) [ex_block] ex_hist = Inr hg1 \<and> intervalQuery ex_hits d_one d_two hg1 = Inr (vi, hg2)
    \<and> vi_collect bman_getBlock vi (bman hg2) = Inr (vs, bm') \<and> 1 \<in> set vs"
proof -
  have num: "dle d_one d_one" "dlt d_one d_two" "\<not> is_nan d_one" "\<not> is_nan d_two" by (simp_all add: double_eval)
  have "in_range d_one d_two (ex_edge 2)" using num by (simp add: in_range_def ex_edge_def d_one_def)
  then have one: "1 \<in> {v. \<exists>e \<in> set (stored_history v [ex_block]). in_range d_one d_two e}" using ex_block_fits(3) by simp
  have b: "room [ex_slice] ex_schema (length [ex_block] * 2 ^ 28) (bman ex_hist)" "\<forall>b \<in> set [ex_block]. fits [ex_slice] ex_schema b"
    using ex_hist_ok(2) ex_block_fits(1) by simp_all
  from written_vertices_are_found [OF ex_spatial ex_hist_ok(3,1) b ex_block_fits(2) num(3,4)] one show ?thesis by blast
qed

end
