(* ===== verification/Collector.thy ===== *)
theory Collector
  imports Workload Config
begin

text \<open>
  The query collector (\<^verbatim>\<open>QueryCollector.h/.cpp\<close>): it assigns each focused query to buckets and keeps one
  workload per bucket. The interaction graph uses the bucketer with one bucket; the bucketer over
  fixed time spans is modelled as well. The \<^verbatim>\<open>std::map\<close> of workloads is a finite map, since its order is
  that of its keys; \<open>base\<close> is the address of the attributes of the edge schema, which the workloads
  point to.
\<close>

section \<open>Operations\<close>

type_synonym bucketId = "64 word"

definition dfmod :: "double \<Rightarrow> double \<Rightarrow> double" where
  "dfmod x y =
     (if is_nan x \<or> is_nan y \<or> is_inf x \<or> dmag y = 0 then d_nan
      else if is_inf y then x
      else let r = \<bar>dval x\<bar> - of_int \<lfloor>\<bar>dval x\<bar> / \<bar>dval y\<bar>\<rfloor> * \<bar>dval y\<bar>
           in with_sign (dneg x) (if r = 0 then 0 else dround_mag r))"

definition dof_int :: "int \<Rightarrow> double" where
  "dof_int i = dround (of_int i)"

definition int_range :: "int \<Rightarrow> bool" where
  "int_range i \<longleftrightarrow> - (2 ^ 31) \<le> i \<and> i < 2 ^ 31"

definition d_to_int :: "double \<Rightarrow> int result" where
  "d_to_int d =
     (let t = (if dval d < 0 then \<lceil>dval d\<rceil> else \<lfloor>dval d\<rfloor>)
      in if is_nan d \<or> is_inf d \<or> \<not> int_range t then Inl UndefinedBehavior else Inr t)"

text \<open>The first and the last bucket of a query are computed by the same expression.\<close>

definition naive_bucket :: "int \<Rightarrow> timestamp \<Rightarrow> int result" where
  "naive_bucket bucketSize t =
     d_to_int (if deq 0 (dfmod t (dof_int bucketSize)) then ddiv t (dof_int bucketSize)
               else dadd (ddiv t (dof_int bucketSize)) d_one)"

partial_function (option) naive_loop :: "int \<Rightarrow> int \<Rightarrow> int \<Rightarrow> bucketId list \<Rightarrow> bucketId list result option" where
  "naive_loop bucketSize lastBucket i bucketIds =
     (if i \<le> lastBucket
      then let bucketIds1 = bucketIds @ [word_of_int i]
           in if int_range (i + bucketSize) then naive_loop bucketSize lastBucket (i + bucketSize) bucketIds1
              else Some (Inl UndefinedBehavior)
      else Some (Inr bucketIds))"

definition naive_getBuckets :: "int \<Rightarrow> query \<Rightarrow> bucketId list result option" where
  "naive_getBuckets bucketSize q =
     (case rbind (naive_bucket bucketSize (qStart q)) (\<lambda>first.
           rbind (naive_bucket bucketSize (qEnd q)) (\<lambda>lst. Inr (first, lst))) of
        Inl err \<Rightarrow> Some (Inl err)
      | Inr (first, lst) \<Rightarrow> naive_loop bucketSize lst first [])"

definition getBuckets :: "query \<Rightarrow> bucketId list" where
  "getBuckets q = [0]"

record queryCollector =
  qcConf :: conf
  workloads :: "bucketId \<rightharpoonup> queryWorkload"

definition QueryCollector :: "conf \<Rightarrow> queryCollector" where
  "QueryCollector c = \<lparr>qcConf = c, workloads = Map.empty\<rparr>"

definition collectIntervalQuery :: "query \<Rightarrow> queryCollector \<Rightarrow> queryCollector result" where
  "collectIntervalQuery q qc = rbind (assert_that False) (\<lambda>_. Inr qc)"

definition collect_into :: "(nat \<Rightarrow> size_t) \<Rightarrow> nat \<Rightarrow> query \<Rightarrow> bucketId \<Rightarrow> queryCollector \<Rightarrow> queryCollector result" where
  "collect_into hp base q i qc =
     (case workloads qc i of
        Some w \<Rightarrow> rbind (addQuery hp q w) (\<lambda>w1. Inr (qc\<lparr>workloads := (workloads qc)(i \<mapsto> w1)\<rparr>))
      | None \<Rightarrow>
          rbind (addQuery hp q (QueryWorkload base (attributes (edgeSchema (qcConf qc))))) (\<lambda>w1.
            Inr (qc\<lparr>workloads := (workloads qc)(i \<mapsto> w1)\<rparr>)))"

definition collectFocusedIntervalQuery :: "(nat \<Rightarrow> size_t) \<Rightarrow> nat \<Rightarrow> query \<Rightarrow> queryCollector \<Rightarrow> queryCollector result" where
  "collectFocusedIntervalQuery hp base q qc = for_each (collect_into hp base q) (getBuckets q) qc"

definition qc_reset :: "queryCollector \<Rightarrow> queryCollector" where
  "qc_reset qc = qc\<lparr>workloads := Map.empty\<rparr>"

section \<open>Buckets of fixed spans\<close>

lemma naive_loop_ids:
  assumes "0 < bs" "lst + bs < 2 ^ 31" "- (2 ^ 31) \<le> i"
  shows "naive_loop bs lst i acc = Some (Inr (acc @ map (\<lambda>k. word_of_int (i + int k * bs)) [0..<nat ((lst - i) div bs + 1)]))"
  using assms(3)
proof (induction "nat (lst + 1 - i)" arbitrary: i acc rule: less_induct)
  case less
  show ?case
  proof (cases "i \<le> lst")
    case True
    let ?n = "nat ((lst - (i + bs)) div bs + 1)"
    have div: "(lst - i) div bs = (lst - (i + bs)) div bs + 1"
      using assms(1) div_add_self2 [of bs "lst - (i + bs)"] by simp
    have "(0 :: int) \<le> (lst - i) div bs" using True assms(1) by (simp add: pos_imp_zdiv_nonneg_iff)
    then have n: "nat ((lst - i) div bs + 1) = Suc ?n" using div by simp
    have "int_range (i + bs)" using True assms(1,2) less.prems by (simp add: int_range_def)
    then have "naive_loop bs lst i acc = naive_loop bs lst (i + bs) (acc @ [word_of_int i])"
      using True by (subst naive_loop.simps) (simp add: Let_def)
    also have "\<dots> = Some (Inr ((acc @ [word_of_int i]) @ map (\<lambda>k. word_of_int (i + bs + int k * bs)) [0..<?n]))"
      using True assms(1) less.prems by (intro less.hyps) auto
    also have "(acc @ [word_of_int i]) @ map (\<lambda>k. word_of_int (i + bs + int k * bs)) [0..<?n]
        = acc @ map (\<lambda>k. word_of_int (i + int k * bs)) [0..<Suc ?n]"
      unfolding upt_conv_Cons [OF zero_less_Suc] map_Suc_upt [symmetric] list.map map_map
      by (simp add: comp_def algebra_simps del: upt_Suc)
    finally show ?thesis unfolding n .
  next
    case False
    then have "(lst - i) div bs < 0" using assms(1) by (simp add: neg_imp_zdiv_neg_iff pos_imp_zdiv_neg_iff)
    then show ?thesis using False by (subst naive_loop.simps) simp
  qed
qed

section \<open>What the collector holds\<close>

text \<open>\<open>collected qc hist\<close>: the only workload is that of bucket zero, and it stands for the queries since the
  last reset.\<close>

definition collected :: "(nat \<Rightarrow> size_t) \<Rightarrow> nat \<Rightarrow> string list list \<Rightarrow> queryCollector \<Rightarrow> bool" where
  "collected hp base hist qc \<longleftrightarrow>
     (if hist = [] then workloads qc = Map.empty
      else \<exists>w. workloads qc = [0 \<mapsto> w] \<and> records hp w hist
        \<and> nameToAttribute w = nameToAttribute (QueryWorkload base (attributes (edgeSchema (qcConf qc)))))"

lemma collect_one:
  assumes "collected hp base hist qc" "sorted (attributeNames q)" "length hist + 1 < 2 ^ 53"
    and "set (attributeNames q) \<subseteq> attrName ` set (attributes (edgeSchema (qcConf qc)))"
  shows "\<exists>qc'. collectFocusedIntervalQuery hp base q qc = Inr qc' \<and> qcConf qc' = qcConf qc
    \<and> collected hp base (hist @ [attributeNames q]) qc'"
proof -
  let ?w0 = "QueryWorkload base (attributes (edgeSchema (qcConf qc)))"
  have known: "known ?w0 (attributeNames q)" using assms(4) by (rule known_names)
  define w where "w = (case workloads qc 0 of Some w \<Rightarrow> w | None \<Rightarrow> ?w0)"
  have w: "records hp w hist" "nameToAttribute w = nameToAttribute ?w0" "workloads qc = Map.empty \<or> workloads qc = [0 \<mapsto> w]"
    using assms(1) QueryWorkload_records [of hp base] by (auto simp: collected_def w_def split: if_splits)
  have "\<exists>w'. for_each (addQuery hp) [q] w = Inr w' \<and> records hp w' (hist @ map attributeNames [q]) \<and> nameToAttribute w' = nameToAttribute w"
    using assms(2,3) known w(1,2) by (intro addQuery_all) (simp_all add: known_def)
  then obtain w' where w': "addQuery hp q w = Inr w'" "records hp w' (hist @ [attributeNames q])" "nameToAttribute w' = nameToAttribute ?w0"
    using w(2) by (auto simp: rbind_Inr_iff)
  have "collectFocusedIntervalQuery hp base q qc = Inr (qc\<lparr>workloads := (workloads qc)(0 \<mapsto> w')\<rparr>)"
    using w'(1) by (auto simp: collectFocusedIntervalQuery_def getBuckets_def collect_into_def w_def split: option.splits)
  moreover have "(workloads qc)(0 \<mapsto> w') = [0 \<mapsto> w']" using w(3) by auto
  ultimately show ?thesis using w'(2,3) by (auto simp: collected_def)
qed

lemma collect_all:
  assumes "collected hp base hist qc" "length hist + length qs < 2 ^ 53"
    and "\<forall>q \<in> set qs. sorted (attributeNames q) \<and> set (attributeNames q) \<subseteq> attrName ` set (attributes (edgeSchema (qcConf qc)))"
  shows "\<exists>qc'. for_each (collectFocusedIntervalQuery hp base) qs qc = Inr qc' \<and> qcConf qc' = qcConf qc
    \<and> collected hp base (hist @ map attributeNames qs) qc'"
  using assms
proof (induction qs arbitrary: qc hist)
  case (Cons q qs)
  obtain qc1 where qc1: "collectFocusedIntervalQuery hp base q qc = Inr qc1" "qcConf qc1 = qcConf qc" "collected hp base (hist @ [attributeNames q]) qc1"
    using collect_one [OF Cons.prems(1), of q] Cons.prems(2,3) by auto
  from Cons.IH [OF qc1(3)] Cons.prems(2,3) qc1(1,2) show ?case by auto
qed simp

section \<open>Properties\<close>

text \<open>C22: the collector is a frequency table of the focused queries since its last reset. All queries over
  attributes of the edge schema are accepted; afterwards there is one workload, in bucket zero, whose
  summaries are the lists of attribute names asked for in the order of first use, and the frequency of
  each is its share of the queries.\<close>

theorem collector_frequencies:
  assumes "qs \<noteq> []" "length qs < 2 ^ 53"
    and "\<forall>q \<in> set qs. sorted (attributeNames q) \<and> set (attributeNames q) \<subseteq> attrName ` set (attributes (edgeSchema (qcConf qc)))"
  shows "\<exists>qc' w. for_each (collectFocusedIntervalQuery hp base) qs (qc_reset qc) = Inr qc' \<and> workloads qc' = [0 \<mapsto> w]
    \<and> map snd (summaries w) = wlQueries w \<and> um_keys (summaries w) = rev (remdups (rev (map attributeNames qs)))
    \<and> (\<forall>(ns, s) \<in> set (summaries w). mset (map (\<lambda>p. attrName (snd p)) (sumAttributes s)) = mset ns
        \<and> getFrequency w s = Inr (ddiv (dof_nat (count_list (map attributeNames qs) ns)) (dof_nat (length qs))))"
proof -
  let ?log = "map attributeNames qs"
  have "collected hp base [] (qc_reset qc)" "qcConf (qc_reset qc) = qcConf qc" by (simp_all add: collected_def qc_reset_def)
  from collect_all [OF this(1), of qs] this(2) assms obtain qc' where
    qc': "for_each (collectFocusedIntervalQuery hp base) qs (qc_reset qc) = Inr qc'" "collected hp base ?log qc'" by auto
  then obtain w where w: "workloads qc' = [0 \<mapsto> w]" "records hp w ?log" using assms(1) by (auto simp: collected_def)
  have keys: "um_keys (summaries w) = rev (remdups (rev ?log))" and qs: "wlQueries w = map snd (summaries w)"
    and sums: "\<forall>(ns, s) \<in> set (summaries w). s = summary_for hp w ns" and nk: "names_known w"
    and lg: "\<forall>ns \<in> set ?log. sorted ns \<and> known w ns"
    and cnt: "\<forall>ns \<in> set ?log. um_find (counts w) (summary_for hp w ns) = Some (dof_nat (count_list ?log ns))"
    and tot: "totalQueries w = dof_nat (length ?log)"
    using w(2) unfolding records_def by blast+
  have "mset (map (\<lambda>p. attrName (snd p)) (sumAttributes s)) = mset ns
      \<and> getFrequency w s = Inr (ddiv (dof_nat (count_list ?log ns)) (dof_nat (length qs)))" if s: "(ns, s) \<in> set (summaries w)" for ns s
  proof -
    have "ns \<in> set (um_keys (summaries w))" using s by force
    then have ns: "ns \<in> set ?log" unfolding keys by simp
    have "s = summary_for hp w ns" using sums s by blast
    moreover have "known w ns" using lg ns by blast
    moreover have "um_find (counts w) (summary_for hp w ns) = Some (dof_nat (count_list ?log ns))" using cnt ns by blast
    ultimately show ?thesis using summary_for_names [OF nk, of ns hp] tot by (simp add: getFrequency_def)
  qed
  then have "\<forall>(ns, s) \<in> set (summaries w). mset (map (\<lambda>p. attrName (snd p)) (sumAttributes s)) = mset ns
        \<and> getFrequency w s = Inr (ddiv (dof_nat (count_list ?log ns)) (dof_nat (length qs)))" by blast
  then show ?thesis using qc'(1) w(1) keys qs by (intro exI [of _ qc'] exI [of _ w] conjI) simp_all
qed

theorem collector_frequencies_witness:
  "\<exists>qc' w. for_each (collectFocusedIntervalQuery of_nat 100) [Query (\<lambda>_. 3) 0 d_one [''x''], Query (\<lambda>_. 3) 0 d_one [''x'']]
      (qc_reset (QueryCollector (Conf ''g'' ''/tmp'' [] [(''x'', INT64)]))) = Inr qc' \<and> workloads qc' = [0 \<mapsto> w]
    \<and> um_keys (summaries w) = [[''x'']]"
proof -
  let ?qs = "[Query (\<lambda>_. 3) 0 d_one [''x''], Query (\<lambda>_. 3) 0 d_one [''x'']]"
  let ?qc = "QueryCollector (Conf ''g'' ''/tmp'' [] [(''x'', INT64)])"
  have n: "map attributeNames ?qs = [[''x''], [''x'']]" by (simp add: Query_def Let_def)
  have a: "attrName ` set (attributes (edgeSchema (qcConf ?qc))) = {''x''}"
    by (simp add: QueryCollector_def Conf_def Schema_def add_name_type_def)
  have "\<forall>ns \<in> set (map attributeNames ?qs). sorted ns \<and> set ns \<subseteq> attrName ` set (attributes (edgeSchema (qcConf ?qc)))"
    unfolding n a by simp
  then have "\<forall>q \<in> set ?qs. sorted (attributeNames q) \<and> set (attributeNames q) \<subseteq> attrName ` set (attributes (edgeSchema (qcConf ?qc)))"
    by (simp only: list.set_map ball_simps)
  from collector_frequencies [OF _ _ this, of of_nat 100] show ?thesis unfolding n by fastforce
qed

text \<open>The bucketer over fixed spans always stops, and steps through the bucket numbers by the length of a
  span: between the first and the last bucket of a query it returns only every \<open>bucketSize\<close>-th one, so
  with spans longer than one it leaves out buckets that the query touches.\<close>

lemma naive_getBuckets_steps:
  assumes "0 < bs" "naive_bucket bs (qStart q) = Inr first" "naive_bucket bs (qEnd q) = Inr lst" "lst + bs < 2 ^ 31"
  shows "naive_getBuckets bs q = Some (Inr (map (\<lambda>k. word_of_int (first + int k * bs)) [0..<nat ((lst - first) div bs + 1)]))"
proof -
  have "- (2 ^ 31) \<le> first" using assms(2) by (auto simp: naive_bucket_def d_to_int_def int_range_def Let_def split: if_splits)
  from naive_loop_ids [OF assms(1,4) this] show ?thesis using assms(2,3) by (simp add: naive_getBuckets_def)
qed

text \<open>The end of a span belongs to the bucket of that span.\<close>

lemma naive_bucket_multiple:
  assumes "0 < b" "b * k < 2 ^ 53" "b < 2 ^ 53" "k < 2 ^ 31"
  shows "naive_bucket (int b) (dof_nat (b * k)) = Inr (int k)"
proof -
  note eb = dof_nat_exact [OF assms(3)] and et = dof_nat_exact [OF assms(2)]
  have ofb: "dof_int (int b) = dof_nat b" by (simp add: dof_int_def dof_nat_def)
  have "dmag (dof_nat b) \<noteq> 0" using eb(1,4) assms(1) by (intro notI) (simp add: dval_def dval_mag_0)
  then have "dfmod (dof_nat (b * k)) (dof_nat b) = 0"
    using eb et assms(1) by (simp add: dfmod_def with_sign_def Let_def)
  moreover have "ddiv (dof_nat (b * k)) (dof_nat b) = dof_nat k" using ddiv_dof_nat [OF assms(2,3,1)] assms(1) by simp
  moreover have "deq 0 0" by (simp add: deq_def is_nan_def dmag_def)
  ultimately show ?thesis using dof_nat_exact [of k] assms(4) by (simp add: naive_bucket_def ofb d_to_int_def int_range_def)
qed

lemma naive_getBuckets_example:
  "naive_getBuckets 2 \<lparr>qStart = dof_nat 0, qEnd = dof_nat 6, attributeNames = [], qHash = 0\<rparr> = Some (Inr [0, 2])"
proof -
  let ?q = "\<lparr>qStart = dof_nat 0, qEnd = dof_nat 6, attributeNames = [], qHash = 0\<rparr> :: query"
  have "naive_bucket 2 (dof_nat 0) = Inr 0" "naive_bucket 2 (dof_nat 6) = Inr 3"
    using naive_bucket_multiple [of 2 0] naive_bucket_multiple [of 2 3] by simp_all
  then show ?thesis using naive_getBuckets_steps [of 2 ?q 0 3] by (simp add: upt_rec)
qed

end
