(* ===== verification/Interaction.thy ===== *)
theory Interaction
  imports InMemory HistoricalWrite Collector
begin

text \<open>
  The interaction graph (\<^verbatim>\<open>InteractionGraph.h/.cpp\<close>), the class applications use: it composes the vertex
  manager, the meta data, the historical graph, the in-memory graph and the query collector.

  The parameter packs of \<^verbatim>\<open>createVertex\<close> and \<^verbatim>\<open>addEdge\<close> are lists of values; the code does not compile
  with an empty pack. The address of the record that \<^verbatim>\<open>addEdge\<close> allocates is its argument \<open>a\<close>. The in-memory
  graph holds references to the historical graph and to the statistics of the meta data, and the block
  manager one to the next block id of the meta data: the operations pass the first two along, and
  \<open>flush\<close> stores the id of the block manager.
\<close>

section \<open>State\<close>

record 'rt interactionGraph =
  igConf :: conf
  vman :: vertexManager
  meta :: metaDataManager
  hisg :: "'rt historicalGraph"
  memg :: inMemoryGraph
  qcol :: queryCollector
  lastTime :: timestamp

definition InteractionGraph ::
  "(nat \<Rightarrow> nat) \<Rightarrow> conf \<Rightarrow> fileSystem \<Rightarrow> status \<times> leveldb \<Rightarrow> bool \<times> (status \<times> leveldb) \<Rightarrow> status \<times> leveldb
     \<Rightarrow> bool \<times> ('rt \<times> nat) \<times> ('rt \<times> size_t) \<Rightarrow> status \<times> leveldb \<Rightarrow> 'rt interactionGraph result" where
  "InteractionGraph rnd c fs openedVertices openedPart openedBlocks openedTree openedFiq =
     rbind (VertexManager_open (unat (conf.vertexDataBufferSize c)) openedVertices (conf.vertexSchema c)) (\<lambda>vm.
     rbind (MetaDataManager (storageDir c) fs) (\<lambda>md.
     rbind (HistoricalGraph c (mdNextBlockId md) openedPart openedBlocks openedTree openedFiq) (\<lambda>hg.
     rbind (InMemoryGraph rnd c) (\<lambda>mg.
       Inr \<lparr>igConf = c, vman = vm, meta = md, hisg = hg, memg = mg, qcol = QueryCollector c, lastTime = 0\<rparr>))))"

section \<open>Vertices and edges\<close>

fun collect_attributes :: "nat \<Rightarrow> attrVal list \<Rightarrow> attributeData \<Rightarrow> attributeData" where
  "collect_attributes i [] data = data"
| "collect_attributes i (t # ts) data = collect_attributes (i + 1) ts (setAttribute i t data)"

definition createVertex :: "vertexId \<Rightarrow> attrVal list \<Rightarrow> 'rt interactionGraph \<Rightarrow> 'rt interactionGraph result" where
  "createVertex i vertexData ig =
     (let data = collect_attributes 0 vertexData (newAttributeData (conf.vertexSchema (igConf ig)))
      in rbind (addVertex i data (vman ig)) (\<lambda>vm. Inr (ig\<lparr>vman := vm\<rparr>)))"

definition ig_getVertexData :: "vertexId \<Rightarrow> 'rt interactionGraph \<Rightarrow> (attributeData \<times> 'rt interactionGraph) result" where
  "ig_getVertexData i ig = rbind (getVertexData i (vman ig)) (\<lambda>(d, vm). Inr (d, ig\<lparr>vman := vm\<rparr>))"

definition ig_addEdge ::
  "(byte list \<Rightarrow> region \<Rightarrow> size_t \<Rightarrow> 'rt \<Rightarrow> 'rt) \<Rightarrow> nat \<Rightarrow> vertexId \<Rightarrow> vertexId \<Rightarrow> timestamp \<Rightarrow> attrVal list
     \<Rightarrow> 'rt interactionGraph \<Rightarrow> 'rt interactionGraph result" where
  "ig_addEdge ins a v u t edgeData ig0 =
     rbind (assert_that (v \<noteq> u)) (\<lambda>_.
     rbind (assert_that (dgt t (lastTime ig0))) (\<lambda>_.
     rbind (ig_getVertexData v (ig0\<lparr>lastTime := t\<rparr>)) (\<lambda>(_, ig1).
     rbind (ig_getVertexData u ig1) (\<lambda>(_, ig).
     let data = newAttributeData (edgeSchema (igConf ig))
     in if length edgeData \<noteq> length (attributes (edgeSchema (igConf ig)))
        then Inl (RuntimeError ''Edge does not have the correct data for the schema.'')
        else rbind (mg_addEdge (hg_addBlock ins) v u t (Some (a, collect_attributes 0 edgeData data))
                      (memg ig, schemaStats (meta ig), hisg ig)) (\<lambda>(mg, st, hg).
               Inr (ig\<lparr>memg := mg, meta := (meta ig)\<lparr>schemaStats := st\<rparr>, hisg := hg\<rparr>))))))"

text \<open>The meta data as the file gets it: the next block id is the one the block manager counts.\<close>

definition current_meta :: "'rt interactionGraph \<Rightarrow> metaDataManager" where
  "current_meta ig = (meta ig)\<lparr>mdNextBlockId := nextBlockId (bman (hisg ig))\<rparr>"

definition ig_flush ::
  "(byte list \<Rightarrow> region \<Rightarrow> size_t \<Rightarrow> 'rt \<Rightarrow> 'rt) \<Rightarrow> 'rt interactionGraph \<times> fileSystem
     \<Rightarrow> ('rt interactionGraph \<times> fileSystem) result option" where
  "ig_flush ins s =
     (case s of (ig, fs) \<Rightarrow>
       case mg_flush (hg_addBlock ins) (memg ig, schemaStats (meta ig), hisg ig) of
         None \<Rightarrow> None
       | Some (Inl err) \<Rightarrow> Some (Inl err)
       | Some (Inr (mg, st, hg)) \<Rightarrow>
           let ig1 = ig\<lparr>memg := mg, meta := (meta ig)\<lparr>schemaStats := st\<rparr>, hisg := hg\<rparr>;
               ig2 = ig1\<lparr>meta := current_meta ig1\<rparr>
           in Some (rbind (md_store (meta ig2) fs) (\<lambda>fs1. Inr (ig2, fs1))))"

section \<open>Queries\<close>

definition processIntervalQuery ::
  "(region \<Rightarrow> 'rt \<Rightarrow> byte list list) \<Rightarrow> query \<Rightarrow> 'rt interactionGraph \<Rightarrow> (vertexIterator \<times> 'rt interactionGraph) result" where
  "processIntervalQuery hits q ig =
     rbind (intervalQuery hits (qStart q) (qEnd q) (hisg ig)) (\<lambda>(it, hg). Inr (it, ig\<lparr>hisg := hg\<rparr>))"

definition processIntervalQueryBatch ::
  "(region \<Rightarrow> 'rt \<Rightarrow> byte list list) \<Rightarrow> query \<Rightarrow> 'rt interactionGraph \<Rightarrow> vertexId list result" where
  "processIntervalQueryBatch hits q ig = intervalQueryBatch hits (qStart q) (qEnd q) (hisg ig)"

definition processFocusedIntervalQuery ::
  "(nat \<Rightarrow> size_t) \<Rightarrow> nat \<Rightarrow> focusedIntervalQuery \<Rightarrow> 'rt interactionGraph \<Rightarrow> (edgeIterator \<times> 'rt interactionGraph) result" where
  "processFocusedIntervalQuery hp base q ig =
     rbind (collectFocusedIntervalQuery hp base (query.truncate q) (qcol ig)) (\<lambda>qc.
     rbind (hg_focusedIntervalQuery (schemaStats (meta ig)) q (hisg ig)) (\<lambda>(it, hg).
       Inr (it, ig\<lparr>qcol := qc, hisg := hg\<rparr>)))"

section \<open>The iterators handed out\<close>

abbreviation ig_vi_isValid :: "vertexIterator \<Rightarrow> bool" where
  "ig_vi_isValid it \<equiv> vi_isValid it"

definition ig_vi_next :: "vertexIterator \<Rightarrow> 'rt interactionGraph \<Rightarrow> (vertexIterator \<times> 'rt interactionGraph) result" where
  "ig_vi_next it ig =
     rbind (vi_next bman_getBlock it (bman (hisg ig))) (\<lambda>(it1, bm). Inr (it1, ig\<lparr>hisg := (hisg ig)\<lparr>bman := bm\<rparr>\<rparr>))"

definition ig_vi_getVertexData :: "vertexIterator \<Rightarrow> 'rt interactionGraph \<Rightarrow> (attributeData \<times> 'rt interactionGraph) result" where
  "ig_vi_getVertexData it ig = rbind (vi_getVertexId it) (\<lambda>i. ig_getVertexData i ig)"

definition ig_ei_next :: "edgeIterator \<Rightarrow> 'rt interactionGraph \<Rightarrow> (edgeIterator \<times> 'rt interactionGraph) result" where
  "ig_ei_next it ig =
     rbind (ei_next (schemaStats (meta ig)) it (bman (hisg ig))) (\<lambda>(it1, bm).
       Inr (it1, ig\<lparr>hisg := (hisg ig)\<lparr>bman := bm\<rparr>\<rparr>))"

definition ig_getToVertex :: "edgeIterator \<Rightarrow> 'rt interactionGraph \<Rightarrow> (vertexId \<times> 'rt interactionGraph) result" where
  "ig_getToVertex it ig =
     rbind (ei_getEdge it (bman (hisg ig))) (\<lambda>(e, bm). Inr (toVertex e, ig\<lparr>hisg := (hisg ig)\<lparr>bman := bm\<rparr>\<rparr>))"

definition ig_getTime :: "edgeIterator \<Rightarrow> 'rt interactionGraph \<Rightarrow> (timestamp \<times> 'rt interactionGraph) result" where
  "ig_getTime it ig =
     rbind (ei_getEdge it (bman (hisg ig))) (\<lambda>(e, bm). Inr (tm e, ig\<lparr>hisg := (hisg ig)\<lparr>bman := bm\<rparr>\<rparr>))"

definition ig_getEdgeData :: "edgeIterator \<Rightarrow> 'rt interactionGraph \<Rightarrow> (attributeData \<times> 'rt interactionGraph) result" where
  "ig_getEdgeData it ig =
     rbind (ei_getEdgeData it (bman (hisg ig))) (\<lambda>(d, bm). Inr (d, ig\<lparr>hisg := (hisg ig)\<lparr>bman := bm\<rparr>\<rparr>))"

section \<open>Maintenance\<close>

definition ig_clearBlockBuffer :: "'rt interactionGraph \<Rightarrow> 'rt interactionGraph" where
  "ig_clearBlockBuffer ig = ig\<lparr>hisg := clearBlockBuffer (hisg ig)\<rparr>"

definition ig_getEdgeIOCount :: "'rt interactionGraph \<Rightarrow> nat" where
  "ig_getEdgeIOCount ig = getEdgeIOCount (hisg ig)"

definition ig_getEdgeReadIOCount :: "'rt interactionGraph \<Rightarrow> nat" where
  "ig_getEdgeReadIOCount ig = getEdgeReadIOCount (hisg ig)"

definition ig_getEdgeWriteIOCount :: "'rt interactionGraph \<Rightarrow> nat" where
  "ig_getEdgeWriteIOCount ig = getEdgeWriteIOCount (hisg ig)"

definition resetWorkloads :: "'rt interactionGraph \<Rightarrow> 'rt interactionGraph" where
  "resetWorkloads ig = ig\<lparr>qcol := qc_reset (qcol ig)\<rparr>"

section \<open>The record of a list of values\<close>

definition vals_ok :: "schema \<Rightarrow> attrVal list \<Rightarrow> bool" where
  "vals_ok s vals \<longleftrightarrow> list_all2 (\<lambda>a. val_ok (attrType a)) (attributes s) vals"

lemma vals_ok_length: "vals_ok s vals \<Longrightarrow> length vals = length (attributes s)"
  by (auto simp: vals_ok_def dest: list_all2_lengthD)

definition data_of :: "schema \<Rightarrow> attrVal list \<Rightarrow> attributeData" where
  "data_of s vals = \<lparr>fieldsOf = List.enumerate 0 vals, schemaOf = s\<rparr>"

lemma collect_attributes_fields:
  "um_keys fs = [i..<i + length vals] \<Longrightarrow> set (um_keys pre) \<inter> set (um_keys fs) = {} \<Longrightarrow>
    collect_attributes i vals \<lparr>fieldsOf = pre @ fs, schemaOf = s\<rparr> = \<lparr>fieldsOf = pre @ List.enumerate i vals, schemaOf = s\<rparr>"
proof (induction vals arbitrary: i pre fs)
  case (Cons t ts)
  have "um_keys fs = i # [Suc i..<Suc i + length ts]"
    using Cons.prems(1) upt_conv_Cons [of i "i + length (t # ts)"] by simp
  then obtain w fs' where fs: "fs = (i, w) # fs'" "um_keys fs' = [Suc i..<Suc i + length ts]"
    by (auto simp del: upt_Suc)
  have "um_put i t (pre @ fs) = (pre @ [(i, t)]) @ fs'" using Cons.prems(2) fs by (simp add: um_put_mid)
  moreover have "set (um_keys (pre @ [(i, t)])) \<inter> set (um_keys fs') = {}" using Cons.prems(2) fs by auto
  ultimately show ?case using Cons.IH [OF fs(2), of "pre @ [(i, t)]"] by (simp add: setAttribute_def)
qed simp

lemma collect_attributes_data:
  assumes "schema_ok s" "length vals = length (attributes s)"
  shows "collect_attributes 0 vals (newAttributeData s) = data_of s vals"
proof -
  let ?d = "AttributeData s"
  have d: "?d = \<lparr>fieldsOf = [] @ fieldsOf ?d, schemaOf = s\<rparr>" by (simp add: AttributeData_def)
  have "um_keys (fieldsOf ?d) = [0..<0 + length vals]" using AttributeData_fields [OF assms(1)] assms(2) by (simp add: comp_def)
  then have "collect_attributes 0 vals \<lparr>fieldsOf = [] @ fieldsOf ?d, schemaOf = s\<rparr> = data_of s vals"
    using collect_attributes_fields [of "fieldsOf ?d" 0 vals "[]" s] by (simp add: data_of_def)
  then show ?thesis unfolding newAttributeData_def d [symmetric] .
qed

lemma data_of_simps [simp]: "schemaOf (data_of s vals) = s" "fieldsOf (data_of s vals) = List.enumerate 0 vals"
  by (simp_all add: data_of_def)

lemma data_of_ok:
  assumes "vals_ok s vals"
  shows "data_ok (data_of s vals)"
  using assms by (auto simp: data_ok_def vals_ok_def list_all2_conv_all_nth in_set_enumerate_eq)

lemma data_of_get: "k < length vals \<Longrightarrow> getAttribute (data_of s vals) k = Inr (vals ! k)"
  unfolding getAttribute_def deref_Inr_iff by (simp add: map_of_eq_Some_iff in_set_enumerate_eq)

lemma data_of_vertex:
  assumes "schema_ok s" "vals_ok s vals" "data_size (data_of s vals) \<le> 2 ^ 32"
  shows "vertex_data_ok s (data_of s vals)"
  using assms data_of_ok [OF assms(2)] AttributeData_fields [OF assms(1)]
  by (simp add: vertex_data_ok_def newAttributeData_def comp_def vals_ok_def list_all2_lengthD)

section \<open>The state between operations\<close>

text \<open>The parts of the graph are sound, and every edge in memory is not newer than the last time seen.\<close>

definition ig_inv :: "'rt interactionGraph \<Rightarrow> bool" where
  "ig_inv ig \<longleftrightarrow> vm_ok (vman ig) \<and> vertexManager.vertexSchema (vman ig) = conf.vertexSchema (igConf ig)
     \<and> schema_ok (conf.vertexSchema (igConf ig)) \<and> schema_ok (edgeSchema (igConf ig))
     \<and> mg_inv (memg ig) \<and> (\<forall>t. dlt (lastTime ig) t \<longrightarrow> before (memg ig) t)"

definition has_vertex :: "'rt interactionGraph \<Rightarrow> vertexId \<Rightarrow> bool" where
  "has_vertex ig v \<longleftrightarrow> (\<exists>d. v_stored (vertexManager.vertexSchema (vman ig)) (vertexDb (vman ig)) v d)"

definition no_vertex :: "'rt interactionGraph \<Rightarrow> vertexId \<Rightarrow> bool" where
  "no_vertex ig v \<longleftrightarrow> map_of (entries (vertexDb (vman ig))) (net_word 8 v) = None"

lemma addVertex_schema: "addVertex i d vm = Inr vm1 \<Longrightarrow> vertexManager.vertexSchema vm1 = vertexManager.vertexSchema vm"
  unfolding addVertex_def by (auto elim!: rbindE split: if_splits status.split_asm prod.split_asm)

text \<open>A vertex that could be added was not stored before, and its record is now.\<close>

lemma addVertex_entries:
  assumes "addVertex i d vm = Inr vm1" "vm_ok vm" "data_ok d" "data_size d \<le> 2 ^ 32"
  shows "map_of (entries (vertexDb vm)) (net_word 8 i) = None"
    "map_of (entries (vertexDb vm1)) k = (if k = net_word 8 i then Some (data_enc d) else map_of (entries (vertexDb vm)) k)"
proof -
  obtain kb nb where kb: "addUInt64 i (NetworkByteBuffer_sized 8) = Inr kb" "content kb = net_word 8 i"
    and nb: "addAttributeData d NetworkByteBuffer = Inr nb" "content nb = data_enc d"
    using key_bytes attributeData_written assms(3,4) by blast
  have f: "failure (vertexDb vm) = None" "sorted_wrt (<) (map fst (entries (vertexDb vm)))" using assms(2) by (auto simp: vm_ok_def db_ok_def)
  show "map_of (entries (vertexDb vm)) (net_word 8 i) = None"
    using assms(1) kb f by (auto simp: addVertex_def db_Get_def split: if_splits option.splits)
  then show "map_of (entries (vertexDb vm1)) k = (if k = net_word 8 i then Some (data_enc d) else map_of (entries (vertexDb vm)) k)"
    using assms(1) kb nb f by (auto simp: addVertex_def db_Get_def db_Put_def rbind_Inr_iff kv_put_find split: if_splits)
qed

lemma getVertexData_missing:
  assumes "vm_ok vm" "map_of (entries (vertexDb vm)) (net_word 8 i) = None"
  shows "getVertexData i vm = Inl (VertexNotFound i)"
proof -
  obtain kb where kb: "addUInt64 i (NetworkByteBuffer_sized 8) = Inr kb" "content kb = net_word 8 i"
    using key_bytes by blast
  have "um_find (vCache vm) i = None" using assms by (cases "um_find (vCache vm) i") (auto simp: vm_ok_def v_stored_def)
  moreover have "failure (vertexDb vm) = None" using assms(1) by (simp add: vm_ok_def)
  ultimately show ?thesis using kb assms(2) by (simp add: getVertexData_def db_Get_def)
qed

text \<open>Reading a vertex changes nothing but the cache.\<close>

lemma ig_getVertexData_known:
  assumes "vm_ok (vman ig)" "has_vertex ig v"
  shows "\<exists>d vm. ig_getVertexData v ig = Inr (d, ig\<lparr>vman := vm\<rparr>) \<and> vm_ok vm \<and> vertexDb vm = vertexDb (vman ig)
    \<and> vertexManager.vertexSchema vm = vertexManager.vertexSchema (vman ig)"
proof -
  from assms(2) obtain d where "v_stored (vertexManager.vertexSchema (vman ig)) (vertexDb (vman ig)) v d" by (auto simp: has_vertex_def)
  from getVertexData_result [OF assms(1) this] show ?thesis by (auto simp: ig_getVertexData_def)
qed

text \<open>What is left of \<open>addEdge\<close> once both vertices have been read.\<close>

lemma ig_addEdge_checked:
  assumes "ig_inv ig" "v \<noteq> u" "dlt (lastTime ig) t" "has_vertex ig v" "has_vertex ig u"
  shows "\<exists>vm. vm_ok vm \<and> vertexDb vm = vertexDb (vman ig) \<and> vertexManager.vertexSchema vm = vertexManager.vertexSchema (vman ig)
    \<and> ig_addEdge ins a v u t vals ig =
       (if length vals \<noteq> length (attributes (edgeSchema (igConf ig)))
        then Inl (RuntimeError ''Edge does not have the correct data for the schema.'')
        else rbind (mg_addEdge (hg_addBlock ins) v u t (Some (a, data_of (edgeSchema (igConf ig)) vals))
               (memg ig, schemaStats (meta ig), hisg ig)) (\<lambda>(mg, st, hg).
          Inr (ig\<lparr>lastTime := t, vman := vm, memg := mg, meta := (meta ig)\<lparr>schemaStats := st\<rparr>, hisg := hg\<rparr>)))"
proof -
  have I: "vm_ok (vman ig)" "schema_ok (edgeSchema (igConf ig))" using assms(1) by (simp_all add: ig_inv_def)
  obtain d1 vm1 where v1: "ig_getVertexData v (ig\<lparr>lastTime := t\<rparr>) = Inr (d1, ig\<lparr>lastTime := t, vman := vm1\<rparr>)" "vm_ok vm1"
      "vertexDb vm1 = vertexDb (vman ig)" "vertexManager.vertexSchema vm1 = vertexManager.vertexSchema (vman ig)"
    using ig_getVertexData_known [of "ig\<lparr>lastTime := t\<rparr>" v] I(1) assms(4) by (auto simp: has_vertex_def)
  obtain d2 vm2 where v2: "ig_getVertexData u (ig\<lparr>lastTime := t, vman := vm1\<rparr>) = Inr (d2, ig\<lparr>lastTime := t, vman := vm2\<rparr>)" "vm_ok vm2"
      "vertexDb vm2 = vertexDb (vman ig)" "vertexManager.vertexSchema vm2 = vertexManager.vertexSchema (vman ig)"
    using ig_getVertexData_known [of "ig\<lparr>lastTime := t, vman := vm1\<rparr>" u] v1(2-4) assms(5) by (auto simp: has_vertex_def)
  have "ig_addEdge ins a v u t vals ig =
       (if length vals \<noteq> length (attributes (edgeSchema (igConf ig)))
        then Inl (RuntimeError ''Edge does not have the correct data for the schema.'')
        else rbind (mg_addEdge (hg_addBlock ins) v u t (Some (a, data_of (edgeSchema (igConf ig)) vals))
               (memg ig, schemaStats (meta ig), hisg ig)) (\<lambda>(mg, st, hg).
          Inr (ig\<lparr>lastTime := t, vman := vm2, memg := mg, meta := (meta ig)\<lparr>schemaStats := st\<rparr>, hisg := hg\<rparr>)))"
    using assms(2,3) v1(1) v2(1) collect_attributes_data [OF I(2)] by (simp add: ig_addEdge_def Let_def)
  then show ?thesis using v2(2-4) by blast
qed

text \<open>Creating a vertex stores its record and touches nothing else.\<close>

lemma createVertex_run:
  assumes "ig_inv ig" "vals_ok (conf.vertexSchema (igConf ig)) vals" "no_vertex ig i"
    and "data_size (data_of (conf.vertexSchema (igConf ig)) vals) \<le> 2 ^ 32"
  shows "\<exists>vm1 vm2. createVertex i vals ig = Inr (ig\<lparr>vman := vm1\<rparr>) \<and> ig_inv (ig\<lparr>vman := vm1\<rparr>) \<and> has_vertex (ig\<lparr>vman := vm1\<rparr>) i
    \<and> (\<forall>j. has_vertex ig j \<longrightarrow> has_vertex (ig\<lparr>vman := vm1\<rparr>) j) \<and> (\<forall>j. j \<noteq> i \<and> no_vertex ig j \<longrightarrow> no_vertex (ig\<lparr>vman := vm1\<rparr>) j)
    \<and> ig_getVertexData i (ig\<lparr>vman := vm1\<rparr>) = Inr (data_of (conf.vertexSchema (igConf ig)) vals, ig\<lparr>vman := vm2\<rparr>)
    \<and> createVertex i vals (ig\<lparr>vman := vm1\<rparr>) = Inl (VertexAlreadyExists i)"
proof -
  let ?s = "conf.vertexSchema (igConf ig)" and ?d = "data_of (conf.vertexSchema (igConf ig)) vals"
  have I: "vm_ok (vman ig)" "vertexManager.vertexSchema (vman ig) = ?s" "schema_ok ?s" using assms(1) by (simp_all add: ig_inv_def)
  have d: "vertex_data_ok ?s ?d" using data_of_vertex I(3) assms(2,4) by blast
  have c: "collect_attributes 0 vals (newAttributeData ?s) = ?d" using collect_attributes_data [OF I(3)] vals_ok_length [OF assms(2)] by simp
  from addVertex_stores [OF I(1), of ?d i ?d] d I(2) assms(3) obtain vm1 vm2 where
    vm1: "addVertex i ?d (vman ig) = Inr vm1" "vm_ok vm1" "getVertexData i vm1 = Inr (?d, vm2)"
      "addVertex i ?d vm1 = Inl (VertexAlreadyExists i)"
      "\<forall>j e. v_stored ?s (vertexDb (vman ig)) j e \<longrightarrow> v_stored (vertexManager.vertexSchema vm1) (vertexDb vm1) j e"
    by (auto simp: no_vertex_def)
  have sch: "vertexManager.vertexSchema vm1 = ?s" using addVertex_schema [OF vm1(1)] I(2) by simp
  have D: "data_ok ?d" "data_size ?d \<le> 2 ^ 32" using d by (simp_all add: vertex_data_ok_def)
  note E = addVertex_entries(2) [OF vm1(1) I(1) D]
  have "has_vertex (ig\<lparr>vman := vm1\<rparr>) i" using E [of "net_word 8 i"] d sch by (auto simp: has_vertex_def v_stored_def)
  moreover have "has_vertex (ig\<lparr>vman := vm1\<rparr>) j" if "has_vertex ig j" for j using that vm1(5) I(2) by (auto simp: has_vertex_def)
  moreover have "no_vertex (ig\<lparr>vman := vm1\<rparr>) j" if "j \<noteq> i" "no_vertex ig j" for j using that E [of "net_word 8 j"] by (simp add: no_vertex_def key_inj)
  moreover have "ig_inv (ig\<lparr>vman := vm1\<rparr>)" using assms(1) vm1(2) sch by (simp add: ig_inv_def)
  moreover have "createVertex i vals ig = Inr (ig\<lparr>vman := vm1\<rparr>)" "createVertex i vals (ig\<lparr>vman := vm1\<rparr>) = Inl (VertexAlreadyExists i)"
    using vm1(1,4) c by (simp_all add: createVertex_def Let_def)
  moreover have "ig_getVertexData i (ig\<lparr>vman := vm1\<rparr>) = Inr (?d, ig\<lparr>vman := vm2\<rparr>)" using vm1(3) by (simp add: ig_getVertexData_def)
  ultimately show ?thesis by blast
qed

section \<open>Properties\<close>

text \<open>C14: a vertex is created once and keeps its values. Creating a vertex with one value of the right type for
  each attribute of the vertex schema succeeds; reading it back gives a record with exactly these values
  at their positions; creating it a second time throws \<open>VertexAlreadyExists\<close>.\<close>

theorem createVertex_roundtrip:
  assumes "ig_inv ig" "vals_ok (conf.vertexSchema (igConf ig)) vals" "no_vertex ig i"
    and "data_size (data_of (conf.vertexSchema (igConf ig)) vals) \<le> 2 ^ 32"
  shows "\<exists>ig1 ig2 d. createVertex i vals ig = Inr ig1 \<and> ig_inv ig1 \<and> has_vertex ig1 i
    \<and> (\<forall>j. has_vertex ig j \<longrightarrow> has_vertex ig1 j)
    \<and> ig_getVertexData i ig1 = Inr (d, ig2) \<and> (\<forall>k < length vals. getAttribute d k = Inr (vals ! k))
    \<and> createVertex i vals ig1 = Inl (VertexAlreadyExists i)"
  using createVertex_run [OF assms] data_of_get [of _ vals "conf.vertexSchema (igConf ig)"] by blast

lemma ig_addEdge_unknown:
  assumes "ig_inv ig" "v \<noteq> u" "dlt (lastTime ig) t" "no_vertex ig v \<or> has_vertex ig v \<and> no_vertex ig u"
  shows "ig_addEdge ins a v u t vals ig = Inl (VertexNotFound (if no_vertex ig v then v else u))"
proof (cases "no_vertex ig v")
  case True
  then have "ig_getVertexData v (ig\<lparr>lastTime := t\<rparr>) = Inl (VertexNotFound v)"
    using getVertexData_missing assms(1) by (simp add: ig_inv_def ig_getVertexData_def no_vertex_def)
  then show ?thesis using True assms(2,3) by (simp add: ig_addEdge_def)
next
  case False
  with assms(1,4) obtain d vm where v1: "ig_getVertexData v (ig\<lparr>lastTime := t\<rparr>) = Inr (d, ig\<lparr>lastTime := t, vman := vm\<rparr>)"
      "vm_ok vm" "vertexDb vm = vertexDb (vman ig)"
    using ig_getVertexData_known [of "ig\<lparr>lastTime := t\<rparr>" v] by (auto simp: has_vertex_def ig_inv_def)
  have "no_vertex ig u" using False assms(4) by blast
  then have "ig_getVertexData u (ig\<lparr>lastTime := t, vman := vm\<rparr>) = Inl (VertexNotFound u)"
    using getVertexData_missing [OF v1(2)] v1(3) by (simp add: ig_getVertexData_def no_vertex_def)
  then show ?thesis using False assms(2,3) v1(1) by (simp add: ig_addEdge_def)
qed

lemma ig_addEdge_accepted:
  assumes "ig_inv ig" "v \<noteq> u" "dlt (lastTime ig) t" "has_vertex ig v" "has_vertex ig u" "load (memg ig) + 2 < 2 ^ 64"
    and len: "length vals = length (attributes (edgeSchema (igConf ig)))" and "vals_ok (edgeSchema (igConf ig)) vals"
  shows "case ig_addEdge ins a v u t vals ig of
      Inl err \<Rightarrow> \<exists>em hg. writeBlock (hg_addBlock ins) (em, hg) = Inl err
    | Inr ig' \<Rightarrow> lastTime ig' = t \<and> ig_inv ig' \<and> load (memg ig') \<le> load (memg ig) + 2
        \<and> igConf ig' = igConf ig \<and> qcol ig' = qcol ig \<and> vertexDb (vman ig') = vertexDb (vman ig)
        \<and> (\<exists>bs. for_each (hg_addBlock ins) bs (hisg ig) = Inr (hisg ig')
             \<and> (\<forall>w. history bs (memg ig') w = history [] (memg ig) w @ touch_at w (UEdge v u t))
             \<and> absorbs (memg ig) t (Some (a, data_of (edgeSchema (igConf ig)) vals)) bs (memg ig'))"
proof -
  let ?d = "data_of (edgeSchema (igConf ig)) vals"
  let ?run = "mg_addEdge (hg_addBlock ins) v u t (Some (a, ?d)) (memg ig, schemaStats (meta ig), hisg ig)"
  from ig_addEdge_checked [OF assms(1-5), of ins a vals] len obtain vm where vm: "vm_ok vm" "vertexDb vm = vertexDb (vman ig)"
      "vertexManager.vertexSchema vm = vertexManager.vertexSchema (vman ig)"
    and run: "ig_addEdge ins a v u t vals ig = rbind ?run (\<lambda>(mg, st, hg).
        Inr (ig\<lparr>lastTime := t, vman := vm, memg := mg, meta := (meta ig)\<lparr>schemaStats := st\<rparr>, hisg := hg\<rparr>))" by auto
  have "data_ok ?d" using data_of_ok assms(8) len by blast
  moreover have "mg_inv (memg ig)" "before (memg ig) t" "uedge_ok (UEdge v u t)"
    using assms(1-3) dlt_not_nan [OF assms(3)] by (simp_all add: ig_inv_def uedge_ok_def UEdge_def)
  ultimately have M: "case ?run of
      Inr (mg', st', h') \<Rightarrow> mg_inv mg' \<and> load mg' \<le> load (memg ig) + 2 \<and> (\<forall>t'. dlt t t' \<longrightarrow> before mg' t')
        \<and> (\<exists>bs. for_each (hg_addBlock ins) bs (hisg ig) = Inr h' \<and> (\<forall>w. history bs mg' w = history [] (memg ig) w @ touch_at w (UEdge v u t))
             \<and> absorbs (memg ig) t (Some (a, ?d)) bs mg')
    | Inl err \<Rightarrow> \<exists>em3 h3. writeBlock (hg_addBlock ins) (em3, h3) = Inl err"
    using mg_addEdge_run [OF _ _ _ assms(6), of t v u ?d "hg_addBlock ins" a "hisg ig" "schemaStats (meta ig)"]
    by (auto split: sum.splits prod.splits)
  show ?thesis
  proof (cases ?run)
    case (Inl err)
    then show ?thesis using M run by simp
  next
    case (Inr r)
    obtain mg st hg where r: "r = (mg, st, hg)" using prod_cases3 by blast
    have "ig_inv (ig\<lparr>lastTime := t, vman := vm, memg := mg, meta := (meta ig)\<lparr>schemaStats := st\<rparr>, hisg := hg\<rparr>)"
      using M Inr r assms(1) vm by (simp add: ig_inv_def)
    then show ?thesis using M Inr r run vm(2) by simp
  qed
qed


text \<open>A graph with one vertex and nothing written, for the witnesses.\<close>

definition ex_ig :: "(region \<times> byte list) list interactionGraph" where
  "ex_ig =
     (let c = Conf ''g'' ''/tmp'' [(''x'', INT64)] [(''x'', INT64)]
      in \<lparr>igConf = c,
          vman = VertexManager 2 \<lparr>entries = [(net_word 8 (3 :: vertexId), data_enc (data_of (conf.vertexSchema c) [IntV 1]))], failure = None\<rparr>
                   (conf.vertexSchema c),
          meta = \<lparr>mdStorageDir = ''/tmp'', mdNextBlockId = 1, schemaStats = []\<rparr>, hisg = ex_hist, memg = ex_mg,
          qcol = QueryCollector c, lastTime = 0\<rparr>)"

lemma ex_ig_schemas:
  "vals_ok (conf.vertexSchema (igConf ex_ig)) [IntV i]" "vals_ok (edgeSchema (igConf ex_ig)) [IntV i]"
  "length (attributes (edgeSchema (igConf ex_ig))) = 1" "data_size (data_of s [IntV i]) \<le> 2 ^ 32"
  by (simp_all add: ex_ig_def Let_def vals_ok_def Conf_def Schema_def add_name_type_def val_ok_def data_size_def)

lemma ex_ig_inv: "ig_inv ex_ig" "has_vertex ex_ig 3" "v \<noteq> 3 \<Longrightarrow> no_vertex ex_ig v"
proof -
  let ?s = "conf.vertexSchema (igConf ex_ig)"
  have s: "schema_ok ?s" "schema_ok (edgeSchema (igConf ex_ig))" by (simp_all add: ex_ig_def Let_def Conf_def Schema_ok)
  have v: "vm_ok (vman ex_ig)" "vertexManager.vertexSchema (vman ex_ig) = ?s" "vertexDataBufferSize (vman ex_ig) = 2"
      "vertexDb (vman ex_ig) = \<lparr>entries = [(net_word 8 (3 :: vertexId), data_enc (data_of ?s [IntV 1]))], failure = None\<rparr>"
    by (simp_all add: ex_ig_def Let_def vm_ok_def VertexManager_def lru_ok_def db_ok_def)
  have "before ex_mg t" if "dlt 0 t" for t
    using that by (auto simp: before_def history_def written_def window_at_def ex_mg_def EdgeFIFO_def ex_em_def keys_at_def ekey_def forget_def
        split: if_splits option.splits)
  then show "ig_inv ex_ig" unfolding ig_inv_def using v s ex_mg_inv by (simp add: ex_ig_def Let_def)
  show "has_vertex ex_ig 3"
    using v(2,4) data_of_vertex [OF s(1) ex_ig_schemas(1,4)] by (auto simp: has_vertex_def v_stored_def)
  show "no_vertex ex_ig v" if "v \<noteq> 3"
    using that v(4) key_inj [of 3 v] by (auto simp: no_vertex_def)
qed

theorem createVertex_roundtrip_witness:
  "\<exists>ig1 ig2 d. createVertex 7 [IntV 5] ex_ig = Inr ig1 \<and> ig_getVertexData 7 ig1 = Inr (d, ig2) \<and> getAttribute d 0 = Inr (IntV 5)
    \<and> createVertex 7 [IntV 5] ig1 = Inl (VertexAlreadyExists 7)"
  using createVertex_roundtrip [OF ex_ig_inv(1) ex_ig_schemas(1) ex_ig_inv(3) ex_ig_schemas(4), of 7 5] by fastforce


end
