(* ===== verification/Session.thy ===== *)
theory Session
  imports Interaction
begin

text \<open>
  Sessions of the interaction graph: any sequence of creating vertices, adding edges and flushing that
  starts from a fresh graph. What the graph holds at the end, in the blocks written, in the expiration
  map and in the window, is at every vertex the sequence of the edges added; queries answer from the
  written part with the values the edges were added with.
\<close>

section \<open>Sessions\<close>

text \<open>An edge added: its vertices, its time, the address of its record and its values.\<close>

type_synonym event = "vertexId \<times> vertexId \<times> timestamp \<times> nat \<times> attrVal list"

fun ev_time :: "event \<Rightarrow> timestamp" where
  "ev_time (v, u, t, a, vals) = t"

fun ev_edge :: "event \<Rightarrow> uEdge" where
  "ev_edge (v, u, t, a, vals) = UEdge v u t"

fun ev_data :: "schema \<Rightarrow> event \<Rightarrow> attributeData" where
  "ev_data s (v, u, t, a, vals) = data_of s vals"

fun ev_record :: "schema \<Rightarrow> event \<Rightarrow> timestamp \<times> attributeData shared_ptr" where
  "ev_record s (v, u, t, a, vals) = (t, Some (a, data_of s vals))"

text \<open>Calls with one value of the right type per attribute, and an edge that fits into a block.\<close>

definition vertex_call_ok :: "conf \<Rightarrow> attrVal list \<Rightarrow> bool" where
  "vertex_call_ok c vals \<longleftrightarrow> vals_ok (conf.vertexSchema c) vals \<and> data_size (data_of (conf.vertexSchema c) vals) \<le> 2 ^ 32"

definition edge_call_ok :: "conf \<Rightarrow> attrVal list \<Rightarrow> bool" where
  "edge_call_ok c vals \<longleftrightarrow> vals_ok (edgeSchema c) vals \<and> 36 + data_size (data_of (edgeSchema c) vals) \<le> unat (blockSize c)"

inductive session ::
  "(byte list \<Rightarrow> region \<Rightarrow> size_t \<Rightarrow> 'rt \<Rightarrow> 'rt) \<Rightarrow> 'rt interactionGraph \<times> fileSystem \<Rightarrow> event list \<Rightarrow> 'rt interactionGraph \<times> fileSystem \<Rightarrow> bool"
  for ins s0 where
  start: "session ins s0 [] s0"
| vertex: "session ins s0 es (ig, fs) \<Longrightarrow> vertex_call_ok (igConf ig) vals \<Longrightarrow> createVertex i vals ig = Inr ig1 \<Longrightarrow>
    session ins s0 es (ig1, fs)"
| edge: "session ins s0 es (ig, fs) \<Longrightarrow> edge_call_ok (igConf ig) vals \<Longrightarrow> ig_addEdge ins a v u t vals ig = Inr ig1 \<Longrightarrow>
    session ins s0 (es @ [(v, u, t, a, vals)]) (ig1, fs)"
| flushed: "session ins s0 es (ig, fs) \<Longrightarrow> ig_flush ins (ig, fs) = Some (Inr (ig1, fs1)) \<Longrightarrow> session ins s0 es (ig1, fs1)"

inductive_cases session_edgeE: "session ins s0 (es @ [ev]) st"

text \<open>A graph as it is opened on empty databases.\<close>

definition fresh ::
  "('rt \<Rightarrow> (region \<times> byte list) set) \<Rightarrow> timeSlicedPartitioning list \<Rightarrow> 'rt interactionGraph \<Rightarrow> bool" where
  "fresh tree sl ig \<longleftrightarrow> ig_inv ig \<and> (\<forall>v. no_vertex ig v) \<and> hist_ok tree sl (edgeSchema (igConf ig)) [] (hisg ig)
     \<and> fifoEdges (vfifo (memg ig)) = [] \<and> neigLists (expm (memg ig)) = [] \<and> emConf (expm (memg ig)) = igConf ig
     \<and> time_ok (lastTime ig)"

section \<open>The records of a session\<close>

definition session_records :: "schema \<Rightarrow> event list \<Rightarrow> timestamp \<rightharpoonup> attributeData shared_ptr" where
  "session_records s es = map_of (map (ev_record s) es)"

definition in_time :: "event list \<Rightarrow> bool" where
  "in_time es \<longleftrightarrow> sorted_wrt (\<lambda>e e'. dlt (ev_time e) (ev_time e')) es \<and> (\<forall>e \<in> set es. dlt 0 (ev_time e))"

lemma ev_record_simps [simp]: "fst (ev_record s e) = ev_time e" "snd (the (snd (ev_record s e))) = ev_data s e"
  by (cases e; simp)+

lemma dlt_ne: "dlt t t' \<Longrightarrow> \<not> deq t t' \<and> \<not> deq t' t \<and> t \<noteq> t'"
  by (auto simp: dlt_def deq_def)

lemma in_time_distinct: "in_time es \<Longrightarrow> distinct (map ev_time es)"
  unfolding in_time_def by (induction es) (auto dest: dlt_ne)

lemma in_time_deq: "in_time es \<Longrightarrow> e \<in> set es \<Longrightarrow> e' \<in> set es \<Longrightarrow> deq (ev_time e) (ev_time e') \<Longrightarrow> e = e'"
  unfolding in_time_def by (induction es) (auto dest: dlt_ne)

lemma records_dom: "dom (session_records s es) = ev_time ` set es"
  by (simp add: session_records_def dom_map_of_conv_image_fst image_image)

lemma records_at: "in_time es \<Longrightarrow> e \<in> set es \<Longrightarrow> session_records s es (ev_time e) = Some (snd (ev_record s e))"
  unfolding session_records_def by (rule map_of_is_SomeI) (auto simp: comp_def in_time_distinct intro!: image_eqI [of _ _ e] prod_eqI)

lemma records_sharp: "in_time es \<Longrightarrow> sharp (session_records s es)"
  unfolding sharp_def records_dom using in_time_deq by blast

lemma records_old: "t \<in> ev_time ` set es \<Longrightarrow> session_records s (es @ [e]) t = session_records s es t"
proof -
  assume "t \<in> ev_time ` set es"
  then have "t \<in> dom (session_records s es)" by (simp add: records_dom)
  then show ?thesis by (auto simp: session_records_def simp del: map_of_eq_Some_iff)
qed

lemma carries_dom: "carries D m \<Longrightarrow> (\<And>t. t \<in> dom D \<Longrightarrow> D' t = D t) \<Longrightarrow> carries D' m"
  unfolding carries_def by (metis domI)

lemma carries_more: "carries (session_records s es) m \<Longrightarrow> carries (session_records s (es @ [e])) m"
  by (erule carries_dom) (simp add: records_dom records_old)

section \<open>The state between operations\<close>

abbreviation schema_of :: "'rt interactionGraph \<Rightarrow> schema" where
  "schema_of ig \<equiv> edgeSchema (igConf ig)"

text \<open>The written blocks, the waiting edges and the window hold the edges of the session, each with its record.\<close>

definition holds_session :: "schema \<Rightarrow> event list \<Rightarrow> inMemoryGraph \<Rightarrow> block list \<Rightarrow> bool" where
  "holds_session s es mg bs \<longleftrightarrow> (\<forall>w. history bs mg w = window_at w (map ev_edge es))
     \<and> mg_carries mg (session_records s es) \<and> (\<forall>b \<in> set bs. heads_ok (neigs b) \<and> neigs b \<noteq> [] \<and> carries (session_records s es) (neigs b))"

definition sess_inv ::
  "(byte list \<Rightarrow> region \<Rightarrow> size_t \<Rightarrow> 'rt \<Rightarrow> 'rt) \<Rightarrow> 'rt interactionGraph \<Rightarrow> event list \<Rightarrow> 'rt interactionGraph \<Rightarrow> bool" where
  "sess_inv ins ig0 es ig \<longleftrightarrow> ig_inv ig \<and> igConf ig = igConf ig0 \<and> qcol ig = qcol ig0 \<and> (\<forall>v. has_vertex ig v \<or> no_vertex ig v)
     \<and> emConf (expm (memg ig)) = igConf ig0 \<and> mg_fits (memg ig) \<and> load (memg ig) \<le> 2 * length es
     \<and> in_time es \<and> time_ok (lastTime ig) \<and> (\<forall>t. dlt (lastTime ig) t \<longrightarrow> (\<forall>e \<in> set es. dlt (ev_time e) t))
     \<and> (\<forall>(v, u, t, a, vals) \<in> set es. v \<noteq> u \<and> edge_call_ok (igConf ig0) vals)
     \<and> (\<exists>bs. for_each (hg_addBlock ins) bs (hisg ig0) = Inr (hisg ig) \<and> holds_session (schema_of ig0) es (memg ig) bs)"

lemma history_append: "history (bs @ cs) mg w = map forget (written bs w) @ history cs mg w"
  by (simp add: history_def written_append)

lemma history_split: "history bs mg w = map forget (written bs w) @ history [] mg w"
  by (simp add: history_def written_def [of "[]"])

lemma time_ok_later: "time_ok t \<Longrightarrow> dlt t t' \<Longrightarrow> time_ok t' \<and> dlt 0 t'"
proof -
  assume t: "time_ok t" and lt: "dlt t t'"
  have "0 \<le> dkey t" using t by (simp add: time_ok_def dkey_def)
  then have pos: "0 < dkey t'" using lt by (simp add: dlt_def)
  moreover have "\<not> dneg t'" using pos by (auto simp: dkey_def)
  moreover have "dkey 0 = 0" "\<not> is_nan 0" by (simp_all add: dkey_def dneg_def dmag_def is_nan_def inf_mag_def)
  ultimately show ?thesis using lt by (simp add: time_ok_def dlt_def)
qed

lemma time_ok_zero: "time_ok 0"
  by (simp add: time_ok_def is_nan_def dneg_def dmag_def inf_mag_def)

lemma in_time_snoc: "in_time (es @ [e]) \<longleftrightarrow> in_time es \<and> dlt 0 (ev_time e) \<and> (\<forall>x \<in> set es. dlt (ev_time x) (ev_time e))"
  by (auto simp: in_time_def sorted_wrt_append)

lemma mg_empty:
  assumes "mg_inv mg" "fifoEdges (vfifo mg) = []" "neigLists (expm mg) = []"
  shows "mgLists mg = []" "mg_carries mg D" "mg_fits mg" "load mg = 0" "history [] mg w = []"
proof -
  have e: "list_at v (mgLists mg) = []" for v using assms(1,2) by (simp add: mg_inv_def window_at_def)
  have h: "heads_ok (mgLists mg)" using assms(1) by (simp add: mg_inv_def)
  have "um_find (mgLists mg) v = None" for v
    using e [of v] heads_ok_find [OF h, of v] by (cases "um_find (mgLists mg) v") (auto simp: list_at_def)
  then show nil: "mgLists mg = []" by (metis map_of_eq_empty_iff ext)
  show "mg_carries mg D" "mg_fits mg" "load mg = 0" "history [] mg w = []"
    using assms(2,3) nil by (simp_all add: mg_carries_def mg_fits_def LayoutSmart.fits_def load_def total_def history_def written_def window_at_def)
qed

lemma sess_start: "fresh tree sl ig \<Longrightarrow> sess_inv ins ig [] ig"
  using mg_empty [of "memg ig"]
  by (auto simp: sess_inv_def fresh_def holds_session_def in_time_def ig_inv_def window_at_def session_records_def intro!: exI [of _ "[]"])

lemma sess_vertex:
  assumes "sess_inv ins ig0 es ig" "vertex_call_ok (igConf ig) vals" "createVertex i vals ig = Inr ig1"
  shows "sess_inv ins ig0 es ig1"
proof -
  let ?s = "conf.vertexSchema (igConf ig)" and ?d = "data_of (conf.vertexSchema (igConf ig)) vals"
  have I: "ig_inv ig" "vm_ok (vman ig)" "schema_ok ?s" "\<And>v. has_vertex ig v \<or> no_vertex ig v"
    using assms(1) unfolding sess_inv_def ig_inv_def by blast+
  have call: "vals_ok ?s vals" "data_size ?d \<le> 2 ^ 32" using assms(2) by (simp_all add: vertex_call_ok_def)
  have "collect_attributes 0 vals (newAttributeData ?s) = ?d" using collect_attributes_data [OF I(3)] vals_ok_length [OF call(1)] by simp
  then obtain vm where "addVertex i ?d (vman ig) = Inr vm" using assms(3) by (auto simp: createVertex_def Let_def rbind_Inr_iff)
  then have "no_vertex ig i" using addVertex_entries(1) [OF _ I(2) data_of_ok [OF call(1)] call(2)] by (simp add: no_vertex_def)
  from createVertex_run [OF I(1) call(1) this call(2)] assms(3) obtain vm1 where
    v: "ig1 = ig\<lparr>vman := vm1\<rparr>" "ig_inv ig1" "has_vertex ig1 i" "\<And>j. has_vertex ig j \<Longrightarrow> has_vertex ig1 j"
      "\<And>j. j \<noteq> i \<Longrightarrow> no_vertex ig j \<Longrightarrow> no_vertex ig1 j" by auto
  then have "\<forall>v. has_vertex ig1 v \<or> no_vertex ig1 v" using I(4) by metis
  then show ?thesis using assms(1) v(1,2) unfolding sess_inv_def by auto
qed

lemma holds_session_step:
  assumes "holds_session s es mg bs" "sharp (session_records s (es @ [e]))" "absorbs mg t r cs mg'" "session_records s (es @ [e]) t = Some r"
    and "mg_fits mg" "edge_fits (emConf (expm mg)) \<lparr>toVertex = 0, tm = 0, edata = r\<rparr>"
    and "\<And>w. history cs mg' w = history [] mg w @ touch_at w (ev_edge e)"
  shows "holds_session s (es @ [e]) mg' (bs @ cs)"
proof -
  have old: "mg_carries mg (session_records s (es @ [e]))" "\<forall>b \<in> set bs. heads_ok (neigs b) \<and> neigs b \<noteq> [] \<and> carries (session_records s (es @ [e])) (neigs b)"
    using assms(1) carries_more by (auto simp: holds_session_def mg_carries_def)
  then have "mg_carries mg' (session_records s (es @ [e]))" "\<forall>b \<in> set cs. heads_ok (neigs b) \<and> neigs b \<noteq> [] \<and> carries (session_records s (es @ [e])) (neigs b)"
    using assms(2-6) by (auto simp: absorbs_def drawn_def)
  moreover have "history (bs @ cs) mg' w = window_at w (map ev_edge (es @ [e]))" for w
    using assms(1,7) history_split [of bs mg w] by (simp add: holds_session_def history_append window_at_def)
  ultimately show ?thesis using old(2) unfolding holds_session_def by (auto simp del: map_append)
qed

lemma sess_edge:
  assumes "sess_inv ins ig0 es ig" "edge_call_ok (igConf ig) vals" "ig_addEdge ins a v u t vals ig = Inr ig1" "2 * length es + 2 < 2 ^ 64"
  shows "sess_inv ins ig0 (es @ [(v, u, t, a, vals)]) ig1"
proof -
  note S = assms(1) [unfolded sess_inv_def]
  have I: "ig_inv ig" "igConf ig = igConf ig0" using S by simp_all
  have new: "v \<noteq> u" "dlt (lastTime ig) t" using assms(3) by (auto simp: ig_addEdge_def rbind_Inr_iff)
  have known: "has_vertex ig v" "has_vertex ig u"
    using ig_addEdge_unknown [OF I(1) new, of ins a vals] assms(3) S by (metis Inl_Inr_False)+
  have vals: "vals_ok (schema_of ig) vals" using assms(2) by (simp add: edge_call_ok_def)
  have len: "length vals = length (attributes (schema_of ig))" using vals by (rule vals_ok_length)
  have small: "load (memg ig) + 2 < 2 ^ 64" using S assms(4) by linarith
  let ?r = "Some (a, data_of (schema_of ig) vals)" and ?es = "es @ [(v, u, t, a, vals)]"
  from ig_addEdge_accepted [OF I(1) new known small len vals, of ins a] assms(3) obtain cs where
    G: "lastTime ig1 = t" "ig_inv ig1" "load (memg ig1) \<le> load (memg ig) + 2" "igConf ig1 = igConf ig" "qcol ig1 = qcol ig"
      "vertexDb (vman ig1) = vertexDb (vman ig)"
    and cs: "for_each (hg_addBlock ins) cs (hisg ig) = Inr (hisg ig1)" "\<And>w. history cs (memg ig1) w = history [] (memg ig) w @ touch_at w (UEdge v u t)"
      "absorbs (memg ig) t ?r cs (memg ig1)" by auto
  obtain bs where bs: "for_each (hg_addBlock ins) bs (hisg ig0) = Inr (hisg ig)" "holds_session (schema_of ig0) es (memg ig) bs" using S by blast
  have time: "in_time ?es" using S new(2) time_ok_later by (auto simp: in_time_snoc)
  have "session_records (schema_of ig0) ?es t = Some ?r"
    using records_at [OF time, of "(v, u, t, a, vals)" "schema_of ig0"] I(2) by simp
  moreover have fit: "edge_fits (emConf (expm (memg ig))) \<lparr>toVertex = 0, tm = 0, edata = ?r\<rparr>"
    using assms(2) S data_of_ok [OF vals] by (simp add: edge_call_ok_def edge_fits_def)
  ultimately have "holds_session (schema_of ig0) ?es (memg ig1) (bs @ cs)"
    using holds_session_step [OF bs(2) records_sharp [OF time] cs(3)] S cs(2) by simp
  moreover have "for_each (hg_addBlock ins) (bs @ cs) (hisg ig0) = Inr (hisg ig1)" using bs(1) cs(1) by (simp add: for_each_append)
  moreover have "mg_fits (memg ig1)" "emConf (expm (memg ig1)) = igConf ig0" using cs(3) fit S by (simp_all add: absorbs_def)
  moreover have "vertexManager.vertexSchema (vman ig1) = vertexManager.vertexSchema (vman ig)" using G(2,4) I(1) by (simp add: ig_inv_def)
  then have "\<forall>w. has_vertex ig1 w \<or> no_vertex ig1 w" using S G(6) by (simp add: has_vertex_def no_vertex_def)
  moreover have "time_ok t" using S new(2) time_ok_later by blast
  moreover have "\<forall>t'. dlt t t' \<longrightarrow> (\<forall>e \<in> set ?es. dlt (ev_time e) t')" using time dlt_trans by (auto simp: in_time_snoc)
  ultimately show ?thesis using S G I(2) time assms(2) new(1) unfolding sess_inv_def by auto
qed

lemma sess_flush:
  assumes "sess_inv ins ig0 es ig" "2 * length es < 2 ^ 64"
  shows "\<exists>r. ig_flush ins (ig, fs) = Some r \<and> (\<forall>ig1 fs1. r = Inr (ig1, fs1) \<longrightarrow> sess_inv ins ig0 es ig1
    \<and> fifoEdges (vfifo (memg ig1)) = [] \<and> neigLists (expm (memg ig1)) = [])"
proof -
  note S = assms(1) [unfolded sess_inv_def]
  have I: "ig_inv ig" "mg_inv (memg ig)" "mg_fits (memg ig)" "load (memg ig) < 2 ^ 64" using S assms(2) by (auto simp: ig_inv_def)
  obtain bs where bs: "for_each (hg_addBlock ins) bs (hisg ig0) = Inr (hisg ig)" "holds_session (schema_of ig0) es (memg ig) bs" using S by blast
  from mg_flush_run [OF I(2-4), of "hg_addBlock ins" "schemaStats (meta ig)" "hisg ig"] obtain r where
    r: "mg_flush (hg_addBlock ins) (memg ig, schemaStats (meta ig), hisg ig) = Some r"
    and R: "\<And>mg' st' h'. r = Inr (mg', st', h') \<Longrightarrow> fifoEdges (vfifo mg') = [] \<and> neigLists (expm mg') = [] \<and> mg_inv mg' \<and> emConf (expm mg') = emConf (expm (memg ig))
      \<and> (\<exists>cs. for_each (hg_addBlock ins) cs (hisg ig) = Inr h' \<and> (\<forall>v. map forget (written cs v) = history [] (memg ig) v) \<and> drawn (mg_carries (memg ig)) True cs)"
    by blast
  show ?thesis
  proof (cases r)
    case (Inl err)
    then show ?thesis using r by (simp add: ig_flush_def)
  next
    case (Inr x)
    obtain mg st hg where x: "x = (mg, st, hg)" using prod_cases3 by blast
    from R [of mg st hg] Inr x obtain cs where e: "fifoEdges (vfifo mg) = []" "neigLists (expm mg) = []" "mg_inv mg" "emConf (expm mg) = igConf ig0"
      and cs: "for_each (hg_addBlock ins) cs (hisg ig) = Inr hg" "\<And>v. map forget (written cs v) = history [] (memg ig) v" "drawn (mg_carries (memg ig)) True cs"
      using S by auto
    note M = mg_empty [OF e(3,1,2)]
    have "history (bs @ cs) mg w = window_at w (map ev_edge es)" for w
      using bs(2) history_split [of bs "memg ig" w] M(5) cs(2) history_split [of cs mg w] by (simp add: history_append holds_session_def)
    moreover have "\<forall>b \<in> set cs. heads_ok (neigs b) \<and> neigs b \<noteq> [] \<and> carries (session_records (schema_of ig0) es) (neigs b)"
      using cs(3) bs(2) records_sharp S by (auto simp: drawn_def holds_session_def)
    ultimately have H: "holds_session (schema_of ig0) es mg (bs @ cs)" using bs(2) M(2) by (auto simp: holds_session_def)
    have C: "for_each (hg_addBlock ins) (bs @ cs) (hisg ig0) = Inr hg" using bs(1) cs(1) by (simp add: for_each_append)
    define ig2 where "ig2 = ig\<lparr>memg := mg, hisg := hg, meta := current_meta (ig\<lparr>memg := mg, meta := (meta ig)\<lparr>schemaStats := st\<rparr>, hisg := hg\<rparr>)\<rparr>"
    have f: "memg ig2 = mg" "hisg ig2 = hg" "vman ig2 = vman ig" "igConf ig2 = igConf ig" "qcol ig2 = qcol ig" "lastTime ig2 = lastTime ig"
      by (simp_all add: ig2_def)
    have "before mg t" for t using M(5) by (simp add: before_def)
    then have "ig_inv ig2" using I(1) e(3) f by (simp add: ig_inv_def)
    moreover have "\<forall>v. has_vertex ig2 v \<or> no_vertex ig2 v" using S f by (simp add: has_vertex_def no_vertex_def)
    ultimately have "sess_inv ins ig0 es ig2" using S H C M(3,4) e(4) f unfolding sess_inv_def by auto
    moreover have "ig_flush ins (ig, fs) = Some (rbind (md_store (meta ig2) fs) (\<lambda>fs1. Inr (ig2, fs1)))"
      using r Inr x by (simp add: ig_flush_def Let_def ig2_def)
    ultimately show ?thesis using e(1,2) f(1) by (auto simp: rbind_Inr_iff)
  qed
qed

text \<open>Every state of a session satisfies the invariant.\<close>

lemma session_inv:
  assumes "session ins (ig0, fs0) es st" "fresh tree sl ig0" "2 * length es < 2 ^ 64"
  shows "sess_inv ins ig0 es (fst st)"
  using assms(1,3)
proof (induction rule: session.induct)
  case start
  then show ?case using sess_start [OF assms(2)] by simp
next
  case (vertex es ig fs vals i ig1)
  then show ?case using sess_vertex by (metis fst_conv)
next
  case (edge es ig fs vals a v u t ig1)
  then show ?case using sess_edge [of ins ig0 es ig] by simp
next
  case (flushed es ig fs ig1 fs1)
  then show ?case using sess_flush [of ins ig0 es ig fs] by auto
qed

section \<open>The edges of a vertex in the blocks written\<close>

lemma written_stored: "written bs w = map ekey (stored_history w bs)"
proof -
  have "keys_at (neigs b) w = map ekey (list_of w b)" for b by (simp add: keys_at_def list_of_def split: option.splits)
  then show ?thesis by (simp add: written_def stored_history_def map_concat comp_def)
qed

lemma forget_ekey: "forget (ekey e) = tt e"
  by (simp add: forget_def ekey_def tt_def)

lemma stored_prefix:
  assumes "holds_session s es mg bs"
  shows "map tt (stored_history w bs) @ history [] mg w = window_at w (map ev_edge es)"
  using assms history_split [of bs mg w] by (simp add: holds_session_def written_stored comp_def forget_ekey)

lemma stored_edge:
  assumes "holds_session s es mg bs" "e \<in> set (stored_history w bs)"
  shows "\<exists>ev \<in> set es. tm e = ev_time ev \<and> session_records s es (tm e) = Some (edata e)"
proof -
  from assms(2) obtain b where b: "b \<in> set bs" "e \<in> set (list_of w b)" by (auto simp: stored_history_def)
  then obtain nl where "um_find (neigs b) w = Some nl" "e \<in> set (edges nl)"
    by (cases "um_find (neigs b) w") (simp_all add: list_of_def)
  then have "session_records s es (tm e) = Some (edata e)" using assms(1) b(1) by (auto simp: holds_session_def carries_def)
  moreover from this have "tm e \<in> ev_time ` set es" using records_dom [of s es] by blast
  ultimately show ?thesis by blast
qed

lemma touch_time: "x \<in> set (touch_at w ue) \<Longrightarrow> snd x = utm ue"
  by (auto simp: touch_at_def split: if_splits)

lemma utm_ev [simp]: "utm (ev_edge e) = ev_time e"
  by (cases e) (simp add: UEdge_def)

lemma window_sorted: "in_time es \<Longrightarrow> sorted_wrt (\<lambda>x y. dlt (snd x) (snd y)) (window_at w (map ev_edge es))"
proof (induction es)
  case (Cons e es)
  then have "sorted_wrt (\<lambda>x y. dlt (snd x) (snd y)) (window_at w (map ev_edge es))" by (simp add: in_time_def)
  moreover have "dlt (snd x) (snd y)" if "x \<in> set (touch_at w (ev_edge e))" "y \<in> set (window_at w (map ev_edge es))" for x y
  proof -
    from that(2) obtain e' where "e' \<in> set es" "y \<in> set (touch_at w (ev_edge e'))" by (auto simp: window_at_def)
    then show ?thesis using touch_time [OF that(1)] touch_time [of y w "ev_edge e'"] Cons.prems by (simp add: in_time_def)
  qed
  ultimately show ?case by (simp add: window_at_def sorted_wrt_append) (simp add: touch_at_def)
qed (simp add: window_at_def)

lemma session_in_order:
  assumes "holds_session s es mg bs" "in_time es"
  shows "in_order bs"
proof -
  have "sorted_wrt (\<lambda>e e'. dlt (tm e) (tm e')) (stored_history w bs)" for w
  proof -
    have "sorted_wrt (\<lambda>x y. dlt (snd x) (snd y)) (map tt (stored_history w bs) @ history [] mg w)"
      unfolding stored_prefix [OF assms(1)] by (rule window_sorted [OF assms(2)])
    then show ?thesis by (simp add: sorted_wrt_append sorted_wrt_map tt_def)
  qed
  moreover have "time_ok (tm e)" if "e \<in> set (stored_history w bs)" for w e
    using stored_edge [OF assms(1) that] assms(2) time_ok_later [OF time_ok_zero] by (auto simp: in_time_def)
  ultimately show ?thesis by (simp add: in_order_def)
qed

section \<open>Sizes\<close>

text \<open>A weight on times, summed over all edges of all blocks: each edge of the session counts at most twice.\<close>

definition weight :: "(timestamp \<Rightarrow> nat) \<Rightarrow> block \<Rightarrow> nat" where
  "weight f b = sum_list (map (\<lambda>(h, nl). sum_list (map (f \<circ> tm) (edges nl))) (neigs b))"

lemma weight_heads:
  assumes "um_ok (neigs b)" "finite H" "fst ` set (neigs b) \<subseteq> H"
  shows "weight f b = (\<Sum>h \<in> H. sum_list (map (f \<circ> tm) (list_of h b)))"
proof -
  have "sum_list (map (\<lambda>(h, nl). sum_list (map (f \<circ> tm) (edges nl))) m)
      = (\<Sum>h \<in> fst ` set m. case um_find m h of None \<Rightarrow> 0 | Some nl \<Rightarrow> sum_list (map (f \<circ> tm) (edges nl)))" if "um_ok m" for m
    using that
  proof (induction m)
    case (Cons p m)
    obtain h nl where p: "p = (h, nl)" by force
    then have h: "h \<notin> fst ` set m" "um_ok m" using Cons.prems by auto
    have "(\<Sum>x \<in> fst ` set m. case um_find (p # m) x of None \<Rightarrow> 0 | Some nl \<Rightarrow> sum_list (map (f \<circ> tm) (edges nl)))
        = (\<Sum>x \<in> fst ` set m. case um_find m x of None \<Rightarrow> 0 | Some nl \<Rightarrow> sum_list (map (f \<circ> tm) (edges nl)))"
      by (rule sum.cong) (use h(1) p in auto)
    then show ?case using Cons.IH [OF h(2)] h(1) by (simp add: p comp_def)
  qed simp
  from this [OF assms(1)] have "weight f b = (\<Sum>h \<in> fst ` set (neigs b). case um_find (neigs b) h of None \<Rightarrow> 0 | Some nl \<Rightarrow> sum_list (map (f \<circ> tm) (edges nl)))"
    by (simp add: weight_def)
  also have "\<dots> = (\<Sum>h \<in> fst ` set (neigs b). sum_list (map (f \<circ> tm) (list_of h b)))"
    by (rule sum.cong) (auto simp: list_of_def split: option.splits)
  also have "\<dots> = (\<Sum>h \<in> H. sum_list (map (f \<circ> tm) (list_of h b)))"
    by (rule sum.mono_neutral_left [OF assms(2,3)]) (auto simp: list_of_def um_find_absent)
  finally show ?thesis .
qed

lemma sum_list_swap: "finite H \<Longrightarrow> sum_list (map (\<lambda>x. \<Sum>h \<in> H. F h x) xs) = (\<Sum>h \<in> H. sum_list (map (F h) xs) :: nat)"
  by (induction xs) (simp_all add: sum.distrib)

lemma sum_list_concats: "sum_list (concat xss) = (sum_list (map sum_list xss) :: nat)"
  by (induction xss) simp_all

lemma touch_weight:
  fixes f :: "timestamp \<Rightarrow> nat"
  assumes "finite H"
  shows "(\<Sum>h \<in> H. sum_list (map (f \<circ> snd) (touch_at h ue))) \<le> 2 * f (utm ue)"
proof -
  let ?V = "{firstVertex ue, secondVertex ue}"
  have "(\<Sum>h \<in> H. sum_list (map (f \<circ> snd) (touch_at h ue))) \<le> (\<Sum>h \<in> H. if h \<in> ?V then f (utm ue) else 0)"
    by (rule sum_mono) (simp add: touch_at_def)
  also have "\<dots> = card (H \<inter> ?V) * f (utm ue)" using assms by (simp add: sum.If_cases Int_def)
  also have "card (H \<inter> ?V) \<le> card ?V" by (rule card_mono) auto
  then have "card (H \<inter> ?V) * f (utm ue) \<le> 2 * f (utm ue)" using card_insert_le_m1 [of 2 "{secondVertex ue}" "firstVertex ue"] by (intro mult_right_mono) auto
  finally show ?thesis .
qed

lemma session_weight:
  assumes "holds_session s es mg bs"
  shows "sum_list (map (weight f) bs) \<le> 2 * sum_list (map (f \<circ> ev_time) es)"
proof -
  define H where "H = (\<Union>b \<in> set bs. fst ` set (neigs b))"
  have fin: "finite H" by (simp add: H_def)
  have "weight f b = (\<Sum>h \<in> H. sum_list (map (f \<circ> tm) (list_of h b)))" if "b \<in> set bs" for b
    by (rule weight_heads [OF _ fin]) (use that assms heads_ok_um in \<open>auto simp: holds_session_def H_def\<close>)
  then have "sum_list (map (weight f) bs) = sum_list (map (\<lambda>b. \<Sum>h \<in> H. sum_list (map (f \<circ> tm) (list_of h b))) bs)"
    by (intro arg_cong [where f = sum_list] map_cong) simp_all
  also have "\<dots> = (\<Sum>h \<in> H. sum_list (map (f \<circ> tm) (stored_history h bs)))"
    unfolding sum_list_swap [OF fin] by (simp add: stored_history_def map_concat sum_list_concats comp_def)
  also have "\<dots> \<le> (\<Sum>h \<in> H. sum_list (map (f \<circ> snd) (window_at h (map ev_edge es))))"
  proof (rule sum_mono)
    fix h
    have "map (f \<circ> snd) (window_at h (map ev_edge es)) = map (f \<circ> tm) (stored_history h bs) @ map (f \<circ> snd) (history [] mg h)"
      unfolding stored_prefix [OF assms, of h, symmetric] by (simp add: comp_def tt_def)
    then show "sum_list (map (f \<circ> tm) (stored_history h bs)) \<le> sum_list (map (f \<circ> snd) (window_at h (map ev_edge es)))" by simp
  qed
  also have "\<dots> = sum_list (map (\<lambda>e. \<Sum>h \<in> H. sum_list (map (f \<circ> snd) (touch_at h (ev_edge e)))) es)"
    unfolding sum_list_swap [OF fin] by (simp add: window_at_def map_concat sum_list_concats comp_def)
  also have "\<dots> \<le> sum_list (map (\<lambda>e. 2 * f (ev_time e)) es)"
    using touch_weight [OF fin] by (intro sum_list_mono) (metis utm_ev)
  also have "\<dots> = 2 * sum_list (map (f \<circ> ev_time) es)" by (simp add: sum_list_const_mult comp_def)
  finally show ?thesis .
qed

section \<open>The blocks written can be stored\<close>

definition calls_ok :: "schema \<Rightarrow> event list \<Rightarrow> bool" where
  "calls_ok s es \<longleftrightarrow> schema_ok s \<and> in_time es \<and> (\<forall>(v, u, t, a, vals) \<in> set es. vals_ok s vals)"

lemma ev_full: "calls_ok s es \<Longrightarrow> e \<in> set es \<Longrightarrow> full_data s (ev_data s e)"
  by (cases e) (auto simp: calls_ok_def full_data_def data_of_ok vals_ok_length)

lemma block_edge:
  assumes "holds_session s es mg bs" "in_time es" "b \<in> set bs" "um_find (neigs b) h = Some nl" "e \<in> set (edges nl)"
  obtains ev a where "ev \<in> set es" "tm e = ev_time ev" "edata e = Some (a, ev_data s ev)" "session_records s es (tm e) = Some (edata e)"
proof -
  have r: "session_records s es (tm e) = Some (edata e)" using assms(1,3-5) by (auto simp: holds_session_def carries_def)
  then obtain ev where ev: "ev \<in> set es" "tm e = ev_time ev" using records_dom [of s es] by (metis domI imageE)
  then have "edata e = snd (ev_record s ev)" using records_at [OF assms(2) ev(1), of s] r by simp
  moreover obtain v u t a vals where "ev = (v, u, t, a, vals)" by (cases ev) auto
  ultimately show ?thesis using that ev r by auto
qed

lemma session_block_ok:
  assumes "holds_session s es mg bs" "calls_ok s es" "b \<in> set bs"
  shows "block_ok s b"
proof -
  have heads: "heads_ok (neigs b)" and time: "in_time es" using assms by (auto simp: holds_session_def calls_ok_def)
  have E: "\<exists>ev \<in> set es. tm e = ev_time ev \<and> the_data e = ev_data s ev \<and> edata e \<noteq> None" if "(h, e) \<in> set (all_edges (neigs b))" for h e
  proof -
    from that obtain nl where "um_find (neigs b) h = Some nl" "e \<in> set (edges nl)" using all_edges_find [OF heads_ok_um [OF heads]] by auto
    then show ?thesis by (rule block_edge [OF assms(1) time assms(3)]) (auto simp: the_data_def)
  qed
  have "\<not> is_nan (tm e) \<and> edata e \<noteq> None \<and> full_data s (the_data e)" if "(h, e) \<in> set (all_edges (neigs b))" for h e
    using E [OF that] ev_full [OF assms(2)] time dlt_not_nan by (auto simp: in_time_def)
  moreover have "the_data e' = the_data e" if "(h, e) \<in> set (all_edges (neigs b))" "(h', e') \<in> set (all_edges (neigs b))"
      "EdgeTriplet_eq (trip h' e') (trip h e)" for h e h' e'
  proof -
    have "deq (tm e') (tm e)" using that(3) by (simp add: EdgeTriplet_eq_def trip_def EdgeTriplet_def)
    then show ?thesis using E [OF that(1)] E [OF that(2)] in_time_deq [OF time] by metis
  qed
  ultimately show ?thesis using heads unfolding block_ok_def by blast
qed

lemma proj_size:
  assumes "schema_ok s" "names_in s attrs" "full_data s d"
  shows "data_size (proj_data s attrs d) \<le> data_size d"
proof -
  let ?f = "\<lambda>i. val_size (the (um_find (fieldsOf d) i))" and ?n = "length (attributes s)"
  have keys: "um_keys (fieldsOf d) = [0..<?n]" using assms(3) by (simp add: full_data_def)
  have "um_ok (fieldsOf d)" using assms(3) by (simp add: full_data_def data_ok_def)
  then have "map ?f (um_keys (fieldsOf d)) = map (val_size \<circ> snd) (fieldsOf d)" by (auto simp: map_of_is_SomeI)
  then have "data_size d = sum_list (map ?f [0..<?n])" unfolding data_size_def keys by simp
  then have d: "data_size d = sum ?f {..<?n}" by (simp add: sum_set_upt_conv_sum_list_nat [symmetric] atLeast0LessThan)
  have "data_size (proj_data s attrs d) = sum_list (map ?f (map (attr_index s) attrs))" by (simp add: data_size_def proj_data_def comp_def)
  also have "\<dots> = sum ?f (attr_index s ` set attrs)"
    using attr_index_inj [OF assms(1,2)] by (subst sum_list_distinct_conv_sum_set) simp_all
  also have "\<dots> \<le> sum ?f {..<?n}"
  proof (rule sum_mono2)
    show "attr_index s ` set attrs \<subseteq> {..<?n}" using attr_index_find(2) [OF assms(1)] assms(2) unfolding names_in_def by blast
  qed simp_all
  finally show ?thesis using d by simp
qed

definition session_bytes :: "schema \<Rightarrow> event list \<Rightarrow> nat" where
  "session_bytes s es = 2 * sum_list (map (\<lambda>e. 28 + data_size (ev_data s e)) es)"

lemma session_split_bytes:
  assumes "holds_session s es mg bs" "in_time es" "b \<in> set bs"
    and "\<And>ev e a. ev \<in> set es \<Longrightarrow> edata e = Some (a, ev_data s ev) \<Longrightarrow> data_size (g e) \<le> data_size (ev_data s ev)"
  shows "split_bytes g b \<le> session_bytes s es"
proof -
  define f where "f t = 28 + data_size (snd (the (the (session_records s es t))))" for t
  have "split_bytes g b \<le> weight f b"
    unfolding split_bytes_def weight_def
  proof (intro sum_list_mono, clarify)
    fix h nl assume m: "(h, nl) \<in> set (neigs b)"
    have ok: "heads_ok (neigs b)" using assms(1,3) by (simp add: holds_session_def)
    then have nl: "um_find (neigs b) h = Some nl" "edges nl \<noteq> []" using m by (auto simp: heads_ok_def)
    have "16 + data_size (g e) \<le> f (tm e) - 12 \<and> 12 \<le> f (tm e)" if e: "e \<in> set (edges nl)" for e
      by (rule block_edge [OF assms(1-3) nl(1) e]) (use assms(4) in \<open>auto simp: f_def\<close>)
    then have "sum_list (map (\<lambda>e. 16 + data_size (g e)) es) + 12 * length es \<le> sum_list (map (f \<circ> tm) es)" if "set es \<subseteq> set (edges nl)" for es
      using that by (induction es) force+
    from this [of "edges nl"] nl(2) show "12 + sum_list (map (\<lambda>e. 16 + data_size (g e)) (edges nl)) \<le> sum_list (map (f \<circ> tm) (edges nl))"
      by (cases "edges nl") auto
  qed
  also have "\<dots> \<le> sum_list (map (weight f) bs)" using assms(3) by (intro member_le_sum_list) simp_all
  also have "\<dots> \<le> 2 * sum_list (map (f \<circ> ev_time) es)" by (rule session_weight [OF assms(1)])
  also have "map (f \<circ> ev_time) es = map (\<lambda>e. 28 + data_size (ev_data s e)) es"
  proof (rule map_cong [OF refl])
    fix e assume e: "e \<in> set es"
    show "(f \<circ> ev_time) e = 28 + data_size (ev_data s e)" using records_at [OF assms(2) e, of s] by (simp add: f_def)
  qed
  finally show ?thesis by (simp add: session_bytes_def)
qed

lemma session_block_count:
  assumes "holds_session s es mg bs"
  shows "length bs \<le> 2 * length es"
proof -
  have "1 \<le> weight (\<lambda>_. 1) b" if b: "b \<in> set bs" for b
  proof -
    from b assms obtain h nl m where "neigs b = (h, nl) # m" "edges nl \<noteq> []"
      by (cases "neigs b") (auto simp: holds_session_def heads_ok_def)
    then show ?thesis by (cases "edges nl") (simp_all add: weight_def)
  qed
  then have "sum_list (map (\<lambda>_. 1) bs) \<le> sum_list (map (weight (\<lambda>_. 1)) bs)" by (intro sum_list_mono) simp
  also have "\<dots> \<le> 2 * sum_list (map ((\<lambda>_. 1) \<circ> ev_time) es)" by (rule session_weight [OF assms])
  finally show ?thesis by (simp add: comp_def sum_list_triv)
qed

text \<open>The middle of the times of a block is that of two edges of the session.\<close>

definition times_served :: "timeSlicedPartitioning list \<Rightarrow> event list \<Rightarrow> bool" where
  "times_served sl es \<longleftrightarrow> (\<forall>e \<in> set es. dlt (ev_time e) d_max
     \<and> (\<forall>e' \<in> set es. served_time sl (ddiv (dadd (ev_time e) (ev_time e')) d_two)))"

lemma minmax_times:
  "for_each minmax_step m (mn, mx) = Inr (mn', mx') \<Longrightarrow> \<forall>(h, nl) \<in> set m. edges nl \<noteq> [] \<and> (\<forall>e \<in> set (edges nl). tm e \<in> T) \<Longrightarrow>
    \<forall>t \<in> T. dlt t d_max \<and> dlt 0 t \<Longrightarrow> mn \<in> insert d_max T \<Longrightarrow> mx \<in> insert 0 T \<Longrightarrow>
    mn' \<in> insert d_max T \<and> mx' \<in> insert 0 T \<and> (m \<noteq> [] \<or> mn \<in> T \<and> mx \<in> T \<longrightarrow> mn' \<in> T \<and> mx' \<in> T)"
proof (induction m arbitrary: mn mx)
  case (Cons p m)
  obtain h nl where p: "p = (h, nl)" by force
  have e: "tm (hd (edges nl)) \<in> T" "tm (last (edges nl)) \<in> T" using Cons.prems(2) by (auto simp: p)
  have "minmax_step p (mn, mx) = Inr (if dlt (tm (hd (edges nl))) mn then tm (hd (edges nl)) else mn,
      if dgt (tm (last (edges nl))) mx then tm (last (edges nl)) else mx)"
    using Cons.prems(2) by (simp add: p getOldestEdge_def getNewestEdge_def split: list.splits)
  moreover have "(if dlt (tm (hd (edges nl))) mn then tm (hd (edges nl)) else mn) \<in> T" using e(1) Cons.prems(3,4) by auto
  moreover have "(if dgt (tm (last (edges nl))) mx then tm (last (edges nl)) else mx) \<in> T" using e(2) Cons.prems(3,5) by auto
  ultimately show ?case using Cons.IH Cons.prems(1-3) by auto
qed auto

lemma session_fits:
  assumes "holds_session s es mg bs" "calls_ok s es" "times_served sl es" "slices_ok sl s" "slices_served sl s p"
    and "session_bytes s es \<le> 2 ^ 30" "b \<in> set bs"
  shows "HistoricalWrite.fits sl s b"
proof -
  have time: "in_time es" and heads: "heads_ok (neigs b)" "neigs b \<noteq> []" using assms(1,2,7) by (auto simp: calls_ok_def holds_session_def)
  obtain mn mx where mm: "findMinMaxTimestamps b = Inr (mn, mx)"
    using findMinMax_succeeds [of "neigs b" d_max 0] heads(1) unfolding heads_ok_def findMinMaxTimestamps_def by (metis (lifting) case_prod_conv surj_pair)
  have at: "tm e \<in> ev_time ` set es" if "(h, nl) \<in> set (neigs b)" "e \<in> set (edges nl)" for h nl e
  proof -
    have "um_find (neigs b) h = Some nl" using that(1) heads_ok_um [OF heads(1)] by simp
    then show ?thesis by (rule block_edge [OF assms(1) time assms(7) _ that(2)]) simp
  qed
  have lists: "\<forall>(h, nl) \<in> set (neigs b). edges nl \<noteq> [] \<and> (\<forall>e \<in> set (edges nl). tm e \<in> ev_time ` set es)"
    using at heads(1) unfolding heads_ok_def by blast
  have "\<forall>t \<in> ev_time ` set es. dlt t d_max \<and> dlt 0 t" using assms(3) time by (auto simp: times_served_def in_time_def)
  from minmax_times [OF mm [unfolded findMinMaxTimestamps_def] lists this] heads(2)
  have "mn \<in> ev_time ` set es \<and> mx \<in> ev_time ` set es" by simp
  then have t: "getPartitioningTimestamp b = Inr (ddiv (dadd mn mx) d_two)" "served_time sl (ddiv (dadd mn mx) d_two)"
    using mm assms(3) by (auto simp: getPartitioningTimestamp_def times_served_def)
  let ?t = "ddiv (dadd mn mx) d_two"
  have "slice_at sl ?t \<in> set sl" using served_covers(1) t(2) assms(5) by (auto simp: slices_served_def pidx_ok_def)
  then have names: "schema_ok s" "\<forall>attrs \<in> set (part_at sl ?t). names_in s attrs" using assms(4) by (auto simp: slices_ok_def covers_def)
  have "split_bytes (proj_data s attrs \<circ> the_data) b \<le> session_bytes s es" if "attrs \<in> set (part_at sl ?t)" for attrs
  proof (rule session_split_bytes [OF assms(1) time assms(7)])
    fix ev a and e :: edge
    assume "ev \<in> set es" "edata e = Some (a, ev_data s ev)"
    then show "data_size ((proj_data s attrs \<circ> the_data) e) \<le> data_size (ev_data s ev)"
      using proj_size [OF names(1), of attrs] names(2) that ev_full [OF assms(2)] by (simp add: the_data_def)
  qed
  moreover have "split_bytes (\<lambda>e. empty_data s) b \<le> session_bytes s es"
    by (rule session_split_bytes [OF assms(1) time assms(7)]) simp
  ultimately show ?thesis
    unfolding HistoricalWrite.fits_def using session_block_ok [OF assms(1,2,7)] t assms(6) by (auto intro: order_trans)
qed

section \<open>What a query returns\<close>

fun ends_of :: "schema \<Rightarrow> vertexId \<Rightarrow> event \<Rightarrow> (vertexId \<times> timestamp \<times> attributeData) list" where
  "ends_of s w (v, u, t, a, vals) =
     (if w = v then [(u, t, data_of s vals)] else if w = u then [(v, t, data_of s vals)] else [])"

definition edges_at :: "schema \<Rightarrow> vertexId \<Rightarrow> event list \<Rightarrow> (vertexId \<times> timestamp \<times> attributeData) list" where
  "edges_at s w es = concat (map (ends_of s w) es)"

text \<open>The number of edges of a vertex that are not in a block yet.\<close>

definition in_memory :: "'rt interactionGraph \<Rightarrow> vertexId \<Rightarrow> nat" where
  "in_memory ig w = length (history [] (memg ig) w)"

lemma edges_at_window: "map (\<lambda>(to, t, d). (to, t)) (edges_at s w es) = window_at w (map ev_edge es)"
proof -
  have "map (\<lambda>(to, t, d). (to, t)) (ends_of s w e) = touch_at w (ev_edge e)" for e
    by (cases e) (simp add: touch_at_def UEdge_def)
  then show ?thesis by (simp add: edges_at_def window_at_def map_concat comp_def)
qed

lemma stored_edges_at:
  assumes "holds_session s es mg bs" "in_time es"
  shows "map (\<lambda>e. (toVertex e, tm e, the_data e)) (stored_history w bs) = take (length (edges_at s w es) - length (history [] mg w)) (edges_at s w es)"
    (is "?L = take ?k _")
proof -
  define G where "G t = snd (the (the (session_records s es t)))" for t
  let ?p = "\<lambda>(to, t, d :: attributeData). (to :: vertexId, t :: timestamp)"
  have rec: "G (ev_time ev) = ev_data s ev" if "ev \<in> set es" for ev using records_at [OF assms(2) that, of s] by (simp add: G_def)
  have L: "the_data e = G (tm e)" if "e \<in> set (stored_history w bs)" for e
    using stored_edge [OF assms(1) that] by (auto simp: the_data_def G_def)
  have R: "y = (case ?p y of (to, t) \<Rightarrow> (to, t, G t))" if "y \<in> set (edges_at s w es)" for y
  proof -
    from that obtain v u t a vals where ev: "(v, u, t, a, vals) \<in> set es" "y \<in> set (ends_of s w (v, u, t, a, vals))"
      by (auto simp: edges_at_def simp del: ends_of.simps)
    show ?thesis using rec [OF ev(1)] ev(2) by (auto split: if_splits)
  qed
  have "map tt (stored_history w bs) = take ?k (window_at w (map ev_edge es))"
    using stored_prefix [OF assms(1), of w, symmetric] arg_cong [OF edges_at_window [of s w es], of length] by simp
  also have "\<dots> = map ?p (take ?k (edges_at s w es))" unfolding edges_at_window [symmetric, of w es s] by (rule take_map)
  finally have tts: "map tt (stored_history w bs) = map ?p (take ?k (edges_at s w es))" .
  have "?L = map (\<lambda>(to, t). (to, t, G t)) (map tt (stored_history w bs))" using L by (simp add: tt_def)
  also have "\<dots> = map (\<lambda>y. case ?p y of (to, t) \<Rightarrow> (to, t, G t)) (take ?k (edges_at s w es))" unfolding tts by simp
  also have "\<dots> = take ?k (edges_at s w es)"
    by (rule map_idI) (rule R [symmetric], erule in_set_takeD)
  finally show ?thesis .
qed

lemma sess_calls: "sess_inv ins ig0 es ig \<Longrightarrow> calls_ok (schema_of ig0) es"
  by (fastforce simp: sess_inv_def calls_ok_def ig_inv_def edge_call_ok_def)

lemma session_bytes_length: "56 * length es \<le> session_bytes s es"
  by (induction es) (simp_all add: session_bytes_def)

text \<open>What the written blocks answer, in every state of a session.\<close>

lemma session_query_run:
  assumes "spatial_index ins hits tree" "slices_ok sl (schema_of ig0)" "fresh tree sl ig0" "sess_inv ins ig0 es ig"
    and "times_served sl es" "session_bytes (schema_of ig0) es \<le> 2 ^ 30" "unat (nextBlockId (bman (hisg ig0))) \<le> 2 ^ 63"
    and "scan_ok sl (schema_of ig0) st (fold us_insert (attributeNames q) [])" "time_ok (qStart q)" "\<not> is_nan (qEnd q)"
  shows "\<exists>ei hg2 bm'. hg_focusedIntervalQuery st q (hisg ig) = Inr (ei, hg2)
    \<and> ei_collect st ei (bman hg2) = Inr (map (\<lambda>(to, t, d). (to, t, proj_data (schema_of ig0) (fold us_insert (attributeNames q) []) d))
        (filter (\<lambda>(to, t, d). dle (qStart q) t \<and> dlt t (qEnd q))
          (take (length (edges_at (schema_of ig0) (qHead q) es) - in_memory ig (qHead q)) (edges_at (schema_of ig0) (qHead q) es))), bm')"
proof -
  let ?s = "schema_of ig0" and ?attrs = "fold us_insert (attributeNames q) []"
  note calls = sess_calls [OF assms(4)]
  then have time: "in_time es" by (simp add: calls_ok_def)
  obtain bs where bs: "for_each (hg_addBlock ins) bs (hisg ig0) = Inr (hisg ig)" "holds_session ?s es (memg ig) bs"
    using assms(4) by (auto simp: sess_inv_def)
  have H: "hist_ok tree sl ?s [] (hisg ig0)" using assms(3) by (simp add: fresh_def)
  then have store: "store_ok sl ?s (bman (hisg ig0))" "ids_below (bman (hisg ig0))" by (simp_all add: hist_ok_def)
  then have "slices_served sl ?s (pidx (bman (hisg ig0)))" by (simp add: bm_ok_def)
  then have fits: "\<forall>b \<in> set bs. HistoricalWrite.fits sl ?s b"
    using session_fits [OF bs(2) calls assms(5,2) _ assms(6)] by blast
  have "length bs * 2 ^ 28 < 2 ^ 63"
    using session_block_count [OF bs(2)] session_bytes_length [of es ?s] assms(6) by simp
  then have "HistoricalWrite.room sl ?s (length bs * 2 ^ 28) (bman (hisg ig0))" using store assms(7) by (simp add: HistoricalWrite.room_def)
  from written_edges_run [OF assms(1,2) H this fits session_in_order [OF bs(2) time] assms(8-10)] bs(1) obtain ei hg2 bm' where
    q: "hg_focusedIntervalQuery st q (hisg ig) = Inr (ei, hg2)"
      "ei_collect st ei (bman hg2) = Inr (map (out_edge ?s ?attrs) (filter (in_range (qStart q) (qEnd q)) (stored_history (qHead q) bs)), bm')"
    by auto
  have "map (out_edge ?s ?attrs) (filter (in_range (qStart q) (qEnd q)) (stored_history (qHead q) bs))
      = map (\<lambda>(to, t, d). (to, t, proj_data ?s ?attrs d)) (filter (\<lambda>(to, t, d). dle (qStart q) t \<and> dlt t (qEnd q))
          (map (\<lambda>e. (toVertex e, tm e, the_data e)) (stored_history (qHead q) bs)))"
    by (simp add: filter_map comp_def out_edge_def [abs_def] in_range_def [abs_def])
  with q show ?thesis unfolding stored_edges_at [OF bs(2) time] in_memory_def [symmetric] by auto
qed

section \<open>Properties\<close>

text \<open>C1: the graph answers from what it was given. In every state of every session from a fresh graph, a focused
  interval query at a vertex succeeds and returns, in time order, exactly the edges added at that vertex
  whose time is in the range (end exclusive), each with the values of the attributes asked for, except for
  the most recent ones that are still in memory; and flushing ends, after which, unless it threw, nothing
  is in memory and every edge added is found. This covers the window, the expiration map in every layout
  mode, splitting the blocks by the partitionings of their times, their bytes in the store, both
  indexes and the iterators over them. The size limit bounds the bytes of all edges of the session.\<close>

theorem session_edges_are_found:
  assumes "spatial_index ins hits tree" "slices_ok sl (schema_of ig0)" "fresh tree sl ig0" "session ins (ig0, fs0) es (ig, fs)"
    and "times_served sl es" "session_bytes (schema_of ig0) es \<le> 2 ^ 30" "unat (nextBlockId (bman (hisg ig0))) \<le> 2 ^ 63"
    and "scan_ok sl (schema_of ig0) (schemaStats (meta ig)) (fold us_insert (attributeNames q) [])" "time_ok (qStart q)" "\<not> is_nan (qEnd q)"
    and "collectFocusedIntervalQuery hp base (query.truncate q) (qcol ig0) = Inr qc"
  shows "(\<exists>ei ig1 bm'. processFocusedIntervalQuery hp base q ig = Inr (ei, ig1)
      \<and> ei_collect (schemaStats (meta ig)) ei (bman (hisg ig1)) =
          Inr (map (\<lambda>(to, t, d). (to, t, proj_data (schema_of ig0) (fold us_insert (attributeNames q) []) d))
            (filter (\<lambda>(to, t, d). dle (qStart q) t \<and> dlt t (qEnd q))
              (take (length (edges_at (schema_of ig0) (qHead q) es) - in_memory ig (qHead q)) (edges_at (schema_of ig0) (qHead q) es))), bm'))
    \<and> (\<exists>r. ig_flush ins (ig, fs) = Some r \<and> (\<forall>ig1 fs1. r = Inr (ig1, fs1) \<longrightarrow> session ins (ig0, fs0) es (ig1, fs1) \<and> (\<forall>w. in_memory ig1 w = 0)))"
proof -
  have len: "2 * length es < 2 ^ 64" using session_bytes_length [of es "schema_of ig0"] assms(6) by simp
  have S: "sess_inv ins ig0 es ig" using session_inv [OF assms(4,3) len] by simp
  have "qcol ig = qcol ig0" using S by (simp add: sess_inv_def)
  then have query: "\<exists>ei ig1 bm'. processFocusedIntervalQuery hp base q ig = Inr (ei, ig1)
      \<and> ei_collect (schemaStats (meta ig)) ei (bman (hisg ig1)) =
          Inr (map (\<lambda>(to, t, d). (to, t, proj_data (schema_of ig0) (fold us_insert (attributeNames q) []) d))
            (filter (\<lambda>(to, t, d). dle (qStart q) t \<and> dlt t (qEnd q))
              (take (length (edges_at (schema_of ig0) (qHead q) es) - in_memory ig (qHead q)) (edges_at (schema_of ig0) (qHead q) es))), bm')"
    using session_query_run [OF assms(1-3) S assms(5-10)] assms(11) by (auto simp: processFocusedIntervalQuery_def)
  from sess_flush [OF S len, of fs] obtain r where r: "ig_flush ins (ig, fs) = Some r"
    "\<And>ig1 fs1. r = Inr (ig1, fs1) \<Longrightarrow> sess_inv ins ig0 es ig1 \<and> fifoEdges (vfifo (memg ig1)) = [] \<and> neigLists (expm (memg ig1)) = []" by blast
  have "session ins (ig0, fs0) es (ig1, fs1) \<and> in_memory ig1 w = 0" if "r = Inr (ig1, fs1)" for ig1 fs1 w
    using r(2) [OF that] session.flushed [OF assms(4), of ig1 fs1] r(1) that mg_empty(5) [of "memg ig1" w]
    by (auto simp: in_memory_def sess_inv_def ig_inv_def)
  then show ?thesis using query r(1) by blast
qed

text \<open>The session of the witness: two vertices and an edge between them, still in the window.\<close>

abbreviation ex_files :: fileSystem where
  "ex_files \<equiv> \<lparr>contents = [], denied = []\<rparr>"

definition ex_session_conf :: conf where
  "ex_session_conf = (Conf ''g'' ''/tmp'' [] [])\<lparr>edgeSchema := ex_schema, layoutMode := LM_Old\<rparr>"

definition ex_fresh :: "(region \<times> byte list) list interactionGraph" where
  "ex_fresh =
     \<lparr>igConf = ex_session_conf, vman = VertexManager 2 ex_db (conf.vertexSchema ex_session_conf),
      meta = \<lparr>mdStorageDir = ''/tmp'', mdNextBlockId = 1, schemaStats = []\<rparr>, hisg = ex_hist,
      memg = \<lparr>vfifo = EdgeFIFO 1,
        expm = \<lparr>stats = BlockStats ex_session_conf, emSize = 0, maxSize = 2 * expirationMapSize ex_session_conf, emConf = ex_session_conf,
          hvScorer = OldScorer, randAt = (\<lambda>n. n), randPos = 0, scoreQueue = PriorityQueue max_size_t, neigLists = []\<rparr>, mgLists = []\<rparr>,
      qcol = QueryCollector ex_session_conf, lastTime = 0\<rparr>"

lemma ex_fresh_ok: "fresh set [ex_slice] ex_fresh"
proof -
  have c: "schema_ok (conf.vertexSchema ex_session_conf)" "edgeSchema ex_session_conf = ex_schema" "0 < seedEdgeCount (smartLayoutConf ex_session_conf)"
    by (simp_all add: ex_session_conf_def Conf_def Schema_ok SmartLayoutConf_def)
  have v: "vm_ok (vman ex_fresh)" "vertexManager.vertexSchema (vman ex_fresh) = conf.vertexSchema ex_session_conf"
     "no_vertex ex_fresh v" for v
    by (simp_all add: ex_fresh_def vm_ok_def VertexManager_def lru_ok_def db_ok_def ex_db_def no_vertex_def)
  have "dom (pq_look (PriorityQueue max_size_t :: vertexId pqueue)) = {}" by (simp add: pq_look_dom PriorityQueue_def)
  then have "em_inv (expm (memg ex_fresh))"
    using PriorityQueue_inv by (simp add: ex_fresh_def total_def em_inv_def heads_ok_def times_ok_def unique_edges_def)
  then have "mg_inv (memg ex_fresh)" 
    using c(3) by (simp add: ex_fresh_def mg_inv_def EdgeFIFO_def window_at_def list_at_def heads_ok_def)
  moreover have "before (memg ex_fresh) t" for t 
    by (simp add: ex_fresh_def before_def history_def written_def window_at_def EdgeFIFO_def keys_at_def)
  ultimately have "ig_inv ex_fresh" unfolding ig_inv_def using v c ex_schema_ok by (simp add: ex_fresh_def)
  then show ?thesis using v(3) ex_hist_ok(1) c(2) time_ok_zero
    by (simp add: fresh_def) (simp add: ex_fresh_def EdgeFIFO_def)
qed

lemma ex_edge_data: "data_of ex_schema [IntV 0, StringV ''bob''] = ex_data"
  using ex_data_fields ex_data_schema by (simp add: data_of_def)

lemma ex_vertices:
  "\<exists>vm. session ex_ins (ex_fresh, fs) [] (ex_fresh\<lparr>vman := vm\<rparr>, fs) \<and> ig_inv (ex_fresh\<lparr>vman := vm\<rparr>)
    \<and> has_vertex (ex_fresh\<lparr>vman := vm\<rparr>) 1 \<and> has_vertex (ex_fresh\<lparr>vman := vm\<rparr>) 2"
proof -
  have F: "ig_inv ex_fresh" "no_vertex ex_fresh v" for v using ex_fresh_ok by (simp_all add: fresh_def)
  have c: "vertex_call_ok (igConf ex_fresh) []" "igConf ex_fresh = ex_session_conf"
    by (simp_all add: ex_fresh_def ex_session_conf_def vertex_call_ok_def vals_ok_def Conf_def Schema_def data_size_def)
  note call = c(1) [unfolded vertex_call_ok_def]
  from createVertex_run [OF F(1) conjunct1 [OF call] F(2) conjunct2 [OF call], of 1] obtain vm1 where
    v1: "createVertex 1 [] ex_fresh = Inr (ex_fresh\<lparr>vman := vm1\<rparr>)" "ig_inv (ex_fresh\<lparr>vman := vm1\<rparr>)" "has_vertex (ex_fresh\<lparr>vman := vm1\<rparr>) 1"
      "no_vertex (ex_fresh\<lparr>vman := vm1\<rparr>) 2" using F(2) [of 2] by fastforce
  from createVertex_run [OF v1(2) _ v1(4), of "[]"] call v1(3) obtain vm2 where
    v2: "createVertex 2 [] (ex_fresh\<lparr>vman := vm1\<rparr>) = Inr (ex_fresh\<lparr>vman := vm2\<rparr>)" "ig_inv (ex_fresh\<lparr>vman := vm2\<rparr>)"
      "has_vertex (ex_fresh\<lparr>vman := vm2\<rparr>) 1" "has_vertex (ex_fresh\<lparr>vman := vm2\<rparr>) 2" by auto
  have "session ex_ins (ex_fresh, fs) [] (ex_fresh\<lparr>vman := vm1\<rparr>, fs)" using session.vertex [OF session.start c(1) v1(1)] .
  then have "session ex_ins (ex_fresh, fs) [] (ex_fresh\<lparr>vman := vm2\<rparr>, fs)" by (rule session.vertex [OF _ _ v2(1)]) (use c in simp)
  then show ?thesis using v2(2-4) by blast
qed

definition ex_counted :: schemaStats where
  "ex_counted = [(0, 1, dof_nat 8), (1, 1, dof_nat 7)]"

lemma ex_count: "count_fields ex_data [] = Inr ex_counted"
proof -
  have "getFieldSize ex_data 0 = Inr 8" "getFieldSize ex_data (Suc 0) = Inr 7"
    by (simp_all add: getFieldSize_def ex_data_schema ex_schema_attributes vec_at_def getIntAttribute_def getStringAttribute_def getAttribute_def
        ex_data_fields getSerializedSizeOf_string_def get_int_def get_string_def)
  then show ?thesis by (simp add: count_fields_def ex_data_fields incrCountAndBytes_def ex_counted_def um_put_def)
qed

definition ex_window :: inMemoryGraph where
  "ex_window = (memg ex_fresh)\<lparr>vfifo := fifo_addEdge (UEdge 1 2 d_one) (EdgeFIFO 1),
     mgLists := [(1, \<lparr>headVertex = 1, edges = [\<lparr>toVertex = 2, tm = d_one, edata = Some (7, ex_data)\<rparr>]\<rparr>),
                 (2, \<lparr>headVertex = 2, edges = [\<lparr>toVertex = 1, tm = d_one, edata = Some (7, ex_data)\<rparr>]\<rparr>)]\<rparr>"

lemma ex_add: "mg_addEdge addBlk 1 2 d_one (Some (7, ex_data)) (memg ex_fresh, [], h) = Inr (ex_window, ex_counted, h)"
  by (simp add: mg_addEdge_def Let_def expire_loop.simps hasExpiredEdges_def fifo_addEdge_def EdgeFIFO_def ex_fresh_def ex_count mg_push_def ex_window_def um_put_def nl_addEdge_def)

lemma ex_session: "\<exists>vm. session ex_ins (ex_fresh, fs) [(1, 2, d_one, 7, [IntV 0, StringV ''bob''])]
  (ex_fresh\<lparr>lastTime := d_one, vman := vm, memg := ex_window, meta := (meta ex_fresh)\<lparr>schemaStats := ex_counted\<rparr>\<rparr>, fs)"
proof -
  obtain vm where vm: "session ex_ins (ex_fresh, fs) [] (ex_fresh\<lparr>vman := vm\<rparr>, fs)" "ig_inv (ex_fresh\<lparr>vman := vm\<rparr>)"
      "has_vertex (ex_fresh\<lparr>vman := vm\<rparr>) 1" "has_vertex (ex_fresh\<lparr>vman := vm\<rparr>) 2" using ex_vertices by blast
  let ?ig = "ex_fresh\<lparr>vman := vm\<rparr>" and ?vals = "[IntV 0, StringV ''bob'']"
  have f: "dlt (lastTime ?ig) d_one" "schema_of ex_fresh = ex_schema" "length (attributes ex_schema) = 2"
      "schemaStats (meta ex_fresh) = []" "blockSize (igConf ex_fresh) = blockSize (Conf ''g'' ''/tmp'' [] [])"
    by (simp_all add: ex_fresh_def ex_session_conf_def double_eval ex_schema_attributes)
  from ig_addEdge_checked [OF vm(2) _ f(1) vm(3,4), of ex_ins 7 ?vals] obtain vm1 where
    add: "ig_addEdge ex_ins 7 1 2 d_one ?vals ?ig = Inr (ex_fresh\<lparr>lastTime := d_one, vman := vm1, memg := ex_window, meta := (meta ex_fresh)\<lparr>schemaStats := ex_counted\<rparr>\<rparr>)"
    by (auto simp: f ex_edge_data ex_add)
  have "vals_ok ex_schema ?vals" by (simp add: vals_ok_def ex_schema_attributes val_ok_def)
  then have "edge_call_ok (igConf ?ig) ?vals" using ex_data_size by (simp add: edge_call_ok_def f ex_edge_data Conf_def)
  from session.edge [OF vm(1) this add] show ?thesis by auto
qed

lemma ex_counted_scan: "scan_ok [ex_slice] ex_schema ex_counted [''nick'']"
proof -
  have ix: "getIndex ex_schema ''age'' = Inr 0" "getIndex ex_schema ''nick'' = Inr 1"
    by (simp_all add: getIndex_def ex_schema_def Schema_def add_name_type_def um_emplace_def um_count_def)
  have sz: "ei_getAttributeSize ex_schema ex_counted ''age'' = Inr 8" "ei_getAttributeSize ex_schema ex_counted ''nick'' = Inr 7"
    using ddiv_dof_nat [of 8 1] ddiv_dof_nat [of 7 1] d_to_size_dof_nat [of 8] d_to_size_dof_nat [of 7]
    by (simp_all add: ei_getAttributeSize_def ix stats_getAvgSize_def ex_counted_def)
  have "names_in ex_schema [''nick'']" using ex_scan_ok by (simp add: scan_ok_def)
  moreover have "\<exists>sz. sized ex_schema ex_counted sz [''age''] \<and> sized ex_schema ex_counted sz [''nick'']"
    using sz by (intro exI [of _ "\<lambda>n. if n = ''age'' then 8 else 7"]) (simp add: sized_def)
  ultimately show ?thesis using ex_schema_ok ex_covers by (auto simp: scan_ok_def ex_slice_def ex_part_def)
qed

theorem session_edges_are_found_witness:
  "\<exists>ig. session ex_ins (ex_fresh, ex_files) [(1, 2, d_one, 7, [IntV 0, StringV ''bob''])] (ig, ex_files) \<and> in_memory ig 1 = 1
    \<and> (\<exists>ei ig1 bm'. processFocusedIntervalQuery (\<lambda>_. 0) 0 (FocusedIntervalQuery (\<lambda>_. 0) 1 d_one d_two [''nick'']) ig = Inr (ei, ig1)
         \<and> ei_collect (schemaStats (meta ig)) ei (bman (hisg ig1)) = Inr ([], bm'))"
proof -
  let ?q = "FocusedIntervalQuery (\<lambda>_. 0) 1 d_one d_two [''nick'']" and ?es = "[(1, 2, d_one, 7, [IntV 0, StringV ''bob''])]"
  obtain vm where S: "session ex_ins (ex_fresh, ex_files) ?es
      (ex_fresh\<lparr>lastTime := d_one, vman := vm, memg := ex_window, meta := (meta ex_fresh)\<lparr>schemaStats := ex_counted\<rparr>\<rparr>, ex_files)" (is "session _ _ _ (?ig, _)")
    using ex_session by blast
  have q: "fold us_insert (attributeNames ?q) [] = [''nick'']" "qHead ?q = 1" "qStart ?q = d_one" "qEnd ?q = d_two"
    by (simp_all add: FocusedIntervalQuery_def query.extend_def Query_def us_insert_def Let_def)
  have num: "time_ok d_one" "\<not> is_nan d_two" "dlt d_one d_max" by (simp_all add: double_eval d_max_def)
  have c: "schema_of ex_fresh = ex_schema" "schemaStats (meta ?ig) = ex_counted" "hisg ex_fresh = ex_hist" "unat (nextBlockId (bman ex_hist)) \<le> 2 ^ 63"
    by (simp_all add: ex_fresh_def ex_session_conf_def ex_hist_def BlockManager_def)
  have served: "times_served [ex_slice] ?es" using num(3) ex_slice_at(1) by (simp add: times_served_def ex_midpoint)
  have bytes: "session_bytes ex_schema ?es \<le> 2 ^ 30" by (simp add: session_bytes_def ex_edge_data ex_data_size)
  have mem: "in_memory ?ig 1 = 1"
    by (simp add: in_memory_def ex_window_def history_def written_def window_at_def fifo_addEdge_def EdgeFIFO_def touch_at_def UEdge_def ex_fresh_def)
  obtain qc where "collectFocusedIntervalQuery (\<lambda>_. 0) 0 (query.truncate ?q) (qcol ex_fresh) = Inr qc"
    using collect_one [of "\<lambda>_. 0" 0 "[]" "qcol ex_fresh" "query.truncate ?q"] ex_schema_attributes
    by (auto simp: ex_fresh_def collected_def QueryCollector_def ex_session_conf_def query.defs FocusedIntervalQuery_def Query_def Let_def)
  note R = session_edges_are_found [OF ex_spatial _ ex_fresh_ok S, of ?q, unfolded c q, OF ex_hist_ok(3) served bytes c(4) ex_counted_scan num(1,2) this]
  have "length (edges_at ex_schema 1 ?es) - in_memory ?ig 1 = 0" by (simp add: edges_at_def mem)
  then show ?thesis using S mem conjunct1 [OF R] c(2) by auto
qed

end
