(* ===== verification/CostModel.thy ===== *)
theory CostModel
  imports Workload
begin

text \<open>
  The cost model of the shared library (\<^verbatim>\<open>Cost.h/.cpp\<close>, \<^verbatim>\<open>SystemConstants.h\<close>): the expected size of a
  partition, the partitions that a query reads, the expected cost of a workload and the storage
  overhead of a partitioning. A \<^verbatim>\<open>Partition const *\<close> is the position of the partition in its vector.
\<close>

section \<open>Sizes\<close>

definition avg_size :: "schemaStats \<Rightarrow> attrPtr \<Rightarrow> double result" where
  "avg_size st a = stats_getAvgSize (word_of_nat (attrIndex (snd a))) st"

definition cost_getPartitionSize :: "schemaStats \<Rightarrow> partition \<Rightarrow> double result" where
  "cost_getPartitionSize st p =
     rbind (for_each (\<lambda>a attributesSize. rbind (avg_size st a) (\<lambda>s. Inr (dadd attributesSize s))) p 0) (\<lambda>attributesSize.
       Inr (dadd (dmul (dof_nat 24) (dadd (dof_nat (8 + 8)) attributesSize)) (dof_nat (8 * (8 + 4)))))"

section \<open>The partitions a query reads\<close>

definition effective_attributes :: "attrPtr list \<Rightarrow> querySummary \<Rightarrow> attrPtr list" where
  "effective_attributes attrs q =
     fold (\<lambda>a eff. if a \<in> set attrs then us_insert a eff else eff) (sumAttributes q) []"

definition cost_score_attr ::
  "schemaStats \<Rightarrow> attrPtr list \<Rightarrow> attrPtr list \<Rightarrow> double \<Rightarrow> attrPtr \<Rightarrow> double \<Rightarrow> double result" where
  "cost_score_attr st effective selected partitionSize a sc =
     (if a \<in> set selected then Inr sc
      else if a \<notin> set effective then Inr sc
      else rbind (avg_size st a) (\<lambda>s. Inr (dadd sc (ddiv (dmul s (dof_nat 24)) partitionSize))))"

definition cost_partition_score :: "schemaStats \<Rightarrow> attrPtr list \<Rightarrow> attrPtr list \<Rightarrow> partition \<Rightarrow> double result" where
  "cost_partition_score st effective selected p =
     rbind (cost_getPartitionSize st p) (\<lambda>n. for_each (cost_score_attr st effective selected n) p 0)"

definition cost_better ::
  "schemaStats \<Rightarrow> attrPtr list \<Rightarrow> attrPtr list \<Rightarrow> partition list \<Rightarrow> nat \<Rightarrow> double \<times> nat option \<Rightarrow> (double \<times> nat option) result" where
  "cost_better st effective selected ps i best =
     rbind (vec_index ps i) (\<lambda>p.
     rbind (cost_partition_score st effective selected p) (\<lambda>sc.
       Inr (if dgt sc (fst best) then (sc, Some i) else best)))"

definition cost_best ::
  "schemaStats \<Rightarrow> attrPtr list \<Rightarrow> attrPtr list \<Rightarrow> partition list \<Rightarrow> nat list \<Rightarrow> nat option result" where
  "cost_best st effective selected ps unused =
     rbind (for_each (cost_better st effective selected ps) unused (dminus d_one, None)) (\<lambda>(_, i). Inr i)"

lemma cost_best_mem:
  assumes "cost_best st effective selected ps unused = Inr (Some i)"
  shows "i \<in> set unused" and "i < length ps"
proof -
  let ?P = "\<lambda>b. \<forall>i. snd b = Some i \<longrightarrow> i \<in> set unused \<and> i < length ps"
  from assms obtain sc where run: "for_each (cost_better st effective selected ps) unused (dminus d_one, None) = Inr (sc, Some i)"
    by (auto simp: cost_best_def rbind_Inr_iff)
  have "?P (sc, Some i)"
    by (rule for_each_invariant [where P = ?P, OF run]) (auto simp: cost_better_def rbind_Inr_iff split: if_splits)
  then show "i \<in> set unused" and "i < length ps" by simp_all
qed

function used_loop ::
  "schemaStats \<Rightarrow> attrPtr list \<Rightarrow> partition list \<Rightarrow> attrPtr list \<Rightarrow> nat list \<Rightarrow> nat list \<Rightarrow> nat list result" where
  "used_loop st effective ps selected unused used =
     (if length selected < length effective
      then rbind (cost_best st effective selected ps unused) (\<lambda>best.
           case best of
             None \<Rightarrow> Inl AssertionFailed
           | Some i \<Rightarrow> used_loop st effective ps (fold us_insert (ps ! i) selected) (us_erase i unused) (used @ [i]))
      else Inr used)"
  by pat_completeness auto
termination
  by (relation "measure (\<lambda>(_, _, _, _, unused, _). length unused)") (auto dest: cost_best_mem(1) intro: us_erase_length)

declare used_loop.simps [simp del]

definition getUsedPartitions :: "schemaStats \<Rightarrow> partition list \<Rightarrow> attrPtr list \<Rightarrow> querySummary \<Rightarrow> nat list result" where
  "getUsedPartitions st ps attrs q = used_loop st (effective_attributes attrs q) ps [] [0..<length ps] []"

section \<open>Costs of a workload\<close>

definition sum_sizes :: "schemaStats \<Rightarrow> partition list \<Rightarrow> double result" where
  "sum_sizes st ps = for_each (\<lambda>p tot. rbind (cost_getPartitionSize st p) (\<lambda>n. Inr (dadd tot n))) ps 0"

definition summary_cost ::
  "schemaStats \<Rightarrow> partition list \<Rightarrow> queryWorkload \<Rightarrow> attrPtr list \<Rightarrow> querySummary \<Rightarrow> double \<Rightarrow> double result" where
  "summary_cost st ps w attrs q tot =
     rbind (getUsedPartitions st ps attrs q) (\<lambda>used.
     rbind (sum_sizes st (map (\<lambda>i. ps ! i) used)) (\<lambda>io.
     rbind (getFrequency w q) (\<lambda>f. Inr (dadd tot (dmul f io)))))"

definition getIOCost_filtered :: "schemaStats \<Rightarrow> partition list \<Rightarrow> queryWorkload \<Rightarrow> attrPtr list \<Rightarrow> double result" where
  "getIOCost_filtered st ps w attrs = for_each (summary_cost st ps w attrs) (wlQueries w) 0"

definition getIOCost :: "schemaStats \<Rightarrow> partition list \<Rightarrow> queryWorkload \<Rightarrow> double result" where
  "getIOCost st ps w = getIOCost_filtered st ps w (fold us_insert (wlAttributes w) [])"

definition getStorageOverhead :: "schemaStats \<Rightarrow> partition list \<Rightarrow> queryWorkload \<Rightarrow> double result" where
  "getStorageOverhead st ps w =
     rbind (cost_getPartitionSize st (fold addAttribute (wlAttributes w) [])) (\<lambda>blockSize.
     rbind (sum_sizes st ps) (\<lambda>tot. Inr (dsub (ddiv tot blockSize) d_one)))"

section \<open>When the computations succeed\<close>

text \<open>The sizes of the attributes are known, and nothing overflows: the size of every partition over them is
  a positive finite number.\<close>

definition sizes_ok :: "schemaStats \<Rightarrow> attrPtr set \<Rightarrow> bool" where
  "sizes_ok st A \<longleftrightarrow>
     (\<forall>a \<in> A. \<exists>v. avg_size st a = Inr v \<and> \<not> is_nan (dmul v (dof_nat 24)) \<and> \<not> is_inf (dmul v (dof_nat 24)) \<and> \<not> dneg (dmul v (dof_nat 24)))
   \<and> (\<forall>p. set p \<subseteq> A \<and> distinct p \<longrightarrow> (\<exists>n. cost_getPartitionSize st p = Inr n \<and> \<not> is_nan n \<and> \<not> is_inf n \<and> \<not> dneg n \<and> dmag n \<noteq> 0))"

lemma score_ok:
  assumes "sizes_ok st A" "set p \<subseteq> A" "distinct p"
  shows "\<exists>sc. cost_partition_score st eff sel p = Inr sc \<and> nonneg sc"
proof -
  from assms obtain n where n: "cost_getPartitionSize st p = Inr n" "nonneg n" "\<not> is_inf n" "dmag n \<noteq> 0"
    unfolding sizes_ok_def nonneg_def by blast
  have step: "\<exists>sc'. cost_score_attr st eff sel n a sc = Inr sc' \<and> nonneg sc'" if "a \<in> A" "nonneg sc" for a sc
  proof -
    from that(1) assms(1) obtain v where v: "avg_size st a = Inr v" "nonneg (dmul v (dof_nat 24))"
      unfolding sizes_ok_def nonneg_def by blast
    from ddiv_nonneg [OF v(2) n(2-4)] show ?thesis using v(1) that(2) dadd_nonneg [OF that(2)] by (simp add: cost_score_attr_def)
  qed
  have "\<exists>sc'. for_each (cost_score_attr st eff sel n) q sc = Inr sc' \<and> nonneg sc'" if "set q \<subseteq> A" "nonneg sc" for q sc
    using that
  proof (induction q arbitrary: sc)
    case (Cons a q)
    from step [of a sc] Cons.prems obtain sc1 where "cost_score_attr st eff sel n a sc = Inr sc1" "nonneg sc1" by auto
    with Cons.IH [of sc1] Cons.prems show ?case by simp
  qed simp
  from this [OF assms(2), of 0] n(1) zero_nonneg show ?thesis by (simp add: cost_partition_score_def)
qed

lemma best_ok:
  assumes "sizes_ok st A" "\<forall>i \<in> set unused. i < length ps \<and> set (ps ! i) \<subseteq> A \<and> distinct (ps ! i)"
  shows "\<exists>r. cost_best st eff sel ps unused = Inr r \<and> (r = None \<longleftrightarrow> unused = [])"
proof -
  have "\<exists>sc' r. for_each (cost_better st eff sel ps) us (sc, b) = Inr (sc', r) \<and> (b \<noteq> None \<longrightarrow> r \<noteq> None) \<and> (b = None \<and> us \<noteq> [] \<and> sc = dminus d_one \<longrightarrow> r \<noteq> None)
      \<and> (us = [] \<longrightarrow> r = b)"
    if "set us \<subseteq> set unused" for us sc b
    using that
  proof (induction us arbitrary: sc b)
    case (Cons i us)
    then have i: "i < length ps" "set (ps ! i) \<subseteq> A" "distinct (ps ! i)" using assms(2) by auto
    from score_ok [OF assms(1) i(2,3)] obtain s where s: "cost_partition_score st eff sel (ps ! i) = Inr s" "nonneg s" by blast
    let ?b = "if dgt s sc then (s, Some i) else (sc, b)"
    have "cost_better st eff sel ps i (sc, b) = Inr ?b" using i(1) s(1) by (simp add: cost_better_def vec_index_def)
    moreover have "sc = dminus d_one \<longrightarrow> dgt s sc" using above_minus_one [OF s(2)] by simp
    ultimately show ?case using Cons.IH [of "fst ?b" "snd ?b"] Cons.prems by (auto split: if_splits)
  qed simp
  from this [of unused "dminus d_one" None] show ?thesis by (auto simp: cost_best_def)
qed

text \<open>The greedy choice ends without tripping its assertion when the partitions together hold the attributes
  it has to cover.\<close>

lemma used_loop_ok:
  assumes "sizes_ok st A" "covered ps \<subseteq> A" "\<forall>p \<in> set ps. distinct p" "distinct eff"
    and "set unused \<subseteq> {..<length ps}" "distinct unused" "distinct sel"
    and "\<forall>i < length ps. i \<notin> set unused \<longrightarrow> set (ps ! i) \<subseteq> set sel" "set eff \<subseteq> covered ps"
    and "distinct (used @ unused)"
  shows "\<exists>us. used_loop st eff ps sel unused used = Inr us \<and> distinct us \<and> set us \<subseteq> set used \<union> set unused"
  using assms(5-)
proof (induction "length unused" arbitrary: sel unused used rule: less_induct)
  case less
  show ?case
  proof (cases "length sel < length eff")
    case False
    then show ?thesis using less.prems by (subst used_loop.simps) auto
  next
    case True
    have "unused \<noteq> []"
    proof
      assume "unused = []"
      then have "covered ps \<subseteq> set sel" using less.prems(4) by (fastforce simp: covered_iff)
      then have "set eff \<subseteq> set sel" using less.prems(5) by blast
      then have "length eff \<le> length sel"
        using distinct_card [OF assms(4)] distinct_card [OF less.prems(3)] card_mono [of "set sel" "set eff"] by simp
      with True show False by simp
    qed
    moreover have "\<forall>i \<in> set unused. i < length ps \<and> set (ps ! i) \<subseteq> A \<and> distinct (ps ! i)"
      using less.prems(1) assms(2,3) by (force simp: covered_def)
    ultimately obtain i where i: "cost_best st eff sel ps unused = Inr (Some i)" using best_ok [OF assms(1), of unused ps eff sel] by fastforce
    note mem = cost_best_mem [OF i]
    have "\<exists>us. used_loop st eff ps (fold us_insert (ps ! i) sel) (us_erase i unused) (used @ [i]) = Inr us \<and> distinct us
        \<and> set us \<subseteq> set (used @ [i]) \<union> set (us_erase i unused)"
      using less.prems mem us_erase_length [OF mem(1)]
      by (intro less.hyps) (auto simp: fold_us_insert_set fold_us_insert_distinct)
    then show ?thesis using True i mem by (subst used_loop.simps) auto
  qed
qed

lemma effective_set: "set (effective_attributes attrs q) = set attrs \<inter> set (sumAttributes q)"
  and effective_distinct: "distinct (effective_attributes attrs q)"
proof -
  let ?f = "fold (\<lambda>a eff. if a \<in> set attrs then us_insert a eff else eff)"
  have "set (?f as acc) = set acc \<union> (set attrs \<inter> set as) \<and> (distinct acc \<longrightarrow> distinct (?f as acc))" for as acc
    by (induction as arbitrary: acc) auto
  from this [of "sumAttributes q" "[]"] show "set (effective_attributes attrs q) = set attrs \<inter> set (sumAttributes q)"
    "distinct (effective_attributes attrs q)" by (simp_all add: effective_attributes_def)
qed

lemma sum_sizes_ok:
  assumes "sizes_ok st A" "\<forall>p \<in> set ps. set p \<subseteq> A \<and> distinct p"
  shows "\<exists>v. sum_sizes st ps = Inr v"
proof -
  have "\<exists>v. for_each (\<lambda>p tot. rbind (cost_getPartitionSize st p) (\<lambda>n. Inr (dadd tot n))) ps acc = Inr v" for acc
    using assms(2)
  proof (induction ps arbitrary: acc)
    case (Cons p ps)
    then obtain n where "cost_getPartitionSize st p = Inr n" using assms(1) unfolding sizes_ok_def by (metis list.set_intros(1))
    with Cons show ?case by simp
  qed simp
  then show ?thesis by (simp add: sum_sizes_def)
qed

text \<open>Every query has a frequency.\<close>

definition frequencies_ok :: "queryWorkload \<Rightarrow> bool" where
  "frequencies_ok w \<longleftrightarrow> (\<forall>q \<in> set (wlQueries w). \<exists>f. getFrequency w q = Inr f)"

lemma getUsedPartitions_ok:
  assumes "sizes_ok st A" "covered ps \<subseteq> A" "\<forall>p \<in> set ps. distinct p" "set attrs \<inter> set (sumAttributes q) \<subseteq> covered ps"
  shows "\<exists>us. getUsedPartitions st ps attrs q = Inr us \<and> distinct us \<and> set us \<subseteq> {..<length ps}"
  using used_loop_ok [OF assms(1-3), of "effective_attributes attrs q" "[0..<length ps]" "[]" "[]"] assms(4)
  by (simp add: getUsedPartitions_def effective_set effective_distinct atLeast0LessThan)

lemma getIOCost_ok:
  assumes "sizes_ok st A" "covered ps \<subseteq> A" "\<forall>p \<in> set ps. distinct p" "frequencies_ok w" "set attrs \<subseteq> covered ps"
  shows "\<exists>v. getIOCost_filtered st ps w attrs = Inr v"
proof -
  have one: "\<exists>v. summary_cost st ps w attrs q acc = Inr v" if q: "q \<in> set (wlQueries w)" for q acc
  proof -
    from getUsedPartitions_ok [OF assms(1-3), of attrs q] assms(5) obtain us where
      us: "getUsedPartitions st ps attrs q = Inr us" "set us \<subseteq> {..<length ps}" by blast
    have "\<forall>p \<in> set (map ((!) ps) us). set p \<subseteq> A \<and> distinct p" using us(2) assms(2,3) by (force simp: covered_def)
    from sum_sizes_ok [OF assms(1) this] obtain v where "sum_sizes st (map ((!) ps) us) = Inr v" by blast
    moreover obtain f where "getFrequency w q = Inr f" using assms(4) q by (auto simp: frequencies_ok_def)
    ultimately show ?thesis using us(1) by (simp add: summary_cost_def)
  qed
  have "\<exists>v. for_each (summary_cost st ps w attrs) qs acc = Inr v" if "set qs \<subseteq> set (wlQueries w)" for qs acc
    using that
  proof (induction qs arbitrary: acc)
    case (Cons q qs)
    then obtain v where "summary_cost st ps w attrs q acc = Inr v" using one [of q acc] by auto
    with Cons show ?case by simp
  qed simp
  then show ?thesis by (simp add: getIOCost_filtered_def)
qed

lemma getStorageOverhead_ok:
  assumes "sizes_ok st A" "\<forall>p \<in> set ps. set p \<subseteq> A \<and> distinct p" "set (wlAttributes w) \<subseteq> A"
  shows "\<exists>v. getStorageOverhead st ps w = Inr v"
proof -
  have "set (fold us_insert (wlAttributes w) []) \<subseteq> A" "distinct (fold us_insert (wlAttributes w) [])"
    using assms(3) by (simp_all add: fold_us_insert_set fold_us_insert_distinct)
  then obtain n where "cost_getPartitionSize st (fold us_insert (wlAttributes w) []) = Inr n" using assms(1) unfolding sizes_ok_def by blast
  moreover obtain v where "sum_sizes st ps = Inr v" using sum_sizes_ok [OF assms(1,2)] by blast
  ultimately show ?thesis by (simp add: getStorageOverhead_def fold_addAttribute)
qed

end
