(* ===== verification/Heuristics.thy ===== *)
theory Heuristics
  imports CostModel
begin

text \<open>
  The solvers of the optimizer that need no linear program (\<^verbatim>\<open>SinglePartition.cpp\<close>,
  \<^verbatim>\<open>PartitionPerAttribute.cpp\<close>, \<^verbatim>\<open>HeuristicNonOverlapping.cpp\<close>, \<^verbatim>\<open>HeuristicOverlapping.cpp\<close>) and
  \<^verbatim>\<open>MinCostSolution.h\<close>. \<^verbatim>\<open>std::sort\<close> fixes no order among equal elements: it is a stable sort after the
  rearrangement \<open>perm\<close>, of which the statements assume only that it is one.
\<close>

section \<open>The cheapest solution so far\<close>

record 'a minCostSolution =
  inited :: bool
  bestSolution :: "'a option"
  minCost :: double

definition MinCostSolution :: "'a option \<Rightarrow> 'a minCostSolution" where
  "MinCostSolution def = \<lparr>inited = False, bestSolution = def, minCost = d_max\<rparr>"

definition push :: "'a \<Rightarrow> double \<Rightarrow> 'a minCostSolution \<Rightarrow> 'a minCostSolution" where
  "push solution cost m =
     (if \<not> inited m \<or> dle cost (minCost m) then \<lparr>inited = True, bestSolution = Some solution, minCost = cost\<rparr> else m)"

section \<open>The two trivial solvers\<close>

definition singlePartition :: "queryWorkload \<Rightarrow> partition list" where
  "singlePartition w = addPartition (fold addAttribute (wlAttributes w) []) []"

definition partitionPerAttribute :: "queryWorkload \<Rightarrow> partition list" where
  "partitionPerAttribute w =
     snd (fold (\<lambda>a (p, ps). let p1 = addAttribute a (clearAttributes p) in (p1, addPartition p1 ps)) (wlAttributes w) ([], []))"

section \<open>The non-overlapping heuristic\<close>

definition attrb_freq :: "queryWorkload \<Rightarrow> (attrPtr, nat) umap" where
  "attrb_freq w =
     fold (\<lambda>q m. fold (\<lambda>a m. um_put a (case um_find m a of Some n \<Rightarrow> n + 1 | None \<Rightarrow> 1) m) (sumAttributes q) m) (wlQueries w)
       (fold (\<lambda>a. um_put a 0) (wlAttributes w) [])"

definition freq_of :: "queryWorkload \<Rightarrow> attrPtr \<Rightarrow> nat" where
  "freq_of w a = (case um_find (attrb_freq w) a of Some n \<Rightarrow> n | None \<Rightarrow> 0)"

text \<open>Trying the attribute in one partition: it is added, the cost is taken, and it is removed again.\<close>

definition try_part ::
  "schemaStats \<Rightarrow> queryWorkload \<Rightarrow> attrPtr list \<Rightarrow> attrPtr \<Rightarrow> nat \<Rightarrow> partition list \<times> nat minCostSolution
     \<Rightarrow> (partition list \<times> nat minCostSolution) result" where
  "try_part st w usedAttributes a k = (\<lambda>(ps, m).
     let ps1 = ps[k := addAttribute a (ps ! k)]
     in rbind (getIOCost_filtered st ps1 w usedAttributes) (\<lambda>cost.
          Inr (ps1[k := removeAttribute a (ps1 ! k)], push k cost m)))"

definition place_attr ::
  "schemaStats \<Rightarrow> queryWorkload \<Rightarrow> attrPtr \<Rightarrow> partition list \<times> attrPtr list \<Rightarrow> (partition list \<times> attrPtr list) result" where
  "place_attr st w a = (\<lambda>(ps, usedAttributes0).
     let usedAttributes = us_insert a usedAttributes0
     in rbind (for_each (try_part st w usedAttributes a) [0..<length ps] (ps, MinCostSolution None)) (\<lambda>(ps1, m).
        rbind (deref (bestSolution m)) (\<lambda>k. Inr (ps1[k := addAttribute a (ps1 ! k)], usedAttributes))))"

definition hno_solve ::
  "(attrPtr list \<Rightarrow> attrPtr list) \<Rightarrow> schemaStats \<Rightarrow> queryWorkload \<Rightarrow> nat \<Rightarrow> partition list result" where
  "hno_solve perm st w numPartitions =
     (let attributes = sort_key (\<lambda>a. - int (freq_of w a)) (perm (wlAttributes w))
      in rbind (for_each (place_attr st w) attributes (replicate numPartitions [], [])) (\<lambda>(ps, _).
           Inr (filter (\<lambda>p. length p > 0) ps)))"

definition query_attributes :: "queryWorkload \<Rightarrow> attrPtr list" where
  "query_attributes w = fold (\<lambda>q s. fold us_insert (sumAttributes q) s) (wlQueries w) []"

text \<open>The loop over the number of partitions, as the list of the numbers still to try; it breaks off when the
  storage overhead gets too large.\<close>

fun hno_loop ::
  "(attrPtr list \<Rightarrow> attrPtr list) \<Rightarrow> schemaStats \<Rightarrow> queryWorkload \<Rightarrow> double \<Rightarrow> nat list \<Rightarrow> partition list minCostSolution
     \<Rightarrow> partition list minCostSolution result" where
  "hno_loop perm st w storageThreshold [] m = Inr m"
| "hno_loop perm st w storageThreshold (n # ns) m =
     rbind (hno_solve perm st w n) (\<lambda>ps.
     rbind (getStorageOverhead st ps w) (\<lambda>overhead.
       if dgt overhead storageThreshold then Inr m
       else rbind (getIOCost st ps w) (\<lambda>cost. hno_loop perm st w storageThreshold ns (push ps cost m))))"

definition heuristicNonOverlapping ::
  "(attrPtr list \<Rightarrow> attrPtr list) \<Rightarrow> queryWorkload \<Rightarrow> double \<Rightarrow> schemaStats \<Rightarrow> partition list result" where
  "heuristicNonOverlapping perm w storageThreshold st =
     rbind (hno_loop perm st w storageThreshold [1..<min (length (query_attributes w) + 1) (length (wlAttributes w)) + 1]
              (MinCostSolution (Some []))) (\<lambda>m.
     rbind (assert_that (inited m)) (\<lambda>_. deref (bestSolution m)))"

section \<open>The overlapping heuristic\<close>

definition query_partition :: "querySummary \<Rightarrow> partition list \<times> attrPtr list \<Rightarrow> partition list \<times> attrPtr list" where
  "query_partition q = (\<lambda>(ps, missing).
     let (p, missing1) = fold (\<lambda>a (p, missing). (addAttribute a p, if a \<in> set missing then us_erase a missing else missing))
           (sumAttributes q) ([], missing)
     in (addPartition p ps, missing1))"

definition initial_partitioning :: "queryWorkload \<Rightarrow> partition list" where
  "initial_partitioning w =
     (let (ps, missing) = fold query_partition (wlQueries w) ([], fold us_insert (wlAttributes w) [])
      in if length missing > 0 then addPartition (fold addAttribute missing []) ps else ps)"

text \<open>Trying to merge two partitions: the merge is taken back by splitting.\<close>

definition try_merge ::
  "schemaStats \<Rightarrow> queryWorkload \<Rightarrow> double \<Rightarrow> nat \<times> nat \<Rightarrow> partition list \<times> (nat \<times> nat) minCostSolution
     \<Rightarrow> (partition list \<times> (nat \<times> nat) minCostSolution) result" where
  "try_merge st w oldCost = (\<lambda>(i, j) (ps, m).
     rbind (vec_index ps i) (\<lambda>lhsP.
     rbind (vec_index ps j) (\<lambda>rhsP.
     rbind (cost_getPartitionSize st lhsP) (\<lambda>lhsSize.
     rbind (cost_getPartitionSize st rhsP) (\<lambda>rhsSize.
     rbind (mergePartitions i j ps) (\<lambda>ps1.
     rbind (getIOCost st ps1 w) (\<lambda>newCost.
     rbind (vec_index ps1 i) (\<lambda>newP.
     rbind (cost_getPartitionSize st newP) (\<lambda>newSize.
     let cost = ddiv (dsub newCost oldCost) (dsub (dadd lhsSize rhsSize) newSize)
     in rbind (splitPartition i j lhsP rhsP ps1) (\<lambda>ps2. Inr (ps2, push (i, j) cost m)))))))))))"

definition pairs_of :: "nat \<Rightarrow> (nat \<times> nat) list" where
  "pairs_of n = concat (map (\<lambda>i. map (\<lambda>j. (i, j)) [Suc i..<n]) [0..<n - 1])"

definition merge_best :: "schemaStats \<Rightarrow> queryWorkload \<Rightarrow> partition list \<Rightarrow> partition list result" where
  "merge_best st w ps =
     rbind (getIOCost st ps w) (\<lambda>oldCost.
     rbind (for_each (try_merge st w oldCost) (pairs_of (length ps)) (ps, MinCostSolution (Some (0, 0)))) (\<lambda>(ps1, m).
     rbind (deref (bestSolution m)) (\<lambda>(i, j). mergePartitions i j ps1)))"

partial_function (option) ho_loop ::
  "schemaStats \<Rightarrow> queryWorkload \<Rightarrow> double \<Rightarrow> partition list \<Rightarrow> partition list result option" where
  "ho_loop st w storageThreshold ps =
     (case getStorageOverhead st ps w of
        Inl err \<Rightarrow> Some (Inl err)
      | Inr overhead \<Rightarrow>
          if dgt overhead storageThreshold
          then (case merge_best st w ps of Inl err \<Rightarrow> Some (Inl err) | Inr ps1 \<Rightarrow> ho_loop st w storageThreshold ps1)
          else Some (Inr ps))"

definition heuristicOverlapping :: "queryWorkload \<Rightarrow> double \<Rightarrow> schemaStats \<Rightarrow> partition list result option" where
  "heuristicOverlapping w storageThreshold st = ho_loop st w storageThreshold (initial_partitioning w)"

section \<open>Placing attributes\<close>

lemma push_inited: "inited (push x c m)" "bestSolution (push x c m) = Some x \<or> push x c m = m"
  by (simp_all add: push_def)

lemma mset_concat_update:
  "k < length ps \<Longrightarrow> mset (concat (ps[k := ps ! k @ [a]])) = add_mset a (mset (concat ps))"
proof (induction ps arbitrary: k)
  case (Cons p ps)
  then show ?case by (cases k) simp_all
qed simp

lemma covered_concat: "covered ps = set (concat ps)"
  by (simp add: covered_def)

lemma concat_distinct_parts: "distinct (concat ps) \<Longrightarrow> p \<in> set ps \<Longrightarrow> distinct p"
  by (induction ps) auto

text \<open>The partitions hold every attribute placed so far exactly once.\<close>

definition placed :: "partition list \<Rightarrow> attrPtr list \<Rightarrow> bool" where
  "placed ps as \<longleftrightarrow> distinct as \<and> mset (concat ps) = mset as"

lemma placed_facts:
  assumes "placed ps as"
  shows "distinct (concat ps)" "covered ps = set as" "\<forall>p \<in> set ps. distinct p"
proof -
  show d: "distinct (concat ps)" using assms mset_eq_imp_distinct_iff by (auto simp: placed_def)
  show "covered ps = set as" unfolding covered_concat using assms by (intro mset_eq_setD) (simp add: placed_def)
  show "\<forall>p \<in> set ps. distinct p" using concat_distinct_parts [OF d] by blast
qed

lemma placed_add:
  assumes "placed ps as" "a \<notin> set as" "k < length ps"
  shows "addAttribute a (ps ! k) = ps ! k @ [a]" "placed (ps[k := ps ! k @ [a]]) (as @ [a])" "removeAttribute a (ps ! k @ [a]) = ps ! k"
proof -
  have "a \<notin> covered ps" using placed_facts(2) [OF assms(1)] assms(2) by simp
  then have a: "a \<notin> set (ps ! k)" using assms(3) by (auto simp: covered_def)
  then show "addAttribute a (ps ! k) = ps ! k @ [a]" by (simp add: addAttribute_def us_insert_def)
  have "filter (\<lambda>y. y \<noteq> a) (ps ! k) = ps ! k" using a by (auto intro: filter_True)
  then show "removeAttribute a (ps ! k @ [a]) = ps ! k" by (simp add: removeAttribute_def us_erase_def)
  show "placed (ps[k := ps ! k @ [a]]) (as @ [a])"
    using assms mset_concat_update [OF assms(3), of a] by (simp add: placed_def)
qed

lemma try_parts:
  assumes "sizes_ok st A" "frequencies_ok w" "placed ps as" "a \<notin> set as" "set (as @ [a]) \<subseteq> A" "set ks \<subseteq> {..<length ps}"
    and "\<forall>k. bestSolution m = Some k \<longrightarrow> k < length ps" "inited m \<longleftrightarrow> bestSolution m \<noteq> None"
  shows "\<exists>m'. for_each (try_part st w (as @ [a]) a) ks (ps, m) = Inr (ps, m') \<and> (\<forall>k. bestSolution m' = Some k \<longrightarrow> k < length ps)
    \<and> (ks \<noteq> [] \<or> bestSolution m \<noteq> None \<longrightarrow> bestSolution m' \<noteq> None)"
  using assms(6-)
proof (induction ks arbitrary: m)
  case (Cons k ks)
  then have k: "k < length ps" by simp
  note pa = placed_add [OF assms(3,4) k]
  note f = placed_facts [OF pa(2)]
  obtain c where c: "getIOCost_filtered st (ps[k := ps ! k @ [a]]) w (as @ [a]) = Inr c"
    using getIOCost_ok [OF assms(1) _ f(3) assms(2), of "as @ [a]"] f(2) assms(5) by auto
  have step: "try_part st w (as @ [a]) a k (ps, m) = Inr (ps, push k c m)"
    using c k pa(1,3) by (simp add: try_part_def Let_def)
  have "\<forall>i. bestSolution (push k c m) = Some i \<longrightarrow> i < length ps" "inited (push k c m) \<longleftrightarrow> bestSolution (push k c m) \<noteq> None"
      "bestSolution (push k c m) \<noteq> None"
    using Cons.prems k by (auto simp: push_def)
  with Cons.IH [of "push k c m"] Cons.prems(1) step show ?case by simp
qed simp

lemma place_one:
  assumes "sizes_ok st A" "frequencies_ok w" "placed ps as" "a \<notin> set as" "set (as @ [a]) \<subseteq> A" "ps \<noteq> []"
  shows "\<exists>ps'. place_attr st w a (ps, as) = Inr (ps', as @ [a]) \<and> placed ps' (as @ [a]) \<and> length ps' = length ps"
proof -
  have u: "us_insert a as = as @ [a]" using assms(4) by (simp add: us_insert_def)
  from try_parts [OF assms(1-5), of "[0..<length ps]" "MinCostSolution None"] assms(6) obtain m k where
    m: "for_each (try_part st w (as @ [a]) a) [0..<length ps] (ps, MinCostSolution None) = Inr (ps, m)" "bestSolution m = Some k" "k < length ps"
    by (auto simp: MinCostSolution_def atLeast0LessThan)
  note pa = placed_add [OF assms(3,4) m(3)]
  have "place_attr st w a (ps, as) = Inr (ps[k := ps ! k @ [a]], as @ [a])"
    using m pa(1) by (simp add: place_attr_def u Let_def)
  with pa(2) show ?thesis by simp
qed

lemma place_all:
  assumes "sizes_ok st A" "frequencies_ok w" "placed ps as" "distinct (as @ bs)" "set (as @ bs) \<subseteq> A" "ps \<noteq> []"
  shows "\<exists>ps'. for_each (place_attr st w) bs (ps, as) = Inr (ps', as @ bs) \<and> placed ps' (as @ bs) \<and> length ps' = length ps"
  using assms(3-)
proof (induction bs arbitrary: ps as)
  case (Cons b bs)
  obtain ps1 where ps1: "place_attr st w b (ps, as) = Inr (ps1, as @ [b])" "placed ps1 (as @ [b])" "length ps1 = length ps"
    using place_one [OF assms(1,2) Cons.prems(1), of b] Cons.prems by auto
  moreover have "ps1 \<noteq> []" using ps1(3) Cons.prems(4) by auto
  ultimately show ?case using Cons.IH [OF ps1(2)] Cons.prems by simp
qed simp

lemma hno_solve_ok:
  assumes "sizes_ok st (set (wlAttributes w))" "frequencies_ok w" "distinct (wlAttributes w)" "\<And>xs. mset (perm xs) = mset xs" "0 < n"
  shows "\<exists>ps. hno_solve perm st w n = Inr ps \<and> mset (concat ps) = mset (wlAttributes w) \<and> [] \<notin> set ps \<and> length ps \<le> n"
proof -
  let ?as = "sort_key (\<lambda>a. - int (freq_of w a)) (perm (wlAttributes w))"
  have as: "mset ?as = mset (wlAttributes w)" using assms(4) by simp
  then have d: "distinct ?as" "set ?as = set (wlAttributes w)"
    using mset_eq_imp_distinct_iff [OF as] mset_eq_setD [OF as] assms(3) by simp_all
  have "placed (replicate n []) []" by (simp add: placed_def)
  from place_all [OF assms(1,2) this, of ?as] d assms(5) obtain ps where
    ps: "for_each (place_attr st w) ?as (replicate n [], []) = Inr (ps, ?as)" "placed ps ?as" "length ps = n" by auto
  have "concat (filter (\<lambda>p. length p > 0) qs) = concat qs" for qs :: "partition list" by (induction qs) auto
  then have "mset (concat (filter (\<lambda>p. length p > 0) ps)) = mset (wlAttributes w)" using ps(2) as by (simp add: placed_def)
  moreover have "hno_solve perm st w n = Inr (filter (\<lambda>p. length p > 0) ps)" using ps(1) by (simp add: hno_solve_def Let_def)
  ultimately show ?thesis using ps(3) length_filter_le [of _ ps] by auto
qed

definition valid_solution :: "schemaStats \<Rightarrow> queryWorkload \<Rightarrow> double \<Rightarrow> partition list \<Rightarrow> bool" where
  "valid_solution st w th ps \<longleftrightarrow> mset (concat ps) = mset (wlAttributes w) \<and> [] \<notin> set ps
     \<and> (\<exists>v. getStorageOverhead st ps w = Inr v \<and> \<not> dgt v th)"

lemma hno_loop_ok:
  assumes "sizes_ok st (set (wlAttributes w))" "frequencies_ok w" "distinct (wlAttributes w)" "\<And>xs. mset (perm xs) = mset xs"
    and "\<forall>n \<in> set ns. 0 < n" "inited m \<Longrightarrow> \<exists>ps. bestSolution m = Some ps \<and> valid_solution st w th ps"
    and first: "\<not> inited m \<Longrightarrow> \<exists>ns'. ns = 1 # ns'"
    and single: "\<And>p v. mset p = mset (wlAttributes w) \<Longrightarrow> getStorageOverhead st [p] w = Inr v \<Longrightarrow> \<not> dgt v th" and ne: "wlAttributes w \<noteq> []"
  shows "\<exists>m' ps. hno_loop perm st w th ns m = Inr m' \<and> inited m' \<and> bestSolution m' = Some ps \<and> valid_solution st w th ps"
  using assms(5-7)
proof (induction ns arbitrary: m)
  case Nil
  then show ?case by auto
next
  case (Cons n ns)
  obtain ps where ps: "hno_solve perm st w n = Inr ps" "mset (concat ps) = mset (wlAttributes w)" "[] \<notin> set ps" "length ps \<le> n"
    using hno_solve_ok [OF assms(1-4), of n] Cons.prems(1) by auto
  have d: "distinct (concat ps)" "covered ps = set (wlAttributes w)"
    using mset_eq_imp_distinct_iff [OF ps(2)] mset_eq_setD [OF ps(2)] assms(3) by (simp_all add: covered_concat)
  note parts = concat_distinct_parts [OF d(1)]
  obtain v where v: "getStorageOverhead st ps w = Inr v"
    using getStorageOverhead_ok [OF assms(1), of ps w] d(2) parts by (auto simp: covered_def)
  obtain c where c: "getIOCost st ps w = Inr c"
    using getIOCost_ok [OF assms(1) _ _ assms(2), of ps "fold us_insert (wlAttributes w) []"] d(2) parts
    by (auto simp: getIOCost_def fold_us_insert_set)
  show ?case
  proof (cases "dgt v th")
    case True
    have "inited m"
    proof (rule ccontr)
      assume no: "\<not> inited m"
      then have "n = 1" using Cons.prems(3) by auto
      then have "length ps \<le> 1" using ps(4) by simp
      moreover have "ps \<noteq> []" using ps(2) ne by auto
      ultimately obtain p where "ps = [p]" by (cases ps) auto
      then show False using single [of p v] ps(2) v True by simp
    qed
    then show ?thesis using Cons.prems(2) ps(1) v True by auto
  next
    case False
    have ok: "valid_solution st w th ps" using ps(2,3) v False by (auto simp: valid_solution_def)
    have "\<exists>qs. bestSolution (push ps c m) = Some qs \<and> valid_solution st w th qs" "inited (push ps c m)"
      using Cons.prems(2) ok by (auto simp: push_def)
    then show ?thesis using Cons.IH [of "push ps c m"] Cons.prems(1) ps(1) v c False by auto
  qed
qed

section \<open>Merging partitions\<close>

lemma merged_distinct:
  assumes "i < j" "j < length ps" "\<forall>p \<in> set ps. distinct p" "mergePartitions i j ps = Inr ps1"
  shows "\<forall>p \<in> set ps1. distinct p"
proof -
  have ps1: "ps1 = butlast (swap_last j (ps[i := fold us_insert (ps ! j) (ps ! i)]))" using merge_result [OF assms(1,2)] assms(4) by auto
  have "set (ps[i := fold us_insert (ps ! j) (ps ! i)]) = insert (ps[i := fold us_insert (ps ! j) (ps ! i)] ! j) (set ps1)"
    unfolding ps1 using assms(2) by (intro set_butlast_swap) simp
  then have "set ps1 \<subseteq> insert (fold us_insert (ps ! j) (ps ! i)) (set ps)"
    using set_update_subset_insert [of ps i] by blast
  moreover have "distinct (fold us_insert (ps ! j) (ps ! i))" using assms(1-3) by (simp add: fold_us_insert_distinct)
  ultimately show ?thesis using assms(3) by blast
qed

definition mergeable :: "schemaStats \<Rightarrow> queryWorkload \<Rightarrow> partition list \<Rightarrow> bool" where
  "mergeable st w ps \<longleftrightarrow> sizes_ok st (set (wlAttributes w)) \<and> frequencies_ok w \<and> covered ps = set (wlAttributes w) \<and> (\<forall>p \<in> set ps. distinct p)"

lemma mergeable_cost: "mergeable st w ps \<Longrightarrow> \<exists>c. getIOCost st ps w = Inr c"
  using getIOCost_ok [of st "set (wlAttributes w)" ps w "fold us_insert (wlAttributes w) []"]
  by (auto simp: mergeable_def getIOCost_def fold_us_insert_set)

lemma mergeable_overhead: "mergeable st w ps \<Longrightarrow> \<exists>v. getStorageOverhead st ps w = Inr v"
  using getStorageOverhead_ok [of st "set (wlAttributes w)" ps w] by (auto simp: mergeable_def covered_def)

lemma mergeable_size: "mergeable st w ps \<Longrightarrow> p \<in> set ps \<Longrightarrow> \<exists>n. cost_getPartitionSize st p = Inr n"
proof -
  assume m: "mergeable st w ps" "p \<in> set ps"
  then have "set p \<subseteq> set (wlAttributes w)" "distinct p" by (auto simp: mergeable_def covered_def)
  then show ?thesis using m(1) unfolding mergeable_def sizes_ok_def by blast
qed

lemma mergeable_merge:
  assumes "mergeable st w ps" "i < j" "j < length ps"
  shows "\<exists>ps1. mergePartitions i j ps = Inr ps1 \<and> mergeable st w ps1 \<and> length ps = Suc (length ps1)
    \<and> splitPartition i j (ps ! i) (ps ! j) ps1 = Inr ps"
proof -
  have d: "\<forall>p \<in> set ps. distinct p" using assms(1) by (simp add: mergeable_def)
  from split_merge [OF assms(2,3) d] obtain ps1 where ps1: "mergePartitions i j ps = Inr ps1" "splitPartition i j (ps ! i) (ps ! j) ps1 = Inr ps" by blast
  with covered_merge [OF ps1(1)] merged_distinct [OF assms(2,3) d ps1(1)] assms show ?thesis by (auto simp: mergeable_def)
qed

lemma try_merges:
  assumes "mergeable st w ps" "\<forall>(i, j) \<in> set pairs. i < j \<and> j < length ps"
    and "\<exists>i j. bestSolution m = Some (i, j) \<and> (i < j \<and> j < length ps \<or> \<not> inited m \<and> i = 0 \<and> j = 0)"
  shows "\<exists>m' i j. for_each (try_merge st w c) pairs (ps, m) = Inr (ps, m') \<and> bestSolution m' = Some (i, j)
    \<and> (i < j \<and> j < length ps \<or> pairs = [] \<and> m' = m)"
  using assms(2,3)
proof (induction pairs arbitrary: m)
  case (Cons pr pairs)
  obtain i j where pr: "pr = (i, j)" by force
  then have ij: "i < j" "j < length ps" using Cons.prems(1) by auto
  from mergeable_merge [OF assms(1) ij] obtain ps1 where
    ps1: "mergePartitions i j ps = Inr ps1" "mergeable st w ps1" "length ps = Suc (length ps1)" "splitPartition i j (ps ! i) (ps ! j) ps1 = Inr ps" by blast
  obtain n1 n2 n3 c2 where "cost_getPartitionSize st (ps ! i) = Inr n1" "cost_getPartitionSize st (ps ! j) = Inr n2"
      "cost_getPartitionSize st (ps1 ! i) = Inr n3" "getIOCost st ps1 w = Inr c2"
    using mergeable_size [OF assms(1), of "ps ! i"] mergeable_size [OF assms(1), of "ps ! j"] mergeable_size [OF ps1(2), of "ps1 ! i"]
      mergeable_cost [OF ps1(2)] ij ps1(3) by auto
  then have step: "\<exists>cost. try_merge st w c (i, j) (ps, m) = Inr (ps, push (i, j) cost m)"
    using ps1(1,3,4) ij by (auto simp: try_merge_def vec_index_def Let_def)
  then obtain cost where step: "try_merge st w c (i, j) (ps, m) = Inr (ps, push (i, j) cost m)" ..
  have b: "\<exists>i' j'. bestSolution (push (i, j) cost m) = Some (i', j') \<and> i' < j' \<and> j' < length ps" "inited (push (i, j) cost m)"
    using Cons.prems(2) ij by (auto simp: push_def)
  then obtain m' i' j' where "for_each (try_merge st w c) pairs (ps, push (i, j) cost m) = Inr (ps, m')" "bestSolution m' = Some (i', j')"
      "i' < j' \<and> j' < length ps \<or> pairs = [] \<and> m' = push (i, j) cost m"
    using Cons.IH [of "push (i, j) cost m"] Cons.prems(1) by auto
  then show ?case using step b(1) by (auto simp: pr)
qed auto

lemma pairs_of_mem: "(i, j) \<in> set (pairs_of n) \<longleftrightarrow> i < j \<and> j < n"
proof
  assume "i < j \<and> j < n"
  then have "i \<in> set [0..<n - 1]" "(i, j) \<in> set (map (\<lambda>j. (i, j)) [Suc i..<n])" by auto
  then show "(i, j) \<in> set (pairs_of n)" unfolding pairs_of_def by fastforce
qed (auto simp: pairs_of_def)

lemma merge_best_ok:
  assumes "mergeable st w ps" "2 \<le> length ps"
  shows "\<exists>ps1. merge_best st w ps = Inr ps1 \<and> mergeable st w ps1 \<and> length ps = Suc (length ps1)"
proof -
  obtain c where c: "getIOCost st ps w = Inr c" using mergeable_cost [OF assms(1)] by blast
  have "(0, 1) \<in> set (pairs_of (length ps))" using assms(2) by (simp add: pairs_of_mem)
  then have ne: "pairs_of (length ps) \<noteq> []" by auto
  have "\<forall>(i, j) \<in> set (pairs_of (length ps)). i < j \<and> j < length ps" by (auto simp: pairs_of_mem)
  from try_merges [OF assms(1) this, of "MinCostSolution (Some (0, 0))" c] ne obtain m i j where
    m: "for_each (try_merge st w c) (pairs_of (length ps)) (ps, MinCostSolution (Some (0, 0))) = Inr (ps, m)" "bestSolution m = Some (i, j)" "i < j" "j < length ps"
    by (auto simp: MinCostSolution_def)
  from mergeable_merge [OF assms(1) m(3,4)] show ?thesis using c m(1,2) by (auto simp: merge_best_def)
qed

lemma merge_best_single: "mergeable st w [p] \<Longrightarrow> merge_best st w [p] = Inr []"
  using mergeable_cost [of st w "[p]"]
  by (auto simp: merge_best_def pairs_of_def MinCostSolution_def mergePartitions_def merge_ordered_def vec_index_def swap_last_def)

lemma overhead_empty:
  assumes "sizes_ok st (set (wlAttributes w))" "dle 0 th"
  shows "\<exists>v. getStorageOverhead st [] w = Inr v \<and> \<not> dgt v th"
proof -
  have "set (fold us_insert (wlAttributes w) []) \<subseteq> set (wlAttributes w)" "distinct (fold us_insert (wlAttributes w) [])"
    by (simp_all add: fold_us_insert_set fold_us_insert_distinct)
  then obtain n where n: "cost_getPartitionSize st (fold us_insert (wlAttributes w) []) = Inr n" "\<not> is_nan n" "\<not> is_inf n" "\<not> dneg n" "dmag n \<noteq> 0"
    using assms(1) unfolding sizes_ok_def by blast
  let ?v = "dsub (ddiv 0 n) d_one"
  have zero: "\<not> is_nan 0" "\<not> is_inf 0" "\<not> dneg 0" "dmag 0 = 0" "dval 0 = 0"
    by (simp_all add: is_nan_def is_inf_def dneg_def dmag_def inf_mag_def dval_def dval_mag_0)
  have m: "\<not> is_nan (dminus d_one)" "\<not> is_inf (dminus d_one)" "dneg (dminus d_one)"
    by (simp_all add: dminus_def d_one_def is_nan_def is_inf_def dmag_def with_sign_def inf_mag_def dneg_def)
  have "ddiv 0 n = 0" using n zero by (simp add: ddiv_def with_sign_def)
  then have "?v = (if dval (dminus d_one) = 0 then 0 else dround (dval (dminus d_one)))"
    using zero m by (simp add: dsub_def dadd_def with_sign_def)
  moreover have "dval (dminus d_one) \<le> 0" using m(3) dval_mag_nonneg by (simp add: dval_def)
  moreover have "dneg (dround r)" if "r < 0" for r
  proof -
    let ?k = "2 ^ 63 + dround_mag (- r)"
    have "?k < 2 ^ 64" using dround_mag_le [of "- r"] by (simp add: inf_mag_def)
    then have "unat (word_of_nat ?k :: double) = ?k" by (simp add: unat_of_nat take_bit_nat_eq_self_iff del: of_nat_add)
    moreover have "dround r = word_of_nat ?k" using that by (simp add: dround_def)
    ultimately show ?thesis unfolding dneg_def by (simp only: le_add1)
  qed
  ultimately have "?v = 0 \<or> dneg ?v" by (cases "dval (dminus d_one) = 0") simp_all
  moreover have "\<not> dgt x th" if "dneg x \<or> x = 0" for x
  proof -
    have "dkey x \<le> 0" using that zero(3,4) by (auto simp: dkey_def)
    moreover have "dkey 0 = 0" using zero(3,4) by (simp add: dkey_def)
    ultimately show ?thesis using assms(2) by (auto simp: dle_def dlt_def)
  qed
  ultimately have "\<not> dgt ?v th" by blast
  then show ?thesis using n(1) by (auto simp: getStorageOverhead_def sum_sizes_def fold_addAttribute)
qed

lemma ho_loop_ok:
  assumes "mergeable st w ps" "dle 0 th"
  shows "\<exists>qs. ho_loop st w th ps = Some (Inr qs) \<and> (\<exists>v. getStorageOverhead st qs w = Inr v \<and> \<not> dgt v th)
    \<and> (mergeable st w qs \<or> qs = [] \<and> (\<exists>p v. mergeable st w [p] \<and> getStorageOverhead st [p] w = Inr v \<and> dgt v th))"
  using assms(1)
proof (induction "length ps" arbitrary: ps rule: less_induct)
  case less
  obtain v where v: "getStorageOverhead st ps w = Inr v" using mergeable_overhead [OF less.prems] by blast
  have empty: "\<exists>v. getStorageOverhead st [] w = Inr v \<and> \<not> dgt v th"
    using overhead_empty assms(2) less.prems by (auto simp: mergeable_def)
  then have stop: "ho_loop st w th [] = Some (Inr [])" by (subst ho_loop.simps) auto
  show ?case
  proof (cases "dgt v th")
    case False
    then have "ho_loop st w th ps = Some (Inr ps)" using v by (subst ho_loop.simps) simp
    then show ?thesis using v False less.prems by blast
  next
    case True
    consider "ps = []" | p where "ps = [p]" | "2 \<le> length ps" by (cases ps rule: remdups_adj.cases) auto
    then show ?thesis
    proof cases
      case 1
      then show ?thesis using empty v True by auto
    next
      case 2
      then have "merge_best st w ps = Inr []" using merge_best_single less.prems by simp
      then have "ho_loop st w th ps = Some (Inr [])" using v True stop by (subst ho_loop.simps) simp
      then show ?thesis using empty v True less.prems 2 by blast
    next
      case 3
      from merge_best_ok [OF less.prems this] obtain ps1 where
        ps1: "merge_best st w ps = Inr ps1" "mergeable st w ps1" "length ps = Suc (length ps1)" by blast
      then have "ho_loop st w th ps = ho_loop st w th ps1" using v True by (subst ho_loop.simps) simp
      then show ?thesis using less.hyps [of ps1] ps1(2,3) by simp
    qed
  qed
qed

lemma query_partitions:
  assumes "fold query_partition qs (ps, missing) = (ps', missing')" "\<forall>p \<in> set ps. distinct p"
  shows "covered ps' = covered ps \<union> (\<Union>q \<in> set qs. set (sumAttributes q)) \<and> (\<forall>p \<in> set ps'. distinct p)
    \<and> set missing' = set missing - (\<Union>q \<in> set qs. set (sumAttributes q))"
  using assms
proof (induction qs arbitrary: ps missing)
  case (Cons q qs)
  let ?f = "fold (\<lambda>a (p, missing). (addAttribute a p, if a \<in> set missing then us_erase a missing else missing))"
  have f: "distinct p \<longrightarrow> distinct (fst (?f as (p, ms)))" "set (fst (?f as (p, ms))) = set p \<union> set as" "set (snd (?f as (p, ms))) = set ms - set as"
    for as p ms
    by (induction as arbitrary: p ms) (auto simp: addAttribute_def)
  obtain p1 m1 where pm: "?f (sumAttributes q) ([], missing) = (p1, m1)" by force
  then have 1: "distinct p1" "set p1 = set (sumAttributes q)" "set m1 = set missing - set (sumAttributes q)"
    using f [where as = "sumAttributes q" and p = "[]" and ms = missing] by simp_all
  have "query_partition q (ps, missing) = (ps @ [p1], m1)" using pm by (simp add: query_partition_def addPartition_def)
  then have "fold query_partition qs (ps @ [p1], m1) = (ps', missing')" using Cons.prems(1) by simp
  from Cons.IH [OF this] 1 Cons.prems(2) show ?case by (auto simp: covered_def)
qed simp

lemma initial_mergeable:
  assumes "sizes_ok st (set (wlAttributes w))" "frequencies_ok w" "\<forall>q \<in> set (wlQueries w). set (sumAttributes q) \<subseteq> set (wlAttributes w)"
  shows "mergeable st w (initial_partitioning w)"
proof -
  let ?as = "fold us_insert (wlAttributes w) []"
  obtain ps ms where f: "fold query_partition (wlQueries w) ([], ?as) = (ps, ms)" by force
  from query_partitions [OF f] have q: "covered ps = (\<Union>q \<in> set (wlQueries w). set (sumAttributes q))" "\<forall>p \<in> set ps. distinct p"
      "set ms = set (wlAttributes w) - (\<Union>q \<in> set (wlQueries w). set (sumAttributes q))"
    by (simp_all add: covered_def fold_us_insert_set)
  have "set (fold us_insert ms []) = set ms" "distinct (fold us_insert ms [])" by (simp_all add: fold_us_insert_set fold_us_insert_distinct)
  then have "covered (initial_partitioning w) = set (wlAttributes w) \<and> (\<forall>p \<in> set (initial_partitioning w). distinct p)"
    using f q assms(3) by (auto simp: initial_partitioning_def addPartition_def fold_addAttribute covered_def)
  then show ?thesis using assms(1,2) by (simp add: mergeable_def)
qed

section \<open>Properties\<close>

text \<open>C18: the non-overlapping heuristic returns a partition of the attributes. When the sizes and frequencies it
  reads are defined and the attributes in one partition stay within the storage threshold in every
  order, it returns, without tripping an assertion, non-empty partitions that hold every attribute of
  the workload exactly once and whose overhead is within the threshold, whatever order \<^verbatim>\<open>std::sort\<close> gives
  to attributes of equal frequency.\<close>

theorem heuristicNonOverlapping_partitions:
  assumes "sizes_ok st (set (wlAttributes w))" "frequencies_ok w" "distinct (wlAttributes w)" "wlAttributes w \<noteq> []"
    and "\<And>xs. mset (perm xs) = mset xs"
    and "\<forall>p v. mset p = mset (wlAttributes w) \<longrightarrow> getStorageOverhead st [p] w = Inr v \<longrightarrow> \<not> dgt v th"
  shows "\<exists>ps v. heuristicNonOverlapping perm w th st = Inr ps \<and> mset (concat ps) = mset (wlAttributes w) \<and> [] \<notin> set ps
    \<and> getStorageOverhead st ps w = Inr v \<and> \<not> dgt v th"
proof -
  let ?n = "min (length (query_attributes w) + 1) (length (wlAttributes w))"
  have "1 \<le> ?n" using assms(4) by (cases "wlAttributes w") auto
  then have ns: "[1..<?n + 1] = 1 # [2..<?n + 1]" by (subst upt_conv_Cons) (auto simp: numeral_2_eq_2)
  have "\<exists>m ps. hno_loop perm st w th [1..<?n + 1] (MinCostSolution (Some [])) = Inr m \<and> inited m \<and> bestSolution m = Some ps \<and> valid_solution st w th ps"
    (is "\<exists>m ps. hno_loop perm st w th ?ns ?m0 = Inr m \<and> _ m ps")
  proof (rule hno_loop_ok [OF assms(1-3,5)])
    show "\<forall>n \<in> set ?ns. 0 < n" by auto
    show "\<exists>ps. bestSolution ?m0 = Some ps \<and> valid_solution st w th ps" if "inited ?m0" using that by (simp add: MinCostSolution_def)
    show "\<exists>ns'. ?ns = 1 # ns'" using ns by blast
    show "\<not> dgt v th" if "mset p = mset (wlAttributes w)" "getStorageOverhead st [p] w = Inr v" for p v using assms(6) that by blast
    show "wlAttributes w \<noteq> []" by (rule assms(4))
  qed
  then obtain m ps where m: "hno_loop perm st w th ?ns ?m0 = Inr m" "inited m" "bestSolution m = Some ps" "valid_solution st w th ps" by blast
  then have "heuristicNonOverlapping perm w th st = Inr ps" unfolding heuristicNonOverlapping_def by simp
  then show ?thesis using m(4) by (auto simp: valid_solution_def)
qed

text \<open>C19: the overlapping heuristic ends for every workload over its attributes and a threshold of at least
  zero. The result holds every attribute of the workload and is within the storage threshold; the one
  exception is that even the single partition with all attributes exceeds the threshold, and then the
  result is the empty partitioning, since the best pair to merge is the default pair of the first
  partition with itself.\<close>

theorem heuristicOverlapping_ends:
  assumes "sizes_ok st (set (wlAttributes w))" "frequencies_ok w"
    and "\<forall>q \<in> set (wlQueries w). set (sumAttributes q) \<subseteq> set (wlAttributes w)" "dle 0 th"
  shows "\<exists>ps v. heuristicOverlapping w th st = Some (Inr ps) \<and> getStorageOverhead st ps w = Inr v \<and> \<not> dgt v th
    \<and> (covered ps = set (wlAttributes w)
       \<or> ps = [] \<and> (\<exists>p v. set p = set (wlAttributes w) \<and> distinct p \<and> getStorageOverhead st [p] w = Inr v \<and> dgt v th))"
proof -
  have "covered qs = set (wlAttributes w)" if "mergeable st w qs" for qs using that by (simp add: mergeable_def)
  moreover have "set p = set (wlAttributes w) \<and> distinct p" if "mergeable st w [p]" for p using that by (simp add: mergeable_def covered_def)
  ultimately show ?thesis
    using ho_loop_ok [OF initial_mergeable [OF assms(1-3)] assms(4)] unfolding heuristicOverlapping_def by blast
qed

text \<open>The witnesses: one attribute of size zero and one query for it.\<close>

definition ex_wl :: queryWorkload where
  "ex_wl =
     (let q = QuerySummary of_nat [ex_ptr 0]
      in \<lparr>wlAttributes = [ex_ptr 0], wlQueries = [q], summaries = [], counts = [(q, d_one)], nameToAttribute = [], totalQueries = d_one\<rparr>)"

definition ex_sizes :: schemaStats where
  "ex_sizes = [(0, (0, 0))]"

lemma ex_wl_facts: "wlAttributes ex_wl = [ex_ptr 0]" "frequencies_ok ex_wl"
    "\<forall>q \<in> set (wlQueries ex_wl). set (sumAttributes q) \<subseteq> set (wlAttributes ex_wl)"
  by (simp_all add: ex_wl_def Let_def frequencies_ok_def getFrequency_def QuerySummary_def)

lemma ex_size: "p = [] \<or> p = [ex_ptr 0] \<Longrightarrow> cost_getPartitionSize ex_sizes p = Inr (dof_nat 480)"
proof -
  assume p: "p = [] \<or> p = [ex_ptr 0]"
  have z: "dof_nat 0 = 0" by (simp add: dof_nat_def dround_def)
  have "avg_size ex_sizes (ex_ptr 0) = Inr 0" by (simp add: avg_size_def stats_getAvgSize_def ex_sizes_def ex_ptr_def)
  then have "for_each (\<lambda>a sz. rbind (avg_size ex_sizes a) (\<lambda>s. Inr (dadd sz s))) p 0 = Inr (dof_nat 0)"
    using p dadd_dof_nat [of 0 0] z by auto
  moreover have "dadd (dmul (dof_nat 24) (dadd (dof_nat (8 + 8)) (dof_nat 0))) (dof_nat (8 * (8 + 4))) = dof_nat 480"
    using dadd_dof_nat [of 16 0] dmul_dof_nat [of 24 16] dadd_dof_nat [of 384 96] by simp
  ultimately show ?thesis by (simp add: cost_getPartitionSize_def)
qed

lemma ex_sizes_ok: "sizes_ok ex_sizes (set (wlAttributes ex_wl))"
proof -
  have z: "dof_nat 0 = 0" by (simp add: dof_nat_def dround_def)
  have avg: "avg_size ex_sizes (ex_ptr 0) = Inr 0" by (simp add: avg_size_def stats_getAvgSize_def ex_sizes_def ex_ptr_def)
  have "dmul 0 (dof_nat 24) = 0" using dmul_dof_nat [of 0 24] z by simp
  then have 1: "\<not> is_nan (dmul 0 (dof_nat 24))" "\<not> is_inf (dmul 0 (dof_nat 24))" "\<not> dneg (dmul 0 (dof_nat 24))"
    by (simp_all add: is_nan_def is_inf_def dneg_def dmag_def inf_mag_def)
  have "cost_getPartitionSize ex_sizes p = Inr (dof_nat 480)" if "set p \<subseteq> {ex_ptr 0}" "distinct p" for p
  proof (rule ex_size)
    show "p = [] \<or> p = [ex_ptr 0]" using that by (cases p rule: remdups_adj.cases) auto
  qed
  moreover have "\<not> is_nan (dof_nat 480) \<and> \<not> is_inf (dof_nat 480) \<and> \<not> dneg (dof_nat 480) \<and> dmag (dof_nat 480) \<noteq> 0"
    using dof_nat_exact [of 480] dmag_dof_nat [of 480] by simp
  ultimately show ?thesis unfolding sizes_ok_def ex_wl_facts(1) using avg 1 by auto
qed

lemma ex_overhead: "getStorageOverhead ex_sizes [[ex_ptr 0]] ex_wl = Inr 0"
proof -
  have z: "dof_nat 0 = 0" by (simp add: dof_nat_def dround_def)
  have "sum_sizes ex_sizes [[ex_ptr 0]] = Inr (dof_nat 480)" using ex_size [of "[ex_ptr 0]"] dadd_dof_nat [of 0 480] z by (simp add: sum_sizes_def)
  moreover have "ddiv (dof_nat 480) (dof_nat 480) = d_one" using ddiv_dof_nat [of 480 480] dof_nat_1 by simp
  moreover have "dsub d_one d_one = 0"
    by (simp add: dsub_def dadd_def dminus_def d_one_def is_nan_def is_inf_def dmag_def inf_mag_def with_sign_def dval_def dneg_def)
  ultimately show ?thesis using ex_size [of "[ex_ptr 0]"]
    by (simp add: getStorageOverhead_def ex_wl_facts(1) addAttribute_def us_insert_def)
qed

lemma zero_order: "\<not> dgt 0 0" "dle 0 0"
  by (simp_all add: dlt_def dle_def is_nan_def dmag_def)

theorem heuristicNonOverlapping_partitions_witness:
  "\<exists>ps. heuristicNonOverlapping rev ex_wl 0 ex_sizes = Inr ps \<and> mset (concat ps) = {#ex_ptr 0#} \<and> [] \<notin> set ps"
proof -
  have "\<not> dgt v 0" if "mset p = mset (wlAttributes ex_wl)" "getStorageOverhead ex_sizes [p] ex_wl = Inr v" for p v
  proof -
    have "p = [ex_ptr 0]" using that(1) by (simp add: ex_wl_facts(1))
    then show ?thesis using that(2) ex_overhead zero_order(1) by auto
  qed
  then have fits: "\<forall>p v. mset p = mset (wlAttributes ex_wl) \<longrightarrow> getStorageOverhead ex_sizes [p] ex_wl = Inr v \<longrightarrow> \<not> dgt v 0" by blast
  have "distinct (wlAttributes ex_wl)" "wlAttributes ex_wl \<noteq> []" by (simp_all add: ex_wl_facts(1))
  from heuristicNonOverlapping_partitions [OF ex_sizes_ok ex_wl_facts(2) this mset_rev fits] show ?thesis
    by (auto simp: ex_wl_facts(1))
qed

theorem heuristicOverlapping_ends_witness:
  "\<exists>ps. heuristicOverlapping ex_wl 0 ex_sizes = Some (Inr ps) \<and> covered ps = {ex_ptr 0}"
proof -
  have "\<not> dgt v 0" if "set p = {ex_ptr 0}" "distinct p" "getStorageOverhead ex_sizes [p] ex_wl = Inr v" for p v
  proof -
    have "p = [ex_ptr 0]" using that(1,2) by (cases p rule: remdups_adj.cases) auto
    then show ?thesis using that(3) ex_overhead zero_order(1) by auto
  qed
  then show ?thesis
    using heuristicOverlapping_ends [OF ex_sizes_ok ex_wl_facts(2,3) zero_order(2)] unfolding ex_wl_facts(1) by fastforce
qed

end
