(* ===== verification/OptimalModel.thy ===== *)
theory OptimalModel
  imports Heuristics
begin

text \<open>
  The optimal solvers (\<^verbatim>\<open>OptimalCommon.h/.cpp\<close>, \<^verbatim>\<open>OptimalNonOverlapping.cpp\<close>,
  \<^verbatim>\<open>OptimalOverlapping.cpp\<close>): they build a binary linear program, hand it to Gurobi, and read the
  partitions off its solution. Gurobi is not part of the sources: it is the parameter \<open>grb\<close>, from a
  model to an error message or the values of the variables, and \<open>newmodel\<close> is the error of creating an
  empty model, if there is one. \<open>gurobi_sound\<close> says what the code relies on.

  The arrays of the context are lists that record which entries have been written. The counts are
  \<^verbatim>\<open>int\<close>; \<open>create_env\<close> is undefined when the number of variables does not fit.
\<close>

section \<open>Variables\<close>

record varEnv =
  numVars :: nat
  xOffset :: nat
  yOffset :: nat
  zOffset :: nat
  uOffset :: nat
  envA :: nat
  envP :: nat
  envQ :: nat

definition create_env :: "queryWorkload \<Rightarrow> varEnv result" where
  "create_env w =
     (let p = length (wlAttributes w); q = length (wlQueries w); a = length (wlAttributes w);
          n = a * p + p * q + a * p * q + p
      in if n < 2 ^ 31
         then Inr \<lparr>numVars = n, xOffset = 0, yOffset = a * p, zOffset = a * p + p * q, uOffset = a * p + p * q + a * p * q,
                   envA = a, envP = p, envQ = q\<rparr>
         else Inl UndefinedBehavior)"

definition var_x :: "varEnv \<Rightarrow> nat \<Rightarrow> nat \<Rightarrow> nat" where
  "var_x e a p = xOffset e + (a * envP e + p)"

definition var_y :: "varEnv \<Rightarrow> nat \<Rightarrow> nat \<Rightarrow> nat" where
  "var_y e p q = yOffset e + (p * envQ e + q)"

definition var_z :: "varEnv \<Rightarrow> nat \<Rightarrow> nat \<Rightarrow> nat \<Rightarrow> nat" where
  "var_z e a p q = zOffset e + (q * envA e * envP e + a * envP e + p)"

definition var_u :: "varEnv \<Rightarrow> nat \<Rightarrow> nat" where
  "var_u e p = uOffset e + p"

definition c_e :: nat where "c_e = 24"

definition c_n :: nat where "c_n = 8"

definition big_K :: double where "big_K = dof_nat 1000"

definition s_total :: "schemaStats \<Rightarrow> attrPtr list \<Rightarrow> double result" where
  "s_total st as = for_each (\<lambda>a sum. rbind (avg_size st a) (\<lambda>v. Inr (dadd sum v))) as 0"

definition accesses :: "querySummary list \<Rightarrow> nat \<Rightarrow> nat \<Rightarrow> nat" where
  "accesses queries q a = (if \<exists>attr \<in> set (sumAttributes (queries ! q)). attrIndex (snd attr) = a then 1 else 0)"

definition name_variables :: "varEnv \<Rightarrow> string list result" where
  "name_variables e =
     (let names =
        concat (map (\<lambda>a. map (\<lambda>p. ''x_a'' @ decimal (a + 1) @ ''_p'' @ decimal (p + 1)) [0..<envP e]) [0..<envA e])
      @ concat (map (\<lambda>p. map (\<lambda>q. ''y_p'' @ decimal (p + 1) @ ''_q'' @ decimal (q + 1)) [0..<envQ e]) [0..<envP e])
      @ concat (map (\<lambda>a. concat (map (\<lambda>p. map (\<lambda>q. ''z_a'' @ decimal (a + 1) @ ''_p'' @ decimal (p + 1) @ ''_q'' @ decimal (q + 1))
          [0..<envQ e]) [0..<envP e])) [0..<envA e])
      @ map (\<lambda>p. ''u_p'' @ decimal (p + 1)) [0..<envP e]
      in rbind (assert_that (numVars e = length names)) (\<lambda>_. Inr names))"

section \<open>Objective\<close>

definition arr_set :: "nat \<Rightarrow> 'a \<Rightarrow> 'a option list \<Rightarrow> 'a option list result" where
  "arr_set i v xs = (if i < length xs then Inr (xs[i := Some v]) else Inl UndefinedBehavior)"

definition block_const :: double where
  "block_const = dof_nat ((8 + 8) * c_e + (8 + 4) * c_n)"

definition obj_query :: "schemaStats \<Rightarrow> queryWorkload \<Rightarrow> varEnv \<Rightarrow> nat \<Rightarrow> double option list \<Rightarrow> double option list result" where
  "obj_query st w e q obj =
     rbind (for_each (\<lambda>p obj. rbind (getFrequency w (wlQueries w ! q)) (\<lambda>f. arr_set (var_y e p q) (dmul block_const f) obj))
              [0..<envP e] obj) (\<lambda>obj1.
       for_each (\<lambda>a. for_each (\<lambda>p obj.
           rbind (wl_getAttribute w a) (\<lambda>attr.
           rbind (avg_size st attr) (\<lambda>v.
           rbind (getFrequency w (wlQueries w ! q)) (\<lambda>f.
             arr_set (var_z e a p q) (dmul (dmul v (dof_nat c_e)) f) obj)))) [0..<envP e]) [0..<envA e] obj1)"

definition objective :: "schemaStats \<Rightarrow> queryWorkload \<Rightarrow> varEnv \<Rightarrow> double option list result" where
  "objective st w e =
     rbind (for_each (\<lambda>a. for_each (\<lambda>p. arr_set (var_x e a p) 0) [0..<envP e]) [0..<envA e] (replicate (numVars e) None)) (\<lambda>obj1.
     rbind (for_each (obj_query st w e) [0..<envQ e] obj1) (\<lambda>obj2.
       for_each (\<lambda>p. arr_set (var_u e p) 0) [0..<envP e] obj2))"

section \<open>Constraints\<close>

datatype sense = GRB_EQUAL | GRB_GREATER_EQUAL | GRB_LESS_EQUAL

record constr =
  cTerms :: "(nat \<times> double) list"
  cSense :: sense
  cRhs :: double

definition addconstr :: "(nat \<times> double) list \<Rightarrow> sense \<Rightarrow> double \<Rightarrow> constr" where
  "addconstr ts se rhs = \<lparr>cTerms = ts, cSense = se, cRhs = rhs\<rparr>"

definition for2 :: "nat \<Rightarrow> nat \<Rightarrow> (nat \<Rightarrow> nat \<Rightarrow> 'a) \<Rightarrow> 'a list" where
  "for2 m n f = concat (map (\<lambda>i. map (f i) [0..<n]) [0..<m])"

definition for3 :: "nat \<Rightarrow> nat \<Rightarrow> nat \<Rightarrow> (nat \<Rightarrow> nat \<Rightarrow> nat \<Rightarrow> 'a) \<Rightarrow> 'a list" where
  "for3 l m n f = concat (map (\<lambda>i. for2 m n (f i)) [0..<l])"

text \<open>The sets of constraints that both solvers add.\<close>

definition product_constrs :: "varEnv \<Rightarrow> constr list" where
  "product_constrs e = for3 (envA e) (envP e) (envQ e) (\<lambda>a p q.
     addconstr [(var_z e a p q, d_one), (var_x e a p, dminus d_one), (var_y e p q, dminus d_one)] GRB_GREATER_EQUAL (dminus d_one))"

definition used_lower :: "varEnv \<Rightarrow> constr list" where
  "used_lower e = map (\<lambda>p. addconstr (map (\<lambda>a. (var_x e a p, d_one)) [0..<envA e] @ [(var_u e p, dminus d_one)]) GRB_GREATER_EQUAL 0) [0..<envP e]"

definition used_upper :: "varEnv \<Rightarrow> constr list" where
  "used_upper e = map (\<lambda>p. addconstr ((var_u e p, big_K) # map (\<lambda>a. (var_x e a p, dminus d_one)) [0..<envA e]) GRB_GREATER_EQUAL 0) [0..<envP e]"

definition place_constrs :: "sense \<Rightarrow> varEnv \<Rightarrow> constr list" where
  "place_constrs se e = map (\<lambda>a. addconstr (map (\<lambda>p. (var_x e a p, d_one)) [0..<envP e]) se d_one) [0..<envA e]"

text \<open>The non-overlapping solver.\<close>

definition access_lower :: "queryWorkload \<Rightarrow> varEnv \<Rightarrow> constr list" where
  "access_lower w e = for2 (envP e) (envQ e) (\<lambda>p q.
     addconstr (map (\<lambda>a. (var_x e a p, dof_nat (accesses (wlQueries w) q a))) [0..<envA e] @ [(var_y e p q, dminus d_one)]) GRB_GREATER_EQUAL 0)"

definition access_upper :: "queryWorkload \<Rightarrow> varEnv \<Rightarrow> constr list" where
  "access_upper w e = for2 (envP e) (envQ e) (\<lambda>p q.
     addconstr ((var_y e p q, big_K) # map (\<lambda>a. (var_x e a p, if accesses (wlQueries w) q a = 1 then dminus d_one else 0)) [0..<envA e])
       GRB_GREATER_EQUAL 0)"

definition nonOverlapping_constraints :: "varEnv \<Rightarrow> queryWorkload \<Rightarrow> double \<Rightarrow> schemaStats \<Rightarrow> constr list result" where
  "nonOverlapping_constraints e w alpha st =
     rbind (s_total st (wlAttributes w)) (\<lambda>s.
     rbind (cost_getPartitionSize st (fold addAttribute (wlAttributes w) [])) (\<lambda>size.
     let limit = dadd d_one (ddiv alpha (dsub d_one (ddiv (dmul s (dof_nat c_e)) size)))
     in Inr (place_constrs GRB_EQUAL e @ access_lower w e @ access_upper w e @ product_constrs e @ used_lower e @ used_upper e
             @ [addconstr (map (\<lambda>p. (var_u e p, d_one)) [0..<envP e]) GRB_LESS_EQUAL limit])))"

text \<open>The overlapping solver.\<close>

definition reach_constrs :: "queryWorkload \<Rightarrow> varEnv \<Rightarrow> constr list" where
  "reach_constrs w e = for2 (envA e) (envQ e) (\<lambda>a q.
     addconstr (map (\<lambda>p. (var_z e a p q, d_one)) [0..<envP e]) GRB_GREATER_EQUAL (dof_nat (accesses (wlQueries w) q a)))"

definition read_placed :: "varEnv \<Rightarrow> constr list" where
  "read_placed e = for3 (envA e) (envP e) (envQ e) (\<lambda>a p q.
     addconstr [(var_x e a p, d_one), (var_z e a p q, dminus d_one)] GRB_GREATER_EQUAL 0)"

definition read_lower :: "varEnv \<Rightarrow> constr list" where
  "read_lower e = for2 (envP e) (envQ e) (\<lambda>p q.
     addconstr (map (\<lambda>a. (var_z e a p q, d_one)) [0..<envA e] @ [(var_y e p q, dminus d_one)]) GRB_GREATER_EQUAL 0)"

definition read_upper :: "varEnv \<Rightarrow> constr list" where
  "read_upper e = for2 (envP e) (envQ e) (\<lambda>p q.
     addconstr ((var_y e p q, big_K) # map (\<lambda>a. (var_z e a p q, dminus d_one)) [0..<envA e]) GRB_GREATER_EQUAL 0)"

definition size_terms :: "schemaStats \<Rightarrow> queryWorkload \<Rightarrow> varEnv \<Rightarrow> (nat \<times> double) list result" where
  "size_terms st w e =
     for_each (\<lambda>p. for_each (\<lambda>a ts.
       rbind (wl_getAttribute w a) (\<lambda>attr.
       rbind (avg_size st attr) (\<lambda>v. Inr (ts @ [(var_x e a p, dmul v (dof_nat c_e))])))) [0..<envA e]) [0..<envP e]
       (map (\<lambda>p. (var_u e p, block_const)) [0..<envP e])"

definition overlapping_constraints :: "varEnv \<Rightarrow> queryWorkload \<Rightarrow> double \<Rightarrow> schemaStats \<Rightarrow> constr list result" where
  "overlapping_constraints e w alpha st =
     rbind (cost_getPartitionSize st (fold addAttribute (wlAttributes w) [])) (\<lambda>size.
     rbind (size_terms st w e) (\<lambda>ts.
     let limit = dmul size (dadd d_one alpha)
     in Inr (place_constrs GRB_GREATER_EQUAL e @ reach_constrs w e @ read_placed e @ read_lower e @ read_upper e
             @ product_constrs e @ used_lower e @ used_upper e @ [addconstr ts GRB_LESS_EQUAL limit])))"

section \<open>Solving\<close>

record grbModel =
  mObj :: "double option list"
  mNames :: "string list"
  mConstrs :: "constr list"

type_synonym constraintsFun = "varEnv \<Rightarrow> queryWorkload \<Rightarrow> double \<Rightarrow> schemaStats \<Rightarrow> constr list result"

definition build_model :: "constraintsFun \<Rightarrow> queryWorkload \<Rightarrow> double \<Rightarrow> schemaStats \<Rightarrow> varEnv \<Rightarrow> grbModel result" where
  "build_model constraints w alpha st e =
     rbind (name_variables e) (\<lambda>names.
     rbind (objective st w e) (\<lambda>obj.
     rbind (constraints e w alpha st) (\<lambda>cs. Inr \<lparr>mObj = obj, mNames = names, mConstrs = cs\<rparr>)))"

definition extract_part :: "queryWorkload \<Rightarrow> varEnv \<Rightarrow> double list \<Rightarrow> nat \<Rightarrow> partition list \<Rightarrow> partition list result" where
  "extract_part w e sol p ps =
     rbind (for_each (\<lambda>a part.
              rbind (vec_index sol (var_x e a p)) (\<lambda>v.
                if deq v d_one then rbind (wl_getAttribute w a) (\<lambda>attr. Inr (addAttribute attr part)) else Inr part))
            [0..<envA e] []) (\<lambda>part.
       Inr (if numAttributes part > 0 then addPartition part ps else ps))"

definition extract_solution :: "queryWorkload \<Rightarrow> varEnv \<Rightarrow> double list \<Rightarrow> partition list result" where
  "extract_solution w e sol = for_each (extract_part w e sol) [0..<envP e] []"

text \<open>When no model can be created, the clean-up frees the names of the variables, which have not been
  written yet.\<close>

definition optimal_solve ::
  "constraintsFun \<Rightarrow> string option \<Rightarrow> (grbModel \<Rightarrow> string + double list) \<Rightarrow> queryWorkload \<Rightarrow> double \<Rightarrow> schemaStats \<Rightarrow> partition list result" where
  "optimal_solve constraints newmodel grb w storageThreshold st =
     rbind (create_env w) (\<lambda>e.
       case newmodel of
         Some msg \<Rightarrow> Inl UndefinedBehavior
       | None \<Rightarrow>
           rbind (build_model constraints w storageThreshold st e) (\<lambda>m.
             case grb m of
               Inl msg \<Rightarrow> Inl (RuntimeError msg)
             | Inr sol \<Rightarrow> extract_solution w e sol))"

section \<open>The variables are numbered without gaps\<close>

datatype lpVar = VX nat nat | VY nat nat | VZ nat nat nat | VU nat

fun var_index :: "varEnv \<Rightarrow> lpVar \<Rightarrow> nat" where
  "var_index e (VX a p) = var_x e a p"
| "var_index e (VY p q) = var_y e p q"
| "var_index e (VZ a p q) = var_z e a p q"
| "var_index e (VU p) = var_u e p"

fun in_env :: "varEnv \<Rightarrow> lpVar \<Rightarrow> bool" where
  "in_env e (VX a p) \<longleftrightarrow> a < envA e \<and> p < envP e"
| "in_env e (VY p q) \<longleftrightarrow> p < envP e \<and> q < envQ e"
| "in_env e (VZ a p q) \<longleftrightarrow> a < envA e \<and> p < envP e \<and> q < envQ e"
| "in_env e (VU p) \<longleftrightarrow> p < envP e"

definition env_ok :: "varEnv \<Rightarrow> bool" where
  "env_ok e \<longleftrightarrow> xOffset e = 0 \<and> yOffset e = envA e * envP e \<and> zOffset e = yOffset e + envP e * envQ e
     \<and> uOffset e = zOffset e + envA e * envP e * envQ e \<and> numVars e = uOffset e + envP e \<and> envP e = envA e"

lemma create_env_ok:
  "create_env w = Inr e \<Longrightarrow> env_ok e \<and> envA e = length (wlAttributes w) \<and> envQ e = length (wlQueries w)"
  by (auto simp: create_env_def Let_def env_ok_def split: if_splits)

lemma cell_less: "i < m \<Longrightarrow> j < n \<Longrightarrow> i * n + j < m * (n :: nat)"
proof -
  assume "i < m" "j < n"
  then have "i * n + j < Suc i * n" "Suc i \<le> m" by simp_all
  then show ?thesis using mult_le_mono1 [of "Suc i" m n] by linarith
qed

lemma cell_inj: "j < n \<Longrightarrow> j' < n \<Longrightarrow> i * n + j = i' * n + j' \<longleftrightarrow> i = i' \<and> j = (j' :: nat)"
proof
  assume j: "j < n" "j' < n"
  assume eq: "i * n + j = i' * n + j'"
  have "(i * n + j) div n = i" "(i' * n + j') div n = i'" using j by simp_all
  then show "i = i' \<and> j = j'" using eq by simp
qed simp

lemma cell_surj: "k < m * n \<Longrightarrow> \<exists>i < m. \<exists>j < n. k = i * n + (j :: nat)"
proof -
  assume k: "k < m * n"
  then have "0 < n" by (cases n) auto
  then have "k mod n < n" "k = k div n * n + k mod n" by simp_all
  moreover have "k div n < m" using k by (rule less_mult_imp_div_less)
  ultimately show ?thesis by blast
qed

lemma var_z_cell: "var_z e a p q = zOffset e + (q * (envA e * envP e) + (a * envP e + p))"
  by (simp add: var_z_def mult.assoc)

lemma var_ranges:
  assumes "env_ok e"
  shows "a < envA e \<Longrightarrow> p < envP e \<Longrightarrow> var_x e a p < yOffset e"
    "p < envP e \<Longrightarrow> q < envQ e \<Longrightarrow> yOffset e \<le> var_y e p q \<and> var_y e p q < zOffset e"
    "a < envA e \<Longrightarrow> p < envP e \<Longrightarrow> q < envQ e \<Longrightarrow> zOffset e \<le> var_z e a p q \<and> var_z e a p q < uOffset e"
    "p < envP e \<Longrightarrow> uOffset e \<le> var_u e p \<and> var_u e p < numVars e"
    "yOffset e \<le> zOffset e" "zOffset e \<le> uOffset e" "uOffset e \<le> numVars e"
proof -
  note E = assms [unfolded env_ok_def]
  show "var_x e a p < yOffset e" if "a < envA e" "p < envP e" using cell_less [OF that] E by (simp add: var_x_def)
  show "yOffset e \<le> var_y e p q \<and> var_y e p q < zOffset e" if "p < envP e" "q < envQ e" using cell_less [OF that] E by (simp add: var_y_def)
  show "zOffset e \<le> var_z e a p q \<and> var_z e a p q < uOffset e" if "a < envA e" "p < envP e" "q < envQ e"
    using cell_less [OF that(3) cell_less [OF that(1,2)]] E by (simp add: var_z_cell mult.commute mult.left_commute)
  show "uOffset e \<le> var_u e p \<and> var_u e p < numVars e" if "p < envP e" using that E by (simp add: var_u_def)
  show "yOffset e \<le> zOffset e" "zOffset e \<le> uOffset e" "uOffset e \<le> numVars e" using E by simp_all
qed

fun var_lo :: "varEnv \<Rightarrow> lpVar \<Rightarrow> nat" where
  "var_lo e (VX a p) = 0"
| "var_lo e (VY p q) = yOffset e"
| "var_lo e (VZ a p q) = zOffset e"
| "var_lo e (VU p) = uOffset e"

fun var_hi :: "varEnv \<Rightarrow> lpVar \<Rightarrow> nat" where
  "var_hi e (VX a p) = yOffset e"
| "var_hi e (VY p q) = zOffset e"
| "var_hi e (VZ a p q) = uOffset e"
| "var_hi e (VU p) = numVars e"

lemma var_block: "env_ok e \<Longrightarrow> in_env e v \<Longrightarrow> var_lo e v \<le> var_index e v \<and> var_index e v < var_hi e v"
  using var_ranges(1-4) [of e] by (cases v) simp_all

lemma var_index_less: "env_ok e \<Longrightarrow> in_env e v \<Longrightarrow> var_index e v < numVars e"
  using var_block [of e v] var_ranges(5-7) [of e] by (cases v) simp_all

lemma var_index_inj:
  assumes "env_ok e" "in_env e v" "in_env e v'" "var_index e v = var_index e v'"
  shows "v = v'"
proof -
  note B = var_block [OF assms(1,2)] var_block [OF assms(1,3)] and O = var_ranges(5-7) [OF assms(1)]
  show ?thesis
  proof (cases v; cases v')
    fix a p a' p' assume "v = VX a p" "v' = VX a' p'"
    then show ?thesis using assms(2-4) by (simp add: var_x_def cell_inj)
  next
    fix p q p' q' assume "v = VY p q" "v' = VY p' q'"
    then show ?thesis using assms(2-4) by (simp add: var_y_def cell_inj)
  next
    fix a p q a' p' q' assume v: "v = VZ a p q" "v' = VZ a' p' q'"
    then have "a * envP e + p < envA e * envP e" "a' * envP e + p' < envA e * envP e" using assms(2,3) cell_less by auto
    then show ?thesis using v assms(2-4) by (simp add: var_z_cell cell_inj)
  next
    fix p p' assume "v = VU p" "v' = VU p'"
    then show ?thesis using assms(4) by (simp add: var_u_def)
  qed (use B O assms(4) in simp_all)
qed

lemma var_index_surj:
  assumes "env_ok e" "k < numVars e"
  shows "\<exists>v. in_env e v \<and> k = var_index e v"
proof -
  note E = assms(1) [unfolded env_ok_def]
  consider "k < yOffset e" | "yOffset e \<le> k" "k < zOffset e" | "zOffset e \<le> k" "k < uOffset e" | "uOffset e \<le> k" by linarith
  then show ?thesis
  proof cases
    case 1
    then obtain a p where "a < envA e" "p < envP e" "k = a * envP e + p" using cell_surj [of k "envA e" "envP e"] E by auto
    then show ?thesis using E by (intro exI [of _ "VX a p"]) (simp add: var_x_def)
  next
    case 2
    then obtain p q where "p < envP e" "q < envQ e" "k - yOffset e = p * envQ e + q" using cell_surj [of "k - yOffset e" "envP e" "envQ e"] E by (auto simp: less_diff_conv2)
    then show ?thesis using 2 by (intro exI [of _ "VY p q"]) (simp add: var_y_def)
  next
    case 3
    then have "k - zOffset e < envQ e * (envA e * envP e)" using E by (simp add: mult.commute mult.left_commute)
    then obtain q j where q: "q < envQ e" "j < envA e * envP e" "k - zOffset e = q * (envA e * envP e) + j" using cell_surj by blast
    then obtain a p where "a < envA e" "p < envP e" "j = a * envP e + p" using cell_surj by blast
    then show ?thesis using 3 q by (intro exI [of _ "VZ a p q"]) (simp add: var_z_cell)
  next
    case 4
    then show ?thesis using E assms(2) by (intro exI [of _ "VU (k - uOffset e)"]) (auto simp: var_u_def)
  qed
qed

section \<open>Constraints use existing variables\<close>

definition constr_ok :: "varEnv \<Rightarrow> constr \<Rightarrow> bool" where
  "constr_ok e c \<longleftrightarrow> length (cTerms c) \<le> numVars e \<and> (\<forall>(i, v) \<in> set (cTerms c). i < numVars e)"

lemma ball_for2: "(\<forall>c \<in> set (for2 m n f). P c) \<longleftrightarrow> (\<forall>i < m. \<forall>j < n. P (f i j))"
  by (fastforce simp: for2_def)

lemma ball_for3: "(\<forall>c \<in> set (for3 l m n f). P c) \<longleftrightarrow> (\<forall>i < l. \<forall>j < m. \<forall>k < n. P (f i j k))"
proof -
  have "(\<forall>c \<in> set (for3 l m n f). P c) \<longleftrightarrow> (\<forall>i < l. \<forall>c \<in> set (for2 m n (f i)). P c)" by (fastforce simp: for3_def)
  then show ?thesis by (simp add: ball_for2)
qed

lemma constr_okI: "length ts \<le> numVars e \<Longrightarrow> (\<forall>(i, v) \<in> set ts. i < numVars e) \<Longrightarrow> constr_ok e (addconstr ts se r)"
  by (simp add: constr_ok_def addconstr_def)

lemma numVars_bounds:
  assumes "env_ok e"
  shows "envP e \<le> numVars e" "p < envP e \<Longrightarrow> envA e + 1 \<le> numVars e" "envP e + envP e * envA e \<le> numVars e"
    "a < envA e \<Longrightarrow> p < envP e \<Longrightarrow> q < envQ e \<Longrightarrow> 3 \<le> numVars e"
proof -
  note E = assms [unfolded env_ok_def]
  show "envP e \<le> numVars e" "envP e + envP e * envA e \<le> numVars e" using E by simp_all
  have "envA e * 1 \<le> envA e * envA e" if "0 < envA e" using that by (intro mult_le_mono2) simp
  then show "envA e + 1 \<le> numVars e" if "p < envP e" using E that by (cases "envA e") simp_all
  show "3 \<le> numVars e" if "a < envA e" "p < envP e" "q < envQ e"
    using E that by (cases "envA e"; cases "envQ e") simp_all
qed

lemmas var_bounds =
  var_index_less [where v = "VX a p" for a p, simplified] var_index_less [where v = "VY p q" for p q, simplified]
  var_index_less [where v = "VZ a p q" for a p q, simplified] var_index_less [where v = "VU p" for p, simplified]

lemma rows_ok:
  assumes "env_ok e"
  shows "\<forall>c \<in> set (place_constrs se e). constr_ok e c" "\<forall>c \<in> set (used_lower e). constr_ok e c" "\<forall>c \<in> set (used_upper e). constr_ok e c"
    "\<forall>c \<in> set (access_lower w e). constr_ok e c" "\<forall>c \<in> set (access_upper w e). constr_ok e c"
    "\<forall>c \<in> set (reach_constrs w e). constr_ok e c" "\<forall>c \<in> set (read_lower e). constr_ok e c" "\<forall>c \<in> set (read_upper e). constr_ok e c"
    "constr_ok e (addconstr (map (\<lambda>p. (var_u e p, d_one)) [0..<envP e]) GRB_LESS_EQUAL r)"
  using numVars_bounds(1,2) [OF assms] var_bounds [OF assms]
  unfolding place_constrs_def used_lower_def used_upper_def access_lower_def access_upper_def reach_constrs_def read_lower_def read_upper_def ball_for2
  by (auto intro!: constr_okI)

lemma cells_ok:
  assumes "env_ok e"
  shows "\<forall>c \<in> set (product_constrs e). constr_ok e c" "\<forall>c \<in> set (read_placed e). constr_ok e c"
proof -
  have "Suc (Suc (Suc 0)) \<le> numVars e" "Suc (Suc 0) \<le> numVars e" if "a < envA e" "p < envP e" "q < envQ e" for a p q
    using numVars_bounds(4) [OF assms that] by simp_all
  then show "\<forall>c \<in> set (product_constrs e). constr_ok e c" "\<forall>c \<in> set (read_placed e). constr_ok e c"
    using var_bounds [OF assms] unfolding product_constrs_def read_placed_def ball_for3 by (auto intro!: constr_okI)
qed

lemma nonOverlapping_constrs_ok:
  assumes "env_ok e" "nonOverlapping_constraints e w alpha st = Inr cs"
  shows "\<forall>c \<in> set cs. constr_ok e c"
  using assms(2) rows_ok [OF assms(1)] cells_ok [OF assms(1)]
  by (auto simp: nonOverlapping_constraints_def Let_def rbind_Inr_iff)

lemma size_terms_result:
  assumes "size_terms st w e = Inr ts" "env_ok e"
  shows "length ts = envP e + envP e * envA e \<and> (\<forall>(i, v) \<in> set ts. i < numVars e)"
proof -
  let ?f = "\<lambda>p a ts. rbind (wl_getAttribute w a) (\<lambda>attr. rbind (avg_size st attr) (\<lambda>v. Inr (ts @ [(var_x e a p, dmul v (dof_nat c_e))])))"
  have inner: "length ts' = length ts + length as \<and> (\<forall>(i, v) \<in> set ts'. i < numVars e)"
    if "for_each (?f p) as ts = Inr ts'" "set as \<subseteq> {..<envA e}" "p < envP e" "\<forall>(i, v) \<in> set ts. i < numVars e" for p as ts ts'
    using that(1,2,4)
  proof (induction as arbitrary: ts)
    case (Cons a as)
    then obtain v where "for_each (?f p) as (ts @ [(var_x e a p, v)]) = Inr ts'" by (auto simp: rbind_Inr_iff)
    then show ?case using Cons.IH [of "ts @ [(var_x e a p, v)]"] Cons.prems(2,3) var_bounds(1) [OF assms(2)] that(3) by auto
  qed simp
  have "length ts' = length ts + length ps * envA e \<and> (\<forall>(i, v) \<in> set ts'. i < numVars e)"
    if "for_each (\<lambda>p. for_each (?f p) [0..<envA e]) ps ts = Inr ts'" "set ps \<subseteq> {..<envP e}" "\<forall>(i, v) \<in> set ts. i < numVars e" for ps ts ts'
    using that
  proof (induction ps arbitrary: ts)
    case (Cons p ps)
    then obtain ts1 where 1: "for_each (?f p) [0..<envA e] ts = Inr ts1" "for_each (\<lambda>p. for_each (?f p) [0..<envA e]) ps ts1 = Inr ts'"
      by (auto simp: rbind_Inr_iff)
    have "length ts1 = length ts + envA e \<and> (\<forall>(i, v) \<in> set ts1. i < numVars e)" using inner [OF 1(1)] Cons.prems(2,3) by (simp add: atLeast0LessThan)
    then show ?case using Cons.IH [OF 1(2)] Cons.prems(2) by auto
  qed simp
  from this [of "[0..<envP e]" "map (\<lambda>p. (var_u e p, block_const)) [0..<envP e]" ts] show ?thesis
    using assms var_bounds(4) [OF assms(2)] by (auto simp: size_terms_def atLeast0LessThan)
qed

lemma overlapping_constrs_ok:
  assumes "env_ok e" "overlapping_constraints e w alpha st = Inr cs"
  shows "\<forall>c \<in> set cs. constr_ok e c"
proof -
  have "constr_ok e (addconstr ts GRB_LESS_EQUAL r)" if "size_terms st w e = Inr ts" for ts r
    using size_terms_result [OF that assms(1)] numVars_bounds(3) [OF assms(1)] by (intro constr_okI) simp_all
  then show ?thesis using assms(2) rows_ok [OF assms(1)] cells_ok [OF assms(1)]
    by (auto simp: overlapping_constraints_def Let_def rbind_Inr_iff)
qed

section \<open>Reading the partitions off a solution\<close>

definition lin :: "double list \<Rightarrow> (nat \<times> double) list \<Rightarrow> rat" where
  "lin sol ts = sum_list (map (\<lambda>(i, c). dval c * dval (sol ! i)) ts)"

definition satisfied :: "double list \<Rightarrow> constr \<Rightarrow> bool" where
  "satisfied sol c =
     (case cSense c of
        GRB_EQUAL \<Rightarrow> lin sol (cTerms c) = dval (cRhs c)
      | GRB_GREATER_EQUAL \<Rightarrow> dval (cRhs c) \<le> lin sol (cTerms c)
      | GRB_LESS_EQUAL \<Rightarrow> lin sol (cTerms c) \<le> dval (cRhs c))"

text \<open>What the code relies on: a solution gives every variable a value, each value is exactly zero or one, and
  all constraints hold.\<close>

definition gurobi_sound :: "(grbModel \<Rightarrow> string + double list) \<Rightarrow> bool" where
  "gurobi_sound grb \<longleftrightarrow> (\<forall>m sol. grb m = Inr sol \<longrightarrow> length sol = length (mObj m) \<and> set sol \<subseteq> {0, d_one}
     \<and> (\<forall>c \<in> set (mConstrs m). satisfied sol c))"

abbreviation chosen :: "varEnv \<Rightarrow> double list \<Rightarrow> nat \<Rightarrow> nat \<Rightarrow> bool" where
  "chosen e sol p a \<equiv> deq (sol ! var_x e a p) d_one"

definition part_of :: "queryWorkload \<Rightarrow> varEnv \<Rightarrow> double list \<Rightarrow> nat \<Rightarrow> partition" where
  "part_of w e sol p = map ((!) (wlAttributes w)) (filter (chosen e sol p) [0..<envA e])"

lemma fold_chosen:
  assumes "distinct as" "n \<le> length as"
  shows "fold (\<lambda>a part. if S a then addAttribute (as ! a) part else part) [0..<n] [] = map ((!) as) (filter S [0..<n])"
  using assms(2)
proof (induction n)
  case (Suc n)
  have "as ! n \<notin> (!) as ` {a \<in> {..<n}. S a}" using Suc.prems assms(1) by (auto simp: nth_eq_iff_index_eq)
  then show ?case using Suc by (auto simp: addAttribute_def us_insert_def)
qed simp

lemma extract_result:
  assumes "env_ok e" "envA e = length (wlAttributes w)" "distinct (wlAttributes w)" "length sol = numVars e"
  shows "extract_solution w e sol = Inr (filter (\<lambda>p. p \<noteq> []) (map (part_of w e sol) [0..<envP e]))"
proof -
  have part: "extract_part w e sol p ps = Inr (if part_of w e sol p \<noteq> [] then ps @ [part_of w e sol p] else ps)" if p: "p < envP e" for p ps
  proof -
    let ?g = "\<lambda>a part. if chosen e sol p a then addAttribute (wlAttributes w ! a) part else part"
    have "for_each (\<lambda>a part. rbind (vec_index sol (var_x e a p)) (\<lambda>v.
        if deq v d_one then rbind (wl_getAttribute w a) (\<lambda>attr. Inr (addAttribute attr part)) else Inr part)) [0..<envA e] []
        = Inr (fold ?g [0..<envA e] [])"
      using var_bounds(1) [OF assms(1)] p assms(2,4) by (intro for_each_pure) (auto simp: vec_index_def wl_getAttribute_def vec_at_def)
    moreover have "fold ?g [0..<envA e] [] = part_of w e sol p" unfolding part_of_def by (rule fold_chosen) (use assms(2,3) in simp_all)
    ultimately show ?thesis by (simp add: extract_part_def numAttributes_def addPartition_def)
  qed
  have "fold (\<lambda>p ps. if part_of w e sol p \<noteq> [] then ps @ [part_of w e sol p] else ps) qs acc
      = acc @ filter (\<lambda>p. p \<noteq> []) (map (part_of w e sol) qs)" for qs acc
    by (induction qs arbitrary: acc) auto
  moreover have "extract_solution w e sol = Inr (fold (\<lambda>p ps. if part_of w e sol p \<noteq> [] then ps @ [part_of w e sol p] else ps) [0..<envP e] [])"
    unfolding extract_solution_def by (intro for_each_pure) (use part in auto)
  ultimately show ?thesis by simp
qed

lemma dval_binary: "v \<in> {0, d_one} \<Longrightarrow> dval v = (if deq v d_one then 1 else 0)"
proof -
  have one: "dval d_one = 1" "deq d_one d_one" using dof_nat_exact(1) [of 1] dof_nat_1
    by (simp_all add: deq_def is_nan_def dmag_def d_one_def inf_mag_def)
  have "dval 0 = 0" by (simp add: dval_def dmag_def dval_mag_0)
  moreover have "\<not> deq 0 d_one" by (simp add: deq_def is_nan_def dmag_def dkey_def dneg_def d_one_def inf_mag_def)
  moreover assume "v \<in> {0, d_one}"
  ultimately show ?thesis using one by auto
qed

lemma lin_row:
  assumes "env_ok e" "a < envA e" "length sol = numVars e" "set sol \<subseteq> {0, d_one}"
  shows "lin sol (map (\<lambda>p. (var_x e a p, d_one)) [0..<envP e]) = of_nat (card {p. p < envP e \<and> chosen e sol p a})"
proof -
  have "dval d_one = 1" using dval_binary [of d_one] by (simp add: deq_def is_nan_def dmag_def d_one_def inf_mag_def)
  then have "lin sol (map (\<lambda>p. (var_x e a p, d_one)) [0..<envP e]) = (\<Sum>p \<leftarrow> [0..<envP e]. dval (sol ! var_x e a p))"
    by (simp add: lin_def comp_def)
  also have "\<dots> = (\<Sum>p \<leftarrow> [0..<envP e]. if chosen e sol p a then 1 else 0)"
  proof (intro arg_cong [where f = sum_list] map_cong refl)
    fix p assume "p \<in> set [0..<envP e]"
    then have "sol ! var_x e a p \<in> set sol" using var_bounds(1) [OF assms(1), of a p] assms(2,3) by simp
    then show "dval (sol ! var_x e a p) = (if chosen e sol p a then 1 else 0)" using dval_binary assms(4) by blast
  qed
  also have "\<dots> = (\<Sum>p \<in> {0..<envP e}. if chosen e sol p a then 1 else 0)"
    by (subst sum.distinct_set_conv_list [of "[0..<envP e]", simplified]) simp
  also have "\<dots> = of_nat (card {p. p < envP e \<and> chosen e sol p a})"
    by (simp add: sum.If_cases Int_def)
  finally show ?thesis .
qed

lemma mset_concat_parts: "mset (concat (map g [0..<m])) = (\<Sum>p<m. mset (g p))"
  by (induction m) auto

lemma mset_filter_upt: "mset (map f (filter S [0..<n])) = (\<Sum>a<n. if S a then {#f a#} else {#})"
  by (induction n) auto

lemma mset_parts:
  assumes "envA e = length (wlAttributes w)" "\<And>a. a < envA e \<Longrightarrow> card {p. p < envP e \<and> chosen e sol p a} = 1"
  shows "mset (concat (filter (\<lambda>p. p \<noteq> []) (map (part_of w e sol) [0..<envP e]))) = mset (wlAttributes w)"
proof -
  let ?as = "wlAttributes w"
  have "concat (filter (\<lambda>p. p \<noteq> []) xss) = concat xss" for xss :: "partition list" by (induction xss) auto
  then have "mset (concat (filter (\<lambda>p. p \<noteq> []) (map (part_of w e sol) [0..<envP e])))
      = (\<Sum>p<envP e. \<Sum>a<envA e. if chosen e sol p a then {#?as ! a#} else {#})"
    by (simp add: mset_concat_parts) (simp add: part_of_def mset_filter_upt del: mset_map)
  also have "\<dots> = (\<Sum>a<envA e. \<Sum>p<envP e. if chosen e sol p a then {#?as ! a#} else {#})" by (rule sum.swap)
  also have "\<dots> = (\<Sum>a<envA e. {#?as ! a#})"
  proof (intro sum.cong refl)
    fix a assume "a \<in> {..<envA e}"
    then obtain p where p: "{p. p < envP e \<and> chosen e sol p a} = {p}" using assms(2) [of a] card_1_singletonE by auto
    have "(\<Sum>p<envP e. if chosen e sol p a then {#?as ! a#} else {#}) = (\<Sum>p \<in> {p. p < envP e \<and> chosen e sol p a}. {#?as ! a#})"
      by (intro sum.mono_neutral_cong_right) auto
    then show "(\<Sum>p<envP e. if chosen e sol p a then {#?as ! a#} else {#}) = {#?as ! a#}" unfolding p by simp
  qed
  also have "\<dots> = mset (map ((!) ?as) [0..<length ?as])" using mset_filter_upt [of "(!) ?as" "\<lambda>_. True"] assms(1) by simp
  finally show ?thesis by (simp add: map_nth)
qed

section \<open>Building the program\<close>

lemma name_variables_ok: "env_ok e \<Longrightarrow> \<exists>ns. name_variables e = Inr ns"
  by (simp add: name_variables_def Let_def length_concat comp_def sum_list_triv env_ok_def)

definition grows :: "'a option list \<Rightarrow> 'a option list \<Rightarrow> bool" where
  "grows s t \<longleftrightarrow> length t = length s \<and> (\<forall>i < length s. s ! i \<noteq> None \<longrightarrow> t ! i \<noteq> None)"

lemma arr_set_ok: "i < length xs \<Longrightarrow> \<exists>t. arr_set i v xs = Inr t \<and> grows xs t \<and> t ! i \<noteq> None"
  by (auto simp: arr_set_def grows_def nth_list_update)

lemma fill_loop:
  assumes "\<And>x obj. x \<in> set xs \<Longrightarrow> length obj = n \<Longrightarrow> \<exists>t. f x obj = Inr t \<and> grows obj t \<and> (\<forall>i \<in> I x. t ! i \<noteq> None)"
    and "\<And>x. x \<in> set xs \<Longrightarrow> I x \<subseteq> {..<n}" and "length obj = n"
  shows "\<exists>t. for_each f xs obj = Inr t \<and> grows obj t \<and> (\<forall>x \<in> set xs. \<forall>i \<in> I x. t ! i \<noteq> None)"
proof -
  let ?Q = "\<lambda>x t. length t = n \<and> (\<forall>i \<in> I x. t ! i \<noteq> None)"
  have "\<exists>t. for_each f xs obj = Inr t \<and> length t = n \<and> grows obj t \<and> (\<forall>x \<in> set xs. ?Q x t)"
  proof (rule for_each_total)
    show "\<exists>t. f x s = Inr t \<and> length t = n \<and> grows s t \<and> ?Q x t" if "x \<in> set xs" "length s = n" for x s
      using assms(1) [OF that] that(2) by (auto simp: grows_def)
    show "grows s u" if "grows s t" "grows t u" for s t u :: "'b option list" using that by (simp add: grows_def)
    show "?Q x t" if "x \<in> set xs" "?Q x s" "grows s t" for x s t using that assms(2) [OF that(1)] by (auto simp: grows_def)
  qed (simp_all add: grows_def assms(3))
  then show ?thesis by blast
qed

lemma fill_grid:
  assumes "\<And>a obj. a < m \<Longrightarrow> length obj = n \<Longrightarrow> \<exists>t. f a obj = Inr t \<and> grows obj t \<and> (\<forall>p < k. t ! idx a p \<noteq> None)"
    and "\<And>a p. a < m \<Longrightarrow> p < k \<Longrightarrow> idx a p < n" and "length obj = n"
  shows "\<exists>t. for_each f [0..<m] obj = Inr t \<and> grows obj t \<and> (\<forall>a < m. \<forall>p < k. t ! idx a p \<noteq> None)"
proof -
  have "\<exists>t. for_each f [0..<m] obj = Inr t \<and> grows obj t \<and> (\<forall>a \<in> set [0..<m]. \<forall>i \<in> idx a ` {..<k}. t ! i \<noteq> None)"
  proof (rule fill_loop [OF _ _ assms(3)])
    show "\<exists>t. f a o1 = Inr t \<and> grows o1 t \<and> (\<forall>i \<in> idx a ` {..<k}. t ! i \<noteq> None)" if "a \<in> set [0..<m]" "length o1 = n" for a o1
      using assms(1) [of a o1] that by auto
    show "idx a ` {..<k} \<subseteq> {..<n}" if "a \<in> set [0..<m]" for a using assms(2) that by auto
  qed
  then show ?thesis by auto
qed

lemma objective_ok:
  assumes e: "env_ok e" "envA e = length (wlAttributes w)" "envQ e = length (wlQueries w)"
    and "sizes_ok st (set (wlAttributes w))" "frequencies_ok w"
  shows "\<exists>obj. objective st w e = Inr obj \<and> length obj = numVars e \<and> None \<notin> set obj"
proof -
  note vb = var_bounds [OF e(1)]
  have freq: "\<exists>f. getFrequency w (wlQueries w ! q) = Inr f" if "q < envQ e" for q using assms(5) that e(3) by (simp add: frequencies_ok_def)
  have size: "\<exists>attr v. wl_getAttribute w a = Inr attr \<and> avg_size st attr = Inr v" if "a < envA e" for a
    using assms(4) that e(2) unfolding sizes_ok_def wl_getAttribute_def vec_at_def by (metis nth_mem)
  have row: "\<exists>t. for_each (\<lambda>p. arr_set (idx p) v) [0..<envP e] obj = Inr t \<and> grows obj t \<and> (\<forall>p < envP e. t ! idx p \<noteq> None)"
    if "length obj = numVars e" "\<And>p. p < envP e \<Longrightarrow> idx p < numVars e" for idx v and obj :: "double option list"
  proof -
    have "\<exists>t. for_each (\<lambda>p. arr_set (idx p) v) [0..<envP e] obj = Inr t \<and> grows obj t \<and> (\<forall>p \<in> set [0..<envP e]. \<forall>i \<in> {idx p}. t ! i \<noteq> None)"
    proof (rule fill_loop [OF _ _ that(1)])
      show "\<exists>t. arr_set (idx p) v o1 = Inr t \<and> grows o1 t \<and> (\<forall>i \<in> {idx p}. t ! i \<noteq> None)" if "p \<in> set [0..<envP e]" "length o1 = numVars e" for p o1
        using arr_set_ok [of "idx p" o1 v] \<open>\<And>p. p < envP e \<Longrightarrow> idx p < numVars e\<close> [of p] that by simp
    qed (use that(2) in simp)
    then show ?thesis by auto
  qed
  have xs: "\<exists>t. for_each (\<lambda>a. for_each (\<lambda>p. arr_set (var_x e a p) 0) [0..<envP e]) [0..<envA e] obj = Inr t \<and> grows obj t
      \<and> (\<forall>a < envA e. \<forall>p < envP e. t ! var_x e a p \<noteq> None)" if "length obj = numVars e" for obj :: "double option list"
    by (rule fill_grid [OF _ _ that]) (use row vb(1) in auto)
  have ys: "\<exists>t. for_each (\<lambda>p obj. rbind (getFrequency w (wlQueries w ! q)) (\<lambda>f. arr_set (var_y e p q) (dmul block_const f) obj)) [0..<envP e] obj = Inr t
      \<and> grows obj t \<and> (\<forall>p < envP e. t ! var_y e p q \<noteq> None)" if "length obj = numVars e" "q < envQ e" for obj :: "double option list" and q
    using freq [OF that(2)] row [OF that(1), of "\<lambda>p. var_y e p q"] vb(2) that(2) by auto
  have zs: "\<exists>t. for_each (\<lambda>a. for_each (\<lambda>p obj. rbind (wl_getAttribute w a) (\<lambda>attr. rbind (avg_size st attr) (\<lambda>v.
        rbind (getFrequency w (wlQueries w ! q)) (\<lambda>f. arr_set (var_z e a p q) (dmul (dmul v (dof_nat c_e)) f) obj)))) [0..<envP e]) [0..<envA e] obj = Inr t
      \<and> grows obj t \<and> (\<forall>a < envA e. \<forall>p < envP e. t ! var_z e a p q \<noteq> None)" if "length obj = numVars e" "q < envQ e" for obj :: "double option list" and q
  proof -
    let ?f = "\<lambda>a. for_each (\<lambda>p obj. rbind (wl_getAttribute w a) (\<lambda>attr. rbind (avg_size st attr) (\<lambda>v.
        rbind (getFrequency w (wlQueries w ! q)) (\<lambda>f. arr_set (var_z e a p q) (dmul (dmul v (dof_nat c_e)) f) obj)))) [0..<envP e]"
    have "\<exists>t. ?f a o1 = Inr t \<and> grows o1 t \<and> (\<forall>p < envP e. t ! var_z e a p q \<noteq> None)" if "a < envA e" "length o1 = numVars e" for a o1
      using size [OF that(1)] freq [OF \<open>q < envQ e\<close>] row [OF that(2), of "\<lambda>p. var_z e a p q"] vb(3) that(1) \<open>q < envQ e\<close> by auto
    then show ?thesis by (intro fill_grid [OF _ _ that(1)]) (use that(2) vb(3) in auto)
  qed
  have q: "\<exists>t. obj_query st w e q obj = Inr t \<and> grows obj t \<and> (\<forall>p < envP e. t ! var_y e p q \<noteq> None)
      \<and> (\<forall>a < envA e. \<forall>p < envP e. t ! var_z e a p q \<noteq> None)" if "q < envQ e" "length obj = numVars e" for q obj
  proof -
    from ys [OF that(2,1)] obtain t1 where t1: "for_each (\<lambda>p obj. rbind (getFrequency w (wlQueries w ! q)) (\<lambda>f. arr_set (var_y e p q) (dmul block_const f) obj)) [0..<envP e] obj = Inr t1"
      "grows obj t1" "\<forall>p < envP e. t1 ! var_y e p q \<noteq> None" by blast
    have "length t1 = numVars e" using t1(2) that(2) by (simp add: grows_def)
    from zs [OF this that(1)] obtain t2 where t2: "obj_query st w e q obj = Inr t2" "grows t1 t2" "\<forall>a < envA e. \<forall>p < envP e. t2 ! var_z e a p q \<noteq> None"
      using t1(1) by (auto simp: obj_query_def)
    moreover have "grows obj t2" "\<forall>p < envP e. t2 ! var_y e p q \<noteq> None" using t1 t2(2) that vb(2) by (auto simp: grows_def)
    ultimately show ?thesis by blast
  qed
  let ?I = "\<lambda>q. (\<lambda>p. var_y e p q) ` {..<envP e} \<union> (\<lambda>(a, p). var_z e a p q) ` ({..<envA e} \<times> {..<envP e})"
  from xs [of "replicate (numVars e) None"] obtain o1 where
    o1: "for_each (\<lambda>a. for_each (\<lambda>p. arr_set (var_x e a p) (0 :: double)) [0..<envP e]) [0..<envA e] (replicate (numVars e) None) = Inr o1" "length o1 = numVars e"
      "\<forall>a < envA e. \<forall>p < envP e. o1 ! var_x e a p \<noteq> None" by (auto simp: grows_def)
  have "\<exists>t. for_each (obj_query st w e) [0..<envQ e] o1 = Inr t \<and> grows o1 t \<and> (\<forall>q \<in> set [0..<envQ e]. \<forall>i \<in> ?I q. t ! i \<noteq> None)"
  proof (rule fill_loop [OF _ _ o1(2)])
    show "\<exists>t. obj_query st w e q obj = Inr t \<and> grows obj t \<and> (\<forall>i \<in> ?I q. t ! i \<noteq> None)" if "q \<in> set [0..<envQ e]" "length obj = numVars e" for q obj
      using q [of q obj] that by fastforce
    show "?I q \<subseteq> {..<numVars e}" if "q \<in> set [0..<envQ e]" for q using that vb(2,3) by auto
  qed
  then obtain o2 where o2: "for_each (obj_query st w e) [0..<envQ e] o1 = Inr o2" "grows o1 o2"
      "\<forall>q < envQ e. \<forall>p < envP e. o2 ! var_y e p q \<noteq> None" "\<forall>q < envQ e. \<forall>a < envA e. \<forall>p < envP e. o2 ! var_z e a p q \<noteq> None" by fastforce
  then have l2: "length o2 = numVars e" using o1(2) by (simp add: grows_def)
  from row [OF l2, of "var_u e" 0] vb(4) obtain o3 where
    o3: "for_each (\<lambda>p. arr_set (var_u e p) (0 :: double)) [0..<envP e] o2 = Inr o3" "grows o2 o3" "\<forall>p < envP e. o3 ! var_u e p \<noteq> None" by blast
  have g: "o3 ! i \<noteq> None" if "i < numVars e" "o2 ! i \<noteq> None" for i using o3(2) that l2 by (simp add: grows_def)
  have "o3 ! k \<noteq> None" if k: "k < numVars e" for k
  proof -
    obtain v where v: "in_env e v" "k = var_index e v" using var_index_surj [OF e(1) k] by blast
    have "o2 ! var_x e a p \<noteq> None" if "a < envA e" "p < envP e" for a p
      using o1(2,3) o2(2) that vb(1) by (auto simp: grows_def)
    then show ?thesis using v k g o2(3,4) o3(3) by (cases v) auto
  qed
  then have "None \<notin> set o3" using o3(2) l2 by (auto simp: in_set_conv_nth grows_def)
  then show ?thesis using o1(1) o2(1) o3(1,2) l2 by (auto simp: objective_def grows_def)
qed

lemma partition_size_ok:
  "sizes_ok st (set as) \<Longrightarrow> \<exists>n. cost_getPartitionSize st (fold addAttribute as []) = Inr n"
proof -
  assume "sizes_ok st (set as)"
  moreover have "set (fold us_insert as []) \<subseteq> set as \<and> distinct (fold us_insert as [])"
    by (simp add: fold_us_insert_set fold_us_insert_distinct)
  ultimately show ?thesis unfolding sizes_ok_def fold_addAttribute by blast
qed

lemma constraints_ok:
  assumes "env_ok e" "envA e = length (wlAttributes w)" "sizes_ok st (set (wlAttributes w))"
  shows "\<exists>cs. nonOverlapping_constraints e w alpha st = Inr cs \<and> set (place_constrs GRB_EQUAL e) \<subseteq> set cs"
    "\<exists>cs. overlapping_constraints e w alpha st = Inr cs \<and> set (place_constrs GRB_GREATER_EQUAL e) \<subseteq> set cs"
proof -
  obtain n where n: "cost_getPartitionSize st (fold addAttribute (wlAttributes w) []) = Inr n" using partition_size_ok [OF assms(3)] by blast
  have avg: "\<exists>v. avg_size st a = Inr v" if "a \<in> set (wlAttributes w)" for a using assms(3) that unfolding sizes_ok_def by blast
  have "\<exists>v. s_total st as = Inr v" if "set as \<subseteq> set (wlAttributes w)" for as
  proof -
    have "\<exists>v. for_each (\<lambda>a sum. rbind (avg_size st a) (\<lambda>v. Inr (dadd sum v))) as acc = Inr v" for acc
      using that
    proof (induction as arbitrary: acc)
      case (Cons a as)
      then obtain v where "avg_size st a = Inr v" using avg [of a] by auto
      with Cons show ?case by simp
    qed simp
    then show ?thesis by (simp add: s_total_def)
  qed
  then obtain s where "s_total st (wlAttributes w) = Inr s" by blast
  then show "\<exists>cs. nonOverlapping_constraints e w alpha st = Inr cs \<and> set (place_constrs GRB_EQUAL e) \<subseteq> set cs"
    using n by (auto simp: nonOverlapping_constraints_def Let_def)
  let ?f = "\<lambda>p a ts. rbind (wl_getAttribute w a) (\<lambda>attr. rbind (avg_size st attr) (\<lambda>v. Inr (ts @ [(var_x e a p, dmul v (dof_nat c_e))])))"
  have step: "\<exists>t. ?f p a ts = Inr t" if "a < envA e" for p a ts
    using avg [of "wlAttributes w ! a"] that assms(2) by (auto simp: wl_getAttribute_def vec_at_def)
  have inner: "\<exists>t. for_each (?f p) [0..<envA e] ts = Inr t" for p ts
    using for_each_total [of "[0..<envA e]" "\<lambda>_. True" "?f p" "\<lambda>_ _. True" "\<lambda>_ _. True" ts] step by auto
  have "\<exists>ts. size_terms st w e = Inr ts" unfolding size_terms_def
    using for_each_total [of "[0..<envP e]" "\<lambda>_. True" "\<lambda>p. for_each (?f p) [0..<envA e]" "\<lambda>_ _. True" "\<lambda>_ _. True"] inner by auto
  then show "\<exists>cs. overlapping_constraints e w alpha st = Inr cs \<and> set (place_constrs GRB_GREATER_EQUAL e) \<subseteq> set cs"
    using n by (auto simp: overlapping_constraints_def Let_def)
qed

text \<open>Gurobi is called with the program, and its answer decides the outcome.\<close>

lemma optimal_solve_run:
  assumes "create_env w = Inr e" "sizes_ok st (set (wlAttributes w))" "frequencies_ok w" "constraints e w th st = Inr cs"
  shows "\<exists>m. build_model constraints w th st e = Inr m \<and> mConstrs m = cs \<and> length (mObj m) = numVars e \<and> None \<notin> set (mObj m)
    \<and> optimal_solve constraints None grb w th st = (case grb m of Inl msg \<Rightarrow> Inl (RuntimeError msg) | Inr sol \<Rightarrow> extract_solution w e sol)"
proof -
  note e = create_env_ok [OF assms(1)]
  obtain ns where ns: "name_variables e = Inr ns" using name_variables_ok e by blast
  obtain obj where obj: "objective st w e = Inr obj" "length obj = numVars e" "None \<notin> set obj"
    using objective_ok [of e w st] e assms(2,3) by auto
  have "build_model constraints w th st e = Inr \<lparr>mObj = obj, mNames = ns, mConstrs = cs\<rparr>"
    using ns obj(1) assms(4) by (simp add: build_model_def)
  then show ?thesis using assms(1) obj(2,3) by (simp add: optimal_solve_def)
qed

lemma place_row:
  assumes "env_ok e" "a < envA e" "\<forall>c \<in> set cs. satisfied sol c" "set (place_constrs se e) \<subseteq> set cs"
    and "length sol = numVars e" "set sol \<subseteq> {0, d_one}"
  shows "se = GRB_EQUAL \<Longrightarrow> card {p. p < envP e \<and> chosen e sol p a} = 1"
    "se = GRB_GREATER_EQUAL \<Longrightarrow> \<exists>p < envP e. chosen e sol p a"
proof -
  have "addconstr (map (\<lambda>p. (var_x e a p, d_one)) [0..<envP e]) se d_one \<in> set cs" using assms(2,4) by (auto simp: place_constrs_def)
  then have sat: "satisfied sol (addconstr (map (\<lambda>p. (var_x e a p, d_one)) [0..<envP e]) se d_one)" using assms(3) by blast
  have one: "dval d_one = 1" using dof_nat_exact(1) [of 1] dof_nat_1 by simp
  note l = lin_row [OF assms(1,2,5,6)]
  show "card {p. p < envP e \<and> chosen e sol p a} = 1" if "se = GRB_EQUAL"
    using sat that one l by (simp add: satisfied_def addconstr_def)
  show "\<exists>p < envP e. chosen e sol p a" if "se = GRB_GREATER_EQUAL"
  proof (rule ccontr)
    assume "\<not> (\<exists>p < envP e. chosen e sol p a)"
    then have none: "{p. p < envP e \<and> chosen e sol p a} = {}" by blast
    have "lin sol (map (\<lambda>p. (var_x e a p, d_one)) [0..<envP e]) = 0" unfolding l none by simp
    then show False using sat that one by (simp add: satisfied_def addconstr_def)
  qed
qed

text \<open>What becomes of the answer of Gurobi: an error is an exception with its message, a solution is read as
  non-empty partitions with the property \<open>good\<close>.\<close>

definition answered ::
  "constraintsFun \<Rightarrow> (grbModel \<Rightarrow> string + double list) \<Rightarrow> queryWorkload \<Rightarrow> double \<Rightarrow> schemaStats \<Rightarrow> varEnv \<Rightarrow> (partition list \<Rightarrow> bool) \<Rightarrow> bool" where
  "answered constraints grb w th st e good \<longleftrightarrow>
     (\<exists>m. build_model constraints w th st e = Inr m \<and> None \<notin> set (mObj m)
       \<and> (case grb m of
            Inl msg \<Rightarrow> optimal_solve constraints None grb w th st = Inl (RuntimeError msg)
          | Inr sol \<Rightarrow> \<exists>ps. optimal_solve constraints None grb w th st = Inr ps \<and> [] \<notin> set ps \<and> good ps))"

lemma answeredI:
  assumes "create_env w = Inr e" "sizes_ok st (set (wlAttributes w))" "frequencies_ok w" "distinct (wlAttributes w)" "gurobi_sound grb"
    and cs: "constraints e w th st = Inr cs"
    and good: "\<And>sol. length sol = numVars e \<Longrightarrow> set sol \<subseteq> {0, d_one} \<Longrightarrow> \<forall>c \<in> set cs. satisfied sol c \<Longrightarrow>
      good (filter (\<lambda>p. p \<noteq> []) (map (part_of w e sol) [0..<envP e]))"
  shows "answered constraints grb w th st e good"
proof -
  have e: "env_ok e" "envA e = length (wlAttributes w)" using create_env_ok [OF assms(1)] by simp_all
  from optimal_solve_run [where constraints = constraints and grb = grb, OF assms(1-3) cs] obtain m where
    m: "build_model constraints w th st e = Inr m" "mConstrs m = cs" "length (mObj m) = numVars e" "None \<notin> set (mObj m)"
      "optimal_solve constraints None grb w th st = (case grb m of Inl msg \<Rightarrow> Inl (RuntimeError msg) | Inr sol \<Rightarrow> extract_solution w e sol)" by blast
  have "length sol = numVars e \<and> set sol \<subseteq> {0, d_one} \<and> (\<forall>c \<in> set cs. satisfied sol c)" if "grb m = Inr sol" for sol
    using assms(5) that m(2,3) unfolding gurobi_sound_def by metis
  then show ?thesis unfolding answered_def
    using m good extract_result [OF e assms(4)] by (intro exI [of _ m]) (auto split: sum.split)
qed

section \<open>Properties\<close>

text \<open>C21: the variables of the linear program are numbered without overlap and without gaps, so each of the
  arrays of the size of their number has one entry per variable; and no constraint of either solver has
  more terms than these arrays have entries, or a variable outside of them.\<close>

theorem optimal_variables:
  assumes "create_env w = Inr e"
  shows "bij_betw (var_index e) {v. in_env e v} {..<numVars e}
    \<and> (\<forall>cs. nonOverlapping_constraints e w alpha st = Inr cs \<or> overlapping_constraints e w alpha st = Inr cs \<longrightarrow>
        (\<forall>c \<in> set cs. length (cTerms c) \<le> numVars e \<and> (\<forall>(i, v) \<in> set (cTerms c). i < numVars e)))"
proof -
  have e: "env_ok e" using create_env_ok [OF assms] by blast
  have "bij_betw (var_index e) {v. in_env e v} {..<numVars e}"
    unfolding bij_betw_def
  proof
    show "inj_on (var_index e) {v. in_env e v}" using var_index_inj [OF e] by (auto intro: inj_onI)
    show "var_index e ` {v. in_env e v} = {..<numVars e}"
      using var_index_less [OF e] var_index_surj [OF e] by (auto simp: image_iff)
  qed
  moreover have "constr_ok e c" if "nonOverlapping_constraints e w alpha st = Inr cs \<or> overlapping_constraints e w alpha st = Inr cs" "c \<in> set cs" for cs c
    using that nonOverlapping_constrs_ok [OF e] overlapping_constrs_ok [OF e] by blast
  ultimately show ?thesis unfolding constr_ok_def by blast
qed


text \<open>The witnesses: the workload with one attribute, and a solver that tries the program with every variable set.\<close>

definition ex_grb :: "grbModel \<Rightarrow> string + double list" where
  "ex_grb m =
     (let sol = replicate (length (mObj m)) d_one
      in if \<forall>c \<in> set (mConstrs m). satisfied sol c then Inr sol else Inl ''infeasible'')"

definition ex_env :: varEnv where
  "ex_env = \<lparr>numVars = 4, xOffset = 0, yOffset = 1, zOffset = 2, uOffset = 3, envA = 1, envP = 1, envQ = 1\<rparr>"

lemma ex_env: "create_env ex_wl = Inr ex_env"
  by (simp add: create_env_def ex_wl_def Let_def ex_env_def)

theorem optimal_variables_witness:
  "bij_betw (var_index ex_env) {v. in_env ex_env v} {..<4}"
  using optimal_variables [OF ex_env, of 0 ex_sizes] by (simp add: ex_env_def)


end
