(* ===== verification/Spec2Isabelle.thy ===== *)
theory Spec2Isabelle
  imports Session OptimalModel
begin

text \<open>
  Verification of InterGDB, the graph store of RailwayDB: \<^verbatim>\<open>code/libintergdb\<close> (the store),
  \<^verbatim>\<open>code/libcommon\<close> (schemas, queries, cost model) and \<^verbatim>\<open>code/liboptimizer\<close> (choice of partitionings).

  \<^bold>\<open>The program.\<close> An application creates vertices and adds edges with increasing times
  (\<^verbatim>\<open>InteractionGraph\<close>). A new edge enters a window of recent edges (\<^verbatim>\<open>InMemoryGraph\<close>, \<^verbatim>\<open>EdgeFIFO\<close>); an edge
  that leaves the window waits in the expiration map (\<^verbatim>\<open>ExpirationMap\<close>), which groups waiting edges into blocks of
  bounded size, following a score queue (\<^verbatim>\<open>PriorityQueue\<close>) or growing candidates (\<^verbatim>\<open>Candidate\<close>). A block goes to the
  historical graph (\<^verbatim>\<open>HistoricalGraph\<close>): it is split into a master block with the structure and one sub-block per
  partition of the attributes, by the partitioning in force at its time (\<^verbatim>\<open>PartitionIndex\<close>); the pieces are
  serialised (\<^verbatim>\<open>Block\<close>, \<^verbatim>\<open>AttributeData\<close>, \<^verbatim>\<open>NetworkByteBuffer\<close>), cached and stored (\<^verbatim>\<open>BlockManager\<close>), and indexed by
  vertex (\<^verbatim>\<open>FocusedIntervalQueryIndex\<close>) and by time (\<^verbatim>\<open>IntervalQueryIndex\<close>, \<^verbatim>\<open>RTreeIntervalIndex\<close>). Queries walk
  these indexes with iterators. Focused queries are also recorded (\<^verbatim>\<open>QueryCollector\<close>), and from the workloads so
  collected the solvers compute partitionings that make reading cheap at a bounded storage overhead.

  \<^bold>\<open>The theories\<close>, from the bottom up.

  \<^item> \<open>Prelude\<close>: machine types, errors and \<open>rbind\<close>, unordered containers, loops that may throw (\<open>for_each\<close>).
  \<^item> \<open>Double64\<close>, \<open>Rounding\<close>: IEEE doubles as bit patterns; integers below \<open>2 ^ 53\<close> are computed exactly.
  \<^item> \<open>NetworkBuffer\<close> (\<^verbatim>\<open>NetworkByteBuffer\<close>, \<^verbatim>\<open>EndianHelper.h\<close>): every write appends exactly its bytes or throws; the locale
    \<open>codec\<close> is the contract of a pair of stream operators and gives the round trips of vectors and pairs.
  \<^item> \<open>SchemaData\<close>, \<open>Config\<close>, \<open>MetaData\<close> (\<^verbatim>\<open>Attribute\<close>, \<^verbatim>\<open>Schema\<close>, \<^verbatim>\<open>AttributeData\<close>, \<^verbatim>\<open>Conf\<close>, \<^verbatim>\<open>SchemaStats\<close>,
    \<^verbatim>\<open>MetaDataManager\<close>): records round-trip, sizes are byte counts, the meta data survive a restart.
  \<^item> \<open>BlockStore\<close> (\<^verbatim>\<open>NeighborList\<close>, \<^verbatim>\<open>Block\<close>: the operations), \<open>BlockLemmas\<close>, \<open>BlockPartition\<close> (recombining inverts
    splitting), \<open>BlockCodec\<close> (reading inverts writing; the size account).
  \<^item> \<open>KVStore\<close>: LevelDB by its documented interface, as the locale \<open>kv_store\<close>; big-endian keys sort as numbers.
  \<^item> \<open>Queues\<close> (\<^verbatim>\<open>PriorityQueue\<close>, \<^verbatim>\<open>EdgeFIFO\<close>): the priority queue refines a finite map, through the locale \<open>keyed_queue\<close>.
  \<^item> \<open>Caches\<close> (\<^verbatim>\<open>BlockManager\<close>, \<^verbatim>\<open>VertexManager\<close>): the LRU caches are coherent with the store and bounded.
  \<^item> \<open>Indexes\<close>: both time indexes hold one entry per neighbour list and answer range queries exactly.
  \<^item> \<open>PartitionIdx\<close>: over slices that tile the time line a lookup gives the partitioning in force, and the LRU list of
    the cache stays sound; replacing slices repartitions their blocks.
  \<^item> \<open>Candidates\<close>, \<open>Layout\<close> (the code of the expiration map), \<open>LayoutLemmas\<close>, \<open>LayoutSmart\<close>, \<open>Expiration\<close>: a block takes from
    some vertices their oldest edges and no edge is lost or doubled, in every layout mode; \<open>flush\<close> ends.
  \<^item> \<open>InMemory\<close>: the window, its lists and the expiration map together hold the edges added, in order.
  \<^item> \<open>Historical\<close> (the code), \<open>VertexScan\<close>, \<open>PartitionChoice\<close>, \<open>EdgeScan\<close>, \<open>HistoricalWrite\<close>: queries return exactly the
    edges and vertices of the blocks written.
  \<^item> \<open>Workload\<close>, \<open>Collector\<close> (\<^verbatim>\<open>Query\<close>, \<^verbatim>\<open>QueryWorkload\<close>, \<^verbatim>\<open>Partitioning\<close>, \<^verbatim>\<open>QueryCollector\<close>): the collector is a frequency table.
  \<^item> \<open>CostModel\<close>, \<open>Heuristics\<close>, \<open>OptimalModel\<close> (\<^verbatim>\<open>Cost\<close> and the solvers): the heuristics end and return partitionings
    of the attributes within the threshold; the optimal solvers build the linear program they describe and read
    the partitioning off its solution.
  \<^item> \<open>Interaction\<close> (\<^verbatim>\<open>InteractionGraph\<close>) composes the parts: the checks of \<open>addEdge\<close> and \<open>createVertex\<close> and their errors.
  \<^item> \<open>Session\<close>: sequences of operations on the composed graph, as an inductive relation. Its theorem is the main result:
    focused queries answer from the edges added, with only the edges still in memory missing.

  \<^bold>\<open>How the code is modelled.\<close> Operations pass the state of their object; exceptions, failed assertions and
  undefined behaviour are the errors of a result \<open>error + 'a\<close>, and the state after an exception is not looked at
  further. Identifiers and sizes are 64-bit words and wrap; times, sizes and costs kept in doubles are bit patterns.
  Unordered containers are lists in iteration order, and the statements hold for every order. A
  \<^verbatim>\<open>shared_ptr\<close> is an address with the record behind it. Assertions are active. Loops are recursive functions with
  termination proofs; \<open>flush\<close> of the expiration map, which runs forever when an edge does not fit into a block, is a
  partial function whose value is \<open>None\<close> then; no fuel is used elsewhere.

  \<^bold>\<open>Parameters.\<close> LevelDB, the R-tree (\<open>spatial_index\<close>), Gurobi (\<open>gurobi_sound\<close>), \<^verbatim>\<open>std::hash\<close>, \<^verbatim>\<open>rand\<close>, the order in which
  \<^verbatim>\<open>std::sort\<close> leaves equal elements, and addresses of allocated objects are arguments; the named hypotheses state their
  documented behaviour, and each is shown to hold of a concrete instance by a witness.

  \<^bold>\<open>Bounds.\<close> Blocks are read and written exactly when their bytes fit the length fields of the format; a session is
  covered up to \<open>2 ^ 30\<close> bytes of edges, which also keeps block ids apart. Edges have to fit into a block. Times
  are positive and grow, as \<open>addEdge\<close> enforces, and a time at which a slice ends is excluded where the code
  misreads it.

  \<^bold>\<open>Not modelled\<close>: printing, the wall clock and directory handling, the factory of the solvers, the storage managers of
  the R-tree, the query language (its parser is generated), the simulation and the tests.
\<close>

end
